(* ===== verification/Prelude.thy ===== *)
theory Prelude
  imports Main "HOL-Library.Word" "HOL-Library.Monad_Syntax"
begin

text \<open>
  Shared base of the library: the machine types of the C sources, little-endian
  byte strings, the outcome type of code that can fault, and the two interfaces
  every wire format of libdogecoin is proved against.

  \<^item> \<open>u8\<close> \<dots> \<open>u64\<close> are the unsigned C integers; a signed integer is the same
    word read through \<open>sint\<close>. \<open>size_t\<close> is \<open>u64\<close> (a 64-bit platform).
  \<^item> \<open>bytes\<close> is a byte string: the contents of a \<open>cstring\<close>, or what is left
    of a \<open>struct const_buffer\<close>.
  \<^item> \<open>le_bytes n k\<close> is the n-byte little-endian image of k that \<open>htole16/32/64\<close>
    followed by a \<open>memcpy\<close> leaves in memory, \<open>le_val\<close> reads it back.
  \<^item> \<open>codec\<close> is the contract of a serializer and its deserializer; \<open>tight_codec\<close>
    adds that every accepted input is a serialization.
\<close>

type_synonym u8 = "8 word"
type_synonym u16 = "16 word"
type_synonym u32 = "32 word"
type_synonym u64 = "64 word"
type_synonym bytes = "u8 list"
type_synonym 'a deser = "bytes \<Rightarrow> ('a \<times> bytes) option"

named_theorems codec_simps "round-trip equations of the wire formats"
named_theorems model_defs "definitions of the model unfolded together"

text \<open>What C code does when it does not return normally.\<close>

datatype c_fault = OutOfBounds | NullDeref | AssertFailed | UseAfterFree | OutOfFuel

type_synonym 'a c_outcome = "c_fault + 'a"

text \<open>Sequencing of code that can fault.\<close>

fun seqc :: "'a c_outcome \<Rightarrow> ('a \<Rightarrow> 'b c_outcome) \<Rightarrow> 'b c_outcome" where
  "seqc (Inl e) f = Inl e"
| "seqc (Inr a) f = f a"

lemma seqc_eq_Inr: "seqc m f = Inr b \<longleftrightarrow> (\<exists>a. m = Inr a \<and> f a = Inr b)"
  by (cases m) auto

section \<open>Little-endian byte strings\<close>

fun le_bytes :: "nat \<Rightarrow> nat \<Rightarrow> bytes" where
  "le_bytes 0 k = []"
| "le_bytes (Suc n) k = of_nat k # le_bytes n (k div 256)"

fun le_val :: "bytes \<Rightarrow> nat" where
  "le_val [] = 0"
| "le_val (b # bs) = unat b + 256 * le_val bs"

lemma le_bytes_numeral [simp]:
  "le_bytes (numeral m) k = of_nat k # le_bytes (pred_numeral m) (k div 256)"
  by (metis le_bytes.simps(2) numeral_eq_Suc)

lemma length_le_bytes [simp]: "length (le_bytes n k) = n"
  by (induction n arbitrary: k) auto

lemma unat_of_nat_u8 [simp]: "unat (of_nat k :: u8) = k mod 256"
  by (simp add: unat_of_nat)

lemma le_val_le_bytes: "le_val (le_bytes n k) = k mod 256 ^ n"
proof (induction n arbitrary: k)
  case (Suc n)
  show ?case by (simp add: Suc.IH mod_mult2_eq)
qed simp

lemma unat_u8_less: "unat (b :: u8) < 256"
  using unsigned_less [of b] by simp

lemma le_val_less: "le_val bs < 256 ^ length bs"
proof (induction bs)
  case (Cons b bs)
  have "unat b + 256 * le_val bs < 256 * Suc (le_val bs)"
    using unat_u8_less [of b] by simp
  also have "\<dots> \<le> 256 * 256 ^ length bs"
    using Cons.IH by (intro mult_le_mono2) simp
  finally show ?case by simp
qed simp

lemma of_nat_u8_digit: "(of_nat (unat (b :: u8) + 256 * k) :: u8) = b"
proof -
  have "unat (of_nat (unat b + 256 * k) :: u8) = unat b"
    using unat_u8_less [of b] by (simp only: unat_of_nat_u8) simp
  then show ?thesis by (rule unsigned_word_eqI)
qed

lemma le_bytes_le_val: "length bs = n \<Longrightarrow> le_bytes n (le_val bs) = bs"
proof (induction bs arbitrary: n)
  case (Cons b bs)
  then obtain m where n: "n = Suc m" and l: "length bs = m" by auto
  have "(unat b + 256 * le_val bs) div 256 = le_val bs"
    using unat_u8_less [of b] by simp
  then show ?case
    using Cons.IH [OF l] by (simp add: n of_nat_u8_digit del: of_nat_add of_nat_mult)
qed simp

lemma le_bytes_inject:
  "k < 256 ^ n \<Longrightarrow> m < 256 ^ n \<Longrightarrow> le_bytes n k = le_bytes n m \<longleftrightarrow> k = m"
  by (metis le_val_le_bytes mod_less)

lemma le_val_append: "le_val (xs @ ys) = le_val xs + 256 ^ length xs * le_val ys"
  by (induction xs) (auto simp: algebra_simps)

lemma le_val_replicate_0 [simp]: "le_val (replicate n 0) = 0"
  by (induction n) auto

section \<open>Widths\<close>

lemma unat_u16_less: "unat (w :: u16) < 0x10000"
  using unsigned_less [of w, where 'a = nat] by simp

lemma unat_u32_less: "unat (w :: u32) < 0x100000000"
  using unsigned_less [of w, where 'a = nat] by simp

lemma unat_u64_less: "unat (w :: u64) < 0x10000000000000000"
  using unsigned_less [of w, where 'a = nat] by simp

lemma unat_ucast_up:
  "LENGTH('a) \<le> LENGTH('b) \<Longrightarrow> unat (ucast (w :: 'a :: len word) :: 'b :: len word) = unat w"
  by (metis nat_less_le order_less_le_trans power_increasing_iff one_less_numeral_iff
      semiring_norm(76) take_bit_nat_eq_self unsigned_less unsigned_ucast_eq)

lemma unat_ucast_down:
  "unat w < 2 ^ LENGTH('b) \<Longrightarrow> unat (ucast (w :: 'a :: len word) :: 'b :: len word) = unat w"
  by (simp add: unsigned_ucast_eq take_bit_nat_eq_self)

lemma unat_drop: "unat (drop_bit k w) = unat w div 2 ^ k" for w :: "'a :: len word"
  unfolding unat_drop_bit_eq by (rule drop_bit_eq_div)

lemma unat_take: "unat (take_bit k w) = unat w mod 2 ^ k" for w :: "'a :: len word"
  unfolding unsigned_take_bit_eq by (rule take_bit_eq_mod)

lemma unat_2p: "k < LENGTH('a) \<Longrightarrow> unat (2 ^ k :: 'a :: len word) = 2 ^ k"
proof -
  assume "k < LENGTH('a)"
  then have "(2 :: nat) ^ k < 2 ^ LENGTH('a)" by simp
  moreover have "(2 ^ k :: 'a word) = of_nat (2 ^ k)" by simp
  ultimately show ?thesis by (metis mod_less unat_of_nat)
qed

section \<open>Comparing bytes\<close>

text \<open>\<open>memcmp\<close> on blocks of the same length.\<close>

fun memcmp :: "bytes \<Rightarrow> bytes \<Rightarrow> int" where
  "memcmp (a # xs) (b # ys) = (if a < b then - 1 else if a > b then 1 else memcmp xs ys)"
| "memcmp xs ys = 0"

lemma memcmp_eq: "length x = length y \<Longrightarrow> memcmp x y = 0 \<longleftrightarrow> x = y"
  by (induction x y rule: memcmp.induct) auto

lemma memcmp_flip: "length x = length y \<Longrightarrow> memcmp x y < 0 \<longleftrightarrow> memcmp y x > 0"
  by (induction x y rule: memcmp.induct) auto

lemma memcmp_trans:
  "length x = length y \<Longrightarrow> length y = length z \<Longrightarrow> memcmp x y < 0 \<Longrightarrow> memcmp y z < 0 \<Longrightarrow> memcmp x z < 0"
proof (induction x y arbitrary: z rule: memcmp.induct)
  case (1 a xs b ys)
  then obtain c zs where "z = c # zs" by (cases z) auto
  then show ?case using 1 by (auto split: if_splits)
qed auto

section \<open>Splitting byte strings\<close>

lemma take_append_exact [simp]: "length xs = n \<Longrightarrow> take n (xs @ ys) = xs"
  by simp

lemma drop_append_exact [simp]: "length xs = n \<Longrightarrow> drop n (xs @ ys) = ys"
  by simp

lemma append_eq_take_drop: "n \<le> length xs \<Longrightarrow> xs = ys @ zs \<Longrightarrow> length ys = n \<Longrightarrow>
    ys = take n xs \<and> zs = drop n xs"
  by auto

section \<open>Reading a counted sequence\<close>

text \<open>
  The loop \<open>for (i = 0; i < n; i++) if (!deser(&x, buf)) return false; else vector_add(..)\<close>
  that every counted sequence of the wire formats is read with.
\<close>

fun deser_n :: "'a deser \<Rightarrow> nat \<Rightarrow> 'a list deser" where
  "deser_n d 0 buf = Some ([], buf)"
| "deser_n d (Suc n) buf =
     do { (x, buf1) \<leftarrow> d buf;
          (xs, buf2) \<leftarrow> deser_n d n buf1;
          Some (x # xs, buf2) }"

lemma deser_n_length: "deser_n d n buf = Some (xs, r) \<Longrightarrow> length xs = n"
  by (induction n arbitrary: buf xs) (auto split: Option.bind_splits)

section \<open>The contract of a wire format\<close>

text \<open>
  \<open>enc\<close> is what a \<open>ser_*\<close> function appends, \<open>dec\<close> what the matching \<open>deser_*\<close>
  function reads, \<open>valid\<close> the values the format can carry. The one law is the
  round trip in front of arbitrary trailing bytes; that encodings are prefix free
  and that counted sequences round-trip follows for every instance.
\<close>

locale codec =
  fixes enc :: "'a \<Rightarrow> bytes"
    and dec :: "'a deser"
    and valid :: "'a \<Rightarrow> bool"
  assumes dec_enc: "valid a \<Longrightarrow> dec (enc a @ rest) = Some (a, rest)"
begin

lemma enc_prefix_free:
  assumes "valid a" "valid b" "enc a @ r = enc b @ s"
  shows "a = b \<and> r = s"
  using dec_enc [OF assms(1), of r] dec_enc [OF assms(2), of s] unfolding assms(3) by simp

lemma enc_inject: "valid a \<Longrightarrow> valid b \<Longrightarrow> enc a = enc b \<longleftrightarrow> a = b"
  using enc_prefix_free [of a b "[]" "[]"] by blast

lemma deser_n_concat:
  assumes "\<forall>x \<in> set xs. valid x" and "length xs = n"
  shows "deser_n dec n (concat (map enc xs) @ rest) = Some (xs, rest)"
  using assms
proof (induction xs arbitrary: n)
  case (Cons x xs)
  then show ?case by (auto simp: dec_enc)
qed simp

lemma concat_enc_prefix_free:
  assumes "\<forall>x \<in> set xs. valid x" "\<forall>x \<in> set ys. valid x" "length xs = length ys"
    and "concat (map enc xs) @ r = concat (map enc ys) @ s"
  shows "xs = ys \<and> r = s"
  using deser_n_concat [OF assms(1,3), of r] deser_n_concat [OF assms(2) refl, of s]
  unfolding assms(4) by simp

end

text \<open>A format in which every accepted input is the encoding of what was read.\<close>

locale tight_codec = codec +
  assumes dec_tight: "dec buf = Some (a, rest) \<Longrightarrow> buf = enc a @ rest \<and> valid a"
begin

lemma dec_iff: "dec buf = Some (a, rest) \<longleftrightarrow> valid a \<and> buf = enc a @ rest"
  using dec_tight dec_enc by blast

lemma deser_n_tight:
  "deser_n dec n buf = Some (xs, rest) \<Longrightarrow> buf = concat (map enc xs) @ rest \<and> (\<forall>x \<in> set xs. valid x)"
proof (induction n arbitrary: buf xs)
  case (Suc n)
  then obtain x ys buf1 where d: "dec buf = Some (x, buf1)"
    and r: "deser_n dec n buf1 = Some (ys, rest)" and xs: "xs = x # ys"
    by (auto split: Option.bind_splits)
  from dec_tight [OF d] Suc.IH [OF r] xs show ?case by auto
qed simp

lemma dec_consumes: "dec buf = Some (a, rest) \<Longrightarrow> length buf = length (enc a) + length rest"
  using dec_tight by fastforce

end

end
