(* ===== verification/Serialize.thy ===== *)
theory Serialize
  imports Prelude
begin

text \<open>
  Model of \<open>src/src/serialize.c\<close>: the append side (\<open>ser_*\<close>) on the contents of a
  \<open>cstring\<close>, the read side (\<open>deser_*\<close>) on the bytes left in a \<open>const_buffer\<close>.

  A \<open>cstring\<close> is represented by its contents: theory \<open>CStr\<close> proves that
  \<open>cstr_append_buf\<close> on the struct appends to the contents. A read returns
  \<open>None\<close> where the C function returns 0; every caller in the library that goes on
  after a failed read does so after \<open>deser_bytes\<close> on a fixed size, which leaves the
  buffer as it was.
\<close>

section \<open>Writers\<close>

definition ser_bytes :: "bytes \<Rightarrow> bytes \<Rightarrow> bytes" where
  "ser_bytes s p = s @ p"

definition ser_u16 :: "bytes \<Rightarrow> u16 \<Rightarrow> bytes" where
  "ser_u16 s v = ser_bytes s (le_bytes 2 (unat v))"

definition ser_u32 :: "bytes \<Rightarrow> u32 \<Rightarrow> bytes" where
  "ser_u32 s v = ser_bytes s (le_bytes 4 (unat v))"

definition ser_s32 :: "bytes \<Rightarrow> u32 \<Rightarrow> bytes" where
  "ser_s32 s v = ser_u32 s v"

definition ser_u64 :: "bytes \<Rightarrow> u64 \<Rightarrow> bytes" where
  "ser_u64 s v = ser_bytes s (le_bytes 8 (unat v))"

definition ser_s64 :: "bytes \<Rightarrow> u64 \<Rightarrow> bytes" where
  "ser_s64 s v = ser_u64 s v"

text \<open>The 32 bytes at \<open>v_\<close>; the argument is the array, a \<open>uint256_t\<close>.\<close>

definition ser_u256 :: "bytes \<Rightarrow> bytes \<Rightarrow> bytes" where
  "ser_u256 s v = ser_bytes s (take 32 v)"

definition ser_varlen :: "bytes \<Rightarrow> u32 \<Rightarrow> bytes" where
  "ser_varlen s vlen =
     (if vlen < 253 then ser_bytes s [ucast vlen]
      else if vlen < 0x10000 then ser_u16 (ser_bytes s [253]) (ucast vlen)
      else ser_u32 (ser_bytes s [254]) vlen)"

text \<open>C's \<open>strnlen\<close>: the index of the first NUL, at most \<open>maxlen\<close>.\<close>

definition strnlen :: "bytes \<Rightarrow> nat \<Rightarrow> nat" where
  "strnlen p maxlen = length (takeWhile (\<lambda>c. c \<noteq> 0) (take maxlen p))"

definition ser_str :: "bytes \<Rightarrow> bytes \<Rightarrow> nat \<Rightarrow> bytes" where
  "ser_str s s_in maxlen =
     (let slen = strnlen s_in maxlen in
      if slen > 0xffffffff then ser_varlen s 0
      else ser_bytes (ser_varlen s (of_nat slen)) (take slen s_in))"

text \<open>\<open>None\<close> is the NULL pointer.\<close>

definition ser_varstr :: "bytes \<Rightarrow> bytes option \<Rightarrow> bytes" where
  "ser_varstr s s_in =
     (case s_in of
        None \<Rightarrow> ser_varlen s 0
      | Some str \<Rightarrow>
          if length str = 0 then ser_varlen s 0
          else if length str > 0xffffffff then ser_varlen s 0
          else ser_bytes (ser_varlen s (of_nat (length str))) str)"

section \<open>Readers\<close>

definition deser_skip :: "nat \<Rightarrow> bytes \<Rightarrow> bytes option" where
  "deser_skip len buf = (if length buf < len then None else Some (drop len buf))"

definition deser_bytes :: "nat \<Rightarrow> bytes deser" where
  "deser_bytes len buf =
     (if length buf < len then None else Some (take len buf, drop len buf))"

definition deser_u16 :: "u16 deser" where
  "deser_u16 buf = do { (v, r) \<leftarrow> deser_bytes 2 buf; Some (of_nat (le_val v), r) }"

definition deser_s32 :: "u32 deser" where
  "deser_s32 buf = do { (v, r) \<leftarrow> deser_bytes 4 buf; Some (of_nat (le_val v), r) }"

definition deser_u32 :: "u32 deser" where
  "deser_u32 buf = do { (v, r) \<leftarrow> deser_bytes 4 buf; Some (of_nat (le_val v), r) }"

definition deser_u64 :: "u64 deser" where
  "deser_u64 buf = do { (v, r) \<leftarrow> deser_bytes 8 buf; Some (of_nat (le_val v), r) }"

definition deser_u256 :: "bytes deser" where
  "deser_u256 buf = deser_bytes 32 buf"

definition deser_varlen :: "u32 deser" where
  "deser_varlen buf =
     do { (c, r) \<leftarrow> deser_bytes 1 buf;
          if hd c = 253 then do { (v16, r1) \<leftarrow> deser_u16 r; Some (ucast v16, r1) }
          else if hd c = 254 then deser_u32 r
          else if hd c = 255 then do { (v64, r1) \<leftarrow> deser_u64 r; Some (ucast v64, r1) }
          else Some (ucast (hd c), r) }"

text \<open>\<open>fread\<close>: what it delivered and what is left of the file.\<close>

definition fread :: "nat \<Rightarrow> bytes \<Rightarrow> bytes \<times> bytes" where
  "fread n file = (take n file, drop n file)"

definition deser_varlen_from_file :: "u32 deser" where
  "deser_varlen_from_file file =
     (let (cs, file1) = fread 1 file in
      if length cs \<noteq> 1 then None
      else
        let c = hd cs in
        if c = 253 then
          (let (p, file2) = fread 2 file1 in
           if length p \<noteq> 2 then None
           else map_option (\<lambda>(v16, _). (ucast v16, file2)) (deser_u16 p))
        else if c = 254 then
          (let (p, file2) = fread 4 file1 in
           if length p \<noteq> 4 then None
           else map_option (\<lambda>(v32, _). (v32, file2)) (deser_u32 p))
        else if c = 255 then
          (let (p, file2) = fread 8 file1 in
           if length p \<noteq> 8 then None
           else map_option (\<lambda>(v64, _). (ucast v64, file2)) (deser_u64 p))
        else Some (ucast c, file1))"

text \<open>\<open>memcpy_safe(dst + off, src, len)\<close> into an array.\<close>

definition blit :: "bytes \<Rightarrow> nat \<Rightarrow> bytes \<Rightarrow> bytes" where
  "blit dst off src = take off dst @ src @ drop (off + length src) dst"

text \<open>
  \<open>deser_varlen_file\<close> also keeps the raw bytes: the result holds the value (\<open>None\<close>
  for a 0 return), the caller's \<open>rawdata\<close> array, \<open>*buflen_inout\<close> and the file.
\<close>

definition deser_varlen_file ::
    "bytes \<Rightarrow> bytes \<Rightarrow> nat \<Rightarrow> u32 option \<times> bytes \<times> nat \<times> bytes" where
  "deser_varlen_file file rawdata buflen =
     (if buflen < 4 + 1 then (None, rawdata, buflen, file)
      else
        let (cs, file1) = fread 1 file in
        if length cs \<noteq> 1 then (None, rawdata, buflen, file1)
        else
          let c = hd cs; raw1 = blit rawdata 0 [c] in
          if c = 253 then
            (let (p, file2) = fread 2 file1 in
             if length p \<noteq> 2 then (None, raw1, 1, file2)
             else (map_option (\<lambda>(v, _). ucast v) (deser_u16 p), blit raw1 1 p, 1 + 2, file2))
          else if c = 254 then
            (let (p, file2) = fread 4 file1 in
             if length p \<noteq> 4 then (None, raw1, 1, file2)
             else (map_option fst (deser_u32 p), blit raw1 1 p, 1 + 4, file2))
          else if c = 255 then
            (let (p, file2) = fread 8 file1 in
             if length p \<noteq> 8 then (None, raw1, 1, file2)
             else (map_option (\<lambda>(v, _). ucast v) (deser_u64 p), blit raw1 1 (take 4 p), 1 + 4, file2))
          else (Some (ucast c), raw1, 1, file1))"

text \<open>
  \<open>deser_str\<close> fills the array \<open>so\<close> of \<open>maxlen\<close> chars. With \<open>maxlen = 0\<close> the
  terminator goes to index \<open>-1\<close>.
\<close>

definition deser_str :: "bytes \<Rightarrow> nat \<Rightarrow> bytes \<Rightarrow> (bytes \<times> bytes) option c_outcome" where
  "deser_str so maxlen buf =
     (case deser_varlen buf of
        None \<Rightarrow> Inr None
      | Some (l, r) \<Rightarrow>
          let len = min (unat l) maxlen; skip_len = unat l - len in
          case deser_bytes len r of
            None \<Rightarrow> Inr None
          | Some (p, r1) \<Rightarrow>
              case deser_skip skip_len r1 of
                None \<Rightarrow> Inr None
              | Some r2 \<Rightarrow>
                  if len < maxlen then Inr (Some ((blit so 0 p)[len := 0], r2))
                  else if maxlen = 0 then Inl OutOfBounds
                  else Inr (Some ((blit so 0 p)[maxlen - 1 := 0], r2)))"

definition deser_varstr :: "bytes deser" where
  "deser_varstr buf =
     do { (len, r) \<leftarrow> deser_varlen buf;
          if length r < unat len then None
          else Some (take (unat len) r, drop (unat len) r) }"

definition deser_s64 :: "u64 deser" where
  "deser_s64 buf = deser_u64 buf"

section \<open>Fixed-width fields\<close>

lemmas ser_defs = ser_bytes_def ser_u16_def ser_u32_def ser_s32_def ser_u64_def ser_s64_def
  ser_u256_def

lemma unat_word_less:
  fixes w16 :: u16 and w32 :: u32 and w64 :: u64
  shows "unat w16 < 256 ^ 2" "unat w32 < 256 ^ 4" "unat w64 < 256 ^ 8"
  using unsigned_less [of w16] unsigned_less [of w32] unsigned_less [of w64] by simp_all

lemma le_val_le_bytes_word [simp]:
  fixes w16 :: u16 and w32 :: u32 and w64 :: u64
  shows "le_val (le_bytes 2 (unat w16)) = unat w16"
    "le_val (le_bytes 4 (unat w32)) = unat w32"
    "le_val (le_bytes 8 (unat w64)) = unat w64"
  using unat_word_less by (simp_all only: le_val_le_bytes mod_less)

lemma unat_of_nat_le_val:
  "length p = 2 \<Longrightarrow> unat (of_nat (le_val p) :: u16) = le_val p"
  "length q = 4 \<Longrightarrow> unat (of_nat (le_val q) :: u32) = le_val q"
  "length r = 8 \<Longrightarrow> unat (of_nat (le_val r) :: u64) = le_val r"
  using le_val_less [of p] le_val_less [of q] le_val_less [of r]
  by (simp_all add: unat_of_nat)

lemma deser_bytes_append [simp]: "length p = n \<Longrightarrow> deser_bytes n (p @ r) = Some (p, r)"
  by (simp add: deser_bytes_def)

lemma deser_bytes_Some:
  "deser_bytes n buf = Some (p, r) \<longleftrightarrow> buf = p @ r \<and> length p = n"
  by (auto simp: deser_bytes_def)

declare le_bytes_numeral [simp del]

interpretation u16c: tight_codec "ser_u16 []" deser_u16 "\<lambda>_. True"
  by unfold_locales
    (auto simp: ser_defs deser_u16_def deser_bytes_Some unat_of_nat_le_val le_bytes_le_val
      split: Option.bind_splits)

interpretation u32c: tight_codec "ser_u32 []" deser_u32 "\<lambda>_. True"
  by unfold_locales
    (auto simp: ser_defs deser_u32_def deser_bytes_Some unat_of_nat_le_val le_bytes_le_val
      split: Option.bind_splits)

interpretation s32c: tight_codec "ser_s32 []" deser_s32 "\<lambda>_. True"
  by unfold_locales
    (auto simp: ser_defs deser_s32_def deser_bytes_Some unat_of_nat_le_val le_bytes_le_val
      split: Option.bind_splits)

interpretation u64c: tight_codec "ser_u64 []" deser_u64 "\<lambda>_. True"
  by unfold_locales
    (auto simp: ser_defs deser_u64_def deser_bytes_Some unat_of_nat_le_val le_bytes_le_val
      split: Option.bind_splits)

interpretation s64c: tight_codec "ser_s64 []" deser_s64 "\<lambda>_. True"
  by unfold_locales
    (auto simp: ser_defs deser_s64_def deser_u64_def deser_bytes_Some unat_of_nat_le_val
      le_bytes_le_val split: Option.bind_splits)

interpretation u256c: tight_codec "ser_u256 []" deser_u256 "\<lambda>h. length h = 32"
  by unfold_locales (auto simp: ser_defs deser_u256_def deser_bytes_Some)

section \<open>Appending: every writer keeps what is there\<close>

lemma ser_append:
  "ser_u16 s v16 = s @ ser_u16 [] v16"
  "ser_u32 s v32 = s @ ser_u32 [] v32"
  "ser_s32 s v32 = s @ ser_s32 [] v32"
  "ser_u64 s v64 = s @ ser_u64 [] v64"
  "ser_s64 s v64 = s @ ser_s64 [] v64"
  "ser_u256 s h = s @ ser_u256 [] h"
  by (simp_all add: ser_defs)

lemma ser_varlen_append: "ser_varlen s v = s @ ser_varlen [] v"
  by (simp add: ser_varlen_def ser_defs)

lemma ser_varstr_append: "ser_varstr s v = s @ ser_varstr [] v"
  by (cases v) (simp_all add: ser_varstr_def ser_bytes_def ser_varlen_append [of s])

text \<open>Appending behind an append: a terminating form of the rules above.\<close>

lemma ser_norm:
  "ser_u16 (a @ b) v16 = a @ b @ ser_u16 [] v16" "ser_u32 (a @ b) v32 = a @ b @ ser_u32 [] v32"
  "ser_s32 (a @ b) v32 = a @ b @ ser_s32 [] v32" "ser_u64 (a @ b) v64 = a @ b @ ser_u64 [] v64"
  "ser_s64 (a @ b) v64 = a @ b @ ser_s64 [] v64" "ser_u256 (a @ b) h = a @ b @ ser_u256 [] h"
  "ser_varlen (a @ b) n = a @ b @ ser_varlen [] n" "ser_varstr (a @ b) str = a @ b @ ser_varstr [] str"
  "ser_bytes (a @ b) p = a @ b @ p"
  using ser_append [of "a @ b"] ser_varlen_append [of "a @ b"] ser_varstr_append [of "a @ b"]
  by (simp_all add: ser_bytes_def)

lemma length_ser_fixed [simp]:
  "length (ser_u16 [] v16) = 2" "length (ser_u32 [] v32) = 4" "length (ser_s32 [] v32) = 4"
  "length (ser_u64 [] v64) = 8" "length (ser_s64 [] v64) = 8"
  "length h = 32 \<Longrightarrow> length (ser_u256 [] h) = 32"
  by (simp_all add: ser_defs)

lemma fixed_dec [simp]:
  "deser_u16 (ser_u16 [] v16 @ r) = Some (v16, r)"
  "deser_u32 (ser_u32 [] v32 @ r) = Some (v32, r)"
  "deser_s32 (ser_s32 [] v32 @ r) = Some (v32, r)"
  "deser_u64 (ser_u64 [] v64 @ r) = Some (v64, r)"
  "deser_s64 (ser_s64 [] v64 @ r) = Some (v64, r)"
  "length h = 32 \<Longrightarrow> deser_u256 (ser_u256 [] h @ r) = Some (h, r)"
  by (simp_all add: u16c.dec_enc u32c.dec_enc s32c.dec_enc u64c.dec_enc s64c.dec_enc u256c.dec_enc)

section \<open>The variable-length integer\<close>

lemma ser_varlen_cases:
  "ser_varlen [] v =
     (if unat v < 253 then [ucast v]
      else if unat v < 0x10000 then 253 # ser_u16 [] (ucast v)
      else 254 # ser_u32 [] v)"
  by (simp add: ser_varlen_def ser_defs word_less_nat_alt)

lemma length_ser_varlen:
  "length (ser_varlen [] v) = (if unat v < 253 then 1 else if unat v < 0x10000 then 3 else 5)"
  by (simp add: ser_varlen_cases)

lemma deser_bytes_1: "deser_bytes 1 (c # r) = Some ([c], r)" "deser_bytes 1 [] = None"
  by (simp_all add: deser_bytes_def)

lemma deser_varlen_Cons:
  "deser_varlen (c # r) =
     (if c = 253 then do { (v16, r1) \<leftarrow> deser_u16 r; Some (ucast v16, r1) }
      else if c = 254 then deser_u32 r
      else if c = 255 then do { (v64, r1) \<leftarrow> deser_u64 r; Some (ucast v64, r1) }
      else Some (ucast c, r))"
  by (simp add: deser_varlen_def deser_bytes_1 [unfolded One_nat_def])

lemma deser_varlen_Nil [simp]: "deser_varlen [] = None"
  by (simp add: deser_varlen_def deser_bytes_def)

lemma ucast_small_u8: "unat (v :: u32) < 256 \<Longrightarrow> unat (ucast v :: u8) = unat v"
  by (simp add: unsigned_ucast_eq take_bit_nat_eq_self)

lemma ucast_back:
  "unat (v :: u32) < 256 \<Longrightarrow> ucast (ucast v :: u8) = v"
  "unat (v :: u32) < 0x10000 \<Longrightarrow> ucast (ucast v :: u16) = v"
  by (simp_all add: word_unat_eq_iff unsigned_ucast_eq unsigned_take_bit_eq take_bit_nat_eq_self)

interpretation varlenc: codec "ser_varlen []" deser_varlen "\<lambda>_. True"
proof unfold_locales
  fix v :: u32 and rest
  have small: "ucast v \<noteq> (253 :: u8) \<and> ucast v \<noteq> (254 :: u8) \<and> ucast v \<noteq> (255 :: u8)"
    if "unat v < 253"
    using ucast_small_u8 [of v] that by auto
  show "deser_varlen (ser_varlen [] v @ rest) = Some (v, rest)"
    using small by (auto simp: ser_varlen_cases deser_varlen_Cons ucast_back)
qed

interpretation varstrc: codec "\<lambda>s. ser_varstr [] (Some s)" deser_varstr "\<lambda>s. length s < 2 ^ 32"
proof unfold_locales
  fix s rest :: bytes
  assume l: "length s < 2 ^ 32"
  have eq: "ser_varstr [] (Some s) = ser_varlen [] (of_nat (length s)) @ s"
    using l by (auto simp: ser_varstr_def ser_bytes_def)
  have "unat (of_nat (length s) :: u32) = length s"
    using l by (simp add: unat_of_nat)
  then show "deser_varstr (ser_varstr [] (Some s) @ rest) = Some (s, rest)"
    by (simp add: eq deser_varstr_def varlenc.dec_enc)
qed

section \<open>Every accepted variable-length integer\<close>

lemma u16_dec_iff [simp]: "deser_u16 buf = Some (v, r) \<longleftrightarrow> buf = ser_u16 [] v @ r"
  using u16c.dec_iff by blast

lemma u32_dec_iff [simp]: "deser_u32 buf = Some (v, r) \<longleftrightarrow> buf = ser_u32 [] v @ r"
  using u32c.dec_iff by blast

lemma u64_dec_iff [simp]: "deser_u64 buf = Some (v, r) \<longleftrightarrow> buf = ser_u64 [] v @ r"
  using u64c.dec_iff by blast

lemma u8_prefix_cases: "unat (c :: u8) < 253 \<or> c = 253 \<or> c = 254 \<or> c = 255"
proof -
  consider "unat c < 253" | "unat c = 253" | "unat c = 254" | "unat c = 255"
    using unat_u8_less [of c] by linarith
  then show ?thesis by cases (auto simp: word_unat_eq_iff)
qed

lemma deser_varlen_SomeE:
  assumes "deser_varlen buf = Some (v, rest)"
  obtains (one) c where "buf = c # rest" "unat c < 253" "v = ucast c"
  | (two) w where "buf = 253 # ser_u16 [] w @ rest" "v = ucast w"
  | (four) "buf = 254 # ser_u32 [] v @ rest"
  | (eight) w where "buf = 255 # ser_u64 [] w @ rest" "v = ucast w"
proof (cases buf)
  case Nil
  then show ?thesis using assms by simp
next
  case (Cons c r)
  show ?thesis
    using u8_prefix_cases [of c]
  proof (elim disjE)
    assume "unat c < 253"
    moreover from this have "c \<noteq> 253" "c \<noteq> 254" "c \<noteq> 255" by auto
    ultimately show ?thesis using assms one [of c] by (simp add: Cons deser_varlen_Cons)
  qed (use assms two four eight in
      \<open>auto simp: Cons deser_varlen_Cons split: Option.bind_splits\<close>)
qed

section \<open>The file readers\<close>

lemma fixed_from_chunk:
  "deser_u16 p = (if length (take 2 p) \<noteq> 2 then None
     else map_option (\<lambda>(v, _). (v, drop 2 p)) (deser_u16 (take 2 p)))"
  "deser_u32 p = (if length (take 4 p) \<noteq> 4 then None
     else map_option (\<lambda>(v, _). (v, drop 4 p)) (deser_u32 (take 4 p)))"
  "deser_u64 p = (if length (take 8 p) \<noteq> 8 then None
     else map_option (\<lambda>(v, _). (v, drop 8 p)) (deser_u64 (take 8 p)))"
  by (auto simp: deser_u16_def deser_u32_def deser_u64_def deser_bytes_def min_def)

lemma from_file_agrees: "deser_varlen_from_file f = deser_varlen f"
proof (cases f)
  case (Cons c r)
  show ?thesis
    unfolding Cons deser_varlen_Cons fixed_from_chunk [of r]
    by (auto simp: deser_varlen_from_file_def fread_def Let_def split_def option.map_comp o_def
        bind_map_option split: Option.bind_splits option.splits)
qed (simp add: deser_varlen_from_file_def fread_def)

lemma deser_varlen_file_value:
  assumes "5 \<le> buflen"
  shows "fst (deser_varlen_file f raw buflen) = map_option fst (deser_varlen f)"
  unfolding from_file_agrees [symmetric]
  using assms
  by (cases f)
    (auto simp: deser_varlen_file_def deser_varlen_from_file_def fread_def Let_def
      option.map_comp o_def split_def)

lemma take_blit: "n = off + length src \<Longrightarrow> n \<le> length dst \<Longrightarrow> take n (blit dst off src) = take off dst @ src"
  by (simp add: blit_def)

lemma length_blit [simp]: "off + length src \<le> length dst \<Longrightarrow> length (blit dst off src) = length dst"
  by (simp add: blit_def)

lemma blit_Cons: "k < length dst \<Longrightarrow> blit (dst[k := x]) (Suc k) xs = blit dst k (x # xs)"
  by (simp add: blit_def take_Suc_conv_app_nth min_def)

lemma blit_Nil [simp]: "off \<le> length dst \<Longrightarrow> blit dst off [] = dst"
  by (simp add: blit_def)

lemma blit_append: "off + length xs \<le> length dst \<Longrightarrow>
    blit (blit dst off xs) (off + length xs) ys = blit dst off (xs @ ys)"
  by (simp add: blit_def ac_simps)

lemma take_blit_chunk:
  assumes "k \<le> length r" "k < length dst"
  shows "take (Suc k) (blit (blit dst 0 [c]) (Suc 0) (take k r)) = c # take k r"
  using assms by (auto simp: blit_def)

lemma deser_varlen_file_raw:
  assumes "5 \<le> buflen" "buflen \<le> length raw"
    and "deser_varlen_file f raw buflen = (Some v, raw', n, f')"
  shows "take n raw' = take n f \<and> n \<le> 5"
proof (cases f)
  case (Cons c r)
  have "take 5 xs = take (Suc 4) xs" for xs :: bytes by simp
  then show ?thesis
    using assms
    by (auto simp: Cons deser_varlen_file_def fread_def Let_def take_blit_chunk blit_def min_def
        simp del: u16_dec_iff u32_dec_iff u64_dec_iff split: if_splits)
qed (use assms in \<open>auto simp: deser_varlen_file_def fread_def\<close>)

lemma ser_varlen_shortest:
  assumes "deser_varlen buf = Some (v, rest)"
  shows "length (ser_varlen [] v @ rest) \<le> length buf"
  using assms
proof (cases rule: deser_varlen_SomeE)
  case (one c)
  then show ?thesis by (simp add: length_ser_varlen unat_ucast_up)
next
  case (two w)
  then show ?thesis using unat_u16_less [of w] by (simp add: length_ser_varlen unat_ucast_up)
qed (simp_all add: length_ser_varlen)

section \<open>Counted C strings\<close>

lemma strnlen_take: "take (strnlen p n) p = takeWhile (\<lambda>c. c \<noteq> 0) (take n p)"
proof -
  let ?w = "takeWhile (\<lambda>c. c \<noteq> 0) (take n p)"
  have "?w = take (length ?w) (take n p)" by (rule takeWhile_eq_take)
  also have "\<dots> = take (length ?w) p"
    using length_takeWhile_le [of "\<lambda>c. c \<noteq> 0" "take n p"] by (simp add: min_absorb1)
  finally show ?thesis by (simp add: strnlen_def)
qed

lemma takeWhile_nonzero_update:
  assumes "\<forall>c \<in> set (take k xs). c \<noteq> (0 :: u8)" "k < length xs"
  shows "takeWhile (\<lambda>c. c \<noteq> 0) (xs[k := 0]) = take k xs"
proof -
  have "takeWhile (\<lambda>c. c \<noteq> 0) (take k xs @ 0 # drop (Suc k) xs) = take k xs @ []"
    using assms(1) by (subst takeWhile_append2) auto
  then show ?thesis using assms(2) by (simp add: upd_conv_take_nth_drop)
qed

lemma deser_str_encoded:
  assumes "0 < maxlen" "length p < 2 ^ 32"
  shows "deser_str so maxlen (ser_varlen [] (of_nat (length p)) @ p @ rest) =
    Inr (Some ((blit so 0 (take maxlen p))[min (length p) (maxlen - 1) := 0], rest))"
proof -
  have u: "unat (of_nat (length p) :: u32) = length p" using assms(2) by (simp add: unat_of_nat)
  have d: "deser_bytes (min (length p) maxlen) (p @ rest) =
      Some (take maxlen p, drop maxlen p @ rest)"
    by (auto simp: deser_bytes_def min_def)
  have k: "deser_skip (length p - min (length p) maxlen) (drop maxlen p @ rest) = Some rest"
    by (auto simp: deser_skip_def min_def)
  show ?thesis
    unfolding deser_str_def varlenc.dec_enc [OF TrueI] option.case prod.case Let_def u d k
    using assms(1) by (auto simp: min_def)
qed

section \<open>Properties\<close>

text \<open>
  A byte string shorter than \<open>2 ^ 32\<close> written by \<open>ser_varstr\<close> is read back by
  \<open>deser_varstr\<close>, which stops exactly at the bytes that follow it.
\<close>

theorem varstr_roundtrip:
  assumes "length s < 2 ^ 32"
  shows "deser_varstr (ser_varstr [] (Some s) @ rest) = Some (s, rest)"
  using assms by (rule varstrc.dec_enc)

theorem varstr_roundtrip_witness:
  "deser_varstr (ser_varstr [] (Some [7, 8, 9]) @ [1]) = Some ([7, 8, 9], [1])"
  by (rule varstr_roundtrip) simp

text \<open>
  \<open>deser_varlen\<close> reads back every 32-bit length \<open>ser_varlen\<close> writes, and \<open>ser_varlen\<close>
  writes the shortest of all the encodings the reader accepts for that length.
\<close>

theorem varlen_roundtrip_shortest:
  "deser_varlen (ser_varlen [] v @ rest) = Some (v, rest) \<and>
    (deser_varlen buf = Some (v, rest) \<longrightarrow> length (ser_varlen [] v @ rest) \<le> length buf)"
  using varlenc.dec_enc ser_varlen_shortest by blast

theorem varlen_roundtrip_shortest_witness:
  "length (ser_varlen [] 5 @ [9 :: u8]) \<le> length [253, 5, 0, 9 :: u8]"
proof -
  have "deser_varlen [253, 5, 0, 9] = Some (5, [9])"
    by (simp add: deser_varlen_Cons deser_u16_def deser_bytes_def)
  then show ?thesis using varlen_roundtrip_shortest [of 5 "[9]" "[253, 5, 0, 9]"] by blast
qed

text \<open>
  The three readers of a variable-length integer agree: \<open>deser_varlen_from_file\<close> on a file
  is \<open>deser_varlen\<close> on its bytes (value and position), \<open>deser_varlen_file\<close> returns the same value
  and, on success, the raw bytes it hands back are the first bytes of the file, at most five.
\<close>

theorem varlen_readers_agree:
  assumes "5 \<le> buflen" "buflen \<le> length raw"
  shows "deser_varlen_from_file f = deser_varlen f \<and>
    fst (deser_varlen_file f raw buflen) = map_option fst (deser_varlen f) \<and>
    (\<forall>v raw' n f'. deser_varlen_file f raw buflen = (Some v, raw', n, f') \<longrightarrow>
       take n raw' = take n f \<and> n \<le> 5)"
  using from_file_agrees deser_varlen_file_value [OF assms(1)] deser_varlen_file_raw [OF assms]
  by blast

theorem varlen_readers_agree_witness:
  "fst (deser_varlen_file [253, 1, 2, 9] [0, 0, 0, 0, 0] 5) = map_option fst (deser_varlen [253, 1, 2, 9])
    \<and> deser_varlen [253, 1, 2, 9] = Some (513, [9])"
  using varlen_readers_agree [of 5 "[0, 0, 0, 0, 0]" "[253, 1, 2, 9]"]
  by (simp add: deser_varlen_Cons deser_u16_def deser_bytes_def)

text \<open>
  A C string written by \<open>ser_str\<close> and read by \<open>deser_str\<close> into an array of \<open>maxlen\<close> chars
  ends up there NUL-terminated: the string the array holds is the original cut at \<open>maxlen - 1\<close>,
  the array keeps its size and the reader stops exactly behind the encoded string.
\<close>

theorem str_roundtrip_truncates:
  assumes "0 < maxlen" "maxlen \<le> length so" "strnlen s n < 2 ^ 32"
  shows "\<exists>so'. deser_str so maxlen (ser_str [] s n @ rest) = Inr (Some (so', rest)) \<and>
    length so' = length so \<and>
    takeWhile (\<lambda>c. c \<noteq> 0) so' = take (maxlen - 1) (takeWhile (\<lambda>c. c \<noteq> 0) (take n s))"
proof -
  define p where "p = takeWhile (\<lambda>c. c \<noteq> 0) (take n s)"
  have l: "strnlen s n = length p" by (simp add: strnlen_def p_def)
  have e: "ser_str [] s n @ rest = ser_varlen [] (of_nat (length p)) @ p @ rest"
    using assms(3) unfolding l
    by (simp add: ser_str_def ser_bytes_def Let_def l) (metis l p_def strnlen_take)
  let ?k = "min (length p) (maxlen - 1)"
  let ?b = "blit so 0 (take maxlen p)"
  have lb: "length ?b = length so" using assms(2) by simp
  have pre: "take ?k ?b = take (maxlen - 1) p" using assms(1) by (auto simp: blit_def min_def)
  have "takeWhile (\<lambda>c. c \<noteq> 0) (?b[?k := 0]) = take ?k ?b"
  proof (rule takeWhile_nonzero_update)
    show "\<forall>c \<in> set (take ?k ?b). c \<noteq> 0"
      unfolding pre using in_set_takeD [of _ "maxlen - 1" p] by (auto simp: p_def dest: set_takeWhileD)
    show "?k < length ?b" using assms(1,2) lb by simp
  qed
  then show ?thesis
    using deser_str_encoded [OF assms(1), of p so rest] assms(3) l lb pre
    by (simp add: e p_def)
qed

theorem str_roundtrip_truncates_witness:
  "\<exists>so'. deser_str [1, 1, 1] 3 (ser_str [] [65, 66, 67, 0, 5] 5 @ [9]) = Inr (Some (so', [9])) \<and>
    length so' = length [1, 1, 1 :: u8] \<and> takeWhile (\<lambda>c. c \<noteq> 0) so' = [65, 66]"
  using str_roundtrip_truncates [of 3 "[1, 1, 1]" "[65, 66, 67, 0, 5]" 5 "[9]"]
  by (simp add: strnlen_def)

end
