(* ===== verification/CStr.thy ===== *)
theory CStr
  imports Serialize
begin

text \<open>
  Model of \<open>src/src/cstr.c\<close>, of \<open>src/src/buffer.c\<close> and of \<open>memcpy_safe\<close> of
  \<open>src/src/mem.c\<close>: the growable byte string every serializer writes to.

  A \<open>cstring\<close> is the struct of the source; \<open>str\<close> is the heap block it points to (a fresh,
  zeroed struct has the empty block for the NULL pointer). Reading or writing outside a block
  is the outcome \<open>Inl OutOfBounds\<close>. What \<open>realloc\<close> leaves in the new part of a block is the
  parameter \<open>junk\<close>, so nothing proved here depends on it. The allocators of \<open>mem.c\<close> end
  the process rather than return NULL, so the branches on a NULL result do not occur. Two
  pointer arguments are two objects (\<open>cstr_append_cstr(s, s)\<close> is outside the model).

  The interface \<open>byte_sink\<close> is what the serializers rely on; its interpretation on
  \<open>cstr_append_buf\<close> justifies modelling a \<open>cstring\<close> by its contents in \<open>Serialize\<close>.
\<close>

section \<open>Memory blocks\<close>

fun copy_loop :: "bytes \<Rightarrow> nat \<Rightarrow> bytes \<Rightarrow> nat \<Rightarrow> bytes c_outcome" where
  "copy_loop dst off src 0 = Inr dst"
| "copy_loop dst off src (Suc count) =
     (case src of
        [] \<Rightarrow> Inl OutOfBounds
      | c # cs \<Rightarrow>
          if off < length dst then copy_loop (dst[off := c]) (Suc off) cs count
          else Inl OutOfBounds)"

text \<open>The source is \<open>None\<close> for a NULL pointer.\<close>

definition memcpy_safe :: "bytes \<Rightarrow> nat \<Rightarrow> bytes option \<Rightarrow> nat \<Rightarrow> bytes c_outcome" where
  "memcpy_safe dst off source count =
     (case source of None \<Rightarrow> Inr dst | Some src \<Rightarrow> copy_loop dst off src count)"

definition store_at :: "bytes \<Rightarrow> nat \<Rightarrow> u8 \<Rightarrow> bytes c_outcome" where
  "store_at blk i c = (if i < length blk then Inr (blk[i := c]) else Inl OutOfBounds)"

text \<open>\<open>memmove\<close> inside one block; the source index may be negative.\<close>

definition memmove_in :: "bytes \<Rightarrow> nat \<Rightarrow> int \<Rightarrow> nat \<Rightarrow> bytes c_outcome" where
  "memmove_in blk dst src count =
     (if src < 0 \<or> nat src + count > length blk \<or> dst + count > length blk then Inl OutOfBounds
      else Inr (blit blk dst (take count (drop (nat src) blk))))"

definition realloc_block :: "(nat \<Rightarrow> u8) \<Rightarrow> bytes \<Rightarrow> nat \<Rightarrow> bytes" where
  "realloc_block junk blk sz = take sz blk @ map junk [length blk..<sz]"

section \<open>The struct and its operations\<close>

record cstring =
  cs_str :: bytes
  cs_len :: u64
  cs_alloc :: u64

definition cstring_zero :: cstring where
  "cstring_zero = \<lparr>cs_str = [], cs_len = 0, cs_alloc = 0\<rparr>"

text \<open>The rounding loop: the first shift from 3 on with \<open>sz \<le> 1 << shift\<close>, 64 if there is none.\<close>

function al_shift :: "u64 \<Rightarrow> nat \<Rightarrow> nat" where
  "al_shift sz shift =
     (if shift < 64 \<and> (push_bit shift 1 :: u64) < sz then al_shift sz (shift + 1) else shift)"
  by auto
termination by (relation "measure (\<lambda>(_, shift). 64 - shift)") auto

declare al_shift.simps [simp del]

definition cstr_alloc_min_sz :: "(nat \<Rightarrow> u8) \<Rightarrow> cstring \<Rightarrow> u64 \<Rightarrow> (bool \<times> cstring) c_outcome" where
  "cstr_alloc_min_sz junk s sz =
     (if sz = - 1 then Inr (False, s)
      else
        let sz = sz + 1 in
        if cs_alloc s \<noteq> 0 \<and> cs_alloc s \<ge> sz then Inr (True, s)
        else
          let shift = al_shift sz 3 in
          if shift \<ge> 64 then Inr (False, s)
          else
            let al_sz = push_bit shift 1 :: u64;
                new_s = realloc_block junk (cs_str s) (unat al_sz) in
            seqc (store_at new_s (unat (cs_len s)) 0) (\<lambda>blk.
            Inr (True, s\<lparr>cs_str := blk, cs_alloc := al_sz\<rparr>)))"

definition cstr_alloc_minsize :: "(nat \<Rightarrow> u8) \<Rightarrow> cstring \<Rightarrow> u64 \<Rightarrow> (bool \<times> cstring) c_outcome" where
  "cstr_alloc_minsize junk s new_sz =
     (if new_sz = cs_len s then Inr (True, s)
      else if new_sz \<le> cs_len s then Inr (False, s)
      else
        seqc (cstr_alloc_min_sz junk s new_sz) (\<lambda>(ok, s1).
        if \<not> ok then Inr (False, s1)
        else
          seqc (store_at (cs_str s1) (unat (cs_len s1)) 0) (\<lambda>blk.
          Inr (True, s1\<lparr>cs_str := blk\<rparr>))))"

text \<open>\<open>None\<close> is a NULL result.\<close>

definition cstr_new_sz :: "(nat \<Rightarrow> u8) \<Rightarrow> u64 \<Rightarrow> cstring option c_outcome" where
  "cstr_new_sz junk sz =
     seqc (cstr_alloc_min_sz junk cstring_zero sz) (\<lambda>(ok, s).
     Inr (if ok then Some s else None))"

definition cstr_new_buf :: "(nat \<Rightarrow> u8) \<Rightarrow> bytes option \<Rightarrow> u64 \<Rightarrow> cstring option c_outcome" where
  "cstr_new_buf junk buf sz =
     seqc (cstr_new_sz junk sz) (\<lambda>so.
     case so of
       None \<Rightarrow> Inr None
     | Some s \<Rightarrow>
         seqc (memcpy_safe (cs_str s) 0 buf (unat sz)) (\<lambda>blk.
         seqc (store_at blk (unat sz) 0) (\<lambda>blk.
         Inr (Some (s\<lparr>cs_str := blk, cs_len := sz\<rparr>)))))"

definition cstr_new_cstr :: "(nat \<Rightarrow> u8) \<Rightarrow> cstring \<Rightarrow> cstring option c_outcome" where
  "cstr_new_cstr junk copy_str = cstr_new_buf junk (Some (cs_str copy_str)) (cs_len copy_str)"

text \<open>The argument is the C string at \<open>init_str\<close>: the bytes in front of its NUL.\<close>

definition cstr_new :: "(nat \<Rightarrow> u8) \<Rightarrow> bytes option \<Rightarrow> cstring option c_outcome" where
  "cstr_new junk init_str =
     (case init_str of
        None \<Rightarrow> cstr_new_sz junk 0
      | Some cs \<Rightarrow>
          if cs = [] then cstr_new_sz junk 0
          else cstr_new_buf junk (Some (cs @ [0])) (of_nat (length cs)))"

definition cstr_resize :: "(nat \<Rightarrow> u8) \<Rightarrow> cstring \<Rightarrow> u64 \<Rightarrow> (bool \<times> cstring) c_outcome" where
  "cstr_resize junk s new_sz =
     (if new_sz = cs_len s then Inr (True, s)
      else if new_sz \<le> cs_len s then
        seqc (store_at (cs_str s) (unat new_sz) 0) (\<lambda>blk.
        Inr (True, s\<lparr>cs_str := blk, cs_len := new_sz\<rparr>))
      else
        seqc (cstr_alloc_min_sz junk s new_sz) (\<lambda>(ok, s1).
        if \<not> ok then Inr (False, s1)
        else
          seqc (store_at (cs_str s1) (unat new_sz) 0) (\<lambda>blk.
          Inr (True, s1\<lparr>cs_str := blk, cs_len := new_sz\<rparr>))))"

definition cstr_append_buf ::
    "(nat \<Rightarrow> u8) \<Rightarrow> cstring \<Rightarrow> bytes option \<Rightarrow> u64 \<Rightarrow> (bool \<times> cstring) c_outcome" where
  "cstr_append_buf junk s buf sz =
     seqc (cstr_alloc_min_sz junk s (cs_len s + sz)) (\<lambda>(ok, s1).
     if \<not> ok then Inr (False, s1)
     else
       seqc (memcpy_safe (cs_str s1) (unat (cs_len s1)) buf (unat sz)) (\<lambda>blk.
       let len1 = cs_len s1 + sz in
       seqc (store_at blk (unat len1) 0) (\<lambda>blk.
       Inr (True, s1\<lparr>cs_str := blk, cs_len := len1\<rparr>))))"

definition cstr_append_cstr ::
    "(nat \<Rightarrow> u8) \<Rightarrow> cstring \<Rightarrow> cstring \<Rightarrow> (bool \<times> cstring) c_outcome" where
  "cstr_append_cstr junk s app = cstr_append_buf junk s (Some (cs_str app)) (cs_len app)"

definition cstr_append_c :: "(nat \<Rightarrow> u8) \<Rightarrow> cstring \<Rightarrow> u8 \<Rightarrow> (bool \<times> cstring) c_outcome" where
  "cstr_append_c junk s ch = cstr_append_buf junk s (Some [ch]) 1"

definition cstr_equal :: "cstring option \<Rightarrow> cstring option \<Rightarrow> bool" where
  "cstr_equal a b =
     (case (a, b) of
        (None, None) \<Rightarrow> True
      | (Some a, Some b) \<Rightarrow>
          if cs_len a \<noteq> cs_len b then False
          else take (unat (cs_len a)) (cs_str a) = take (unat (cs_len a)) (cs_str b)
      | _ \<Rightarrow> False)"

text \<open>
  The index is an \<open>unsigned int\<close>: past \<open>2 ^ 32 - 1\<close> it wraps, and the loop over two equal
  strings of that size never ends (\<open>None\<close>). A \<open>char\<close> is signed.
\<close>

partial_function (option) cstr_compare_loop :: "cstring \<Rightarrow> cstring \<Rightarrow> u32 \<Rightarrow> int option" where
  "cstr_compare_loop a b i =
     (if ucast i < cs_len a then
        let a1 = sint (cs_str a ! unat i); b1 = sint (cs_str b ! unat i) in
        if a1 > b1 then Some 1
        else if a1 < b1 then Some (-1)
        else cstr_compare_loop a b (i + 1)
      else Some 0)"

definition cstr_compare :: "cstring \<Rightarrow> cstring \<Rightarrow> int option" where
  "cstr_compare a b =
     (if cs_len a > cs_len b then Some 1
      else if cs_len a < cs_len b then Some (-1)
      else cstr_compare_loop a b 0)"

text \<open>\<open>ssize_t len\<close> is read through \<open>sint\<close>; a negative length moves the tail to the right.\<close>

definition cstr_erase :: "cstring \<Rightarrow> u64 \<Rightarrow> u64 \<Rightarrow> (bool \<times> cstring) c_outcome" where
  "cstr_erase s pos n =
     (if pos = cs_len s \<and> n = 0 then Inr (True, s)
      else if pos \<ge> cs_len s then Inr (False, s)
      else
        let old_tail = cs_len s - pos in
        if sint n \<ge> 0 \<and> sint n > sint old_tail then Inr (False, s)
        else
          seqc (memmove_in (cs_str s) (unat pos) (int (unat pos) + sint n) (unat (old_tail - n))) (\<lambda>blk.
          let len1 = cs_len s - n in
          seqc (store_at blk (unat len1) 0) (\<lambda>blk.
          Inr (True, s\<lparr>cs_str := blk, cs_len := len1\<rparr>))))"

section \<open>buffer.c\<close>

record buffer =
  buf_p :: bytes
  buf_len :: nat

definition buffer_equal :: "buffer \<Rightarrow> buffer \<Rightarrow> bool" where
  "buffer_equal a b =
     (if buf_len a \<noteq> buf_len b then False else take (buf_len a) (buf_p a) = take (buf_len a) (buf_p b))"

definition buffer_copy :: "bytes option \<Rightarrow> nat \<Rightarrow> buffer c_outcome" where
  "buffer_copy data data_len =
     seqc (memcpy_safe (replicate data_len 0) 0 data data_len) (\<lambda>blk.
     Inr \<lparr>buf_p = blk, buf_len = data_len\<rparr>)"


section \<open>Blocks\<close>

lemma copy_loop_in_range:
  "count \<le> length src \<Longrightarrow> off + count \<le> length dst \<Longrightarrow>
    copy_loop dst off src count = Inr (blit dst off (take count src))"
proof (induction dst off src count rule: copy_loop.induct)
  case (2 dst off src count)
  then obtain c cs where src: "src = c # cs" by (cases src) auto
  have "copy_loop (dst[off := c]) (Suc off) cs count =
      Inr (blit (dst[off := c]) (Suc off) (take count cs))"
    using 2 by (intro "2.IH") (auto simp: src)
  moreover have "blit (dst[off := c]) (Suc off) (take count cs) = blit dst off (c # take count cs)"
    using "2.prems" by (intro blit_Cons) simp
  ultimately show ?case using "2.prems" by (simp add: src)
qed (simp add: blit_def)

lemma copy_loop_out_of_range:
  "length src < count \<or> length dst < off + count \<Longrightarrow> count \<noteq> 0 \<Longrightarrow>
    copy_loop dst off src count = Inl OutOfBounds"
proof (induction dst off src count rule: copy_loop.induct)
  case (2 dst off src count)
  then show ?case by (cases "count = 0") (auto split: list.splits)
qed simp

lemma memcpy_safe_in_range [simp]:
  "length src = count \<Longrightarrow> off + count \<le> length dst \<Longrightarrow>
    memcpy_safe dst off (Some src) count = Inr (blit dst off src)"
  by (simp add: memcpy_safe_def copy_loop_in_range)

lemma store_at_in_range [simp]: "i < length blk \<Longrightarrow> store_at blk i c = Inr (blk[i := c])"
  by (simp add: store_at_def)

lemma length_realloc_block [simp]:
  "length blk \<le> sz \<Longrightarrow> length (realloc_block junk blk sz) = sz"
  by (simp add: realloc_block_def)

lemma take_realloc_block [simp]:
  "n \<le> length blk \<Longrightarrow> length blk \<le> sz \<Longrightarrow> take n (realloc_block junk blk sz) = take n blk"
  by (simp add: realloc_block_def)

section \<open>The rounding loop\<close>

lemma al_shift_bounds:
  assumes "k \<le> 64"
  shows "k \<le> al_shift sz k \<and> al_shift sz k \<le> 64 \<and>
    (al_shift sz k < 64 \<longrightarrow> unat sz \<le> 2 ^ al_shift sz k) \<and>
    (\<forall>j. k \<le> j \<and> j < al_shift sz k \<longrightarrow> 2 ^ j < unat sz)"
  using assms
proof (induction sz k rule: al_shift.induct)
  case (1 sz k)
  show ?case
  proof (cases "k < 64 \<and> (push_bit k 1 :: u64) < sz")
    case True
    have "2 ^ k < unat sz" using True by (auto simp: word_less_nat_alt unat_2p)
    moreover have "al_shift sz k = al_shift sz (Suc k)"
      using True by (subst al_shift.simps) simp
    moreover have "Suc k \<le> j" if "k \<le> j" "j \<noteq> k" for j using that by simp
    moreover have "Suc k \<le> 64" using True by simp
    ultimately show ?thesis
      using "1.IH" [OF True] by (metis Suc_eq_plus1 Suc_leD)
  next
    case False
    then show ?thesis using "1.prems"
      by (auto simp: al_shift.simps [of sz k] word_less_nat_alt unat_2p)
  qed
qed

section \<open>Invariant and contents\<close>

definition cstr_wf :: "cstring \<Rightarrow> bool" where
  "cstr_wf s \<longleftrightarrow> length (cs_str s) = unat (cs_alloc s) \<and> unat (cs_len s) < unat (cs_alloc s) \<and>
     cs_str s ! unat (cs_len s) = 0"

definition contents :: "cstring \<Rightarrow> bytes" where
  "contents s = take (unat (cs_len s)) (cs_str s)"

lemma length_contents [simp]: "cstr_wf s \<Longrightarrow> length (contents s) = unat (cs_len s)"
  by (simp add: cstr_wf_def contents_def)

text \<open>A struct that is well-formed or the zeroed one \<open>cstr_new_sz\<close> starts from.\<close>

definition cstr_fresh_or_wf :: "cstring \<Rightarrow> bool" where
  "cstr_fresh_or_wf s \<longleftrightarrow> cstr_wf s \<or> s = cstring_zero"

lemma unat_plus_1: "sz \<noteq> - 1 \<Longrightarrow> unat (sz + 1 :: u64) = unat sz + 1"
  by (metis Suc_eq_plus1 add.commute add_eq_0_iff unatSuc)

lemma al_shift_less_64:
  assumes "unat sz \<le> 2 ^ 63" shows "al_shift sz 3 < 64"
proof (rule ccontr)
  assume "\<not> al_shift sz 3 < 64"
  then have "(2 :: nat) ^ 63 < unat sz" using al_shift_bounds [of 3 sz] by (auto dest: spec [of _ 63])
  then show False using assms by simp
qed

lemma cstr_alloc_min_sz_ok:
  assumes "cstr_fresh_or_wf s" "unat sz < 2 ^ 63" "unat (cs_len s) \<le> unat sz"
  shows "\<exists>s'. cstr_alloc_min_sz junk s sz = Inr (True, s') \<and> cstr_wf s' \<and> contents s' = contents s \<and>
    cs_len s' = cs_len s \<and> unat sz < unat (cs_alloc s') \<and>
    (s' = s \<or> (\<exists>k. 3 \<le> k \<and> k < 64 \<and> unat (cs_alloc s') = 2 ^ k \<and> (k = 3 \<or> 2 ^ (k - 1) \<le> unat sz)))"
proof -
  have nz: "sz \<noteq> - 1"
  proof
    assume "sz = - 1"
    then have "unat sz = 2 ^ 64 - 1" by (simp add: unsigned_minus_1_eq_mask mask_eq_exp_minus_1)
    then show False using assms(2) by simp
  qed
  note u = unat_plus_1 [OF nz]
  show ?thesis
  proof (cases "cs_alloc s \<noteq> 0 \<and> sz + 1 \<le> cs_alloc s")
    case True
    then have "cstr_wf s" using assms(1) by (auto simp: cstr_fresh_or_wf_def cstring_zero_def)
    moreover have "cstr_alloc_min_sz junk s sz = Inr (True, s)"
      using nz True by (simp add: cstr_alloc_min_sz_def)
    moreover have "unat sz < unat (cs_alloc s)" using True u by (simp add: word_le_nat_alt)
    ultimately show ?thesis by blast
  next
    case False
    define k where "k = al_shift (sz + 1) 3"
    have k: "3 \<le> k" "k < 64" "unat sz + 1 \<le> 2 ^ k" "\<And>j. 3 \<le> j \<Longrightarrow> j < k \<Longrightarrow> 2 ^ j \<le> unat sz"
      using al_shift_less_64 [of "sz + 1"] al_shift_bounds [of 3 "sz + 1"] assms(2) u
      by (auto simp: k_def)
    have k4: "k = 3 \<or> 2 ^ (k - 1) \<le> unat sz"
      using k(1) k(4) [of "k - 1"] by (cases "k = 3") simp_all
    have lu: "unat (2 ^ k :: u64) = 2 ^ k" using k(2) by (simp add: unat_2p)
    have la: "length (cs_str s) = unat (cs_alloc s)" "unat (cs_alloc s) \<le> unat sz"
      using False assms(1) u by (auto simp: cstr_fresh_or_wf_def cstr_wf_def cstring_zero_def
          word_le_nat_alt)
    have cl: "unat (cs_len s) \<le> length (cs_str s)"
      using assms(1) by (auto simp: cstr_fresh_or_wf_def cstr_wf_def cstring_zero_def)
    let ?b = "realloc_block junk (cs_str s) (2 ^ k)"
    let ?s = "s\<lparr>cs_str := ?b[unat (cs_len s) := 0], cs_alloc := 2 ^ k\<rparr>"
    have lb: "length ?b = 2 ^ k" using la k(3) by simp
    have "cstr_alloc_min_sz junk s sz = Inr (True, ?s)"
      using nz False k lb lu assms(3)
      by (simp add: cstr_alloc_min_sz_def Let_def k_def [symmetric] del: de_Morgan_conj)
    moreover have "cstr_wf ?s" using lu lb assms(3) k(3) by (simp add: cstr_wf_def)
    moreover have "contents ?s = contents s" using cl la k(3) by (simp add: contents_def)
    ultimately show ?thesis using lu k(1,2,3) k4 by (intro exI [of _ ?s]) auto
  qed
qed

section \<open>Operations on the contents\<close>

lemma unat_add_no_wrap: "unat a + unat b < 2 ^ 64 \<Longrightarrow> unat (a + b :: u64) = unat a + unat b"
  by (simp add: unat_word_ariths)

lemma cstr_wf_terminate:
  assumes "length blk = unat (cs_alloc s)" "unat n < unat (cs_alloc s)"
  shows "cstr_wf (s\<lparr>cs_str := blk[unat n := 0], cs_len := n\<rparr>)"
    and "contents (s\<lparr>cs_str := blk[unat n := 0], cs_len := n\<rparr>) = take (unat n) blk"
  using assms by (simp_all add: cstr_wf_def contents_def)

lemma cstr_append_buf_ok:
  assumes "cstr_wf s" "length buf = unat sz" "unat (cs_len s) + unat sz < 2 ^ 63"
  shows "\<exists>s'. cstr_append_buf junk s (Some buf) sz = Inr (True, s') \<and> cstr_wf s' \<and>
    contents s' = contents s @ buf"
proof -
  have sum: "unat (cs_len s + sz) = unat (cs_len s) + unat sz"
    using assms(3) by (intro unat_add_no_wrap) simp
  obtain s1 where s1: "cstr_alloc_min_sz junk s (cs_len s + sz) = Inr (True, s1)" "cstr_wf s1"
      "contents s1 = contents s" "cs_len s1 = cs_len s" "unat (cs_len s + sz) < unat (cs_alloc s1)"
    using cstr_alloc_min_sz_ok [of s "cs_len s + sz" junk] assms(1,3) sum
    by (auto simp: cstr_fresh_or_wf_def)
  let ?blk = "blit (cs_str s1) (unat (cs_len s)) buf"
  have l: "length (cs_str s1) = unat (cs_alloc s1)" using s1(2) by (simp add: cstr_wf_def)
  have lb: "length ?blk = unat (cs_alloc s1)" using l s1(5) sum assms(2) by simp
  have "cstr_append_buf junk s (Some buf) sz =
      Inr (True, s1\<lparr>cs_str := ?blk[unat (cs_len s + sz) := 0], cs_len := cs_len s + sz\<rparr>)"
    using s1 l sum lb assms(2) by (simp add: cstr_append_buf_def Let_def)
  moreover have "take (unat (cs_len s + sz)) ?blk = contents s @ buf"
    unfolding s1(3) [symmetric] using sum assms(2) l s1(4,5) by (simp add: blit_def contents_def)
  ultimately show ?thesis
    using cstr_wf_terminate [OF lb s1(5)] by auto
qed

lemma cstr_new_buf_ok:
  assumes "length buf = unat sz" "unat sz < 2 ^ 63"
  shows "\<exists>s. cstr_new_buf junk (Some buf) sz = Inr (Some s) \<and> cstr_wf s \<and> contents s = buf"
proof -
  obtain s1 where s1: "cstr_alloc_min_sz junk cstring_zero sz = Inr (True, s1)" "cstr_wf s1"
      "unat sz < unat (cs_alloc s1)"
    using cstr_alloc_min_sz_ok [of cstring_zero sz junk] assms(2)
    by (auto simp: cstr_fresh_or_wf_def cstring_zero_def)
  let ?blk = "blit (cs_str s1) 0 buf"
  have lb: "length ?blk = unat (cs_alloc s1)" using s1(2,3) assms(1) by (simp add: cstr_wf_def)
  have "cstr_new_buf junk (Some buf) sz = Inr (Some (s1\<lparr>cs_str := ?blk[unat sz := 0], cs_len := sz\<rparr>))"
    using s1 lb assms(1) by (simp add: cstr_new_buf_def cstr_new_sz_def cstr_wf_def)
  moreover have "take (unat sz) ?blk = buf" using assms(1) by (simp add: blit_def)
  ultimately show ?thesis using cstr_wf_terminate [OF lb s1(3)] by auto
qed

lemma cstr_resize_shrink:
  assumes "cstr_wf s" "n \<le> cs_len s"
  shows "\<exists>s'. cstr_resize junk s n = Inr (True, s') \<and> cstr_wf s' \<and> contents s' = take (unat n) (contents s)"
proof (cases "n = cs_len s")
  case True
  then show ?thesis using assms by (simp add: cstr_resize_def contents_def)
next
  case False
  have n: "unat n \<le> unat (cs_len s)" "unat n < unat (cs_alloc s)"
    using assms by (simp_all add: word_le_nat_alt cstr_wf_def)
  have l: "length (cs_str s) = unat (cs_alloc s)" using assms(1) by (simp add: cstr_wf_def)
  have "cstr_resize junk s n = Inr (True, s\<lparr>cs_str := (cs_str s)[unat n := 0], cs_len := n\<rparr>)"
    using False assms(2) l n by (simp add: cstr_resize_def)
  then show ?thesis
    using cstr_wf_terminate [OF l n(2)] n(1) by (auto simp: contents_def min_absorb1)
qed

lemma sint_small: "unat (n :: u64) < 2 ^ 63 \<Longrightarrow> sint n = int (unat n)"
proof -
  assume "unat n < 2 ^ 63"
  then have "int (unat n) < 2 ^ 63" by (metis of_nat_less_iff of_nat_numeral of_nat_power)
  then have "uint n < 2 ^ 63" by simp
  moreover have "- (2 ^ 63) \<le> uint n" using unsigned_greater_eq [of n] by (rule order_trans [rotated]) simp
  ultimately have "signed_take_bit 63 (uint n) = uint n" by (intro signed_take_bit_int_eq_self)
  then show ?thesis by (simp add: sint_uint)
qed

lemma unat_sub_no_wrap: "unat b \<le> unat a \<Longrightarrow> unat (a - b :: u64) = unat a - unat b"
  by (simp add: unat_sub word_le_nat_alt)

lemma cstr_erase_ok:
  assumes "cstr_wf s" "unat (cs_len s) < 2 ^ 63" "unat pos + unat n \<le> unat (cs_len s)"
  shows "\<exists>s'. cstr_erase s pos n = Inr (True, s') \<and> cstr_wf s' \<and>
    contents s' = take (unat pos) (contents s) @ drop (unat pos + unat n) (contents s)"
proof (cases "pos = cs_len s")
  case True
  then have "n = 0" using assms(3) by (simp add: unat_eq_0)
  then show ?thesis using True assms(1) by (simp add: cstr_erase_def)
next
  case False
  then have pos: "pos < cs_len s" using assms(3) by (simp add: word_less_nat_alt) (metis add_leD1 le_neq_implies_less word_unat_eq_iff)
  have ot: "unat (cs_len s - pos) = unat (cs_len s) - unat pos"
    using assms(3) by (intro unat_sub_no_wrap) simp
  have tl: "unat (cs_len s - pos - n) = unat (cs_len s) - unat pos - unat n"
    using assms(3) ot by (subst unat_sub_no_wrap) simp_all
  have nl: "unat (cs_len s - n) = unat (cs_len s) - unat n"
    using assms(3) by (intro unat_sub_no_wrap) simp
  have sn: "sint n = int (unat n)" using assms(2,3) by (intro sint_small) simp
  have so: "sint (cs_len s - pos) = int (unat (cs_len s) - unat pos)"
    using assms(2) ot by (subst sint_small) simp_all
  have l: "length (cs_str s) = unat (cs_alloc s)" "unat (cs_len s) < unat (cs_alloc s)"
    using assms(1) by (simp_all add: cstr_wf_def)
  let ?tail = "take (unat (cs_len s) - unat pos - unat n) (drop (unat pos + unat n) (cs_str s))"
  let ?blk = "blit (cs_str s) (unat pos) ?tail"
  have lt: "length ?tail = unat (cs_len s) - unat pos - unat n" using l assms(3) by simp
  have lb: "length ?blk = unat (cs_alloc s)" using l lt assms(3) by simp
  have "memmove_in (cs_str s) (unat pos) (int (unat pos) + sint n) (unat (cs_len s - pos - n)) = Inr ?blk"
    using l assms(3) by (auto simp: memmove_in_def sn tl nat_add_distrib not_less)
  moreover have "\<not> sint (cs_len s - pos) < sint n"
    unfolding sn so not_less of_nat_le_iff using assms(3) by simp
  moreover have "\<not> cs_len s \<le> pos" using pos by simp
  ultimately have "cstr_erase s pos n =
      Inr (True, s\<lparr>cs_str := ?blk[unat (cs_len s - n) := 0], cs_len := cs_len s - n\<rparr>)"
    using False lb nl l by (simp add: cstr_erase_def Let_def)
  moreover have "take (unat (cs_len s - n)) ?blk =
      take (unat pos) (contents s) @ drop (unat pos + unat n) (contents s)"
    using nl l assms(3) lt by (simp add: blit_def contents_def drop_take min_absorb1 add.commute)
  ultimately show ?thesis
    using cstr_wf_terminate [OF lb, of "cs_len s - n"] nl l by auto
qed

section \<open>Comparison\<close>

lemma compare_loop_shift:
  assumes "unat (cs_len a) < 2 ^ 32" "unat i \<le> unat (cs_len a)"
    "length (cs_str a) \<ge> unat (cs_len a)" "length (cs_str b) \<ge> unat (cs_len a)"
  shows "\<exists>r. cstr_compare_loop a b i = Some r \<and> r \<in> {-1, 0, 1} \<and>
    (r = 0 \<longleftrightarrow> (\<forall>j. unat i \<le> j \<and> j < unat (cs_len a) \<longrightarrow> cs_str a ! j = cs_str b ! j))"
  using assms(2)
proof (induction "unat (cs_len a) - unat i" arbitrary: i rule: less_induct)
  case less
  have lt: "(ucast i :: u64) < cs_len a \<longleftrightarrow> unat i < unat (cs_len a)"
    by (simp add: word_less_nat_alt unat_ucast_up)
  show ?case
  proof (cases "unat i < unat (cs_len a)")
    case True
    have "Suc (unat i) < 2 ^ 32" using True assms(1) by simp
    then have si: "unat (i + 1) = Suc (unat i)" by (simp add: unat_word_ariths)
    consider "sint (cs_str a ! unat i) > sint (cs_str b ! unat i)"
      | "sint (cs_str a ! unat i) < sint (cs_str b ! unat i)"
      | "sint (cs_str a ! unat i) = sint (cs_str b ! unat i)" by linarith
    then show ?thesis
    proof cases
      case 3
      have eq: "cs_str a ! unat i = cs_str b ! unat i" using 3 by (simp add: signed_word_eqI)
      obtain r where "cstr_compare_loop a b (i + 1) = Some r" "r \<in> {-1, 0, 1}"
        "r = 0 \<longleftrightarrow> (\<forall>j. Suc (unat i) \<le> j \<and> j < unat (cs_len a) \<longrightarrow> cs_str a ! j = cs_str b ! j)"
        using less.hyps [of "i + 1"] True unfolding si by (metis Suc_leI diff_less_mono2 lessI)
      then show ?thesis
        using True lt eq by (subst cstr_compare_loop.simps) (auto simp: Let_def, metis Suc_leI le_neq_implies_less)
    qed (subst cstr_compare_loop.simps, use True lt in \<open>auto simp: Let_def\<close>)+
  next
    case False
    then show ?thesis using lt by (subst cstr_compare_loop.simps) auto
  qed
qed

lemma contents_eq_len: "cstr_wf a \<Longrightarrow> cstr_wf b \<Longrightarrow> contents a = contents b \<Longrightarrow> cs_len a = cs_len b"
  using length_contents by (metis word_unat_eq_iff)

lemma cstr_equal_contents:
  "cstr_wf a \<Longrightarrow> cstr_wf b \<Longrightarrow> cstr_equal (Some a) (Some b) \<longleftrightarrow> contents a = contents b"
  using contents_eq_len [of a b] by (auto simp: cstr_equal_def contents_def)

lemma cstr_compare_total:
  assumes "cstr_wf a" "cstr_wf b" "unat (cs_len a) < 2 ^ 32"
  shows "\<exists>r. cstr_compare a b = Some r \<and> r \<in> {-1, 0, 1} \<and> (r = 0 \<longleftrightarrow> contents a = contents b)"
proof -
  have wf: "length (cs_str a) > unat (cs_len a)" "length (cs_str b) > unat (cs_len b)"
    using assms(1,2) by (simp_all add: cstr_wf_def)
  have ne: "contents a \<noteq> contents b" if "cs_len a \<noteq> cs_len b"
    using that assms(1,2) contents_eq_len by blast
  consider "cs_len a > cs_len b" | "cs_len a < cs_len b" | "cs_len a = cs_len b" by (rule linorder_cases)
  then show ?thesis
  proof cases
    case 3
    obtain r where r: "cstr_compare_loop a b 0 = Some r" "r \<in> {-1, 0, 1}"
      "r = 0 \<longleftrightarrow> (\<forall>j < unat (cs_len a). cs_str a ! j = cs_str b ! j)"
      using compare_loop_shift [of a 0 b] assms(3) wf 3 by auto
    have "contents a = contents b \<longleftrightarrow> (\<forall>j < unat (cs_len a). cs_str a ! j = cs_str b ! j)"
      using wf 3 by (auto simp: contents_def list_eq_iff_nth_eq)
    then show ?thesis using r 3 by (auto simp: cstr_compare_def)
  qed (use ne in \<open>auto simp: cstr_compare_def\<close>)
qed

section \<open>The interface of a byte sink\<close>

text \<open>
  What the serializers need of their output: appending a chunk adds it at the end, as long
  as the total stays below the capacity.
\<close>

fun append_chunks :: "('s \<Rightarrow> bytes \<Rightarrow> (bool \<times> 's) c_outcome) \<Rightarrow> 's \<Rightarrow> bytes list \<Rightarrow> (bool \<times> 's) c_outcome" where
  "append_chunks app s [] = Inr (True, s)"
| "append_chunks app s (c # cs) =
     seqc (app s c) (\<lambda>(ok, s1). if ok then append_chunks app s1 cs else Inr (False, s1))"

locale byte_sink =
  fixes view :: "'s \<Rightarrow> bytes"
    and wf :: "'s \<Rightarrow> bool"
    and cap :: nat
    and app :: "'s \<Rightarrow> bytes \<Rightarrow> (bool \<times> 's) c_outcome"
  assumes app_ok: "wf s \<Longrightarrow> length (view s) + length c < cap \<Longrightarrow>
    \<exists>s'. app s c = Inr (True, s') \<and> wf s' \<and> view s' = view s @ c"
begin

lemma append_chunks_ok:
  assumes "wf s" "length (view s) + length (concat cs) < cap"
  shows "\<exists>s'. append_chunks app s cs = Inr (True, s') \<and> wf s' \<and> view s' = view s @ concat cs"
  using assms
proof (induction cs arbitrary: s)
  case (Cons c cs)
  obtain s1 where s1: "app s c = Inr (True, s1)" "wf s1" "view s1 = view s @ c"
    using app_ok [of s c] Cons.prems by auto
  moreover obtain s' where "append_chunks app s1 cs = Inr (True, s')" "wf s'"
      "view s' = view s1 @ concat cs"
    using Cons.IH [of s1] Cons.prems s1 by auto
  ultimately show ?case by auto
qed simp

end

definition cstr_app :: "(nat \<Rightarrow> u8) \<Rightarrow> cstring \<Rightarrow> bytes \<Rightarrow> (bool \<times> cstring) c_outcome" where
  "cstr_app junk s c = cstr_append_buf junk s (Some c) (of_nat (length c))"

interpretation cstr_sink: byte_sink contents cstr_wf "2 ^ 63" "cstr_app junk" for junk
proof unfold_locales
  fix s and c :: bytes
  assume wf: "cstr_wf s" and l: "length (contents s) + length c < 2 ^ 63"
  have "unat (of_nat (length c) :: u64) = length c" using l by (simp add: unat_of_nat)
  then show "\<exists>s'. cstr_app junk s c = Inr (True, s') \<and> cstr_wf s' \<and> contents s' = contents s @ c"
    using cstr_append_buf_ok [of s c "of_nat (length c)" junk] wf l by (simp add: cstr_app_def)
qed

section \<open>Properties\<close>

text \<open>
  A sequence of appends to a well-formed \<open>cstring\<close> whose total stays below \<open>2 ^ 63\<close> bytes
  always succeeds without touching memory outside the block, keeps the struct well-formed
  (length below the allocation, NUL behind the last byte) and leaves the old contents followed
  by all chunks, whatever \<open>realloc\<close> left in the new memory.
\<close>

theorem cstr_appends_refine:
  assumes "cstr_wf s" "length (contents s) + length (concat cs) < 2 ^ 63"
  shows "\<exists>s'. append_chunks (cstr_app junk) s cs = Inr (True, s') \<and> cstr_wf s' \<and>
    contents s' = ser_bytes (contents s) (concat cs)"
  unfolding ser_bytes_def using assms by (rule cstr_sink.append_chunks_ok)

theorem cstr_appends_refine_witness:
  "\<exists>s'. append_chunks (cstr_app (\<lambda>_. 7)) \<lparr>cs_str = [65, 0], cs_len = 1, cs_alloc = 2\<rparr> [[1, 2], [3]]
      = Inr (True, s') \<and> cstr_wf s' \<and> contents s' = [65, 1, 2, 3]"
  using cstr_appends_refine [of "\<lparr>cs_str = [65, 0], cs_len = 1, cs_alloc = 2\<rparr>" "[[1, 2], [3]]" "\<lambda>_. 7"]
  by (simp add: cstr_wf_def contents_def ser_bytes_def)

text \<open>
  \<open>cstr_alloc_min_sz\<close> on a request below \<open>2 ^ 63\<close> bytes never fails: it keeps length and
  contents, makes room for the request and its NUL, and when it reallocates the new size is the
  smallest power of two from 8 on that is large enough.
\<close>

theorem cstr_alloc_rounds_to_power:
  assumes "cstr_wf s" "unat sz < 2 ^ 63" "unat (cs_len s) \<le> unat sz"
  shows "\<exists>s'. cstr_alloc_min_sz junk s sz = Inr (True, s') \<and> cstr_wf s' \<and> contents s' = contents s \<and>
    unat sz < unat (cs_alloc s') \<and>
    (s' = s \<or> (\<exists>k \<ge> 3. unat (cs_alloc s') = 2 ^ k \<and> (k = 3 \<or> 2 ^ (k - 1) \<le> unat sz)))"
  using cstr_alloc_min_sz_ok [of s sz junk] assms by (auto simp: cstr_fresh_or_wf_def)

theorem cstr_alloc_rounds_to_power_witness:
  "\<exists>s'. cstr_alloc_min_sz (\<lambda>_. 7) \<lparr>cs_str = [65, 0], cs_len = 1, cs_alloc = 2\<rparr> 20 = Inr (True, s') \<and>
    20 < unat (cs_alloc s')"
  using cstr_alloc_rounds_to_power [of "\<lparr>cs_str = [65, 0], cs_len = 1, cs_alloc = 2\<rparr>" 20 "\<lambda>_. 7"]
  by (auto simp: cstr_wf_def)

text \<open>
  \<open>cstr_erase\<close> of a range inside the string removes exactly that range, keeps the struct
  well-formed and stays inside the block.
\<close>

theorem cstr_erase_removes_range:
  assumes "cstr_wf s" "unat (cs_len s) < 2 ^ 63" "unat pos + unat n \<le> unat (cs_len s)"
  shows "\<exists>s'. cstr_erase s pos n = Inr (True, s') \<and> cstr_wf s' \<and>
    contents s' = take (unat pos) (contents s) @ drop (unat pos + unat n) (contents s)"
  using assms by (rule cstr_erase_ok)

theorem cstr_erase_removes_range_witness:
  "\<exists>s'. cstr_erase \<lparr>cs_str = [65, 66, 67, 68, 0], cs_len = 4, cs_alloc = 5\<rparr> 1 2 = Inr (True, s') \<and>
    contents s' = [65, 68]"
  using cstr_erase_removes_range [of "\<lparr>cs_str = [65, 66, 67, 68, 0], cs_len = 4, cs_alloc = 5\<rparr>" 1 2]
  by (auto simp: cstr_wf_def contents_def)

text \<open>
  \<open>cstr_compare\<close> returns for all strings shorter than \<open>2 ^ 32\<close> bytes, with -1, 0 or 1, and
  0 exactly for equal contents.
\<close>

theorem cstr_compare_decides_equality:
  assumes "cstr_wf a" "cstr_wf b" "unat (cs_len a) < 2 ^ 32"
  shows "\<exists>r. cstr_compare a b = Some r \<and> r \<in> {-1, 0, 1} \<and>
    (r = 0 \<longleftrightarrow> contents a = contents b) \<and> (r = 0 \<longleftrightarrow> cstr_equal (Some a) (Some b))"
  using cstr_compare_total [OF assms] cstr_equal_contents [OF assms(1,2)] by auto

theorem cstr_compare_decides_equality_witness:
  "\<exists>r. cstr_compare \<lparr>cs_str = [65, 0], cs_len = 1, cs_alloc = 2\<rparr> \<lparr>cs_str = [66, 0], cs_len = 1, cs_alloc = 2\<rparr>
    = Some r \<and> r \<noteq> 0"
  using cstr_compare_decides_equality [of "\<lparr>cs_str = [65, 0], cs_len = 1, cs_alloc = 2\<rparr>"
      "\<lparr>cs_str = [66, 0], cs_len = 1, cs_alloc = 2\<rparr>"]
  by (auto simp: cstr_wf_def contents_def)

end
