(* ===== verification/Vector.thy ===== *)
theory Vector
  imports Serialize
begin

text \<open>
  Model of \<open>src/src/vector.c\<close>, the growable array of pointers that holds the inputs and
  outputs of a transaction, parsed script operations and headers.

  \<open>vec_data\<close> is the block at \<open>data\<close>; an element is \<open>None\<close> for a NULL pointer. \<open>vec_free_f\<close>
  says whether a destructor is installed; the calls made to it are logged, so that ownership
  can be stated. The doubling loops need not end (sizes above \<open>2 ^ 63\<close>, or no allocation at
  all): an operation that does not return is \<open>None\<close>, an access outside the block is
  \<open>Inl OutOfBounds\<close>. New cells after \<open>realloc\<close> hold the parameter \<open>junk\<close>.
\<close>

section \<open>The struct and its operations\<close>

record 'a vector_t =
  vec_data :: "'a option list"
  vec_len :: u64
  vec_alloc :: u64
  vec_free_f :: bool

partial_function (option) double_until :: "u64 \<Rightarrow> u64 \<Rightarrow> u64 option" where
  "double_until al min_sz = (if al < min_sz then double_until (al * 2) min_sz else Some al)"

text \<open>The number of cells of a block of \<open>al * sizeof(void* )\<close> bytes; the product can wrap.\<close>

definition cells :: "u64 \<Rightarrow> nat" where
  "cells al = unat (al * 8) div 8"

definition vector_new :: "u64 \<Rightarrow> bool \<Rightarrow> 'a vector_t option" where
  "vector_new res free_f =
     do { al \<leftarrow> double_until 8 res;
          Some \<lparr>vec_data = replicate (cells al) None, vec_len = 0, vec_alloc = al, vec_free_f = free_f\<rparr> }"

text \<open>The loop of \<open>vector_free_data\<close>; its index is an \<open>unsigned int\<close>.\<close>

partial_function (option) free_loop ::
    "'a option list \<Rightarrow> u64 \<Rightarrow> u32 \<Rightarrow> 'a list \<Rightarrow> 'a list c_outcome option" where
  "free_loop dat n i freed =
     (if ucast i < n then
        (if unat i < length dat then
           (case dat ! unat i of
              None \<Rightarrow> free_loop dat n (i + 1) freed
            | Some x \<Rightarrow> free_loop (dat[unat i := None]) n (i + 1) (freed @ [x]))
         else Some (Inl OutOfBounds))
      else Some (Inr freed))"

text \<open>The struct afterwards and the elements the destructor was called on.\<close>

definition vector_free_data :: "'a vector_t \<Rightarrow> ('a vector_t \<times> 'a list) c_outcome option" where
  "vector_free_data vec =
     (if vec_data vec = [] then Some (Inr (vec, []))
      else
        do { r \<leftarrow> (if vec_free_f vec then free_loop (vec_data vec) (vec_len vec) 0 [] else Some (Inr []));
             Some (seqc r (\<lambda>freed.
               Inr (vec\<lparr>vec_data := [], vec_alloc := 0, vec_len := 0\<rparr>, freed))) })"

text \<open>The struct itself is released: only the calls of the destructor are visible.\<close>

definition vector_free :: "'a vector_t option \<Rightarrow> bool \<Rightarrow> 'a list c_outcome option" where
  "vector_free vec free_array =
     (case vec of
        None \<Rightarrow> Some (Inr [])
      | Some v \<Rightarrow>
          if free_array then
            do { r \<leftarrow> vector_free_data v; Some (seqc r (\<lambda>(_, freed). Inr freed)) }
          else Some (Inr []))"

definition vector_grow :: "(nat \<Rightarrow> 'a option) \<Rightarrow> 'a vector_t \<Rightarrow> u64 \<Rightarrow> (bool \<times> 'a vector_t) option" where
  "vector_grow junk vec min_sz =
     do { new_alloc \<leftarrow> double_until (vec_alloc vec) min_sz;
          if vec_alloc vec = new_alloc then Some (True, vec)
          else
            Some (True, vec\<lparr>vec_data := take (cells new_alloc) (vec_data vec) @
                                        map junk [length (vec_data vec)..<cells new_alloc],
                            vec_alloc := new_alloc\<rparr>) }"

fun find_from :: "'a option list \<Rightarrow> nat \<Rightarrow> nat \<Rightarrow> 'a option \<Rightarrow> int c_outcome" where
  "find_from dat i 0 x = Inr (-1)"
| "find_from dat i (Suc n) x =
     (if i < length dat then
        (if dat ! i = x then Inr (int i) else find_from dat (Suc i) n x)
      else Inl OutOfBounds)"

definition vector_find :: "'a vector_t option \<Rightarrow> 'a option \<Rightarrow> int c_outcome" where
  "vector_find vec x =
     (case vec of
        Some v \<Rightarrow> if vec_len v \<noteq> 0 then find_from (vec_data v) 0 (unat (vec_len v)) x else Inr (-1)
      | None \<Rightarrow> Inr (-1))"

definition vector_add ::
    "(nat \<Rightarrow> 'a option) \<Rightarrow> 'a vector_t \<Rightarrow> 'a option \<Rightarrow> (bool \<times> 'a vector_t) c_outcome option" where
  "vector_add junk vec x =
     do { (ok, v) \<leftarrow> (if vec_len vec = vec_alloc vec then vector_grow junk vec (vec_len vec + 1)
                      else Some (True, vec));
          if \<not> ok then Some (Inr (False, v))
          else if unat (vec_len v) < length (vec_data v) then
            Some (Inr (True, v\<lparr>vec_data := (vec_data v)[unat (vec_len v) := x],
                               vec_len := vec_len v + 1\<rparr>))
          else Some (Inl OutOfBounds) }"

text \<open>The result holds the struct and the arguments of the destructor calls, NULL included.\<close>

definition vector_remove_range ::
    "'a vector_t option \<Rightarrow> u64 \<Rightarrow> u64 \<Rightarrow> ('a vector_t option \<times> 'a option list) c_outcome" where
  "vector_remove_range vec pos n =
     (case vec of
        None \<Rightarrow> Inr (None, [])
      | Some v \<Rightarrow>
          if pos + n > vec_len v then Inr (Some v, [])
          else if unat pos + unat n > length (vec_data v) \<or>
                  unat pos + unat n + unat (vec_len v - pos - n) > length (vec_data v) then Inl OutOfBounds
          else
            let dat = vec_data v;
                freed = (if vec_free_f v then take (unat n) (drop (unat pos) dat) else []);
                tail = take (unat (vec_len v - pos - n)) (drop (unat pos + unat n) dat) in
            Inr (Some (v\<lparr>vec_data := take (unat pos) dat @ tail @ drop (unat pos + length tail) dat,
                         vec_len := vec_len v - n\<rparr>), freed))"

definition vector_remove_idx ::
    "'a vector_t option \<Rightarrow> u64 \<Rightarrow> ('a vector_t option \<times> 'a option list) c_outcome" where
  "vector_remove_idx vec pos = vector_remove_range vec pos 1"

definition vector_remove ::
    "'a vector_t option \<Rightarrow> 'a option \<Rightarrow> (bool \<times> 'a vector_t option \<times> 'a option list) c_outcome" where
  "vector_remove vec x =
     seqc (vector_find vec x) (\<lambda>idx.
     if idx < 0 then Inr (False, vec, [])
     else seqc (vector_remove_idx vec (of_int idx)) (\<lambda>(v, freed). Inr (True, v, freed)))"

text \<open>The growing case stores NULL in the new cells and leaves \<open>len\<close> as it was.\<close>

definition vector_resize ::
    "(nat \<Rightarrow> 'a option) \<Rightarrow> 'a vector_t \<Rightarrow> u64 \<Rightarrow> (bool \<times> 'a vector_t \<times> 'a option list) c_outcome option" where
  "vector_resize junk vec newsz =
     (if newsz = vec_len vec then Some (Inr (True, vec, []))
      else if newsz < vec_len vec then
        let dat = vec_data vec; n = unat newsz; m = unat (vec_len vec) in
        if m > length dat then Some (Inl OutOfBounds)
        else
          Some (Inr (True, vec\<lparr>vec_data := take n dat @ replicate (m - n) None @ drop m dat,
                               vec_len := newsz\<rparr>,
                     if vec_free_f vec then take (m - n) (drop n dat) else []))
      else
        do { (ok, v) \<leftarrow> vector_grow junk vec newsz;
             if \<not> ok then Some (Inr (False, v, []))
             else
               let dat = vec_data v; n = unat (vec_len v); m = unat newsz in
               if m > length dat then Some (Inl OutOfBounds)
               else Some (Inr (True, v\<lparr>vec_data := take n dat @ replicate (m - n) None @ drop m dat\<rparr>, [])) })"

section \<open>Vectors of C strings\<close>

text \<open>
  The elements are C strings, given by their bytes without the NUL. \<open>serializeVector\<close> writes
  into the first \<open>outlen\<close> bytes of \<open>out\<close>; on a false result only part of it is written.
\<close>

fun serialize_loop :: "bytes option list \<Rightarrow> bytes \<Rightarrow> nat \<Rightarrow> nat \<Rightarrow> bool \<times> bytes \<times> nat" where
  "serialize_loop [] out outlen offset = (True, out, offset)"
| "serialize_loop (None # xs) out outlen offset = serialize_loop xs out outlen offset"
| "serialize_loop (Some x # xs) out outlen offset =
     (if length x > outlen - offset then (False, out, offset)
      else serialize_loop xs (blit out offset x) outlen (offset + length x))"

definition serializeVector :: "bytes vector_t \<Rightarrow> bytes \<Rightarrow> nat \<Rightarrow> (bytes \<times> nat) option" where
  "serializeVector vec out outlen =
     (if outlen = 0 then None
      else
        case serialize_loop (take (unat (vec_len vec)) (vec_data vec)) out outlen 0 of
          (ok, out', written) \<Rightarrow> if ok then Some (out', written) else None)"

definition MAX_SERIALIZE_SIZE :: nat where
  "MAX_SERIALIZE_SIZE = 2048"

text \<open>\<open>strnlen\<close> and \<open>strdup\<close> on a block: running off its end is out of bounds.\<close>

definition block_strnlen :: "bytes \<Rightarrow> nat \<Rightarrow> nat c_outcome" where
  "block_strnlen blk n =
     (if 0 \<in> set (take n blk) \<or> n \<le> length blk then Inr (strnlen blk n) else Inl OutOfBounds)"

definition block_strdup :: "bytes \<Rightarrow> bytes c_outcome" where
  "block_strdup blk =
     (if 0 \<in> set blk then Inr (takeWhile (\<lambda>c. c \<noteq> 0) blk) else Inl OutOfBounds)"

function deserialize_loop ::
    "(nat \<Rightarrow> bytes option) \<Rightarrow> bytes vector_t \<Rightarrow> bytes \<Rightarrow> nat \<Rightarrow> nat \<Rightarrow>
     (nat option \<times> bytes vector_t) c_outcome option" where
  "deserialize_loop junk vec inp inlen offset =
     (if offset < inlen then
        (case block_strnlen (drop offset inp) (MAX_SERIALIZE_SIZE - offset) of
           Inl e \<Rightarrow> Some (Inl e)
         | Inr l \<Rightarrow>
             if l = 0 \<or> l \<ge> MAX_SERIALIZE_SIZE then Some (Inr (None, vec))
             else
               (case block_strdup (drop offset inp) of
                  Inl e \<Rightarrow> Some (Inl e)
                | Inr s \<Rightarrow>
                    (case vector_add junk vec (Some s) of
                       None \<Rightarrow> None
                     | Some (Inl e) \<Rightarrow> Some (Inl e)
                     | Some (Inr (ok, v)) \<Rightarrow>
                         if \<not> ok then Some (Inr (None, v))
                         else deserialize_loop junk v inp inlen (offset + (l + 1)))))
      else Some (Inr (Some offset, vec)))"
  by pat_completeness auto
termination by (relation "measure (\<lambda>(_, _, _, inlen, offset). inlen - offset)") auto

text \<open>The first component of the result is \<open>*read\<close>, \<open>None\<close> for a false return.\<close>

definition deserializeVector ::
    "(nat \<Rightarrow> bytes option) \<Rightarrow> bytes vector_t \<Rightarrow> bytes \<Rightarrow> nat \<Rightarrow> (nat option \<times> bytes vector_t) c_outcome option" where
  "deserializeVector junk vec inp inlen =
     (if inlen > MAX_SERIALIZE_SIZE then Some (Inr (None, vec))
      else deserialize_loop junk vec inp inlen 0)"

section \<open>The doubling loop\<close>

lemma double_until_stop: "\<not> al < m \<Longrightarrow> double_until al m = Some al"
  by (subst double_until.simps) simp

lemma double_until_power:
  assumes "k \<le> 63" "unat m \<le> 2 ^ 63"
  shows "\<exists>j. k \<le> j \<and> j \<le> 63 \<and> double_until (2 ^ k) m = Some (2 ^ j) \<and> unat m \<le> 2 ^ j \<and>
    (j = k \<or> 2 ^ j < 2 * unat m)"
  using assms(1)
proof (induction "63 - k" arbitrary: k)
  case 0
  then have "k = 63" by simp
  then have "\<not> (2 ^ k :: u64) < m" using assms(2) unat_2p [of 63, where 'a = 64] by (simp add: word_less_nat_alt)
  then show ?case using 0 assms(2) \<open>k = 63\<close> by (auto simp: double_until_stop)
next
  case (Suc d)
  have u: "unat (2 ^ k :: u64) = 2 ^ k" using Suc.prems by (simp add: unat_2p)
  show ?case
  proof (cases "(2 ^ k :: u64) < m")
    case True
    obtain j where "Suc k \<le> j" "j \<le> 63" "double_until (2 ^ Suc k) m = Some (2 ^ j)" "unat m \<le> 2 ^ j"
        "j = Suc k \<or> 2 ^ j < 2 * unat m"
      using Suc.hyps(1) [of "Suc k"] Suc.hyps(2) by force
    moreover have "double_until (2 ^ k) m = double_until (2 ^ Suc k) m"
      using True by (subst double_until.simps) (simp add: mult.commute)
    ultimately show ?thesis
      using True u by (intro exI [of _ j]) (auto simp: word_less_nat_alt)
  next
    case False
    then show ?thesis
      using u Suc.prems by (intro exI [of _ k]) (auto simp: double_until_stop word_less_nat_alt)
  qed
qed

lemma double_until_Some:
  assumes "double_until al m = Some r"
  shows "m \<le> r \<and> (\<exists>j. r = al * 2 ^ j)"
proof (rule double_until.raw_induct [of "\<lambda>al m r. m \<le> r \<and> (\<exists>j. r = al * 2 ^ j)", OF _ assms])
  fix loop :: "u64 \<Rightarrow> u64 \<Rightarrow> u64 option" and al m r
  assume ih: "\<And>al m r. loop al m = Some r \<Longrightarrow> m \<le> r \<and> (\<exists>j. r = al * 2 ^ j)"
    and step: "(if al < m then loop (al * 2) m else Some al) = Some r"
  show "m \<le> r \<and> (\<exists>j. r = al * 2 ^ j)"
  proof (cases "al < m")
    case True
    then obtain j where "m \<le> r" "r = al * 2 * 2 ^ j" using ih [of "al * 2" m r] step by auto
    then show ?thesis by (auto intro: exI [of _ "Suc j"])
  next
    case False
    then show ?thesis using step by (auto intro: exI [of _ 0])
  qed
qed

lemma double_until_diverges_0: "0 < m \<Longrightarrow> double_until 0 m = None"
  using double_until_Some [of 0 m] by (cases "double_until 0 m") auto

lemma double_until_diverges_big:
  assumes "2 ^ 63 < unat m" shows "double_until 8 m = None"
proof (rule ccontr)
  assume "double_until 8 m \<noteq> None"
  then obtain r j where r: "m \<le> r" "r = 8 * 2 ^ j" using double_until_Some by blast
  have "unat r \<le> 2 ^ 63"
  proof (cases "j + 3 < 64")
    case True
    have "r = 2 ^ (j + 3)" unfolding r(2) by (simp add: power_add mult.commute)
    then have "unat r = 2 ^ (j + 3)" using True unat_2p [of "j + 3", where 'a = 64] by simp
    moreover have "(2 :: nat) ^ (j + 3) \<le> 2 ^ 63" using True by (intro power_increasing) auto
    ultimately show ?thesis by simp
  next
    case False
    then obtain d where "j = 61 + d" using le_Suc_ex [of 61 j] by auto
    then have "r = (8 * 2 ^ 61) * 2 ^ d" unfolding r(2) by (simp add: power_add)
    also have "(8 * 2 ^ 61 :: u64) = 0" by simp
    finally have "r = 0" by simp
    then show ?thesis by simp
  qed
  then show False using assms r(1) by (simp add: word_le_nat_alt)
qed

section \<open>Invariant and contents\<close>

definition vec_wf :: "'a vector_t \<Rightarrow> bool" where
  "vec_wf v \<longleftrightarrow> (\<exists>k. 3 \<le> k \<and> k \<le> 60 \<and> vec_alloc v = 2 ^ k \<and> length (vec_data v) = 2 ^ k) \<and>
     unat (vec_len v) \<le> length (vec_data v)"

definition elems :: "'a vector_t \<Rightarrow> 'a option list" where
  "elems v = take (unat (vec_len v)) (vec_data v)"

lemma length_elems [simp]: "vec_wf v \<Longrightarrow> length (elems v) = unat (vec_len v)"
  by (simp add: vec_wf_def elems_def)

lemma cells_power: "k \<le> 60 \<Longrightarrow> cells (2 ^ k) = 2 ^ k"
proof -
  assume k: "k \<le> 60"
  have "(2 ^ k * 8 :: u64) = 2 ^ (k + 3)" by (simp add: power_add)
  then have "unat (2 ^ k * 8 :: u64) = 2 ^ (k + 3)" using k by (simp add: unat_2p)
  then show ?thesis by (simp add: cells_def power_add)
qed

lemma vector_new_ok:
  assumes "unat res \<le> 2 ^ 60"
  shows "\<exists>v. vector_new res f = Some v \<and> vec_wf v \<and> elems v = [] \<and> vec_free_f v = f \<and>
    unat res \<le> unat (vec_alloc v)"
proof -
  obtain j where j: "3 \<le> j" "j \<le> 63" "double_until (2 ^ 3) res = Some (2 ^ j)" "unat res \<le> 2 ^ j"
      "j = 3 \<or> 2 ^ j < 2 * unat res"
    using double_until_power [of 3 res] assms by auto
  have "j \<le> 60"
  proof (rule ccontr)
    assume "\<not> j \<le> 60"
    then have "(2 :: nat) ^ 61 \<le> 2 ^ j" by (intro power_increasing) auto
    then show False using j(5) assms \<open>\<not> j \<le> 60\<close> by auto
  qed
  then show ?thesis
    using j by (auto simp: vector_new_def vec_wf_def elems_def cells_power unat_2p)
qed

lemma vector_grow_ok:
  assumes "vec_wf v" "unat m \<le> 2 ^ 60"
  shows "\<exists>v'. vector_grow junk v m = Some (True, v') \<and> vec_wf v' \<and> elems v' = elems v \<and>
    vec_len v' = vec_len v \<and> vec_free_f v' = vec_free_f v \<and> unat m \<le> length (vec_data v') \<and>
    length (vec_data v) \<le> length (vec_data v')"
proof -
  obtain k where k: "3 \<le> k" "k \<le> 60" "vec_alloc v = 2 ^ k" "length (vec_data v) = 2 ^ k"
    and l: "unat (vec_len v) \<le> length (vec_data v)"
    using assms(1) by (auto simp: vec_wf_def)
  obtain j where j: "k \<le> j" "j \<le> 63" "double_until (2 ^ k) m = Some (2 ^ j)" "unat m \<le> 2 ^ j"
      "j = k \<or> 2 ^ j < 2 * unat m"
    using double_until_power [of k m] assms(2) k by auto
  have j60: "j \<le> 60"
  proof (rule ccontr)
    assume "\<not> j \<le> 60"
    then have "(2 :: nat) ^ 61 \<le> 2 ^ j" by (intro power_increasing) auto
    then show False using j(5) assms(2) \<open>\<not> j \<le> 60\<close> k(2) by auto
  qed
  have le: "(2 :: nat) ^ k \<le> 2 ^ j" using j(1) by (intro power_increasing) auto
  show ?thesis
  proof (cases "(2 ^ k :: u64) = 2 ^ j")
    case True
    have "unat (2 ^ k :: u64) = 2 ^ k" "unat (2 ^ j :: u64) = 2 ^ j"
      using k(2) j60 by (simp_all add: unat_2p)
    then have "(2 :: nat) ^ k = 2 ^ j" unfolding True by simp
    then have "unat m \<le> length (vec_data v)" unfolding k(4) using j(4) by simp
    moreover have "double_until (vec_alloc v) m = Some (vec_alloc v)"
      using j(3) unfolding k(3) True [symmetric] .
    ultimately show ?thesis using assms(1) by (simp add: vector_grow_def)
  next
    case False
    have ll: "unat (vec_len v) \<le> 2 ^ j" using l le k(4) by linarith
    show ?thesis
      using False j k j60 le l by (auto simp: vector_grow_def vec_wf_def elems_def cells_power ll)
  qed
qed

lemma vector_add_ok:
  assumes "vec_wf v" "unat (vec_len v) < 2 ^ 60"
  shows "\<exists>v'. vector_add junk v x = Some (Inr (True, v')) \<and> vec_wf v' \<and> elems v' = elems v @ [x] \<and>
    vec_free_f v' = vec_free_f v"
proof -
  have s1: "unat (vec_len v + 1) = unat (vec_len v) + 1" using assms(2) by (simp add: unat_word_ariths)
  obtain v1 where v1: "(if vec_len v = vec_alloc v then vector_grow junk v (vec_len v + 1)
        else Some (True, v)) = Some (True, v1)" "vec_wf v1" "elems v1 = elems v" "vec_len v1 = vec_len v"
      "vec_free_f v1 = vec_free_f v" "unat (vec_len v) < length (vec_data v1)"
  proof (cases "vec_len v = vec_alloc v")
    case True
    then show ?thesis
      using vector_grow_ok [of v "vec_len v + 1" junk] assms s1 that by auto
  next
    case False
    obtain k where "k \<le> 60" "vec_alloc v = 2 ^ k" "length (vec_data v) = 2 ^ k"
      "unat (vec_len v) \<le> length (vec_data v)" using assms(1) by (auto simp: vec_wf_def)
    moreover have "unat (vec_len v) \<noteq> unat (vec_alloc v)" using False by (simp add: word_unat_eq_iff)
    ultimately have "unat (vec_len v) < length (vec_data v)" by (simp add: unat_2p)
    then show ?thesis using False assms(1) that by auto
  qed
  let ?v = "v1\<lparr>vec_data := (vec_data v1)[unat (vec_len v) := x], vec_len := vec_len v + 1\<rparr>"
  have "vector_add junk v x = Some (Inr (True, ?v))" using v1 by (simp add: vector_add_def)
  moreover have "vec_wf ?v" using v1(2,6) s1 by (auto simp: vec_wf_def)
  moreover have "elems ?v = elems v1 @ [x]"
    using v1(4,6) s1 by (simp add: elems_def take_Suc_conv_app_nth)
  ultimately show ?thesis using v1(3,5) by auto
qed

lemma vector_remove_range_ok:
  assumes "vec_wf v" "unat pos + unat n \<le> unat (vec_len v)"
  shows "\<exists>v'. vector_remove_range (Some v) pos n =
      Inr (Some v', if vec_free_f v then take (unat n) (drop (unat pos) (elems v)) else []) \<and> vec_wf v' \<and>
      elems v' = take (unat pos) (elems v) @ drop (unat pos + unat n) (elems v) \<and>
      vec_free_f v' = vec_free_f v"
proof -
  let ?L = "unat (vec_len v)" and ?P = "unat pos" and ?N = "unat n"
  have wf: "?L \<le> length (vec_data v)" using assms(1) by (simp add: vec_wf_def)
  have sum: "unat (pos + n) = ?P + ?N"
    using assms(2) unat_u64_less [of "vec_len v"] by (simp add: unat_word_ariths)
  have t: "unat (vec_len v - n) = ?L - ?N" "unat (vec_len v - pos - n) = ?L - ?P - ?N"
    using assms(2) by (simp_all add: unat_sub word_le_nat_alt)
  have ng: "\<not> vec_len v < pos + n" using assms(2) sum by (simp add: word_less_nat_alt)
  let ?tail = "take (?L - ?P - ?N) (drop (?P + ?N) (vec_data v))"
  let ?v = "v\<lparr>vec_data := take ?P (vec_data v) @ ?tail @ drop (?P + length ?tail) (vec_data v),
      vec_len := vec_len v - n\<rparr>"
  have lt: "length ?tail = ?L - ?P - ?N" using wf assms(2) by simp
  have fr: "take ?N (drop ?P (vec_data v)) = take ?N (drop ?P (elems v))"
    using assms(2) by (simp add: elems_def drop_take min_absorb1)
  have "vector_remove_range (Some v) pos n =
      Inr (Some ?v, if vec_free_f v then take ?N (drop ?P (elems v)) else [])"
    using ng wf assms(2) by (simp add: vector_remove_range_def t fr Let_def)
  moreover have "length (vec_data ?v) = length (vec_data v)" using wf assms(2) lt by simp
  then have "vec_wf ?v" using assms(1) wf t by (auto simp: vec_wf_def)
  moreover have "elems ?v = take ?P (elems v) @ drop (?P + ?N) (elems v)"
    using wf assms(2) lt by (simp add: elems_def t drop_take min_absorb1 min_absorb2 diff_commute add.commute)
  ultimately show ?thesis by auto
qed

lemma find_from_spec:
  "i + n \<le> length dat \<Longrightarrow> \<exists>r. find_from dat i n x = Inr r \<and>
    (if x \<in> set (take n (drop i dat)) then i \<le> nat r \<and> 0 \<le> r \<and> nat r < i + n \<and> dat ! nat r = x \<and>
       x \<notin> set (take (nat r - i) (drop i dat))
     else r = -1)"
proof (induction n arbitrary: i)
  case (Suc n)
  have d: "drop i dat = dat ! i # drop (Suc i) dat" using Suc.prems by (simp add: Cons_nth_drop_Suc)
  show ?case
  proof (cases "dat ! i = x")
    case True
    then show ?thesis using Suc.prems d by simp
  next
    case False
    obtain r where r: "find_from dat (Suc i) n x = Inr r"
      "if x \<in> set (take n (drop (Suc i) dat)) then Suc i \<le> nat r \<and> 0 \<le> r \<and> nat r < Suc i + n \<and> dat ! nat r = x \<and>
         x \<notin> set (take (nat r - Suc i) (drop (Suc i) dat)) else r = -1"
      using Suc.IH [of "Suc i"] Suc.prems by auto
    have "take (nat r - i) (drop i dat) = dat ! i # take (nat r - Suc i) (drop (Suc i) dat)"
      if "Suc i \<le> nat r" using that d by (simp add: take_Cons')
    then show ?thesis using r False Suc.prems d by (auto split: if_splits)
  qed
qed simp

lemma vector_find_spec:
  assumes "vec_wf v"
  shows "\<exists>r. vector_find (Some v) x = Inr r \<and>
    (if x \<in> set (elems v) then 0 \<le> r \<and> nat r < length (elems v) \<and> elems v ! nat r = x \<and>
       x \<notin> set (take (nat r) (elems v))
     else r = -1)"
proof (cases "vec_len v = 0")
  case True
  then show ?thesis by (simp add: vector_find_def elems_def)
next
  case False
  have l: "unat (vec_len v) \<le> length (vec_data v)" using assms by (simp add: vec_wf_def)
  obtain r where r: "find_from (vec_data v) 0 (unat (vec_len v)) x = Inr r"
    "if x \<in> set (elems v) then 0 \<le> r \<and> nat r < unat (vec_len v) \<and> vec_data v ! nat r = x \<and>
       x \<notin> set (take (nat r) (vec_data v)) else r = -1"
    using find_from_spec [of 0 "unat (vec_len v)" "vec_data v" x] l by (auto simp: elems_def split: if_splits)
  have "take (nat r) (vec_data v) = take (nat r) (elems v)" if "nat r < unat (vec_len v)"
    using that by (simp add: elems_def)
  then show ?thesis using r False l assms by (auto simp: vector_find_def elems_def)
qed

section \<open>Destructor calls\<close>

definition present :: "'a option list \<Rightarrow> 'a list" where
  "present xs = map the (filter (\<lambda>x. x \<noteq> None) xs)"

lemma present_simps [simp]:
  "present [] = []" "present (None # xs) = present xs" "present (Some x # xs) = x # present xs"
  "present (xs @ ys) = present xs @ present ys"
  by (simp_all add: present_def)

lemma free_loop_ok:
  assumes "unat n < 2 ^ 32" "unat i \<le> unat n" "unat n \<le> length dat"
  shows "free_loop (dat :: 'a option list) n i freed = Some (Inr (freed @ present (take (unat n - unat i) (drop (unat i) dat))))"
  using assms(2,3)
proof (induction "unat n - unat i" arbitrary: i dat freed)
  case 0
  have "\<not> (ucast i :: u64) < n" using 0 by (simp add: word_less_nat_alt unat_ucast_up)
  then show ?case using 0 by (subst free_loop.simps) simp
next
  case (Suc d)
  have lt: "(ucast i :: u64) < n" "unat i < length dat"
    using Suc by (simp_all add: word_less_nat_alt unat_ucast_up)
  have si: "unat (i + 1) = Suc (unat i)" using Suc.hyps(2) assms(1) by (simp add: unat_word_ariths)
  have d: "drop (unat i) dat = dat ! unat i # drop (Suc (unat i)) dat"
    using lt(2) by (simp add: Cons_nth_drop_Suc)
  have sd: "unat n - unat i = Suc (unat n - Suc (unat i))" using Suc.hyps(2) by simp
  have ih: "free_loop dat' n (i + 1) fr =
      Some (Inr (fr @ present (take (unat n - Suc (unat i)) (drop (Suc (unat i)) dat'))))"
    if "length dat' = length dat" for dat' :: "'a option list" and fr
    using Suc.hyps(1) [of "i + 1" dat' fr] Suc.hyps(2) Suc.prems that unfolding si by simp
  show ?case
  proof (cases "dat ! unat i")
    case None
    then show ?thesis using lt ih [OF refl] by (subst free_loop.simps) (simp add: d sd)
  next
    case (Some x)
    then show ?thesis
      using lt ih [of "dat[unat i := None]"] by (subst free_loop.simps) (simp add: d sd)
  qed
qed

lemma vector_free_ok:
  assumes "vec_wf v" "unat (vec_len v) < 2 ^ 32" "vec_free_f v"
  shows "vector_free (Some v) True = Some (Inr (present (elems v)))"
proof -
  have "unat (vec_len v) \<le> length (vec_data v)" "vec_data v \<noteq> []"
    using assms(1) by (auto simp: vec_wf_def)
  then show ?thesis
    using free_loop_ok [of "vec_len v" 0 "vec_data v" "[]"] assms
    by (simp add: vector_free_def vector_free_data_def elems_def)
qed

section \<open>The interface of an owning sequence\<close>

text \<open>
  What the owners of vectors rely on: \<open>push\<close> adds one element at the end, \<open>release\<close> hands every
  element to the destructor once, in order.
\<close>

fun push_all :: "('v \<Rightarrow> 'a \<Rightarrow> (bool \<times> 'v) c_outcome option) \<Rightarrow> 'v \<Rightarrow> 'a list \<Rightarrow> (bool \<times> 'v) c_outcome option" where
  "push_all push v [] = Some (Inr (True, v))"
| "push_all push v (x # xs) =
     (case push v x of
        None \<Rightarrow> None
      | Some (Inl e) \<Rightarrow> Some (Inl e)
      | Some (Inr (ok, v1)) \<Rightarrow> if ok then push_all push v1 xs else Some (Inr (False, v1)))"

locale owning_seq =
  fixes items :: "'v \<Rightarrow> 'a list"
    and wf :: "'v \<Rightarrow> bool"
    and cap :: nat
    and push :: "'v \<Rightarrow> 'a \<Rightarrow> (bool \<times> 'v) c_outcome option"
    and release :: "'v \<Rightarrow> 'a list c_outcome option"
  assumes push_ok: "wf v \<Longrightarrow> length (items v) < cap \<Longrightarrow>
      \<exists>v'. push v x = Some (Inr (True, v')) \<and> wf v' \<and> items v' = items v @ [x]"
    and release_ok: "wf v \<Longrightarrow> length (items v) \<le> cap \<Longrightarrow> release v = Some (Inr (items v))"
begin

lemma push_all_ok:
  assumes "wf v" "length (items v) + length xs \<le> cap"
  shows "\<exists>v'. push_all push v xs = Some (Inr (True, v')) \<and> wf v' \<and> items v' = items v @ xs"
  using assms
proof (induction xs arbitrary: v)
  case (Cons x xs)
  obtain v1 where v1: "push v x = Some (Inr (True, v1))" "wf v1" "items v1 = items v @ [x]"
    using push_ok [of v x] Cons.prems by auto
  then show ?case using Cons.IH [of v1] Cons.prems by auto
qed simp

lemma build_and_release:
  assumes "wf v" "length (items v) + length xs \<le> cap"
  shows "\<exists>v'. push_all push v xs = Some (Inr (True, v')) \<and> items v' = items v @ xs \<and>
    release v' = Some (Inr (items v @ xs))"
proof -
  obtain v' where v': "push_all push v xs = Some (Inr (True, v'))" "wf v'" "items v' = items v @ xs"
    using push_all_ok [OF assms] by blast
  moreover have "release v' = Some (Inr (items v @ xs))"
    using release_ok [of v'] v' assms(2) by simp
  ultimately show ?thesis by blast
qed

end

definition owned_wf :: "'a vector_t \<Rightarrow> bool" where
  "owned_wf v \<longleftrightarrow> vec_wf v \<and> vec_free_f v \<and> None \<notin> set (elems v)"

lemma present_length: "None \<notin> set xs \<Longrightarrow> length (present xs) = length xs"
proof (induction xs)
  case (Cons x xs)
  then show ?case by (cases x) auto
qed simp

interpretation vec_seq: owning_seq "\<lambda>v. present (elems v)" owned_wf "2 ^ 32 - 1"
    "\<lambda>v x. vector_add junk v (Some x)" "\<lambda>v. vector_free (Some v) True" for junk
proof unfold_locales
  fix v :: "'a vector_t" and x
  assume wf: "owned_wf v" and l: "length (present (elems v)) < 2 ^ 32 - 1"
  have "unat (vec_len v) < 2 ^ 60" using wf l by (simp add: owned_wf_def present_length)
  then show "\<exists>v'. vector_add junk v (Some x) = Some (Inr (True, v')) \<and> owned_wf v' \<and>
      present (elems v') = present (elems v) @ [x]"
    using vector_add_ok [of v junk "Some x"] wf by (auto simp: owned_wf_def)
next
  fix v :: "'a vector_t"
  assume wf: "owned_wf v" and l: "length (present (elems v)) \<le> 2 ^ 32 - 1"
  show "vector_free (Some v) True = Some (Inr (present (elems v)))"
    using vector_free_ok [of v] wf l by (simp add: owned_wf_def present_length)
qed

lemma vec_wf_8:
  "length d = 8 \<Longrightarrow> unat l \<le> 8 \<Longrightarrow>
    vec_wf \<lparr>vec_data = d, vec_len = l, vec_alloc = 8, vec_free_f = f\<rparr>"
  by (auto simp: vec_wf_def intro: exI [of _ 3])

section \<open>Properties\<close>

text \<open>
  C36. A vector created with a destructor and filled with fewer than \<open>2 ^ 32\<close> elements holds them
  in order through all its reallocations, and \<open>vector_free\<close> then calls the destructor on each of
  them exactly once, in order.
\<close>

theorem vector_owns_elements:
  fixes xs :: "'a list"
  assumes "unat res \<le> 2 ^ 60" "length xs < 2 ^ 32"
  shows "\<exists>v v'. vector_new res True = Some v \<and>
    push_all (\<lambda>v x. vector_add junk v (Some x)) v xs = Some (Inr (True, v')) \<and>
    present (elems v') = xs \<and> vector_free (Some v') True = Some (Inr xs)"
proof -
  obtain v :: "'a vector_t"
    where v: "vector_new res True = Some v" "vec_wf v" "elems v = []" "vec_free_f v"
    using vector_new_ok [OF assms(1), of True] by auto
  then have "owned_wf v" "length (present (elems v)) + length xs \<le> 2 ^ 32 - 1"
    using assms(2) by (simp_all add: owned_wf_def)
  from vec_seq.build_and_release [OF this, of junk] v show ?thesis by auto
qed

theorem vector_owns_elements_witness:
  "\<exists>v v'. vector_new 9 True = Some v \<and>
    push_all (\<lambda>v x. vector_add (\<lambda>_. None) v (Some x)) v [1, 2, 3 :: nat] = Some (Inr (True, v')) \<and>
    present (elems v') = [1, 2, 3] \<and> vector_free (Some v') True = Some (Inr [1, 2, 3])"
  by (rule vector_owns_elements) simp_all

text \<open>
  \<open>vector_remove\<close> on a vector that contains the pointer removes its first occurrence, calls
  the destructor on exactly that element, and reports success; otherwise it reports failure and
  changes nothing.
\<close>

theorem vector_remove_first:
  assumes "vec_wf v" "vec_free_f v"
  shows "if x \<in> set (elems v)
    then \<exists>v'. vector_remove (Some v) x = Inr (True, Some v', [x]) \<and> vec_wf v' \<and>
      elems v' = takeWhile (\<lambda>y. y \<noteq> x) (elems v) @ tl (dropWhile (\<lambda>y. y \<noteq> x) (elems v))
    else vector_remove (Some v) x = Inr (False, Some v, [])"
proof (cases "x \<in> set (elems v)")
  case True
  obtain r where r: "vector_find (Some v) x = Inr r" "0 \<le> r" "nat r < length (elems v)"
      "elems v ! nat r = x" "x \<notin> set (take (nat r) (elems v))"
    using vector_find_spec [OF assms(1), of x] True by auto
  have u: "unat (of_int r :: u64) = nat r"
    using r(2,3) assms(1) unat_u64_less [of "vec_len v"] unat_of_nat [of "nat r", where 'a = 64] by simp
  have sp: "elems v = take (nat r) (elems v) @ x # drop (Suc (nat r)) (elems v)"
    using id_take_nth_drop [OF r(3)] r(4) by simp
  have tw: "takeWhile (\<lambda>y. y \<noteq> x) (elems v) = take (nat r) (elems v)"
    "dropWhile (\<lambda>y. y \<noteq> x) (elems v) = x # drop (Suc (nat r)) (elems v)"
    using r(5) by (subst sp, subst takeWhile_append2 dropWhile_append2, auto)+
  have fr: "take 1 (drop (nat r) (elems v)) = [x]"
    using r(3,4) by (simp add: take_Suc_conv_app_nth hd_drop_conv_nth take_Suc)
  obtain v' where "vector_remove_range (Some v) (of_int r) 1 = Inr (Some v', [x])" "vec_wf v'"
      "elems v' = take (nat r) (elems v) @ drop (Suc (nat r)) (elems v)"
    using vector_remove_range_ok [of v "of_int r" 1] assms r(3) u fr by auto
  then show ?thesis using True r(1,2) tw by (simp add: vector_remove_def vector_remove_idx_def)
next
  case False
  then show ?thesis using vector_find_spec [OF assms(1), of x] by (auto simp: vector_remove_def)
qed

theorem vector_remove_first_witness:
  "\<exists>v'. vector_remove (Some \<lparr>vec_data = [Some 1, Some (2 :: nat), Some 1, None, None, None, None, None],
      vec_len = 3, vec_alloc = 8, vec_free_f = True\<rparr>) (Some 1) = Inr (True, Some v', [Some 1]) \<and>
    elems v' = [Some 2, Some 1]"
  using vector_remove_first [of "\<lparr>vec_data = [Some 1, Some (2 :: nat), Some 1, None, None, None, None, None],
      vec_len = 3, vec_alloc = 8, vec_free_f = True\<rparr>" "Some 1"]
  by (auto simp: elems_def vec_wf_8)

text \<open>
  The growth loop of \<open>vector_new\<close> ends exactly for requests up to \<open>2 ^ 63\<close>: above that the
  doubled size wraps to 0 and the call never returns.
\<close>

theorem vector_new_terminates_iff: "(\<exists>v. vector_new res f = Some v) \<longleftrightarrow> unat res \<le> 2 ^ 63"
proof
  show "unat res \<le> 2 ^ 63" if "\<exists>v. vector_new res f = Some v"
    using that double_until_diverges_big [of res] by (fastforce simp: vector_new_def)
  show "\<exists>v. vector_new res f = Some v" if "unat res \<le> 2 ^ 63"
    using double_until_power [of 3 res] that by (auto simp: vector_new_def)
qed

text \<open>
  \<open>vector_resize\<close> to a larger size succeeds but leaves the vector at its old length: only the
  allocation grows, although its documentation promises a vector of \<open>newsz\<close> elements.
\<close>

theorem vector_resize_grow_keeps_length:
  assumes "vec_wf v" "unat (vec_len v) < unat newsz" "unat newsz \<le> 2 ^ 60"
  shows "\<exists>v'. vector_resize junk v newsz = Some (Inr (True, v', [])) \<and> vec_wf v' \<and>
    vec_len v' = vec_len v \<and> elems v' = elems v \<and> unat newsz \<le> length (vec_data v')"
proof -
  obtain v1 where v1: "vector_grow junk v newsz = Some (True, v1)" "vec_wf v1" "elems v1 = elems v"
      "vec_len v1 = vec_len v" "unat newsz \<le> length (vec_data v1)"
    using vector_grow_ok [OF assms(1,3)] by blast
  define d where "d = take (unat (vec_len v)) (vec_data v1) @
    replicate (unat newsz - unat (vec_len v)) None @ drop (unat newsz) (vec_data v1)"
  have l: "length d = length (vec_data v1)" using v1(5) assms(2) by (simp add: d_def)
  have t: "take (unat (vec_len v)) d = take (unat (vec_len v)) (vec_data v1)"
    using v1(5) assms(2) by (simp add: d_def)
  have "vector_resize junk v newsz = Some (Inr (True, v1\<lparr>vec_data := d\<rparr>, []))"
    using v1(1,4,5) assms(2) by (auto simp: vector_resize_def Let_def word_less_nat_alt d_def)
  moreover have "vec_wf (v1\<lparr>vec_data := d\<rparr>)" using v1(2) l by (simp add: vec_wf_def)
  moreover have "elems (v1\<lparr>vec_data := d\<rparr>) = elems v1" using v1(4) t by (simp add: elems_def)
  ultimately show ?thesis using v1(3,4,5) l by auto
qed

theorem vector_resize_grow_keeps_length_witness:
  "\<exists>v'. vector_resize (\<lambda>_. None) \<lparr>vec_data = [Some (1 :: nat), None, None, None, None, None, None, None],
      vec_len = 1, vec_alloc = 8, vec_free_f = True\<rparr> 5 = Some (Inr (True, v', [])) \<and>
    elems v' = [Some 1]"
  using vector_resize_grow_keeps_length [of "\<lparr>vec_data = [Some (1 :: nat), None, None, None, None, None, None, None],
      vec_len = 1, vec_alloc = 8, vec_free_f = True\<rparr>" 5 "\<lambda>_. None"]
  by (auto simp: elems_def vec_wf_8)

end
