(* ===== verification/Koinu.thy ===== *)
theory Koinu
  imports Serialize
begin

text \<open>
  Model of \<open>src/src/koinu.c\<close>: conversion between amounts in koinu (\<open>uint64_t\<close>) and decimal
  strings of coins with eight digits behind the point.

  A C string argument is its bytes without the NUL. \<open>strtoull\<close> (base 10) is modelled from
  the C standard: leading white space, one sign, digits, saturation with \<open>ERANGE\<close>, negation
  modulo \<open>2 ^ 64\<close>. The two local arrays of \<open>coins_to_koinu_str\<close> keep their sizes, so that a
  write outside them is the outcome \<open>Inl OutOfBounds\<close>.
\<close>

section \<open>strtoull\<close>

definition is_space :: "u8 \<Rightarrow> bool" where
  "is_space c \<longleftrightarrow> c = 32 \<or> (9 \<le> c \<and> c \<le> 13)"

definition is_digit :: "u8 \<Rightarrow> bool" where
  "is_digit c \<longleftrightarrow> 48 \<le> c \<and> c \<le> 57"

fun dec_val :: "bytes \<Rightarrow> nat \<Rightarrow> nat" where
  "dec_val [] acc = acc"
| "dec_val (c # cs) acc = dec_val cs (10 * acc + unat (c - 48))"

text \<open>The value, whether \<open>errno\<close> is set to \<open>ERANGE\<close>, and the offset of \<open>*end\<close>.\<close>

definition strtoull :: "bytes \<Rightarrow> u64 \<times> bool \<times> nat" where
  "strtoull s =
     (let sp = length (takeWhile is_space s);
          body = drop sp s;
          sg = (if body \<noteq> [] \<and> (hd body = 43 \<or> hd body = 45) then 1 else 0);
          neg = (body \<noteq> [] \<and> hd body = 45);
          ds = takeWhile is_digit (drop sg body);
          v = dec_val ds 0 in
      if ds = [] then (0, False, 0)
      else if v \<ge> 2 ^ 64 then (- 1, True, sp + sg + length ds)
      else (if neg then - of_nat v else of_nat v, False, sp + sg + length ds))"

section \<open>The functions of the source\<close>

datatype conversion_type =
    CONVERSION_SUCCESS
  | CONVERSION_NON_DECIMAL
  | CONVERSION_INVALID_STR_TERMINATION
  | CONVERSION_OUT_OF_RANGE
  | CONVERSION_OVERFLOW
  | CONVERSION_UNDERFLOW
  | CONVERSION_UNSUPPORTED_VALUE
  | CONVERSION_FAILURE

fun conversion_type_to_str :: "conversion_type \<Rightarrow> string" where
  "conversion_type_to_str CONVERSION_SUCCESS = ''CONVERSION_SUCCESS''"
| "conversion_type_to_str CONVERSION_NON_DECIMAL = ''CONVERSION_NON_DECIMAL''"
| "conversion_type_to_str CONVERSION_INVALID_STR_TERMINATION = ''CONVERSION_INVALID_STR_TERMINATION''"
| "conversion_type_to_str CONVERSION_OUT_OF_RANGE = ''CONVERSION_OUT_OF_RANGE''"
| "conversion_type_to_str CONVERSION_OVERFLOW = ''CONVERSION_OVERFLOW''"
| "conversion_type_to_str CONVERSION_UNDERFLOW = ''CONVERSION_UNDERFLOW''"
| "conversion_type_to_str CONVERSION_UNSUPPORTED_VALUE = ''CONVERSION_UNSUPPORTED_VALUE''"
| "conversion_type_to_str CONVERSION_FAILURE = ''CONVERSION_FAILURE''"

definition check_length :: "bytes \<Rightarrow> nat" where
  "check_length str = (let integer_length = length str in if integer_length > 22 then 0 else integer_length)"

text \<open>
  The pointers are \<open>None\<close> for NULL, otherwise the string at \<open>src\<close>, the offset \<open>src_end - src\<close>
  and the character at \<open>target_end\<close>. \<open>erange\<close> is \<open>errno == ERANGE\<close>.
\<close>

definition validate_conversion :: "u64 \<Rightarrow> (bytes \<times> nat \<times> u8) option \<Rightarrow> bool \<Rightarrow> conversion_type" where
  "validate_conversion converted src erange =
     (let type0 = CONVERSION_SUCCESS;
          type1 = (case src of
                     None \<Rightarrow> type0
                   | Some (s, e, t) \<Rightarrow>
                       if t \<noteq> (s @ [0]) ! e then CONVERSION_INVALID_STR_TERMINATION
                       else if e = 0 then CONVERSION_NON_DECIMAL
                       else type0);
          type2 = (if converted = 0xFFFFFFFFFFFFFFFF \<and> erange then CONVERSION_OUT_OF_RANGE else type1);
          type3 = (if converted \<ge> 0xFFFFFFFFFFFFFFFF then CONVERSION_OVERFLOW else type2) in
      if converted = 0xFFFFF511543FB600 then CONVERSION_UNDERFLOW else type3)"

lemma div_10_less: "0 < (x :: u64) \<Longrightarrow> unat (x div 10) < unat x"
  by (simp add: unat_div word_less_nat_alt)

function calc_length :: "u64 \<Rightarrow> nat" where
  "calc_length x = (if x > 0 then calc_length (x div 10) + 1 else 0)"
  by auto
termination by (relation "measure unat") (use div_10_less in auto)

declare calc_length.simps [simp del]

text \<open>The loop of \<open>string\<close>: \<open>k\<close> digits are still to be written, the next one to index \<open>k - 1\<close>.\<close>

fun string_loop :: "bytes \<Rightarrow> nat \<Rightarrow> u64 \<Rightarrow> bytes" where
  "string_loop out 0 input = out"
| "string_loop out (Suc k) input = string_loop (out[k := ucast (input mod 10) + 48]) k (input div 10)"

definition string_out :: "u64 \<Rightarrow> bytes \<Rightarrow> bytes c_outcome" where
  "string_out input out =
     (let l = calc_length input in
      if l < length out then Inr ((string_loop out l input)[l := 0]) else Inl OutOfBounds)"

definition koinu_coins_str_required_size :: "u64 \<Rightarrow> nat" where
  "koinu_coins_str_required_size koinu =
     (let l = calc_length koinu in if l < 9 then 11 else l + 2)"

text \<open>The two loops of the short case: \<open>n\<close> cells from \<open>i\<close> on are still to be filled.\<close>

fun zero_loop :: "bytes \<Rightarrow> nat \<Rightarrow> nat \<Rightarrow> bytes" where
  "zero_loop str i 0 = str"
| "zero_loop str i (Suc n) =
     zero_loop (if i = 0 \<or> i = 1 then str[0 := 48, 1 := 46] else str[i := 48]) (Suc i) n"

fun swap_loop :: "bytes \<Rightarrow> bytes \<Rightarrow> nat \<Rightarrow> nat \<Rightarrow> nat \<Rightarrow> bytes" where
  "swap_loop str swap i j 0 = str"
| "swap_loop str swap i j (Suc n) = swap_loop (str[i := swap ! j]) swap (Suc i) (Suc j) n"

text \<open>The loop of the long case.\<close>

fun point_loop :: "bytes \<Rightarrow> bytes \<Rightarrow> nat \<Rightarrow> nat \<Rightarrow> nat \<Rightarrow> bytes" where
  "point_loop str tmp target i 0 = str"
| "point_loop str tmp target i (Suc n) =
     point_loop
       (if i < target then str[i := tmp ! i]
        else if i = target then str[i := tmp ! i, i + 1 := 46]
        else str[i + 1 := tmp ! i])
       tmp target (Suc i) n"

text \<open>\<open>str\<close> is the caller's array (\<open>None\<close> for NULL) and \<open>tmp0\<close> what the stack array holds at first.\<close>

definition koinu_to_coins_str :: "bytes \<Rightarrow> u64 \<Rightarrow> bytes option \<Rightarrow> nat \<Rightarrow> (bool \<times> bytes option) c_outcome" where
  "koinu_to_coins_str tmp0 koinu str str_size =
     (if validate_conversion koinu None False \<noteq> CONVERSION_SUCCESS then Inr (False, str)
      else
        case str of
          None \<Rightarrow> Inr (False, None)
        | Some out \<Rightarrow>
            if str_size < koinu_coins_str_required_size koinu then Inr (False, Some out)
            else
              let l = calc_length koinu;
                  target = (if l < 9 then 10 - l else l - 9) in
              if l < 9 then
                seqc (string_out koinu out) (\<lambda>out1.
                let n = length (takeWhile (\<lambda>c. c \<noteq> 0) out1);
                    swap = take (n + 1) out1;
                    out2 = zero_loop out1 0 target;
                    out3 = swap_loop out2 swap target 0 (10 - target) in
                if 10 < length out3 then Inr (True, Some (out3[10 := 0])) else Inl OutOfBounds)
              else
                seqc (string_out koinu (take 22 tmp0)) (\<lambda>tmp.
                if l + 1 < length out
                then Inr (True, Some ((point_loop out tmp target 0 l)[l + 1 := 0]))
                else Inl OutOfBounds))"

text \<open>
  The scan up to the point: fills \<open>dogecoin_string\<close> and returns it with the index behind the
  point (or the end).
\<close>

fun coins_scan :: "bytes \<Rightarrow> bytes \<Rightarrow> nat \<Rightarrow> nat \<Rightarrow> (bytes \<times> nat) c_outcome" where
  "coins_scan coins ds i 0 = Inr (ds, i)"
| "coins_scan coins ds i (Suc n) =
     (if i < length ds then
        let ds1 = ds[i := coins ! i] in
        if coins ! i = 46 then
          (if i + 8 \<le> length ds1 then Inr ((blit ds1 i (replicate 8 48))[i := 0], i + 1)
           else Inl OutOfBounds)
        else coins_scan coins ds1 (Suc i) n
      else Inl OutOfBounds)"

definition c_string :: "bytes \<Rightarrow> bytes" where
  "c_string blk = takeWhile (\<lambda>c. c \<noteq> 0) blk"

definition coins_to_koinu_str :: "bytes \<Rightarrow> u64 c_outcome" where
  "coins_to_koinu_str coins =
     (if coins \<noteq> [] \<and> hd coins = 45 then Inr 0
      else
        let l = check_length coins in
        if l = 0 then Inr 0
        else
          seqc (coins_scan coins (replicate 21 0) 0 l) (\<lambda>(dogecoin_string, i).
          let mantissa = take 8 (drop i coins);
              koinu_string = mantissa @ replicate (8 - length mantissa) 48 @ [0];
              (dogecoin, er, e) = strtoull (c_string dogecoin_string);
              state = validate_conversion dogecoin (Some (c_string dogecoin_string, e, 0)) er;
              dogecoin = (if state = CONVERSION_SUCCESS \<and> length (c_string dogecoin_string) \<le> 12
                          then dogecoin * 100000000 else dogecoin);
              (k, er, e) = strtoull (c_string koinu_string);
              koinu = k + dogecoin;
              state = validate_conversion koinu (Some (c_string koinu_string, e, 0)) er in
          Inr (if state = CONVERSION_SUCCESS then koinu else 0)))"

section \<open>Decimal digits\<close>

text \<open>The \<open>w\<close> lowest decimal digits of a number, as characters, most significant first.\<close>

fun dgs :: "nat \<Rightarrow> nat \<Rightarrow> bytes" where
  "dgs 0 n = []"
| "dgs (Suc w) n = dgs w (n div 10) @ [of_nat (n mod 10) + 48]"

lemma length_dgs [simp]: "length (dgs w n) = w"
  by (induction w arbitrary: n) auto

lemma dgs_add: "dgs (v + w) n = dgs v (n div 10 ^ w) @ dgs w n"
  by (induction w arbitrary: n) (auto simp: div_mult2_eq)

lemma dgs_mod: "dgs w (n mod 10 ^ w) = dgs w n"
proof (induction w arbitrary: n)
  case (Suc w)
  have "n mod 10 ^ Suc w div 10 = n div 10 mod 10 ^ w"
    by (simp add: mod_mult2_eq [of n 10])
  moreover have "n mod 10 ^ Suc w mod 10 = n mod 10"
    by (simp add: mod_mult2_eq [of n 10])
  ultimately show ?case using Suc.IH [of "n div 10"] by (simp del: power_Suc)
qed simp

lemma dgs_0: "dgs w 0 = replicate w 48"
  by (induction w) (auto simp: replicate_append_same)

lemma digit_char: "unat (of_nat (n mod 10) + 48 :: u8) = n mod 10 + 48"
  by (simp add: unat_word_ariths)

lemma set_dgs: "c \<in> set (dgs w n) \<Longrightarrow> 48 \<le> unat c \<and> unat c \<le> 57"
  by (induction w arbitrary: n) (auto simp: digit_char)

lemma is_digit_unat: "is_digit c \<longleftrightarrow> 48 \<le> unat c \<and> unat c \<le> 57"
  by (simp add: is_digit_def word_le_nat_alt)

lemma dgs_chars:
  assumes "c \<in> set (dgs w n)"
  shows "is_digit c" "c \<noteq> 0" "c \<noteq> 46" "c \<noteq> 45" "c \<noteq> 43" "\<not> is_space c"
  using set_dgs [OF assms] by (auto simp: is_digit_unat is_space_def word_le_nat_alt)

lemma dec_val_append: "dec_val (xs @ ys) acc = dec_val ys (dec_val xs acc)"
  by (induction xs arbitrary: acc) auto

lemma dec_val_dgs: "dec_val (dgs w n) acc = acc * 10 ^ w + n mod 10 ^ w"
proof (induction w arbitrary: n)
  case (Suc w)
  show ?case by (simp add: dec_val_append Suc.IH mod_mult2_eq [of n 10] algebra_simps)
qed simp

lemma takeWhile_all: "(\<And>x. x \<in> set xs \<Longrightarrow> P x) \<Longrightarrow> takeWhile P xs = xs"
  by (simp add: takeWhile_eq_all_conv)

lemma takeWhile_none: "(\<And>x. x \<in> set xs \<Longrightarrow> \<not> P x) \<Longrightarrow> takeWhile P xs = []"
  by (cases xs) auto

lemma strtoull_dgs:
  assumes "0 < w" "n < 10 ^ w" "n < 2 ^ 64"
  shows "strtoull (dgs w n) = (of_nat n, False, w)"
proof -
  have ne: "dgs w n \<noteq> []" using assms(1) by (metis length_dgs length_greater_0_conv)
  then have hd: "hd (dgs w n) \<in> set (dgs w n)" by simp
  have sp: "takeWhile is_space (dgs w n) = []" by (rule takeWhile_none) (simp add: dgs_chars)
  have dg: "takeWhile is_digit (dgs w n) = dgs w n" by (rule takeWhile_all) (simp add: dgs_chars)
  show ?thesis
    using assms ne dgs_chars(4,5) [OF hd] by (simp add: strtoull_def sp dg Let_def dec_val_dgs)
qed

lemma string_loop_dgs:
  "k \<le> length out \<Longrightarrow> string_loop out k x = dgs k (unat x) @ drop k out"
proof (induction k arbitrary: out x)
  case (Suc k)
  have "(ucast (x mod 10) :: u8) = of_nat (unat (x mod 10))"
    by (metis of_nat_unat)
  then have "(ucast (x mod 10) :: u8) = of_nat (unat x mod 10)" by (simp only: unat_mod) simp
  then show ?case
    using Suc.prems Suc.IH [of "out[k := ucast (x mod 10) + 48]" "x div 10"]
    by (simp add: unat_div drop_update_cancel Cons_nth_drop_Suc [symmetric] nth_list_update)
qed simp

lemma calc_length_bounds:
  "unat x < 10 ^ calc_length x \<and> (0 < unat x \<longrightarrow> 10 ^ (calc_length x - 1) \<le> unat x)"
proof (induction x rule: calc_length.induct)
  case (1 x)
  show ?case
  proof (cases "x > 0")
    case True
    then have ih: "unat x div 10 < 10 ^ calc_length (x div 10)"
      "0 < unat x div 10 \<longrightarrow> 10 ^ (calc_length (x div 10) - 1) \<le> unat x div 10"
      using "1.IH" by (simp_all add: unat_div)
    have c: "calc_length x = Suc (calc_length (x div 10))"
      using True by (subst calc_length.simps) simp
    have "10 ^ calc_length (x div 10) \<le> unat x"
    proof (cases "unat x div 10 = 0")
      case True
      then have "x div 10 = 0" by (simp add: unat_eq_0 [symmetric] unat_div)
      then show ?thesis using \<open>x > 0\<close> by (simp add: calc_length.simps [of 0] word_less_nat_alt)
    next
      case False
      then have "calc_length (x div 10) \<noteq> 0" using ih(1) by (cases "calc_length (x div 10)") auto
      then obtain m where "calc_length (x div 10) = Suc m" using not0_implies_Suc by blast
      then show ?thesis using ih(2) False by simp
    qed
    then show ?thesis using ih(1) c by simp
  next
    case False
    then show ?thesis by (simp add: calc_length.simps [of x] word_gt_0)
  qed
qed

lemma calc_length_le_20: "calc_length x \<le> 20"
proof (rule ccontr)
  assume a: "\<not> calc_length x \<le> 20"
  then have "(10 :: nat) ^ 20 \<le> 10 ^ (calc_length x - 1)" by (intro power_increasing) auto
  moreover have "0 < unat x" using a by (cases "x = 0") (auto simp: calc_length.simps [of 0] unat_gt_0)
  ultimately have "10 ^ 20 \<le> unat x" using calc_length_bounds [of x] by linarith
  then show False using unat_u64_less [of x] by simp
qed

section \<open>Writing\<close>

lemma swap_loop_blit:
  "j + n \<le> length swap \<Longrightarrow> i + n \<le> length str \<Longrightarrow>
    swap_loop str swap i j n = blit str i (take n (drop j swap))"
proof (induction n arbitrary: str i j)
  case (Suc n)
  have "take (Suc n) (drop j swap) = swap ! j # take n (drop (Suc j) swap)"
    using Suc.prems by (simp add: Cons_nth_drop_Suc [symmetric])
  then show ?case using Suc.prems Suc.IH [of "Suc j" "Suc i" "str[i := swap ! j]"] by (simp add: blit_Cons)
qed simp

lemma zero_loop_blit:
  "2 \<le> i \<Longrightarrow> i + n \<le> length str \<Longrightarrow> zero_loop str i n = blit str i (replicate n 48)"
proof (induction n arbitrary: str i)
  case (Suc n)
  then show ?case using Suc.IH [of "Suc i" "str[i := 48]"] by (simp add: blit_Cons)
qed simp

lemma point_loop_after:
  "target < i \<Longrightarrow> i + n \<le> length tmp \<Longrightarrow> Suc i + n \<le> length str \<Longrightarrow>
    point_loop str tmp target i n = blit str (Suc i) (take n (drop i tmp))"
proof (induction n arbitrary: str i)
  case (Suc n)
  have "take (Suc n) (drop i tmp) = tmp ! i # take n (drop (Suc i) tmp)"
    using Suc.prems by (simp add: Cons_nth_drop_Suc [symmetric])
  then show ?case using Suc.prems Suc.IH [of "Suc i" "str[Suc i := tmp ! i]"] by (simp add: blit_Cons)
qed simp

lemma point_loop_blit:
  "i \<le> target \<Longrightarrow> target < i + n \<Longrightarrow> i + n \<le> length tmp \<Longrightarrow> Suc i + n \<le> length str \<Longrightarrow>
    point_loop str tmp target i n =
      blit str i (take (Suc target - i) (drop i tmp) @ 46 # take (n - (Suc target - i)) (drop (Suc target) tmp))"
proof (induction n arbitrary: str i)
  case (Suc n)
  have d: "drop i tmp = tmp ! i # drop (Suc i) tmp"
    using Suc.prems by (simp add: Cons_nth_drop_Suc)
  show ?case
  proof (cases "i = target")
    case True
    have "point_loop str tmp target i (Suc n) =
        blit (str[i := tmp ! i, Suc i := 46]) (Suc (Suc i)) (take n (drop (Suc i) tmp))"
      using True Suc.prems by (simp add: point_loop_after)
    then show ?thesis using True Suc.prems d by (simp add: blit_Cons)
  next
    case False
    then have t: "Suc target - i = Suc (target - i)" "Suc target - Suc i = target - i"
      using Suc.prems by auto
    show ?thesis
      using False Suc.prems Suc.IH [of "Suc i" "str[i := tmp ! i]"] by (simp add: d t blit_Cons)
  qed
qed simp

definition coins_text :: "u64 \<Rightarrow> bytes" where
  "coins_text k = dgs (max 1 (calc_length k - 8)) (unat k div 10 ^ 8) @ 46 # dgs 8 (unat k)"

lemma coins_text_nonzero: "c \<in> set (coins_text k) \<Longrightarrow> c \<noteq> 0"
  by (auto simp: coins_text_def dest: dgs_chars(2))

lemma length_coins_text: "length (coins_text k) = max 1 (calc_length k - 8) + 9"
  by (simp add: coins_text_def)

lemma c_string_prefix: "(\<And>c. c \<in> set xs \<Longrightarrow> c \<noteq> 0) \<Longrightarrow> c_string (xs @ 0 # ys) = xs"
  by (simp add: c_string_def takeWhile_append2)

lemma c_string_blit:
  assumes "\<And>c. c \<in> set xs \<Longrightarrow> c \<noteq> 0" "length xs < length blk"
  shows "c_string ((blit blk 0 xs)[length xs := 0]) = xs"
proof -
  obtain y ys where "drop (length xs) blk = y # ys" using assms(2) by (cases "drop (length xs) blk") auto
  then have "(blit blk 0 xs)[length xs := 0] = xs @ 0 # ys" by (simp add: blit_def list_update_append)
  then show ?thesis using c_string_prefix [OF assms(1)] by simp
qed

lemma small_text:
  assumes "calc_length k < 9"
  shows "coins_text k = 48 # 46 # replicate (8 - calc_length k) 48 @ dgs (calc_length k) (unat k)"
proof -
  let ?l = "calc_length k"
  have "(10 :: nat) ^ ?l \<le> 10 ^ 8" using assms by (intro power_increasing) auto
  then have "unat k div 10 ^ 8 = 0" "unat k div 10 ^ ?l = 0"
    using calc_length_bounds [of k] by auto
  moreover have "dgs 8 (unat k) = dgs (8 - ?l) (unat k div 10 ^ ?l) @ dgs ?l (unat k)"
    using dgs_add [of "8 - ?l" ?l "unat k"] assms by simp
  moreover have "max 1 (?l - 8) = Suc 0" using assms by simp
  ultimately show ?thesis by (simp add: coins_text_def dgs_0)
qed

lemma long_text:
  assumes "\<not> calc_length k < 9"
  shows "coins_text k = take (calc_length k - 8) (dgs (calc_length k) (unat k)) @
    46 # drop (calc_length k - 8) (dgs (calc_length k) (unat k))"
proof -
  let ?l = "calc_length k"
  have "dgs ?l (unat k) = dgs (?l - 8) (unat k div 10 ^ 8) @ dgs 8 (unat k)"
    using dgs_add [of "?l - 8" 8 "unat k"] assms by simp
  moreover have "max 1 (?l - 8) = ?l - 8" using assms by simp
  ultimately show ?thesis by (simp add: coins_text_def)
qed

lemma dgs_takeWhile_0: "takeWhile (\<lambda>c. c \<noteq> 0) (dgs w n @ 0 # ys) = dgs w n"
  using c_string_prefix [of "dgs w n" ys] by (simp add: c_string_def dgs_chars)

lemma string_out_ok:
  assumes "calc_length k < length out"
  shows "string_out k out = Inr (dgs (calc_length k) (unat k) @ 0 # drop (Suc (calc_length k)) out)"
proof -
  have "drop (calc_length k) out = out ! calc_length k # drop (Suc (calc_length k)) out"
    using assms by (simp add: Cons_nth_drop_Suc)
  then show ?thesis using assms by (simp add: string_out_def string_loop_dgs list_update_append Let_def)
qed

lemma zero_loop_0:
  assumes "m + 2 \<le> length str"
  shows "zero_loop str 0 (m + 2) = blit str 0 (48 # 46 # replicate m 48)"
proof -
  have l: "0 < length str" "Suc 0 < length str" using assms by auto
  have "zero_loop str 0 (m + 2) = zero_loop (str[0 := 48, Suc 0 := 46]) 2 m"
    by (simp add: numeral_2_eq_2 list_update_swap)
  also have "\<dots> = blit (str[0 := 48, Suc 0 := 46]) (Suc (Suc 0)) (replicate m 48)"
    using assms by (subst zero_loop_blit) (simp_all add: numeral_2_eq_2)
  finally show ?thesis using l by (simp add: blit_Cons)
qed

lemma small_write:
  assumes "calc_length k < 9" "11 \<le> length str"
  shows "swap_loop (zero_loop str 0 (10 - calc_length k)) (dgs (calc_length k) (unat k) @ [0])
      (10 - calc_length k) 0 (calc_length k) = blit str 0 (coins_text k)"
proof -
  let ?l = "calc_length k"
  let ?z = "48 # 46 # replicate (8 - ?l) 48 :: bytes"
  have t: "10 - ?l = (8 - ?l) + 2" using assms(1) by simp
  have z: "zero_loop str 0 (10 - ?l) = blit str 0 ?z"
    unfolding t using assms by (intro zero_loop_0) simp
  have "swap_loop (blit str 0 ?z) (dgs ?l (unat k) @ [0]) (10 - ?l) 0 ?l =
      blit (blit str 0 ?z) (0 + length ?z) (dgs ?l (unat k))"
    using assms by (subst swap_loop_blit) (simp_all add: t)
  also have "\<dots> = blit str 0 (?z @ dgs ?l (unat k))"
    using assms by (intro blit_append) simp
  finally show ?thesis by (simp add: z small_text [OF assms(1)])
qed

lemma validate_plain:
  assumes "k \<noteq> 0xFFFFFFFFFFFFFFFF" "k \<noteq> 0xFFFFF511543FB600"
  shows "validate_conversion k None er = CONVERSION_SUCCESS"
    and "0 < length ds \<Longrightarrow> validate_conversion k (Some (ds, length ds, 0)) er = CONVERSION_SUCCESS"
proof -
  have "\<not> k \<ge> 0xFFFFFFFFFFFFFFFF"
    using assms(1) unat_u64_less [of k] by (simp add: word_le_nat_alt word_unat_eq_iff)
  then show "validate_conversion k None er = CONVERSION_SUCCESS"
    "0 < length ds \<Longrightarrow> validate_conversion k (Some (ds, length ds, 0)) er = CONVERSION_SUCCESS"
    using assms by (simp_all add: validate_conversion_def Let_def)
qed

lemma koinu_to_coins_str_ok:
  assumes "k \<noteq> 0xFFFFFFFFFFFFFFFF" "k \<noteq> 0xFFFFF511543FB600" "length tmp0 = 22"
    and "koinu_coins_str_required_size k \<le> n" "n \<le> length out"
  shows "\<exists>out'. koinu_to_coins_str tmp0 k (Some out) n = Inr (True, Some out') \<and> c_string out' = coins_text k"
proof (cases "calc_length k < 9")
  case True
  let ?l = "calc_length k"
  let ?o1 = "dgs ?l (unat k) @ 0 # drop (Suc ?l) out"
  have lo: "11 \<le> length out" using True assms(4,5) by (simp add: koinu_coins_str_required_size_def)
  have so: "string_out k out = Inr ?o1" using string_out_ok True lo by simp
  have l1: "length ?o1 = length out" using True lo by simp
  have lt: "length (coins_text k) = 10" using True by (simp add: length_coins_text)
  have "koinu_to_coins_str tmp0 k (Some out) n = Inr (True, Some ((blit ?o1 0 (coins_text k))[10 := 0]))"
    using True lo l1 lt so assms(1,2,4) small_write [OF True, of ?o1]
    by (simp add: koinu_to_coins_str_def validate_plain Let_def dgs_takeWhile_0)
  moreover have "c_string ((blit ?o1 0 (coins_text k))[length (coins_text k) := 0]) = coins_text k"
    using coins_text_nonzero lt l1 lo by (intro c_string_blit) auto
  ultimately show ?thesis using lt by auto
next
  case False
  let ?l = "calc_length k"
  let ?tmp = "dgs ?l (unat k) @ 0 # drop (Suc ?l) (take 22 tmp0)"
  have lo: "?l + 2 \<le> length out" using False assms(4,5) by (simp add: koinu_coins_str_required_size_def)
  have l20: "?l \<le> 20" by (rule calc_length_le_20)
  have so: "string_out k (take 22 tmp0) = Inr ?tmp" using string_out_ok [of k "take 22 tmp0"] l20 assms(3) by simp
  have lt: "length (coins_text k) = ?l + 1" using False by (simp add: length_coins_text)
  have t: "Suc (?l - 9) = ?l - 8" "?l - (?l - 8) = 8" using False by auto
  have "point_loop out ?tmp (?l - 9) 0 ?l = blit out 0 (coins_text k)"
    using False lo by (subst point_loop_blit) (simp_all add: t long_text)
  then have "koinu_to_coins_str tmp0 k (Some out) n = Inr (True, Some ((blit out 0 (coins_text k))[?l + 1 := 0]))"
    using False lo so assms(1,2,4) by (simp add: koinu_to_coins_str_def validate_plain Let_def)
  moreover have "c_string ((blit out 0 (coins_text k))[length (coins_text k) := 0]) = coins_text k"
    using coins_text_nonzero lt lo by (intro c_string_blit) auto
  ultimately show ?thesis using lt by auto
qed

section \<open>Reading\<close>

lemma coins_scan_point:
  assumes "i \<le> p" "p < i + n" "p + 8 \<le> length ds" "p < length coins" "coins ! p = 46"
    and "\<And>j. j < p \<Longrightarrow> coins ! j \<noteq> 46"
  shows "\<exists>ds'. coins_scan coins ds i n = Inr (ds', Suc p) \<and> p < length ds' \<and> ds' ! p = 0 \<and>
    take p ds' = take i ds @ take (p - i) (drop i coins)"
  using assms
proof (induction n arbitrary: ds i)
  case (Suc n)
  have i: "i < length ds" "i < length coins" using Suc.prems by auto
  show ?case
  proof (cases "i = p")
    case True
    then show ?thesis using Suc.prems by (auto simp: Let_def blit_def)
  next
    case False
    then have lt: "i < p" using Suc.prems by simp
    obtain ds' where ds': "coins_scan coins (ds[i := coins ! i]) (Suc i) n = Inr (ds', Suc p)"
        "p < length ds'" "ds' ! p = 0"
        "take p ds' = take (Suc i) (ds[i := coins ! i]) @ take (p - Suc i) (drop (Suc i) coins)"
      using Suc.IH [of "Suc i" "ds[i := coins ! i]"] Suc.prems lt by auto
    have "take (p - i) (drop i coins) = coins ! i # take (p - Suc i) (drop (Suc i) coins)"
      using lt i by (simp add: Cons_nth_drop_Suc [symmetric] take_Cons')
    then show ?thesis
      using ds' i lt Suc.prems(6) [OF lt] by (simp add: Let_def take_Suc_conv_app_nth)
  qed
qed simp

lemma take_nth_split: "p < length ds \<Longrightarrow> ds ! p = x \<Longrightarrow> ds = take p ds @ x # drop (Suc p) ds"
  by (metis id_take_nth_drop)

lemma coins_to_koinu_text:
  assumes "k \<noteq> 0xFFFFFFFFFFFFFFFF" "k \<noteq> 0xFFFFF511543FB600"
  shows "coins_to_koinu_str (coins_text k) = Inr k"
proof -
  define w where "w = max 1 (calc_length k - 8)"
  define q where "q = unat k div 10 ^ 8"
  define r where "r = unat k mod 10 ^ 8"
  have w: "1 \<le> w" "w \<le> 12" using calc_length_le_20 [of k] by (auto simp: w_def)
  have q64: "q < 2 ^ 40" using unat_u64_less [of k] by (simp add: q_def div_less_iff_less_mult)
  have qw: "q < 10 ^ w"
  proof -
    have "calc_length k \<le> w + 8" by (auto simp: w_def)
    then have "(10 :: nat) ^ calc_length k \<le> 10 ^ (w + 8)" by (intro power_increasing) auto
    then have "unat k < 10 ^ w * 10 ^ 8"
      using calc_length_bounds [of k] by (simp only: power_add) linarith
    then show ?thesis unfolding q_def by (intro less_mult_imp_div_less) simp
  qed
  have ct: "coins_text k = dgs w q @ 46 # dgs 8 r"
    using dgs_mod [of 8 "unat k"] by (simp add: coins_text_def w_def q_def r_def)
  have len: "length (coins_text k) = w + 9" using ct by simp
  have hd: "hd (coins_text k) \<noteq> 45"
    using w(1) dgs_chars(4) [of "hd (dgs w q)" w q] by (cases "dgs w q") (auto simp: ct dest: arg_cong [of _ _ length])
  obtain ds where ds: "coins_scan (coins_text k) (replicate 21 0) 0 (w + 9) = Inr (ds, Suc w)"
      "w < length ds" "ds ! w = 0" "take w ds = take w (coins_text k)"
    using coins_scan_point [of 0 w "w + 9" "replicate 21 0" "coins_text k"] w dgs_chars(3) [of _ w q]
    by (auto simp: ct nth_append)
  have cs: "c_string ds = dgs w q"
    using take_nth_split [OF ds(2,3)] ds(4) c_string_prefix [of "dgs w q"] dgs_chars(2) [of _ w q]
    by (metis ct take_append_exact length_dgs)
  have ks: "c_string (dgs 8 r @ [0]) = dgs 8 r"
    using c_string_prefix [of "dgs 8 r" "[]"] dgs_chars(2) [of _ 8 r] by blast
  have r8: "r < 10 ^ 8" by (simp add: r_def)
  have s1: "strtoull (dgs w q) = (of_nat q, False, w)" using w q64 qw by (intro strtoull_dgs) auto
  have s2: "strtoull (dgs 8 r) = (of_nat r, False, 8)" using r8 by (intro strtoull_dgs) auto
  have v1: "validate_conversion (of_nat q) (Some (dgs w q, w, 0)) False = CONVERSION_SUCCESS"
  proof -
    have "unat (of_nat q :: u64) < 2 ^ 40" using q64 by (simp add: unat_of_nat)
    then have "(of_nat q :: u64) \<noteq> 0xFFFFFFFFFFFFFFFF" "(of_nat q :: u64) \<noteq> 0xFFFFF511543FB600" by auto
    from validate_plain(2) [OF this, of "dgs w q" False] w show ?thesis by simp
  qed
  have sum: "of_nat r + of_nat q * 100000000 = k"
  proof -
    have "of_nat r + of_nat q * 100000000 = (of_nat (r + q * 10 ^ 8) :: u64)" by simp
    also have "r + q * 10 ^ 8 = unat k" by (simp add: q_def r_def)
    finally show ?thesis by simp
  qed
  have v2: "validate_conversion k (Some (dgs 8 r, 8, 0)) False = CONVERSION_SUCCESS"
    using validate_plain(2) [OF assms, of "dgs 8 r" False] by simp
  have m: "drop (Suc w) (coins_text k) = dgs 8 r" by (simp add: ct)
  have ne: "coins_text k \<noteq> []" by (simp add: ct)
  show ?thesis
    unfolding coins_to_koinu_str_def check_length_def len Let_def
    using hd ne w ds(1) by (simp add: m len cs ks s1 s2 v1 v2 sum)
qed

lemma calc_length_42: "calc_length 42 = 2"
  by (simp add: calc_length.simps [of 42] calc_length.simps [of 4] calc_length.simps [of 0])

section \<open>Properties\<close>

text \<open>
  Every amount except the two sentinel values that the conversion rejects is printed by
  \<open>koinu_to_coins_str\<close> as a decimal string which \<open>coins_to_koinu_str\<close> reads back as the same
  amount, without any access outside the caller's or the local arrays.
\<close>

theorem koinu_string_roundtrip:
  assumes "k \<noteq> 0xFFFFFFFFFFFFFFFF" "k \<noteq> 0xFFFFF511543FB600" "length tmp0 = 22"
    and "koinu_coins_str_required_size k \<le> n" "n \<le> length out"
  shows "\<exists>out'. koinu_to_coins_str tmp0 k (Some out) n = Inr (True, Some out') \<and>
    coins_to_koinu_str (c_string out') = Inr k"
  using koinu_to_coins_str_ok [OF assms] coins_to_koinu_text [OF assms(1,2)] by auto

theorem koinu_string_roundtrip_witness:
  "\<exists>out'. koinu_to_coins_str (replicate 22 0) 42 (Some (replicate 22 7)) 22 = Inr (True, Some out') \<and>
    coins_to_koinu_str (c_string out') = Inr 42"
proof (rule koinu_string_roundtrip)
  show "koinu_coins_str_required_size 42 \<le> 22" by (simp add: koinu_coins_str_required_size_def calc_length_42)
qed simp_all

text \<open>
  \<open>koinu_to_coins_str\<close> prints the integral part, a point and exactly eight decimals; the
  number in front of the point is the amount divided by \<open>10 ^ 8\<close>, the one behind it the rest.
\<close>

theorem koinu_to_coins_str_prints:
  assumes "k \<noteq> 0xFFFFFFFFFFFFFFFF" "k \<noteq> 0xFFFFF511543FB600" "length tmp0 = 22"
    and "koinu_coins_str_required_size k \<le> n" "n \<le> length out"
  shows "\<exists>out' a b. koinu_to_coins_str tmp0 k (Some out) n = Inr (True, Some out') \<and>
    c_string out' = a @ 46 # b \<and> length b = 8 \<and> list_all is_digit a \<and> list_all is_digit b \<and>
    dec_val a 0 = unat k div 10 ^ 8 \<and> dec_val b 0 = unat k mod 10 ^ 8"
proof -
  let ?w = "max 1 (calc_length k - 8)"
  have "unat k < 10 ^ ?w * 10 ^ 8"
  proof -
    have "(10 :: nat) ^ calc_length k \<le> 10 ^ (?w + 8)" by (intro power_increasing) auto
    then show ?thesis using calc_length_bounds [of k] by (simp only: power_add) linarith
  qed
  then have "unat k div 10 ^ 8 < 10 ^ ?w" by (intro less_mult_imp_div_less) simp
  then have "dec_val (dgs ?w (unat k div 10 ^ 8)) 0 = unat k div 10 ^ 8" by (simp add: dec_val_dgs)
  moreover have "dec_val (dgs 8 (unat k)) 0 = unat k mod 10 ^ 8" by (simp add: dec_val_dgs)
  ultimately show ?thesis
    using koinu_to_coins_str_ok [OF assms] dgs_chars(1) length_dgs
    unfolding coins_text_def list_all_iff by blast
qed

theorem koinu_to_coins_str_prints_witness:
  "\<exists>out' a b. koinu_to_coins_str (replicate 22 0) 42 (Some (replicate 22 7)) 22 = Inr (True, Some out') \<and>
    c_string out' = a @ 46 # b \<and> length b = 8 \<and> list_all is_digit a \<and> list_all is_digit b \<and>
    dec_val a 0 = unat (42 :: u64) div 10 ^ 8 \<and> dec_val b 0 = unat (42 :: u64) mod 10 ^ 8"
proof (rule koinu_to_coins_str_prints)
  show "koinu_coins_str_required_size 42 \<le> 22" by (simp add: koinu_coins_str_required_size_def calc_length_42)
qed simp_all

lemma replicate_21: "replicate 21 (0 :: u8) = [0, 0, 0, 0, 0, 0, 0, 0, 0, 0, 0, 0, 0, 0, 0, 0, 0, 0, 0, 0, 0]"
  by (simp add: numeral_eq_Suc)

lemma replicate_48:
  "replicate 8 (48 :: u8) = [48, 48, 48, 48, 48, 48, 48, 48]" "replicate 6 (48 :: u8) = [48, 48, 48, 48, 48, 48]"
  by (simp_all add: numeral_eq_Suc)

lemma coins_scan_numeral:
  "coins_scan coins ds i (numeral m) =
     (if i < length ds then
        let ds1 = ds[i := coins ! i] in
        if coins ! i = 46 then
          (if i + 8 \<le> length ds1 then Inr ((blit ds1 i (replicate 8 48))[i := 0], i + 1)
           else Inl OutOfBounds)
        else coins_scan coins ds1 (Suc i) (pred_numeral m)
      else Inl OutOfBounds)"
  by (metis coins_scan.simps(2) numeral_eq_Suc)

lemma scan_12abc: "\<exists>ds. coins_scan [49, 50, 97, 98, 99] (replicate 21 0) 0 5 = Inr (ds, 5) \<and>
    c_string ds = [49, 50, 97, 98, 99]"
  by (simp add: replicate_21 coins_scan_numeral Let_def c_string_def)

lemma scan_1_minus_5: "\<exists>ds. coins_scan [49, 46, 45, 53] (replicate 21 0) 0 4 = Inr (ds, 2) \<and> c_string ds = [49]"
  by (simp add: replicate_21 replicate_48 coins_scan_numeral Let_def c_string_def blit_def)

lemma coins_scan_no_point:
  "i + n > length ds \<Longrightarrow> length coins = i + n \<Longrightarrow> 46 \<notin> set coins \<Longrightarrow>
    coins_scan coins ds i n = Inl OutOfBounds \<or> length ds < i"
proof (induction n arbitrary: ds i)
  case (Suc n)
  have "coins ! i \<in> set coins" using Suc.prems(2) by simp
  then have "coins ! i \<noteq> 46" using Suc.prems(3) by auto
  then show ?case using Suc.prems Suc.IH [of "ds[i := coins ! i]" "Suc i"] by (auto simp: Let_def)
qed simp

lemma scan_22_digits: "coins_scan (replicate 22 49) (replicate 21 0) 0 22 = Inl OutOfBounds"
  using coins_scan_no_point [of "replicate 21 0" 0 22 "replicate 22 49"] by auto

lemma strtoull_examples:
  "strtoull [49, 50, 97, 98, 99] = (12, False, 2)"
  "strtoull [49] = (1, False, 1)"
  "strtoull [48, 48, 48, 48, 48, 48, 48, 48] = (0, False, 8)"
  "strtoull [45, 53, 48, 48, 48, 48, 48, 48] = (- 5000000, False, 8)"
  by (simp_all add: strtoull_def is_space_def is_digit_def Let_def)

lemma coins_eval:
  assumes "coins_scan coins (replicate 21 0) 0 n = Inr (ds, i)" "c_string ds = d"
    and "hd coins \<noteq> 45" "length coins = n" "0 < n" "n \<le> 22"
    and "c_string (take 8 (drop i coins) @ replicate (8 - length (take 8 (drop i coins))) 48 @ [0]) = m"
    and "strtoull d = (dv, er1, e1)" "strtoull m = (kv, er2, e2)"
    and "dw = (if validate_conversion dv (Some (d, e1, 0)) er1 = CONVERSION_SUCCESS \<and> length d \<le> 12
               then dv * 100000000 else dv)"
  shows "coins_to_koinu_str coins =
    Inr (if validate_conversion (kv + dw) (Some (m, e2, 0)) er2 = CONVERSION_SUCCESS then kv + dw else 0)"
  using assms by (simp add: coins_to_koinu_str_def check_length_def Let_def)

text \<open>
  Malformed amounts that \<open>coins_to_koinu_str\<close> does not reject: \<open>12abc\<close> gives 12 koinu (the
  failed validation of the integral part is only logged and its value is not scaled), \<open>1.-5\<close> gives
  95000000 koinu (a sign inside the decimals is subtracted), and 22 digits without a point write
  outside the 21-byte local array although \<open>check_length\<close> lets them pass.
\<close>

theorem coins_to_koinu_str_malformed:
  "coins_to_koinu_str [49, 50, 97, 98, 99] = Inr 12 \<and>
   coins_to_koinu_str [49, 46, 45, 53] = Inr 95000000 \<and>
   coins_to_koinu_str (replicate 22 49) = Inl OutOfBounds"
proof (intro conjI)
  obtain ds where ds: "coins_scan [49, 50, 97, 98, 99] (replicate 21 0) 0 5 = Inr (ds, 5)"
      "c_string ds = [49, 50, 97, 98, 99]" using scan_12abc by blast
  show "coins_to_koinu_str [49, 50, 97, 98, 99] = Inr 12"
    by (subst coins_eval [OF ds _ _ _ _ _ strtoull_examples(1,3) refl])
      (simp_all add: validate_conversion_def c_string_def replicate_48)
  obtain ds where ds: "coins_scan [49, 46, 45, 53] (replicate 21 0) 0 4 = Inr (ds, 2)" "c_string ds = [49]"
    using scan_1_minus_5 by blast
  show "coins_to_koinu_str [49, 46, 45, 53] = Inr 95000000"
    by (subst coins_eval [OF ds _ _ _ _ _ strtoull_examples(2,4) refl])
      (simp_all add: validate_conversion_def c_string_def replicate_48 word_le_nat_alt)
  show "coins_to_koinu_str (replicate 22 49) = Inl OutOfBounds"
    using scan_22_digits by (simp add: coins_to_koinu_str_def check_length_def Let_def)
qed

end
