(* ===== verification/Script.thy ===== *)
theory Script
  imports Serialize
begin

text \<open>
  Model of \<open>src/src/script.c\<close> (with \<open>dogecoin_pubkey_get_length\<close> of \<open>src/src/key.c\<close>): parsing a
  script into operations, recognising the standard templates, building the standard scripts
  and copying a script without \<open>OP_CODESEPARATOR\<close>.

  A script is the contents of its \<open>cstring\<close>, a vector of operations is a list. \<open>SHA-256\<close> and
  \<open>RIPEMD-160\<close> are parameters. Multi-byte lengths are appended in the byte order of a
  little-endian host.
\<close>

section \<open>Opcodes and types\<close>

type_synonym opcode = u8

definition OP_0 :: opcode where "OP_0 = 0x00"
definition OP_PUSHDATA1 :: opcode where "OP_PUSHDATA1 = 0x4c"
definition OP_PUSHDATA2 :: opcode where "OP_PUSHDATA2 = 0x4d"
definition OP_PUSHDATA4 :: opcode where "OP_PUSHDATA4 = 0x4e"
definition OP_1 :: opcode where "OP_1 = 0x51"
definition OP_16 :: opcode where "OP_16 = 0x60"
definition OP_RETURN :: opcode where "OP_RETURN = 0x6a"
definition OP_DUP :: opcode where "OP_DUP = 0x76"
definition OP_EQUAL :: opcode where "OP_EQUAL = 0x87"
definition OP_EQUALVERIFY :: opcode where "OP_EQUALVERIFY = 0x88"
definition OP_HASH160 :: opcode where "OP_HASH160 = 0xa9"
definition OP_CODESEPARATOR :: opcode where "OP_CODESEPARATOR = 0xab"
definition OP_CHECKSIG :: opcode where "OP_CHECKSIG = 0xac"
definition OP_CHECKMULTISIG :: opcode where "OP_CHECKMULTISIG = 0xae"

lemmas opcode_defs = OP_0_def OP_PUSHDATA1_def OP_PUSHDATA2_def OP_PUSHDATA4_def OP_1_def OP_16_def
  OP_RETURN_def OP_DUP_def OP_EQUAL_def OP_EQUALVERIFY_def OP_HASH160_def OP_CODESEPARATOR_def
  OP_CHECKSIG_def OP_CHECKMULTISIG_def

datatype tx_out_type =
    DOGECOIN_TX_INVALID
  | DOGECOIN_TX_NONSTANDARD
  | DOGECOIN_TX_PUBKEY
  | DOGECOIN_TX_PUBKEYHASH
  | DOGECOIN_TX_SCRIPTHASH
  | DOGECOIN_TX_MULTISIG

text \<open>\<open>op_data\<close> is \<open>None\<close> for the NULL pointer.\<close>

record script_op =
  op_code :: opcode
  op_data :: "bytes option"
  op_datalen :: nat

record dogecoin_pubkey =
  pk_pubkey :: bytes
  pk_compressed :: bool

section \<open>Copying without code separators\<close>

text \<open>
  One iteration of the loop: whether it goes on (false for \<open>goto err_out\<close>), the rest of the buffer
  and the contents of \<open>script_out\<close>, which keeps what was appended before an error.
\<close>

definition copy_data :: "opcode \<Rightarrow> u32 \<Rightarrow> bytes \<Rightarrow> bytes \<Rightarrow> bool \<times> bytes \<times> bytes" where
  "copy_data opcode data_len r out =
     (if data_len > 0 then
        (if unat data_len > length r then (False, r, out)
         else
           case deser_bytes (unat data_len) r of
             None \<Rightarrow> (False, r, out)
           | Some (bufpush, r1) \<Rightarrow> (True, r1, ser_bytes out bufpush))
      else (True, r, ser_bytes out [opcode]))"

definition copy_step :: "opcode \<Rightarrow> bytes \<Rightarrow> bytes \<Rightarrow> bool \<times> bytes \<times> bytes" where
  "copy_step opcode r out =
     (if opcode < OP_PUSHDATA1 \<and> opcode > OP_0 then
        copy_data opcode (ucast opcode) r (ser_bytes out [opcode])
      else if opcode = OP_PUSHDATA1 then
        (case deser_bytes 1 r of
           None \<Rightarrow> (False, r, out)
         | Some (v8, r1) \<Rightarrow> copy_data opcode (ucast (hd v8)) r1 (ser_bytes (ser_bytes out [opcode]) v8))
      else if opcode = OP_PUSHDATA2 then
        (case deser_u16 r of
           None \<Rightarrow> (False, r, out)
         | Some (v16, r1) \<Rightarrow>
             copy_data opcode (ucast v16) r1 (ser_bytes (ser_bytes out [opcode]) (le_bytes 2 (unat v16))))
      else if opcode = OP_PUSHDATA4 then
        (case deser_u32 r of
           None \<Rightarrow> (False, r, out)
         | Some (v32, r1) \<Rightarrow>
             copy_data opcode v32 r1 (ser_bytes (ser_bytes out [opcode]) (le_bytes 4 (unat v32))))
      else if opcode = OP_CODESEPARATOR then (True, r, out)
      else copy_data opcode 0 r out)"

lemma copy_data_shorter: "copy_data opc n r out = (ok, r1, out1) \<Longrightarrow> length r1 \<le> length r"
  by (auto simp: copy_data_def deser_bytes_def split: if_splits)

lemma copy_step_shorter: "copy_step opc r out = (ok, r1, out1) \<Longrightarrow> length r1 \<le> length r"
  by (auto simp: copy_step_def deser_bytes_def split: if_splits option.splits
      dest!: copy_data_shorter)

function copy_loop_script :: "bytes \<Rightarrow> bytes \<Rightarrow> bool \<times> bytes" where
  "copy_loop_script buf out =
     (case buf of
        [] \<Rightarrow> (True, out)
      | opcode # r \<Rightarrow>
          (case copy_step opcode r out of
             (ok, r1, out1) \<Rightarrow> if ok then copy_loop_script r1 out1 else (False, out1)))"
  by pat_completeness auto
termination by (relation "measure (length \<circ> fst)") (auto dest: copy_step_shorter [OF sym])

declare copy_loop_script.simps [simp del]

text \<open>The flag and the contents of \<open>script_out\<close> afterwards.\<close>

definition script_copy_without_op_codeseperator :: "bytes \<Rightarrow> bytes \<Rightarrow> bool \<times> bytes" where
  "script_copy_without_op_codeseperator script_in script_out =
     (if length script_in = 0 then (False, script_out) else copy_loop_script script_in script_out)"

section \<open>Parsing\<close>

definition push_len :: "opcode \<Rightarrow> bytes \<Rightarrow> (u32 \<times> bytes) option" where
  "push_len opcode r =
     (if opcode < OP_PUSHDATA1 then Some (ucast opcode, r)
      else if opcode = OP_PUSHDATA1 then do { (v8, r1) \<leftarrow> deser_bytes 1 r; Some (ucast (hd v8), r1) }
      else if opcode = OP_PUSHDATA2 then do { (v16, r1) \<leftarrow> deser_u16 r; Some (ucast v16, r1) }
      else deser_u32 r)"

lemma push_len_shorter: "push_len opc r = Some (n, r1) \<Longrightarrow> length r1 \<le> length r"
  by (auto simp: push_len_def deser_bytes_def split: if_splits Option.bind_splits)

text \<open>The flag and the operations added to \<open>ops_out\<close>; those before an error stay there.\<close>

function get_ops_loop :: "bytes \<Rightarrow> script_op list \<Rightarrow> bool \<times> script_op list" where
  "get_ops_loop buf ops =
     (case buf of
        [] \<Rightarrow> (True, ops)
      | opcode # r \<Rightarrow>
          if opcode > OP_PUSHDATA4 then
            get_ops_loop r (ops @ [\<lparr>op_code = opcode, op_data = None, op_datalen = 0\<rparr>])
          else
            (case push_len opcode r of
               None \<Rightarrow> (False, ops)
             | Some (data_len, r1) \<Rightarrow>
                 if length r1 = 0 \<or> unat data_len > length r1 then (False, ops)
                 else
                   get_ops_loop (drop (unat data_len) r1)
                     (ops @ [\<lparr>op_code = opcode, op_data = Some (take (unat data_len) r1),
                              op_datalen = unat data_len\<rparr>])))"
  by pat_completeness auto
termination by (relation "measure (length \<circ> fst)") (auto dest: push_len_shorter)

declare get_ops_loop.simps [simp del]

definition script_get_ops :: "bytes \<Rightarrow> bool \<times> script_op list" where
  "script_get_ops script_in =
     (if length script_in = 0 then (False, []) else get_ops_loop script_in [])"

section \<open>Templates\<close>

definition script_is_pushdata :: "opcode \<Rightarrow> bool" where
  "script_is_pushdata opc \<longleftrightarrow> opc \<le> OP_PUSHDATA4"

definition script_is_op :: "script_op \<Rightarrow> opcode \<Rightarrow> bool" where
  "script_is_op opr opcode \<longleftrightarrow> op_code opr = opcode"

definition pubkey_get_length :: "u8 \<Rightarrow> nat" where
  "pubkey_get_length ch_header =
     (if ch_header = 2 \<or> ch_header = 3 then 33
      else if ch_header = 4 \<or> ch_header = 6 \<or> ch_header = 7 then 65
      else 0)"

definition script_is_op_pubkey :: "script_op \<Rightarrow> bool" where
  "script_is_op_pubkey opr =
     (if \<not> script_is_pushdata (op_code opr) then False
      else if op_datalen opr \<noteq> 33 \<and> op_datalen opr \<noteq> 65 then False
      else
        case op_data opr of
          Some d \<Rightarrow> pubkey_get_length (hd d) = op_datalen opr
        | None \<Rightarrow> False)"

definition script_is_op_pubkeyhash :: "script_op \<Rightarrow> bool" where
  "script_is_op_pubkeyhash opr =
     (if \<not> script_is_pushdata (op_code opr) then False
      else if op_datalen opr \<noteq> 20 then False
      else True)"

text \<open>
  The recognisers return what they add to \<open>data_out\<close>: \<open>None\<close> for no match, otherwise the copied data.
\<close>

definition op_bytes :: "script_op \<Rightarrow> nat \<Rightarrow> bytes" where
  "op_bytes opr n = (case op_data opr of Some d \<Rightarrow> take n d | None \<Rightarrow> replicate n 0)"

definition script_is_pubkey :: "script_op list \<Rightarrow> bytes option" where
  "script_is_pubkey ops =
     (if length ops = 2 \<and> script_is_op (ops ! 1) OP_CHECKSIG \<and> script_is_op_pubkey (ops ! 0)
      then Some (op_bytes (ops ! 0) (op_datalen (ops ! 0)))
      else None)"

definition script_is_pubkeyhash :: "script_op list \<Rightarrow> bytes option" where
  "script_is_pubkeyhash ops =
     (if length ops = 5 \<and> script_is_op (ops ! 0) OP_DUP \<and> script_is_op (ops ! 1) OP_HASH160 \<and>
         script_is_op_pubkeyhash (ops ! 2) \<and> script_is_op (ops ! 3) OP_EQUALVERIFY \<and>
         script_is_op (ops ! 4) OP_CHECKSIG
      then Some (op_bytes (ops ! 2) 20)
      else None)"

definition script_is_scripthash :: "script_op list \<Rightarrow> bytes option" where
  "script_is_scripthash ops =
     (if length ops = 3 \<and> script_is_op (ops ! 0) OP_HASH160 \<and> script_is_op_pubkeyhash (ops ! 1) \<and>
         script_is_op (ops ! 2) OP_EQUAL
      then Some (op_bytes (ops ! 1) 20)
      else None)"

definition script_is_op_smallint :: "script_op \<Rightarrow> bool" where
  "script_is_op_smallint opr \<longleftrightarrow>
     op_code opr = OP_0 \<or> (op_code opr \<ge> OP_1 \<and> op_code opr \<le> OP_16)"

definition script_is_multisig :: "script_op list \<Rightarrow> bool" where
  "script_is_multisig ops =
     (if length ops < 3 \<or> length ops > 16 + 3 \<or> \<not> script_is_op_smallint (ops ! 0) \<or>
         \<not> script_is_op_smallint (ops ! (length ops - 2)) \<or>
         \<not> script_is_op (ops ! (length ops - 1)) OP_CHECKMULTISIG
      then False
      else list_all (\<lambda>i. script_is_op_pubkey (ops ! i)) [1..<length ops - 2])"

definition script_classify_ops :: "script_op list \<Rightarrow> tx_out_type" where
  "script_classify_ops ops =
     (if script_is_pubkeyhash ops \<noteq> None then DOGECOIN_TX_PUBKEYHASH
      else if script_is_scripthash ops \<noteq> None then DOGECOIN_TX_SCRIPTHASH
      else if script_is_pubkey ops \<noteq> None then DOGECOIN_TX_PUBKEY
      else if script_is_multisig ops then DOGECOIN_TX_MULTISIG
      else DOGECOIN_TX_NONSTANDARD)"

text \<open>The type and what is added to \<open>data_out\<close>, in order.\<close>

definition script_classify :: "bytes \<Rightarrow> tx_out_type \<times> bytes list" where
  "script_classify script =
     (let tx_out_type = DOGECOIN_TX_NONSTANDARD;
          ops = snd (script_get_ops script);
          (t1, d1) = (case script_is_pubkeyhash ops of
                        Some d \<Rightarrow> (DOGECOIN_TX_PUBKEYHASH, [d]) | None \<Rightarrow> (tx_out_type, []));
          (t2, d2) = (case script_is_scripthash ops of
                        Some d \<Rightarrow> (DOGECOIN_TX_SCRIPTHASH, d1 @ [d]) | None \<Rightarrow> (t1, d1));
          (t3, d3) = (case script_is_pubkey ops of
                        Some d \<Rightarrow> (DOGECOIN_TX_PUBKEY, d2 @ [d]) | None \<Rightarrow> (t2, d2)) in
      if script_is_multisig ops then (DOGECOIN_TX_MULTISIG, d3) else (t3, d3))"

section \<open>Building\<close>

definition encode_op_n :: "int \<Rightarrow> opcode c_outcome" where
  "encode_op_n n =
     (if \<not> (n \<ge> 0 \<and> n \<le> 16) then Inl AssertFailed
      else if n = 0 then Inr OP_0
      else Inr (of_int (uint OP_1 + n - 1)))"

definition script_append_op :: "bytes \<Rightarrow> opcode \<Rightarrow> bytes" where
  "script_append_op script_in opc = ser_bytes script_in [opc]"

definition script_append_pushdata :: "bytes \<Rightarrow> bytes \<Rightarrow> bytes" where
  "script_append_pushdata script_in d =
     (let datalen = length d;
          s1 = (if datalen < unat OP_PUSHDATA1 then ser_bytes script_in [of_nat datalen]
                else if datalen \<le> 0xff then
                  ser_bytes (script_append_op script_in OP_PUSHDATA1) [of_nat datalen]
                else if datalen \<le> 0xffff then
                  ser_bytes (script_append_op script_in OP_PUSHDATA2) (le_bytes 2 datalen)
                else
                  ser_bytes (script_append_op script_in OP_PUSHDATA4) (le_bytes 4 datalen)) in
      ser_bytes s1 d)"

text \<open>The result is the flag and the script; the first statement clears the script.\<close>

definition script_build_multisig ::
    "nat \<Rightarrow> dogecoin_pubkey list option \<Rightarrow> (bool \<times> bytes) c_outcome" where
  "script_build_multisig required_signatures pubkeys_chars =
     (case pubkeys_chars of
        None \<Rightarrow> Inr (False, [])
      | Some pks \<Rightarrow>
          if length pks = 0 then Inr (False, [])
          else if required_signatures = 0 \<or> required_signatures > 16 then Inr (False, [])
          else if length pks > 16 \<or> required_signatures > length pks then Inr (False, [])
          else
            seqc (encode_op_n (int required_signatures)) (\<lambda>op_req_sig.
            let s1 = script_append_op [] op_req_sig;
                s2 = foldl (\<lambda>s pk. script_append_pushdata s
                              (take (if pk_compressed pk then 33 else 65) (pk_pubkey pk))) s1 pks in
            seqc (encode_op_n (int (length pks))) (\<lambda>op_pub_len.
            Inr (True, script_append_op (script_append_op s2 op_pub_len) OP_CHECKMULTISIG))))"

definition script_build_p2pkh :: "bytes \<Rightarrow> bytes" where
  "script_build_p2pkh hash160 =
     script_append_op
       (script_append_op
         (script_append_pushdata (script_append_op (script_append_op [] OP_DUP) OP_HASH160) (take 20 hash160))
         OP_EQUALVERIFY)
       OP_CHECKSIG"

definition script_build_p2sh :: "bytes \<Rightarrow> bytes" where
  "script_build_p2sh hash160 =
     script_append_op (script_append_pushdata (script_append_op [] OP_HASH160) (take 20 hash160)) OP_EQUAL"

definition script_get_scripthash ::
    "(bytes \<Rightarrow> bytes) \<Rightarrow> (bytes \<Rightarrow> bytes) \<Rightarrow> bytes option \<Rightarrow> bytes option" where
  "script_get_scripthash sha256 rmd160 script_in = map_option (\<lambda>s. rmd160 (sha256 s)) script_in"

fun tx_out_type_to_str :: "tx_out_type \<Rightarrow> string" where
  "tx_out_type_to_str DOGECOIN_TX_PUBKEY = ''TX_PUBKEY''"
| "tx_out_type_to_str DOGECOIN_TX_PUBKEYHASH = ''TX_PUBKEYHASH''"
| "tx_out_type_to_str DOGECOIN_TX_SCRIPTHASH = ''TX_SCRIPTHASH''"
| "tx_out_type_to_str DOGECOIN_TX_MULTISIG = ''TX_MULTISIG''"
| "tx_out_type_to_str _ = ''TX_NONSTANDARD''"

section \<open>Scripts as sequences of items\<close>

text \<open>
  The abstract view of a script: pushes and plain operations, rendered the way the builders do it.
\<close>

datatype item = Push bytes | Op opcode

fun render :: "item \<Rightarrow> bytes" where
  "render (Push d) = script_append_pushdata [] d"
| "render (Op c) = [c]"

fun item_ok :: "item \<Rightarrow> bool" where
  "item_ok (Push d) \<longleftrightarrow> 0 < length d \<and> length d < 2 ^ 32"
| "item_ok (Op c) \<longleftrightarrow> c > OP_PUSHDATA4"

definition push_code :: "nat \<Rightarrow> opcode" where
  "push_code n = (if n < 0x4c then of_nat n else if n \<le> 0xff then OP_PUSHDATA1
     else if n \<le> 0xffff then OP_PUSHDATA2 else OP_PUSHDATA4)"

fun item_op :: "item \<Rightarrow> script_op" where
  "item_op (Push d) = \<lparr>op_code = push_code (length d), op_data = Some d, op_datalen = length d\<rparr>"
| "item_op (Op c) = \<lparr>op_code = c, op_data = None, op_datalen = 0\<rparr>"

definition push_prefix :: "nat \<Rightarrow> bytes" where
  "push_prefix n = (if n < 0x4c then [] else if n \<le> 0xff then [of_nat n]
     else if n \<le> 0xffff then le_bytes 2 n else le_bytes 4 n)"

lemma render_Push: "script_append_pushdata s d = s @ push_code (length d) # push_prefix (length d) @ d"
  by (simp add: script_append_pushdata_def script_append_op_def ser_bytes_def push_code_def
      push_prefix_def Let_def OP_PUSHDATA1_def)

lemma script_append_op_append: "script_append_op s c = s @ render (Op c)"
  by (simp add: script_append_op_def ser_bytes_def)

lemma script_append_pushdata_append: "script_append_pushdata s d = s @ render (Push d)"
  by (simp add: render_Push)

lemma unat_of_nat_small: "n < 0x4c \<Longrightarrow> unat (of_nat n :: u8) = n"
  by simp

lemma push_code_le: "push_code n \<le> OP_PUSHDATA4"
proof (cases "n < 0x4c")
  case True
  then show ?thesis by (simp add: push_code_def opcode_defs word_le_nat_alt)
qed (simp add: push_code_def opcode_defs)

lemma deser_u16_le_bytes: "n < 0x10000 \<Longrightarrow> deser_u16 (le_bytes 2 n @ r) = Some (of_nat n, r)"
  using fixed_dec(1) [of "of_nat n" r] by (simp add: ser_defs unat_of_nat)

lemma deser_u32_le_bytes: "n < 2 ^ 32 \<Longrightarrow> deser_u32 (le_bytes 4 n @ r) = Some (of_nat n, r)"
  using fixed_dec(2) [of "of_nat n" r] by (simp add: ser_defs unat_of_nat)

lemma push_len_prefix:
  assumes "n < 2 ^ 32"
  shows "\<exists>w. push_len (push_code n) (push_prefix n @ r) = Some (w, r) \<and> unat w = n"
proof -
  consider "n < 0x4c" | "0x4c \<le> n" "n \<le> 0xff" | "0xff < n" "n \<le> 0xffff" | "0xffff < n" by linarith
  then show ?thesis
  proof cases
    case 1
    then have "(of_nat n :: u8) < 0x4c" by (simp add: word_less_nat_alt)
    then show ?thesis using 1
      by (simp add: push_len_def push_code_def push_prefix_def opcode_defs unat_ucast_up)
  next
    case 2
    then show ?thesis
      by (simp add: push_len_def push_code_def push_prefix_def opcode_defs deser_bytes_def unat_ucast_up)
  next
    case 3
    then show ?thesis
      by (simp add: push_len_def push_code_def push_prefix_def opcode_defs deser_u16_le_bytes
          unat_ucast_up unat_of_nat)
  next
    case 4
    then show ?thesis using assms
      by (simp add: push_len_def push_code_def push_prefix_def opcode_defs deser_u32_le_bytes unat_of_nat)
  qed
qed

lemma get_ops_step:
  assumes "item_ok it"
  shows "get_ops_loop (render it @ r) ops = get_ops_loop r (ops @ [item_op it])"
proof (cases it)
  case (Push d)
  obtain w where w: "push_len (push_code (length d)) (push_prefix (length d) @ d @ r) = Some (w, d @ r)"
      "unat w = length d"
    using push_len_prefix [of "length d" "d @ r"] assms Push by auto
  show ?thesis
    using assms w push_code_le [of "length d", THEN leD]
    by (subst get_ops_loop.simps) (simp add: Push render_Push)
next
  case (Op c)
  then show ?thesis using assms by (subst get_ops_loop.simps) simp
qed

lemma get_ops_items:
  "list_all item_ok its \<Longrightarrow> get_ops_loop (concat (map render its)) ops = (True, ops @ map item_op its)"
proof (induction its arbitrary: ops)
  case Nil
  then show ?case by (simp add: get_ops_loop.simps)
next
  case (Cons it its)
  then show ?case using get_ops_step [of it "concat (map render its)" ops] by simp
qed

lemma render_nonempty: "render it \<noteq> []"
  by (cases it) (simp_all add: render_Push)

lemma script_get_ops_items:
  "list_all item_ok its \<Longrightarrow> its \<noteq> [] \<Longrightarrow>
    script_get_ops (concat (map render its)) = (True, map item_op its)"
  using get_ops_items [of its "[]"] render_nonempty by (cases its) (auto simp: script_get_ops_def)

section \<open>Copying items\<close>

lemma copy_data_push:
  assumes "unat w = length d" "d \<noteq> []"
  shows "copy_data opc w (d @ r) out = (True, r, out @ d)"
proof -
  have "w > 0" using assms by (simp add: word_gt_0 flip: unat_eq_0)
  then show ?thesis using assms by (simp add: copy_data_def ser_bytes_def)
qed

lemma copy_step_push:
  assumes "0 < length d" "length d < 2 ^ 32"
  shows "copy_step (push_code (length d)) (push_prefix (length d) @ d @ r) out =
    (True, r, out @ render (Push d))"
proof -
  let ?n = "length d"
  have ne: "d \<noteq> []" using assms by simp
  note defs = copy_step_def push_code_def push_prefix_def opcode_defs ser_bytes_def render_Push
  consider "?n < 0x4c" | "0x4c \<le> ?n" "?n \<le> 0xff" | "0xff < ?n" "?n \<le> 0xffff" | "0xffff < ?n" by linarith
  then show ?thesis
  proof cases
    case 1
    then have "(of_nat ?n :: u8) < 0x4c" "(of_nat ?n :: u8) > 0" "unat (ucast (of_nat ?n :: u8) :: u32) = ?n"
      using ne by (simp_all add: word_less_nat_alt unat_ucast_up)
    then show ?thesis using 1 copy_data_push [of _ d] ne by (simp add: defs)
  next
    case 2
    then have "unat (ucast (of_nat ?n :: u8) :: u32) = ?n" by (simp add: unat_ucast_up)
    then show ?thesis using 2 copy_data_push [of _ d] ne by (simp add: defs deser_bytes_def)
  next
    case 3
    then have "unat (ucast (of_nat ?n :: u16) :: u32) = ?n" "unat (of_nat ?n :: u16) = ?n"
      by (simp_all add: unat_ucast_up unat_of_nat)
    then show ?thesis using 3 copy_data_push [of _ d] ne by (simp add: defs deser_u16_le_bytes)
  next
    case 4
    then have "unat (of_nat ?n :: u32) = ?n" using assms by (simp add: unat_of_nat)
    then show ?thesis using 4 copy_data_push [of _ d] ne assms by (simp add: defs deser_u32_le_bytes)
  qed
qed

lemma copy_step_op:
  assumes "c > OP_PUSHDATA4"
  shows "copy_step c r out = (True, r, if c = OP_CODESEPARATOR then out else out @ [c])"
proof -
  have "\<not> c < OP_PUSHDATA1" "c \<noteq> OP_PUSHDATA1" "c \<noteq> OP_PUSHDATA2" "c \<noteq> OP_PUSHDATA4"
    using assms by (auto simp: opcode_defs word_less_nat_alt)
  then show ?thesis by (simp add: copy_step_def copy_data_def ser_bytes_def)
qed

lemma copy_loop_items:
  "list_all item_ok its \<Longrightarrow> copy_loop_script (concat (map render its)) out =
    (True, out @ concat (map render (filter (\<lambda>it. it \<noteq> Op OP_CODESEPARATOR) its)))"
proof (induction its arbitrary: out)
  case Nil
  then show ?case by (simp add: copy_loop_script.simps)
next
  case (Cons it its)
  show ?case
  proof (cases it)
    case (Push d)
    then show ?thesis
      using Cons copy_step_push [of d] by (subst copy_loop_script.simps) (simp add: render_Push)
  next
    case (Op c)
    then show ?thesis
      using Cons copy_step_op [of c] by (subst copy_loop_script.simps) simp
  qed
qed

section \<open>Classification\<close>

lemmas template_defs = script_is_pubkey_def script_is_pubkeyhash_def script_is_scripthash_def
  script_is_op_def script_is_op_pubkeyhash_def script_is_op_pubkey_def script_is_pushdata_def

lemma p2pkh_items:
  "length h = 20 \<Longrightarrow> script_build_p2pkh h =
    concat (map render [Op OP_DUP, Op OP_HASH160, Push h, Op OP_EQUALVERIFY, Op OP_CHECKSIG])"
  by (simp add: script_build_p2pkh_def script_append_op_append script_append_pushdata_append del: render.simps)

lemma p2sh_items:
  "length h = 20 \<Longrightarrow> script_build_p2sh h = concat (map render [Op OP_HASH160, Push h, Op OP_EQUAL])"
  by (simp add: script_build_p2sh_def script_append_op_append script_append_pushdata_append del: render.simps)

lemma ops_p2pkh:
  assumes "length h = 20"
  shows "script_get_ops (script_build_p2pkh h) =
    (True, map item_op [Op OP_DUP, Op OP_HASH160, Push h, Op OP_EQUALVERIFY, Op OP_CHECKSIG])"
proof -
  have "list_all item_ok [Op OP_DUP, Op OP_HASH160, Push h, Op OP_EQUALVERIFY, Op OP_CHECKSIG]"
    using assms by (simp add: opcode_defs)
  then show ?thesis unfolding p2pkh_items [OF assms] by (rule script_get_ops_items) simp
qed

lemma ops_p2sh:
  assumes "length h = 20"
  shows "script_get_ops (script_build_p2sh h) = (True, map item_op [Op OP_HASH160, Push h, Op OP_EQUAL])"
proof -
  have "list_all item_ok [Op OP_HASH160, Push h, Op OP_EQUAL]"
    using assms by (simp add: opcode_defs)
  then show ?thesis unfolding p2sh_items [OF assms] by (rule script_get_ops_items) simp
qed

lemma classify_p2pkh: "length h = 20 \<Longrightarrow> script_classify (script_build_p2pkh h) = (DOGECOIN_TX_PUBKEYHASH, [h])"
  by (simp add: script_classify_def ops_p2pkh template_defs script_is_multisig_def op_bytes_def
      script_is_op_smallint_def push_code_def Let_def opcode_defs)

lemma classify_p2sh: "length h = 20 \<Longrightarrow> script_classify (script_build_p2sh h) = (DOGECOIN_TX_SCRIPTHASH, [h])"
  by (simp add: script_classify_def ops_p2sh template_defs script_is_multisig_def op_bytes_def
      script_is_op_smallint_def push_code_def Let_def opcode_defs)

lemma template_exclusive:
  "script_is_pubkeyhash ops \<noteq> None \<Longrightarrow> script_is_scripthash ops = None \<and> script_is_pubkey ops = None \<and>
    \<not> script_is_multisig ops"
  "script_is_scripthash ops \<noteq> None \<Longrightarrow> script_is_pubkey ops = None \<and> \<not> script_is_multisig ops"
  "script_is_pubkey ops \<noteq> None \<Longrightarrow> \<not> script_is_multisig ops"
  by (auto simp: script_is_pubkey_def script_is_pubkeyhash_def script_is_scripthash_def script_is_op_def
      script_is_multisig_def script_is_op_smallint_def opcode_defs split: if_splits)

definition pubkey_ok :: "dogecoin_pubkey \<Rightarrow> bool" where
  "pubkey_ok pk \<longleftrightarrow> length (pk_pubkey pk) = 65 \<and>
     pubkey_get_length (hd (pk_pubkey pk)) = (if pk_compressed pk then 33 else 65)"

definition pk_bytes :: "dogecoin_pubkey \<Rightarrow> bytes" where
  "pk_bytes pk = take (if pk_compressed pk then 33 else 65) (pk_pubkey pk)"

lemma encode_op_n_small:
  assumes "0 < n" "n \<le> 16"
  shows "\<exists>c. encode_op_n (int n) = Inr c \<and> c > OP_PUSHDATA4 \<and> c \<ge> OP_1 \<and> c \<le> OP_16"
proof -
  have "(of_int (uint OP_1 + int n - 1) :: u8) = of_nat (80 + n)" by (simp add: OP_1_def)
  moreover have "unat (of_nat (80 + n) :: u8) = 80 + n" using assms by (simp only: unat_of_nat_u8) simp
  ultimately show ?thesis
    using assms by (auto simp: encode_op_n_def OP_PUSHDATA4_def OP_16_def OP_1_def
        word_less_nat_alt word_le_nat_alt)
qed

lemma is_op_pubkey_item: "pubkey_ok pk \<Longrightarrow> script_is_op_pubkey (item_op (Push (pk_bytes pk)))"
proof -
  assume ok: "pubkey_ok pk"
  have l: "length (pk_bytes pk) = (if pk_compressed pk then 33 else 65)"
    using ok by (simp add: pubkey_ok_def pk_bytes_def)
  moreover have "hd (pk_bytes pk) = hd (pk_pubkey pk)"
    using ok by (auto simp: pubkey_ok_def pk_bytes_def hd_take)
  ultimately show ?thesis
    using ok push_code_le by (auto simp: script_is_op_pubkey_def script_is_pushdata_def pubkey_ok_def)
qed

lemma foldl_push:
  "foldl (\<lambda>s pk. script_append_pushdata s (f pk)) s pks = s @ concat (map (\<lambda>pk. render (Push (f pk))) pks)"
  by (induction pks arbitrary: s) (simp_all add: script_append_pushdata_append del: render.simps)

lemma build_multisig_items:
  assumes "list_all pubkey_ok pks" "1 \<le> m" "m \<le> length pks" "length pks \<le> 16"
  shows "\<exists>c d. script_build_multisig m (Some pks) =
      Inr (True, concat (map render (Op c # map (Push \<circ> pk_bytes) pks @ [Op d, Op OP_CHECKMULTISIG]))) \<and>
      c > OP_PUSHDATA4 \<and> c \<ge> OP_1 \<and> c \<le> OP_16 \<and> d > OP_PUSHDATA4 \<and> d \<ge> OP_1 \<and> d \<le> OP_16"
proof -
  obtain c where c: "encode_op_n (int m) = Inr c" "c > OP_PUSHDATA4" "c \<ge> OP_1" "c \<le> OP_16"
    using encode_op_n_small [of m] assms by auto
  obtain d where d: "encode_op_n (int (length pks)) = Inr d" "d > OP_PUSHDATA4" "d \<ge> OP_1" "d \<le> OP_16"
    using encode_op_n_small [of "length pks"] assms(2-4) by (metis less_le_trans zero_less_one)
  have ne: "pks \<noteq> []" using assms(2,3) by auto
  have f: "foldl (\<lambda>s pk. script_append_pushdata s (take (if pk_compressed pk then 33 else 65) (pk_pubkey pk))) s pks
      = s @ concat (map (\<lambda>pk. render (Push (pk_bytes pk))) pks)" for s
    using foldl_push [of pk_bytes s pks] by (simp add: pk_bytes_def [abs_def] cong: if_cong)
  have "script_build_multisig m (Some pks) =
      Inr (True, concat (map render (Op c # map (Push \<circ> pk_bytes) pks @ [Op d, Op OP_CHECKMULTISIG])))"
    using assms(2-4) c(1) d(1) ne
    by (simp add: script_build_multisig_def Let_def f script_append_op_append o_def del: render.simps(1))
  then show ?thesis using c d by blast
qed

lemma is_multisig_items:
  assumes "list_all pubkey_ok pks" "length pks \<le> 16" "c \<ge> OP_1" "c \<le> OP_16" "d \<ge> OP_1" "d \<le> OP_16" "pks \<noteq> []"
  shows "script_is_multisig (map item_op (Op c # map (Push \<circ> pk_bytes) pks @ [Op d, Op OP_CHECKMULTISIG]))"
proof -
  let ?k = "length pks"
  let ?ops = "map item_op (Op c # map (Push \<circ> pk_bytes) pks @ [Op d, Op OP_CHECKMULTISIG])"
  have l: "length ?ops = ?k + 3" by simp
  have "script_is_op_pubkey (?ops ! i)" if "1 \<le> i" "i < ?k + 1" for i
  proof -
    have "?ops ! i = item_op (Push (pk_bytes (pks ! (i - 1))))"
      using that by (cases i) (auto simp: nth_append)
    moreover have "pubkey_ok (pks ! (i - 1))" using assms(1) that by (auto simp: list_all_length)
    ultimately show ?thesis using is_op_pubkey_item by metis
  qed
  then have "list_all (\<lambda>i. script_is_op_pubkey (?ops ! i)) [1..<?k + 1]"
    by (auto simp only: list_all_iff set_upt atLeastLessThan_iff)
  moreover have "?ops ! 0 = item_op (Op c)" by simp
  moreover have "?ops ! (?k + 1) = item_op (Op d)" "?ops ! (?k + 2) = item_op (Op OP_CHECKMULTISIG)"
    by (simp_all add: nth_append)
  moreover have "?k + 3 - 2 = ?k + 1" "?k + 3 - 1 = ?k + 2" by simp_all
  moreover have "script_is_op_smallint (item_op (Op c))" "script_is_op_smallint (item_op (Op d))"
    using assms(3-6) by (simp_all add: script_is_op_smallint_def)
  moreover have "script_is_op (item_op (Op OP_CHECKMULTISIG)) OP_CHECKMULTISIG" by (simp add: script_is_op_def)
  moreover have "\<not> ?k + 3 < 3" "\<not> ?k + 3 > 16 + 3" using assms(2) by simp_all
  ultimately show ?thesis unfolding script_is_multisig_def l by (simp only: simp_thms if_False)
qed

section \<open>Properties\<close>

text \<open>
  Parsing inverts building: for every non-empty sequence of non-empty pushes (below \<open>2 ^ 32\<close>
  bytes) and operations above \<open>OP_PUSHDATA4\<close>, \<open>dogecoin_script_get_ops\<close> on the script that
  \<open>append_pushdata\<close> and \<open>append_op\<close> build succeeds and returns exactly these operations with
  their data.
\<close>

theorem get_ops_inverts_build:
  assumes "list_all item_ok its" "its \<noteq> []"
  shows "script_get_ops (foldl (\<lambda>s it. case it of Push d \<Rightarrow> script_append_pushdata s d
      | Op c \<Rightarrow> script_append_op s c) [] its) = (True, map item_op its)"
proof -
  have "foldl (\<lambda>s it. case it of Push d \<Rightarrow> script_append_pushdata s d | Op c \<Rightarrow> script_append_op s c) s its
      = s @ concat (map render its)" for s
  proof (induction its arbitrary: s)
    case (Cons it its)
    then show ?case
      by (cases it) (simp_all add: script_append_op_append script_append_pushdata_append del: render.simps)
  qed simp
  then show ?thesis using script_get_ops_items [OF assms] by simp
qed

theorem get_ops_inverts_build_witness:
  "script_get_ops (foldl (\<lambda>s it. case it of Push d \<Rightarrow> script_append_pushdata s d
      | Op c \<Rightarrow> script_append_op s c) [] [Op OP_DUP, Push [1, 2, 3], Op OP_CHECKSIG])
    = (True, map item_op [Op OP_DUP, Push [1, 2, 3], Op OP_CHECKSIG])"
  by (rule get_ops_inverts_build) (simp_all add: opcode_defs)

text \<open>
  \<open>dogecoin_script_copy_without_op_codeseperator\<close> on a script of that form removes exactly the
  \<open>OP_CODESEPARATOR\<close> operations and copies everything else byte for byte, never a byte of pushed
  data that happens to have that value.
\<close>

theorem copy_removes_codeseparators:
  assumes "list_all item_ok its" "its \<noteq> []"
  shows "script_copy_without_op_codeseperator (concat (map render its)) [] =
    (True, concat (map render (filter (\<lambda>it. it \<noteq> Op OP_CODESEPARATOR) its)))"
  using copy_loop_items [OF assms(1), of "[]"] assms(2) render_nonempty
  by (cases its) (auto simp: script_copy_without_op_codeseperator_def)

theorem copy_removes_codeseparators_witness:
  "script_copy_without_op_codeseperator
      (concat (map render [Op OP_CODESEPARATOR, Push [0xab, 2], Op OP_CHECKSIG])) [] =
    (True, concat (map render [Push [0xab, 2], Op OP_CHECKSIG]))"
  using copy_removes_codeseparators [of "[Op OP_CODESEPARATOR, Push [0xab, 2], Op OP_CHECKSIG]"]
  by (simp add: opcode_defs)

text \<open>
  The scripts the library builds are recognised with their data: a pay-to-pubkey-hash and a
  pay-to-script-hash script are classified as such and the hash put into \<open>data_out\<close> is the one they
  were built from.
\<close>

theorem built_scripts_classified:
  assumes "length h = 20"
  shows "script_classify (script_build_p2pkh h) = (DOGECOIN_TX_PUBKEYHASH, [h]) \<and>
    script_classify (script_build_p2sh h) = (DOGECOIN_TX_SCRIPTHASH, [h])"
  using classify_p2pkh classify_p2sh assms by simp

theorem built_scripts_classified_witness:
  "script_classify (script_build_p2pkh (replicate 20 7)) = (DOGECOIN_TX_PUBKEYHASH, [replicate 20 7])"
  using built_scripts_classified [of "replicate 20 7"] by simp

text \<open>
  For \<open>1 \<le> m \<le> n \<le> 16\<close> and \<open>n\<close> well-formed public keys, \<open>dogecoin_script_build_multisig\<close>
  succeeds and its script is classified as multisig, without data.
\<close>

theorem built_multisig_classified:
  assumes "list_all pubkey_ok pks" "1 \<le> m" "m \<le> length pks" "length pks \<le> 16"
  shows "\<exists>s. script_build_multisig m (Some pks) = Inr (True, s) \<and> script_classify s = (DOGECOIN_TX_MULTISIG, [])"
proof -
  obtain c d where s: "script_build_multisig m (Some pks) =
      Inr (True, concat (map render (Op c # map (Push \<circ> pk_bytes) pks @ [Op d, Op OP_CHECKMULTISIG])))"
    and cd: "c > OP_PUSHDATA4" "c \<ge> OP_1" "c \<le> OP_16" "d > OP_PUSHDATA4" "d \<ge> OP_1" "d \<le> OP_16"
    using build_multisig_items [OF assms] by blast
  let ?its = "Op c # map (Push \<circ> pk_bytes) pks @ [Op d, Op OP_CHECKMULTISIG]"
  have "list_all item_ok ?its"
    using assms(1) cd by (auto simp: list_all_iff pubkey_ok_def pk_bytes_def opcode_defs)
  then have ops: "script_get_ops (concat (map render ?its)) = (True, map item_op ?its)"
    by (rule script_get_ops_items) simp
  have ms: "script_is_multisig (map item_op ?its)"
    using is_multisig_items [OF assms(1,4) cd(2,3,5,6)] assms(2,3) by fastforce
  then have "script_is_pubkeyhash (map item_op ?its) = None" "script_is_scripthash (map item_op ?its) = None"
      "script_is_pubkey (map item_op ?its) = None"
    using template_exclusive by blast+
  then have "script_classify (concat (map render ?its)) = (DOGECOIN_TX_MULTISIG, [])"
    unfolding script_classify_def ops using ms by simp
  then show ?thesis using s by blast
qed

theorem built_multisig_classified_witness:
  "\<exists>s. script_build_multisig 1 (Some [\<lparr>pk_pubkey = 2 # replicate 64 5, pk_compressed = True\<rparr>]) = Inr (True, s) \<and>
    script_classify s = (DOGECOIN_TX_MULTISIG, [])"
  by (rule built_multisig_classified) (simp_all add: pubkey_ok_def pubkey_get_length_def)

text \<open>
  The two classifiers agree: \<open>dogecoin_script_classify\<close>, which lets the last matching template
  win, returns what \<open>dogecoin_script_classify_ops\<close>, which takes the first, returns on the parsed
  operations; at most one data element is handed out.
\<close>

theorem classifiers_agree:
  "fst (script_classify script) = script_classify_ops (snd (script_get_ops script)) \<and>
    length (snd (script_classify script)) \<le> 1"
  using template_exclusive [of "snd (script_get_ops script)"]
  by (auto simp: script_classify_def script_classify_ops_def Let_def split: option.splits)

text \<open>
  \<open>dogecoin_script_copy_without_op_codeseperator\<close> corrupts a push of zero bytes: \<open>OP_PUSHDATA1\<close>
  with length 0 is copied as opcode, length and the opcode once more.
\<close>

theorem copy_duplicates_empty_pushdata:
  "script_copy_without_op_codeseperator [OP_PUSHDATA1, 0, OP_CHECKSIG] [] =
    (True, [OP_PUSHDATA1, 0, OP_PUSHDATA1, OP_CHECKSIG])"
  by (simp add: script_copy_without_op_codeseperator_def copy_loop_script.simps copy_step_def
      copy_data_def deser_bytes_def ser_bytes_def opcode_defs)

end
