(* ===== verification/Tx.thy ===== *)
theory Tx
  imports Script
begin

text \<open>
  Model of \<open>src/src/tx.c\<close> (with \<open>dogecoin_hash_is_empty\<close> of \<open>hash.h\<close>): transactions, their wire
  format, hashing, the signature hash, adding outputs and signing an input.

  A vector of inputs or outputs is a list, a \<open>cstring*\<close> or \<open>vector_t*\<close> is \<open>None\<close> for NULL. The
  mutex of a thread-safe transaction is not modelled. SHA-256 (doubled) is the parameter \<open>H\<close>; the
  key functions that rest on secp256k1 are the fields of \<open>crypto\<close>. Dereferencing a NULL script is
  the outcome \<open>Inl NullDeref\<close>.
\<close>

section \<open>Data\<close>

record tx_outpoint =
  po_hash :: bytes
  po_n :: u32

record tx_in =
  in_prevout :: tx_outpoint
  in_script_sig :: "bytes option"
  in_sequence :: u32

record tx_out =
  out_value :: u64
  out_script_pubkey :: "bytes option"

record dogecoin_tx =
  tx_version :: u32
  tx_vin :: "tx_in list option"
  tx_vout :: "tx_out list option"
  tx_locktime :: u32

definition vlist :: "'a list option \<Rightarrow> 'a list" where
  "vlist v = (case v of None \<Rightarrow> [] | Some xs \<Rightarrow> xs)"

definition tx_in_new :: tx_in where
  "tx_in_new = \<lparr>in_prevout = \<lparr>po_hash = replicate 32 0, po_n = 0xFFFFFFFF\<rparr>, in_script_sig = None,
                in_sequence = 0xFFFFFFFF\<rparr>"

definition tx_out_new :: tx_out where
  "tx_out_new = \<lparr>out_value = 0, out_script_pubkey = None\<rparr>"

definition tx_new :: dogecoin_tx where
  "tx_new = \<lparr>tx_version = 1, tx_vin = Some [], tx_vout = Some [], tx_locktime = 0\<rparr>"

section \<open>Wire format\<close>

text \<open>The result of \<open>deser_u256\<close> is not checked: on a short buffer the hash stays as it was.\<close>

definition tx_in_deserialize :: "tx_in \<Rightarrow> tx_in deser" where
  "tx_in_deserialize t buf =
     (let (h, buf1) = (case deser_u256 buf of
                         Some (h, r) \<Rightarrow> (h, r)
                       | None \<Rightarrow> (po_hash (in_prevout t), buf)) in
      do { (n, buf2) \<leftarrow> deser_u32 buf1;
           (scr, buf3) \<leftarrow> deser_varstr buf2;
           (sq, buf4) \<leftarrow> deser_u32 buf3;
           Some (\<lparr>in_prevout = \<lparr>po_hash = h, po_n = n\<rparr>, in_script_sig = Some scr, in_sequence = sq\<rparr>, buf4) })"

definition tx_out_deserialize :: "tx_out deser" where
  "tx_out_deserialize buf =
     do { (v, buf1) \<leftarrow> deser_s64 buf;
          (scr, buf2) \<leftarrow> deser_varstr buf1;
          Some (\<lparr>out_value = v, out_script_pubkey = Some scr\<rparr>, buf2) }"

text \<open>The loops over the witness stacks: everything is read and dropped.\<close>

definition skip_witness :: "unit deser" where
  "skip_witness buf =
     do { (n, buf1) \<leftarrow> deser_varlen buf;
          (_, buf2) \<leftarrow> deser_n deser_varstr (unat n) buf1;
          Some ((), buf2) }"

text \<open>
  The result is the transaction and the unread rest, from which \<open>*consumed_length\<close> is computed.
  \<open>tx\<close> has to be initialized: its vectors are extended.
\<close>

definition tx_deserialize_ex :: "bool \<Rightarrow> dogecoin_tx \<Rightarrow> dogecoin_tx deser" where
  "tx_deserialize_ex allow_witness tx buf =
     do { (version, buf) \<leftarrow> deser_s32 buf;
          (vlen, buf) \<leftarrow> deser_varlen buf;
          (flags, vlen, buf) \<leftarrow>
            (if vlen = 0 \<and> allow_witness then
               let (fl, b) = (case deser_bytes 1 buf of Some (c, r) \<Rightarrow> (hd c, r) | None \<Rightarrow> (0 :: u8, buf)) in
               (if fl \<noteq> 0 then do { (vl, b2) \<leftarrow> deser_varlen b; Some (fl, vl, b2) }
                else Some (fl, vlen, b))
             else Some (0, vlen, buf));
          (ins, buf) \<leftarrow> deser_n (tx_in_deserialize tx_in_new) (unat vlen) buf;
          (vlen, buf) \<leftarrow> deser_varlen buf;
          (outs, buf) \<leftarrow> deser_n tx_out_deserialize (unat vlen) buf;
          (flags, buf) \<leftarrow>
            (if odd (unat flags) then
               do { (_, b) \<leftarrow> deser_n skip_witness (length (vlist (tx_vin tx) @ ins)) buf;
                    Some (flags - 1, b) }
             else Some (flags, buf));
          if flags \<noteq> 0 then None
          else
            do { (lt, buf) \<leftarrow> deser_u32 buf;
                 Some (\<lparr>tx_version = version, tx_vin = Some (vlist (tx_vin tx) @ ins),
                        tx_vout = Some (vlist (tx_vout tx) @ outs), tx_locktime = lt\<rparr>, buf) } }"

definition tx_deserialize :: "dogecoin_tx \<Rightarrow> dogecoin_tx deser" where
  "tx_deserialize tx buf = tx_deserialize_ex True tx buf"

definition tx_in_serialize :: "bytes \<Rightarrow> tx_in \<Rightarrow> bytes" where
  "tx_in_serialize s t =
     ser_u32 (ser_varstr (ser_u32 (ser_u256 s (po_hash (in_prevout t))) (po_n (in_prevout t)))
                         (in_script_sig t))
             (in_sequence t)"

definition tx_out_serialize :: "bytes \<Rightarrow> tx_out \<Rightarrow> bytes" where
  "tx_out_serialize s t = ser_varstr (ser_s64 s (out_value t)) (out_script_pubkey t)"

definition tx_serialize :: "bytes \<Rightarrow> dogecoin_tx \<Rightarrow> bytes" where
  "tx_serialize s tx =
     (let s1 = ser_varlen (ser_s32 s (tx_version tx)) (of_nat (length (vlist (tx_vin tx))));
          s2 = foldl tx_in_serialize s1 (vlist (tx_vin tx));
          s3 = ser_varlen s2 (of_nat (length (vlist (tx_vout tx))));
          s4 = foldl tx_out_serialize s3 (vlist (tx_vout tx)) in
      ser_u32 s4 (tx_locktime tx))"

definition tx_hash :: "(bytes \<Rightarrow> bytes) \<Rightarrow> dogecoin_tx \<Rightarrow> bytes" where
  "tx_hash H tx = H (tx_serialize [] tx)"

section \<open>Copies\<close>

definition tx_in_copy :: "tx_in \<Rightarrow> tx_in \<Rightarrow> tx_in" where
  "tx_in_copy dest src =
     dest\<lparr>in_prevout := in_prevout src, in_sequence := in_sequence src,
          in_script_sig := (case in_script_sig src of None \<Rightarrow> None | Some c \<Rightarrow> Some (ser_bytes [] c))\<rparr>"

definition tx_out_copy :: "tx_out \<Rightarrow> tx_out \<Rightarrow> tx_out" where
  "tx_out_copy dest src =
     dest\<lparr>out_value := out_value src,
          out_script_pubkey := (case out_script_pubkey src of None \<Rightarrow> None | Some c \<Rightarrow> Some (ser_bytes [] c))\<rparr>"

definition tx_copy :: "dogecoin_tx \<Rightarrow> dogecoin_tx \<Rightarrow> dogecoin_tx" where
  "tx_copy dest src =
     dest\<lparr>tx_version := tx_version src, tx_locktime := tx_locktime src,
          tx_vin := (case tx_vin src of None \<Rightarrow> None | Some xs \<Rightarrow> Some (map (tx_in_copy tx_in_new) xs)),
          tx_vout := (case tx_vout src of None \<Rightarrow> None | Some xs \<Rightarrow> Some (map (tx_out_copy tx_out_new) xs))\<rparr>"

section \<open>Partial hashes and the signature hash\<close>

definition tx_prevout_hash :: "(bytes \<Rightarrow> bytes) \<Rightarrow> dogecoin_tx \<Rightarrow> bytes" where
  "tx_prevout_hash H tx =
     H (foldl (\<lambda>s t. ser_u32 (ser_u256 s (po_hash (in_prevout t))) (po_n (in_prevout t))) [] (vlist (tx_vin tx)))"

definition tx_sequence_hash :: "(bytes \<Rightarrow> bytes) \<Rightarrow> dogecoin_tx \<Rightarrow> bytes" where
  "tx_sequence_hash H tx = H (foldl (\<lambda>s t. ser_u32 s (in_sequence t)) [] (vlist (tx_vin tx)))"

text \<open>\<open>None\<close>: the early return that leaves \<open>hash\<close> unset.\<close>

definition tx_outputs_hash :: "(bytes \<Rightarrow> bytes) \<Rightarrow> dogecoin_tx \<Rightarrow> bytes option" where
  "tx_outputs_hash H tx =
     (case tx_vout tx of None \<Rightarrow> None | Some outs \<Rightarrow> Some (H (foldl tx_out_serialize [] outs)))"

definition SIGHASH_NONE :: int where "SIGHASH_NONE = 2"
definition SIGHASH_SINGLE :: int where "SIGHASH_SINGLE = 3"

text \<open>
  The loops over the inputs: \<open>clear_scripts\<close> empties every script and puts the script code into the
  signed input (\<open>None\<close>: a NULL script is dereferenced), \<open>zero_sequences\<close> resets the others.
\<close>

fun clear_scripts :: "nat \<Rightarrow> bytes \<Rightarrow> nat \<Rightarrow> tx_in list \<Rightarrow> tx_in list option" where
  "clear_scripts in_num scr i [] = Some []"
| "clear_scripts in_num scr i (t # ts) =
     (case in_script_sig t of
        None \<Rightarrow> None
      | Some _ \<Rightarrow>
          do { ts' \<leftarrow> clear_scripts in_num scr (Suc i) ts;
               Some (t\<lparr>in_script_sig := Some (if i = in_num then ser_bytes [] scr else [])\<rparr> # ts') })"

fun zero_sequences :: "nat \<Rightarrow> nat \<Rightarrow> tx_in list \<Rightarrow> tx_in list" where
  "zero_sequences in_num i [] = []"
| "zero_sequences in_num i (t # ts) =
     (if i \<noteq> in_num then t\<lparr>in_sequence := 0\<rparr> else t) # zero_sequences in_num (Suc i) ts"

text \<open>\<open>Inr None\<close> is a false return; the hash type is the \<open>int\<close> as a 32-bit word.\<close>

definition tx_sighash ::
    "(bytes \<Rightarrow> bytes) \<Rightarrow> dogecoin_tx \<Rightarrow> bytes \<Rightarrow> nat \<Rightarrow> u32 \<Rightarrow> bytes option c_outcome" where
  "tx_sighash H tx_to fromPubKey in_num hashtype =
     (if in_num \<ge> length (vlist (tx_vin tx_to)) \<or> tx_vout tx_to = None then Inr None
      else
        let tx_tmp = tx_copy tx_new tx_to;
            new_script = snd (script_copy_without_op_codeseperator fromPubKey []) in
        case clear_scripts in_num new_script 0 (vlist (tx_vin tx_tmp)) of
          None \<Rightarrow> Inl NullDeref
        | Some vin \<Rightarrow>
            let vout = vlist (tx_vout tx_tmp);
                base = uint (take_bit 5 hashtype);
                single_fails = (base = SIGHASH_SINGLE \<and> in_num \<ge> length vout);
                (vin1, vout1) =
                  (if base = SIGHASH_NONE then (zero_sequences in_num 0 vin, [])
                   else if base = SIGHASH_SINGLE then
                     (zero_sequences in_num 0 vin,
                      map (\<lambda>t. t\<lparr>out_value := - 1, out_script_pubkey := None\<rparr>) (take in_num vout) @
                        [vout ! in_num])
                   else (vin, vout));
                vin2 = (if bit hashtype 7 then take 1 (drop in_num vin1) else vin1) in
            if single_fails then Inr None
            else
              Inr (Some (H (ser_s32 (tx_serialize [] (tx_tmp\<lparr>tx_vin := Some vin2, tx_vout := Some vout1\<rparr>))
                                    hashtype))))"

definition tx_sighash32 ::
    "(bytes \<Rightarrow> bytes) \<Rightarrow> dogecoin_tx option \<Rightarrow> bytes option \<Rightarrow> nat \<Rightarrow> u32 \<Rightarrow> bytes option c_outcome" where
  "tx_sighash32 H tx_to fromPubKey in_num hashtype =
     (case (tx_to, fromPubKey) of
        (Some tx, Some scr) \<Rightarrow> tx_sighash H tx scr in_num hashtype
      | _ \<Rightarrow> Inr None)"

section \<open>Adding outputs\<close>

definition add_out :: "dogecoin_tx \<Rightarrow> u64 \<Rightarrow> bytes \<Rightarrow> dogecoin_tx" where
  "add_out tx amount scr =
     tx\<lparr>tx_vout := Some (vlist (tx_vout tx) @ [tx_out_new\<lparr>out_value := amount, out_script_pubkey := Some scr\<rparr>])\<rparr>"

definition tx_add_data_out :: "dogecoin_tx \<Rightarrow> u64 \<Rightarrow> bytes \<Rightarrow> bool \<times> dogecoin_tx" where
  "tx_add_data_out tx amount d =
     (if length d > 80 then (False, tx)
      else (True, add_out tx amount (script_append_pushdata (script_append_op [] OP_RETURN) d)))"

definition OP_HASH256 :: opcode where "OP_HASH256 = 0xaa"

definition tx_add_puzzle_out :: "dogecoin_tx \<Rightarrow> u64 \<Rightarrow> bytes \<Rightarrow> bool \<times> dogecoin_tx" where
  "tx_add_puzzle_out tx amount puzzle =
     (if length puzzle > 32 then (False, tx)
      else
        (True, add_out tx amount
           (script_append_op (script_append_pushdata (script_append_op [] OP_HASH256) puzzle) OP_EQUAL)))"

definition tx_add_p2pkh_hash160_out :: "dogecoin_tx \<Rightarrow> u64 \<Rightarrow> bytes \<Rightarrow> bool \<times> dogecoin_tx" where
  "tx_add_p2pkh_hash160_out tx amount hash160 = (True, add_out tx amount (script_build_p2pkh hash160))"

definition tx_add_p2sh_hash160_out :: "dogecoin_tx \<Rightarrow> u64 \<Rightarrow> bytes \<Rightarrow> bool \<times> dogecoin_tx" where
  "tx_add_p2sh_hash160_out tx amount hash160 = (True, add_out tx amount (script_build_p2sh hash160))"

text \<open>
  \<open>dec\<close> is \<open>dogecoin_base58_decode_check\<close> on a 256-byte buffer: the number of bytes (0 for an
  error) and the buffer; the prefixes are those of the chain parameters.
\<close>

definition tx_add_address_out ::
    "(bytes \<Rightarrow> nat \<times> bytes) \<Rightarrow> u8 \<Rightarrow> u8 \<Rightarrow> dogecoin_tx \<Rightarrow> u64 \<Rightarrow> bytes \<Rightarrow> bool \<times> dogecoin_tx" where
  "tx_add_address_out dec prefix_pubkey prefix_script tx amount address =
     (let (r, buf) = dec address in
      if r > 0 \<and> buf ! 0 = prefix_pubkey then
        (True, snd (tx_add_p2pkh_hash160_out tx amount (take 20 (drop 1 buf))))
      else if r > 0 \<and> buf ! 0 = prefix_script then
        (True, snd (tx_add_p2sh_hash160_out tx amount (take 20 (drop 1 buf))))
      else (False, tx))"

definition tx_add_p2pkh_out ::
    "(dogecoin_pubkey \<Rightarrow> bytes) \<Rightarrow> dogecoin_tx \<Rightarrow> u64 \<Rightarrow> dogecoin_pubkey \<Rightarrow> bool \<times> dogecoin_tx" where
  "tx_add_p2pkh_out hash160 tx amount pubkey = tx_add_p2pkh_hash160_out tx amount (hash160 pubkey)"

section \<open>Coinbase\<close>

definition tx_outpoint_is_null :: "tx_outpoint option \<Rightarrow> bool" where
  "tx_outpoint_is_null tx =
     (case tx of
        None \<Rightarrow> True
      | Some t \<Rightarrow> if po_n t \<noteq> - 1 then False else list_all (\<lambda>c. c = 0) (po_hash t))"

text \<open>\<open>hash[0] == 0 && !memcmp(hash, hash + 1, 19)\<close>.\<close>

definition hash_is_empty :: "bytes \<Rightarrow> bool" where
  "hash_is_empty h \<longleftrightarrow> h ! 0 = 0 \<and> take 19 h = take 19 (drop 1 h)"

definition tx_is_coinbase :: "dogecoin_tx \<Rightarrow> bool" where
  "tx_is_coinbase tx =
     (if length (vlist (tx_vin tx)) = 1 then
        let vin = vlist (tx_vin tx) ! 0 in
        hash_is_empty (po_hash (in_prevout vin)) \<and> po_n (in_prevout vin) = 0xFFFFFFFF
      else False)"

section \<open>Signing\<close>

datatype tx_sign_result =
    DOGECOIN_SIGN_UNKNOWN
  | DOGECOIN_SIGN_INVALID_KEY
  | DOGECOIN_SIGN_NO_KEY_MATCH
  | DOGECOIN_SIGN_SIGHASH_FAILED
  | DOGECOIN_SIGN_UNKNOWN_SCRIPT_TYPE
  | DOGECOIN_SIGN_INVALID_TX_OR_SCRIPT
  | DOGECOIN_SIGN_INPUTINDEX_OUT_OF_RANGE
  | DOGECOIN_SIGN_INVALID_DER
  | DOGECOIN_SIGN_OK

fun tx_sign_result_to_str :: "tx_sign_result \<Rightarrow> string" where
  "tx_sign_result_to_str DOGECOIN_SIGN_OK = ''OK''"
| "tx_sign_result_to_str DOGECOIN_SIGN_INVALID_TX_OR_SCRIPT = ''INVALID_TX_OR_SCRIPT''"
| "tx_sign_result_to_str DOGECOIN_SIGN_INPUTINDEX_OUT_OF_RANGE = ''INPUTINDEX_OUT_OF_RANGE''"
| "tx_sign_result_to_str DOGECOIN_SIGN_INVALID_KEY = ''INVALID_KEY''"
| "tx_sign_result_to_str DOGECOIN_SIGN_NO_KEY_MATCH = ''NO_KEY_MATCH''"
| "tx_sign_result_to_str DOGECOIN_SIGN_UNKNOWN_SCRIPT_TYPE = ''SIGN_UNKNOWN_SCRIPT_TYPE''"
| "tx_sign_result_to_str DOGECOIN_SIGN_SIGHASH_FAILED = ''SIGHASH_FAILED''"
| "tx_sign_result_to_str DOGECOIN_SIGN_INVALID_DER = ''INVALID_DER''"
| "tx_sign_result_to_str DOGECOIN_SIGN_UNKNOWN = ''UNKOWN''"

text \<open>
  The key functions: validity of a private key, its public key and the validity of that, the
  hash160 of a public key, the compact signature of a hash, and the normalized DER form of a
  compact signature (\<open>None\<close> when the conversion fails).
\<close>

record 'key crypto =
  privkey_is_valid :: "'key \<Rightarrow> bool"
  pubkey_from_key :: "'key \<Rightarrow> dogecoin_pubkey"
  pubkey_is_valid :: "dogecoin_pubkey \<Rightarrow> bool"
  pubkey_get_hash160 :: "dogecoin_pubkey \<Rightarrow> bytes"
  key_sign_hash_compact :: "'key \<Rightarrow> bytes \<Rightarrow> bytes"
  ecc_compact_to_der_normalized :: "bytes \<Rightarrow> bytes option"

definition ser_sized :: "bytes \<Rightarrow> bytes \<Rightarrow> bytes" where
  "ser_sized s d = ser_bytes (ser_varlen s (of_nat (length d))) d"

text \<open>The scriptSig of the pay-to-pubkey-hash branch and the one of the multisig branch.\<close>

definition p2pkh_script_sig :: "bytes \<Rightarrow> bytes \<Rightarrow> dogecoin_pubkey \<Rightarrow> bytes" where
  "p2pkh_script_sig old sigder pubkey =
     ser_sized (ser_sized old sigder)
       (take (if pk_compressed pubkey then 33 else 65) (pk_pubkey pubkey))"

definition multisig_script_sig :: "bytes \<Rightarrow> bytes \<Rightarrow> bytes \<Rightarrow> bytes" where
  "multisig_script_sig old sigder script =
     (let existing_ops = snd (script_get_ops old);
          end0 = length existing_ops;
          start = (if end0 > 0 \<and> op_code (existing_ops ! 0) = OP_0 \<and> op_datalen (existing_ops ! 0) = 0
                   then 1 else 0);
          end1 = (if end0 > 0 \<and> end0 > start \<and> op_data (existing_ops ! (end0 - 1)) = Some script
                  then end0 - 1 else end0);
          new0 = ser_bytes [] [OP_0];
          new1 = foldl (\<lambda>s opr. case op_data opr of
                            Some d \<Rightarrow> if op_datalen opr > 0 then ser_sized s d else s
                          | None \<Rightarrow> s) new0 (take (end1 - start) (drop start existing_ops)) in
      ser_sized (ser_sized new1 sigder) script)"

text \<open>
  The result: the code, the transaction, the compact signature and the DER signature with hash
  type where the function got as far as storing them.
\<close>

definition tx_sign_input ::
    "'key crypto \<Rightarrow> (bytes \<Rightarrow> bytes) \<Rightarrow> dogecoin_tx option \<Rightarrow> bytes option \<Rightarrow> 'key \<Rightarrow> nat \<Rightarrow> u32 \<Rightarrow>
     (tx_sign_result \<times> dogecoin_tx option \<times> bytes option \<times> bytes option) c_outcome" where
  "tx_sign_input cr H tx_in_out script privkey inputindex sighashtype =
     (case (tx_in_out, script) of
        (Some tx, Some scr) \<Rightarrow>
          if inputindex \<ge> length (vlist (tx_vin tx)) then
            Inr (DOGECOIN_SIGN_INPUTINDEX_OUT_OF_RANGE, Some tx, None, None)
          else if \<not> privkey_is_valid cr privkey then Inr (DOGECOIN_SIGN_INVALID_KEY, Some tx, None, None)
          else
            let pubkey = pubkey_from_key cr privkey in
            if \<not> pubkey_is_valid cr pubkey then Inr (DOGECOIN_SIGN_INVALID_KEY, Some tx, None, None)
            else
              let (type, script_pushes) = script_classify scr;
                  res = (if type = DOGECOIN_TX_PUBKEYHASH \<and> length script_pushes = 1 then
                           (if script_pushes ! 0 \<noteq> pubkey_get_hash160 cr pubkey
                            then DOGECOIN_SIGN_NO_KEY_MATCH else DOGECOIN_SIGN_OK)
                         else if type \<noteq> DOGECOIN_TX_MULTISIG then DOGECOIN_SIGN_UNKNOWN_SCRIPT_TYPE
                         else DOGECOIN_SIGN_OK) in
              seqc (tx_sighash H tx scr inputindex sighashtype) (\<lambda>hash.
              case hash of
                None \<Rightarrow> Inr (DOGECOIN_SIGN_SIGHASH_FAILED, Some tx, None, None)
              | Some sighash \<Rightarrow>
                  let sig = key_sign_hash_compact cr privkey sighash in
                  if length sig \<noteq> 64 then Inl AssertFailed
                  else
                    case ecc_compact_to_der_normalized cr sig of
                      None \<Rightarrow> Inr (DOGECOIN_SIGN_INVALID_DER, Some tx, Some sig, None)
                    | Some der \<Rightarrow>
                        if length der = 0 \<or> length der > 72 then
                          Inr (DOGECOIN_SIGN_INVALID_DER, Some tx, Some sig, None)
                        else
                          let sigder = der @ [ucast sighashtype];
                              vin = vlist (tx_vin tx);
                              old = in_script_sig (vin ! inputindex);
                              put = (\<lambda>s. tx\<lparr>tx_vin := Some (vin[inputindex :=
                                            (vin ! inputindex)\<lparr>in_script_sig := Some s\<rparr>])\<rparr>) in
                          if type = DOGECOIN_TX_PUBKEYHASH then
                            (case old of
                               None \<Rightarrow> Inl NullDeref
                             | Some ss \<Rightarrow> Inr (res, Some (put (p2pkh_script_sig ss sigder pubkey)), Some sig, Some sigder))
                          else if type = DOGECOIN_TX_MULTISIG then
                            (case old of
                               None \<Rightarrow> Inl NullDeref
                             | Some ss \<Rightarrow> Inr (DOGECOIN_SIGN_OK, Some (put (multisig_script_sig ss sigder scr)),
                                              Some sig, Some sigder))
                          else Inr (DOGECOIN_SIGN_UNKNOWN_SCRIPT_TYPE, Some tx, Some sig, Some sigder))
      | _ \<Rightarrow> Inr (DOGECOIN_SIGN_INVALID_TX_OR_SCRIPT, tx_in_out, None, None))"

section \<open>Round trip\<close>

definition tx_in_ok :: "tx_in \<Rightarrow> bool" where
  "tx_in_ok t \<longleftrightarrow> length (po_hash (in_prevout t)) = 32 \<and>
     (\<exists>c. in_script_sig t = Some c \<and> length c < 2 ^ 32)"

definition tx_out_ok :: "tx_out \<Rightarrow> bool" where
  "tx_out_ok t \<longleftrightarrow> (\<exists>c. out_script_pubkey t = Some c \<and> length c < 2 ^ 32)"

lemma tx_in_serialize_eq:
  "tx_in_serialize s t = s @ ser_u256 [] (po_hash (in_prevout t)) @ ser_u32 [] (po_n (in_prevout t)) @
     ser_varstr [] (in_script_sig t) @ ser_u32 [] (in_sequence t)"
  unfolding tx_in_serialize_def ser_append(6) [of s] by (simp only: ser_norm append_assoc)

lemma tx_out_serialize_eq:
  "tx_out_serialize s t = s @ ser_s64 [] (out_value t) @ ser_varstr [] (out_script_pubkey t)"
  unfolding tx_out_serialize_def ser_append(5) [of s] by (simp only: ser_norm append_assoc)

lemma foldl_append: "(\<And>s x. f s x = s @ f [] x) \<Longrightarrow> foldl f s xs = s @ concat (map (f []) xs)"
proof (induction xs arbitrary: s)
  case (Cons x xs)
  have f: "f s x = s @ f [] x" for s x using Cons.prems by blast
  have "foldl f (f s x) xs = f s x @ concat (map (f []) xs)" by (rule Cons.IH) (rule f)
  then show ?case using f [of s x] by simp
qed simp

lemma foldl_in: "foldl tx_in_serialize s xs = s @ concat (map (tx_in_serialize []) xs)"
  by (rule foldl_append) (subst (1 2) tx_in_serialize_eq, simp)

lemma foldl_out: "foldl tx_out_serialize s xs = s @ concat (map (tx_out_serialize []) xs)"
  by (rule foldl_append) (subst (1 2) tx_out_serialize_eq, simp)

lemma tx_serialize_eq:
  "tx_serialize s tx = s @ ser_s32 [] (tx_version tx) @
     ser_varlen [] (of_nat (length (vlist (tx_vin tx)))) @ concat (map (tx_in_serialize []) (vlist (tx_vin tx))) @
     ser_varlen [] (of_nat (length (vlist (tx_vout tx)))) @ concat (map (tx_out_serialize []) (vlist (tx_vout tx))) @
     ser_u32 [] (tx_locktime tx)"
  unfolding tx_serialize_def Let_def ser_append(3) [of s]
  by (simp only: foldl_in foldl_out ser_norm append_assoc)

interpretation tx_inc: codec "tx_in_serialize []" "tx_in_deserialize t0" tx_in_ok for t0
proof unfold_locales
  fix t rest
  assume "tx_in_ok t"
  then obtain c where c: "in_script_sig t = Some c" "length c < 2 ^ 32" and h: "length (po_hash (in_prevout t)) = 32"
    by (auto simp: tx_in_ok_def)
  show "tx_in_deserialize t0 (tx_in_serialize [] t @ rest) = Some (t, rest)"
    using c h varstrc.dec_enc [OF c(2)] by (simp add: tx_in_serialize_eq tx_in_deserialize_def)
qed

interpretation tx_outc: codec "tx_out_serialize []" tx_out_deserialize tx_out_ok
proof unfold_locales
  fix t rest
  assume "tx_out_ok t"
  then obtain c where c: "out_script_pubkey t = Some c" "length c < 2 ^ 32"
    by (auto simp: tx_out_ok_def)
  show "tx_out_deserialize (tx_out_serialize [] t @ rest) = Some (t, rest)"
    using c varstrc.dec_enc [OF c(2)] by (simp add: tx_out_serialize_eq tx_out_deserialize_def)
qed

definition tx_ok :: "dogecoin_tx \<Rightarrow> bool" where
  "tx_ok tx \<longleftrightarrow> (\<exists>ins outs. tx_vin tx = Some ins \<and> tx_vout tx = Some outs \<and>
     list_all tx_in_ok ins \<and> list_all tx_out_ok outs \<and> length ins < 2 ^ 32 \<and> length outs < 2 ^ 32)"

lemma varlen_count: "n < 2 ^ 32 \<Longrightarrow> deser_varlen (ser_varlen [] (of_nat n) @ r) = Some (of_nat n, r)"
  by (simp add: varlenc.dec_enc)

lemma unat_count: "n < 2 ^ 32 \<Longrightarrow> unat (of_nat n :: u32) = n"
  by (simp add: unat_of_nat)

lemma tx_deserialize_serialize:
  assumes "tx_ok tx" "\<not> allow_witness \<or> vlist (tx_vin tx) \<noteq> []"
  shows "tx_deserialize_ex allow_witness tx_new (tx_serialize [] tx @ rest) = Some (tx, rest)"
proof -
  obtain ins outs where io: "tx_vin tx = Some ins" "tx_vout tx = Some outs" "\<forall>x \<in> set ins. tx_in_ok x"
      "\<forall>x \<in> set outs. tx_out_ok x" and l: "length ins < 2 ^ 32" "length outs < 2 ^ 32"
    using assms(1) by (auto simp: tx_ok_def list_all_iff)
  have nz: "\<not> ((of_nat (length ins) :: u32) = 0 \<and> allow_witness)"
    using assms(2) l(1) io(1) unat_count [OF l(1)] by (auto simp: vlist_def)
  note i = tx_inc.deser_n_concat [OF io(3) refl] and o1 = tx_outc.deser_n_concat [OF io(4) refl]
  show ?thesis
    using nz l unfolding tx_serialize_eq tx_deserialize_ex_def
    by (simp add: io vlist_def varlenc.dec_enc unat_count i o1 tx_new_def if_not_P)
qed

interpretation txc: codec "tx_serialize []" "tx_deserialize_ex True tx_new"
    "\<lambda>tx. tx_ok tx \<and> vlist (tx_vin tx) \<noteq> []"
  by unfold_locales (rule tx_deserialize_serialize, auto)

section \<open>The signature hash\<close>

lemma tx_in_copy_id [simp]: "tx_in_copy d t = t"
  by (cases t; cases d) (auto simp: tx_in_copy_def ser_bytes_def split: option.splits)

lemma tx_out_copy_id [simp]: "tx_out_copy d t = t"
  by (cases t; cases d) (auto simp: tx_out_copy_def ser_bytes_def split: option.splits)

lemma tx_copy_id [simp]: "tx_copy d t = t"
proof -
  have "tx_in_copy d = (\<lambda>t. t)" "tx_out_copy e = (\<lambda>t. t)" for d e by auto
  then show ?thesis by (cases t; cases d) (auto simp: tx_copy_def split: option.splits)
qed

definition set_scripts :: "nat \<Rightarrow> bytes \<Rightarrow> nat \<Rightarrow> tx_in list \<Rightarrow> tx_in list" where
  "set_scripts in_num scr i ts =
     map (\<lambda>(j, t). t\<lparr>in_script_sig := Some (if j = in_num then scr else [])\<rparr>) (enumerate i ts)"

lemma set_scripts_simps [simp]:
  "set_scripts n scr i [] = []"
  "set_scripts n scr i (t # ts) =
     t\<lparr>in_script_sig := Some (if i = n then scr else [])\<rparr> # set_scripts n scr (Suc i) ts"
  by (simp_all add: set_scripts_def)

lemma length_set_scripts [simp]: "length (set_scripts n scr i ts) = length ts"
  by (simp add: set_scripts_def)

definition has_script :: "tx_in \<Rightarrow> bool" where
  "has_script t \<longleftrightarrow> in_script_sig t \<noteq> None"

lemma clear_scripts_eq:
  "list_all has_script ts \<Longrightarrow> clear_scripts n scr i ts = Some (set_scripts n scr i ts)"
  by (induction ts arbitrary: i) (auto simp: has_script_def ser_bytes_def)

definition strip :: "tx_in \<Rightarrow> tx_in" where
  "strip t = t\<lparr>in_script_sig := Some []\<rparr>"

lemma set_scripts_strip: "set_scripts n scr i (map strip ts) = set_scripts n scr i ts"
  by (induction ts arbitrary: i) (auto simp: strip_def)

lemma map_strip_set_scripts: "map strip (set_scripts n scr i ts) = map strip ts"
  by (induction ts arbitrary: i) (auto simp: strip_def)

lemma set_scripts_nth:
  "k < length ts \<Longrightarrow> in_script_sig (set_scripts n scr i ts ! k) = Some (if i + k = n then scr else [])"
  by (simp add: set_scripts_def nth_enumerate_eq)

lemma set_scripts_ok:
  "list_all tx_in_ok ts \<Longrightarrow> length scr < 2 ^ 32 \<Longrightarrow> list_all tx_in_ok (set_scripts n scr i ts)"
  by (induction ts arbitrary: i) (auto simp: tx_in_ok_def)

lemma zero_sequences_nth:
  "k < length ts \<Longrightarrow> zero_sequences n i ts ! k = (if i + k = n then ts ! k else (ts ! k)\<lparr>in_sequence := 0\<rparr>)"
  by (induction ts arbitrary: i k) (auto simp: nth_Cons split: nat.splits)

lemma length_zero_sequences [simp]: "length (zero_sequences n i ts) = length ts"
  by (induction ts arbitrary: i) auto

abbreviation script_code :: "bytes \<Rightarrow> bytes" where
  "script_code scr \<equiv> snd (script_copy_without_op_codeseperator scr [])"

definition sig_all :: "u32 \<Rightarrow> bool" where
  "sig_all ht \<longleftrightarrow> uint (take_bit 5 ht) \<noteq> SIGHASH_NONE \<and> uint (take_bit 5 ht) \<noteq> SIGHASH_SINGLE"

definition with_ins :: "dogecoin_tx \<Rightarrow> tx_in list \<Rightarrow> dogecoin_tx" where
  "with_ins tx ins = tx\<lparr>tx_vin := Some ins\<rparr>"

lemma with_ins_simps [simp]:
  "with_ins (with_ins tx a) b = with_ins tx b" "tx_vin (with_ins tx a) = Some a"
  "tx_vout (with_ins tx a) = tx_vout tx" "tx_version (with_ins tx a) = tx_version tx"
  "tx_locktime (with_ins tx a) = tx_locktime tx"
  by (cases tx, simp add: with_ins_def)+

lemma tx_sighash_all:
  assumes "sig_all ht" "k < length ins" "tx_vin tx = Some ins" "tx_vout tx = Some outs" "list_all has_script ins"
  shows "tx_sighash H tx scr k ht =
    Inr (Some (H (tx_serialize []
      (with_ins tx (if bit ht 7 then take 1 (drop k (set_scripts k (script_code scr) 0 ins))
                    else set_scripts k (script_code scr) 0 ins)) @ ser_s32 [] ht)))"
proof -
  have w: "tx\<lparr>tx_vin := Some x, tx_vout := Some outs\<rparr> = with_ins tx x" for x
    using assms(4) by (cases tx) (simp add: with_ins_def)
  show ?thesis
    using assms unfolding tx_sighash_def sig_all_def ser_append(3) [of "tx_serialize _ _"]
    by (simp add: vlist_def clear_scripts_eq Let_def w)
qed

section \<open>Signature scripts\<close>

lemma ser_sized_eq: "length d < 253 \<Longrightarrow> ser_sized s d = s @ of_nat (length d) # d"
proof -
  assume l: "length d < 253"
  have "unat (of_nat (length d) :: u32) = length d" using l by (simp add: unat_of_nat)
  moreover have "(ucast (of_nat (length d) :: u32) :: u8) = of_nat (length d)"
    using l by (simp add: word_unat_eq_iff unat_ucast_down unat_of_nat)
  ultimately show ?thesis
    using l by (simp add: ser_sized_def ser_bytes_def ser_varlen_append [of s] ser_varlen_cases)
qed

lemma ser_sized_push: "length d < 0x4c \<Longrightarrow> ser_sized s d = s @ render (Push d)"
  by (simp add: ser_sized_eq render_Push push_code_def push_prefix_def)

lemma get_ops_OP_0:
  "r \<noteq> [] \<Longrightarrow> get_ops_loop (OP_0 # r) ops =
    get_ops_loop r (ops @ [\<lparr>op_code = OP_0, op_data = Some [], op_datalen = 0\<rparr>])"
  by (subst get_ops_loop.simps) (simp add: push_len_def opcode_defs)

lemma get_ops_loop_prefix: "\<exists>ok more. get_ops_loop buf ops = (ok, ops @ more)"
proof (induction buf ops rule: get_ops_loop.induct)
  case (1 buf ops)
  show ?case
  proof (cases buf)
    case Nil
    then show ?thesis by (auto simp: get_ops_loop.simps)
  next
    case (Cons c r)
    then show ?thesis
      using 1 by (subst get_ops_loop.simps) (fastforce split: option.splits)
  qed
qed

lemma p2pkh_script_sig_ops:
  assumes "1 \<le> length sigder" "length sigder \<le> 73" "pubkey_ok pk"
  shows "script_get_ops (p2pkh_script_sig [] sigder pk) =
    (True, [item_op (Push sigder), item_op (Push (pk_bytes pk))])"
proof -
  have l: "length (pk_bytes pk) < 0x4c" "0 < length (pk_bytes pk)" using assms(3) by (auto simp: pubkey_ok_def pk_bytes_def)
  have "p2pkh_script_sig [] sigder pk = concat (map render [Push sigder, Push (pk_bytes pk)])"
    using assms(2) l unfolding p2pkh_script_sig_def pk_bytes_def [symmetric]
    by (simp add: ser_sized_push del: render.simps)
  then show ?thesis
    using script_get_ops_items [of "[Push sigder, Push (pk_bytes pk)]"] assms l by fastforce
qed

lemma multisig_first_sig:
  "multisig_script_sig [] sigder script = ser_sized (ser_sized [OP_0] sigder) script"
  by (simp add: multisig_script_sig_def script_get_ops_def ser_bytes_def Let_def)

section \<open>Coinbase detection\<close>

lemma memcmp_shift:
  "take n h = take n (drop 1 h) \<Longrightarrow> n < length h \<Longrightarrow> h ! 0 = 0 \<Longrightarrow> k \<le> n \<Longrightarrow> h ! k = (0 :: u8)"
proof (induction k)
  case (Suc k)
  have "take n h ! k = h ! k" "take n (drop 1 h) ! k = h ! Suc k" using Suc.prems(2,4) by simp_all
  then have "h ! k = h ! Suc k" using Suc.prems(1) by metis
  then show ?case using Suc by simp
qed simp

lemma hash_is_empty_iff: "length h = 32 \<Longrightarrow> hash_is_empty h \<longleftrightarrow> take 20 h = replicate 20 0"
proof
  assume l: "length h = 32" and e: "hash_is_empty h"
  then have "h ! k = 0" if "k < 20" for k
    using memcmp_shift [of 19 h k] that by (simp add: hash_is_empty_def)
  then show "take 20 h = replicate 20 0" using l by (intro nth_equalityI) auto
next
  assume l: "length h = 32" and e: "take 20 h = replicate 20 0"
  have "h ! k = 0" if "k < 20" for k
    using arg_cong [OF e, of "\<lambda>xs. xs ! k"] that l by simp
  then show "hash_is_empty h" using l by (auto simp: hash_is_empty_def intro!: nth_equalityI)
qed

section \<open>Properties\<close>

text \<open>
  C1. Serialization round trip: a transaction with at least one input (or any, when witness
  parsing is off), scripts and vectors below \<open>2 ^ 32\<close> elements is read back exactly from its
  serialization, and the parser stops at the bytes that follow.
\<close>

theorem tx_roundtrip:
  assumes "tx_ok tx" "\<not> allow_witness \<or> vlist (tx_vin tx) \<noteq> []"
  shows "tx_deserialize_ex allow_witness tx_new (tx_serialize [] tx @ rest) = Some (tx, rest)"
  using assms by (rule tx_deserialize_serialize)

theorem tx_roundtrip_witness:
  "tx_deserialize_ex True tx_new (tx_serialize []
      \<lparr>tx_version = 1, tx_vin = Some [\<lparr>in_prevout = \<lparr>po_hash = replicate 32 3, po_n = 1\<rparr>,
         in_script_sig = Some [1, 2], in_sequence = 9\<rparr>],
       tx_vout = Some [\<lparr>out_value = 5, out_script_pubkey = Some []\<rparr>], tx_locktime = 0\<rparr> @ [7]) =
    Some (\<lparr>tx_version = 1, tx_vin = Some [\<lparr>in_prevout = \<lparr>po_hash = replicate 32 3, po_n = 1\<rparr>,
         in_script_sig = Some [1, 2], in_sequence = 9\<rparr>],
       tx_vout = Some [\<lparr>out_value = 5, out_script_pubkey = Some []\<rparr>], tx_locktime = 0\<rparr>, [7])"
  by (rule tx_roundtrip) (simp_all add: tx_ok_def tx_in_ok_def tx_out_ok_def vlist_def)

text \<open>
  The signature hash of an input does not depend on the input scripts present in the
  transaction, so signing one input leaves the hashes of all inputs unchanged.
\<close>

theorem sighash_ignores_input_scripts:
  assumes "tx_vin tx = Some ins" "list_all has_script ins"
  shows "tx_sighash H tx scr k ht = tx_sighash H (with_ins tx (map strip ins)) scr k ht"
proof -
  have "list_all has_script (map strip ins)" by (simp add: list_all_iff strip_def has_script_def)
  then show ?thesis
    using assms
    by (cases tx) (simp add: tx_sighash_def with_ins_def vlist_def clear_scripts_eq set_scripts_strip
        Let_def split_def)
qed

theorem sighash_ignores_input_scripts_witness:
  "tx_sighash (\<lambda>s. s) (with_ins tx_new [tx_in_new\<lparr>in_script_sig := Some [1, 2]\<rparr>]) [] 0 1 =
   tx_sighash (\<lambda>s. s) (with_ins tx_new [tx_in_new\<lparr>in_script_sig := Some []\<rparr>]) [] 0 1"
  using sighash_ignores_input_scripts [of "with_ins tx_new [tx_in_new\<lparr>in_script_sig := Some [1, 2]\<rparr>]"
      "[tx_in_new\<lparr>in_script_sig := Some [1, 2]\<rparr>]" "\<lambda>s. s" "[]" 0 1]
  by (simp add: with_ins_def has_script_def strip_def)

text \<open>
  C2. With \<open>SIGHASH_ALL\<close> the hashed message commits to the transaction: two transactions whose
  messages (the input of the double SHA-256) coincide have the same version, lock time, outputs,
  outpoints and sequence numbers, the same hash type and the same script code at the signed input.
\<close>

theorem sighash_all_commits:
  assumes "tx_ok tx1" "tx_ok tx2" "sig_all ht1" "sig_all ht2" "\<not> bit ht1 7" "\<not> bit ht2 7"
    and "length (script_code scr1) < 2 ^ 32" "length (script_code scr2) < 2 ^ 32"
    and "tx_sighash (\<lambda>s. s) tx1 scr1 k ht1 = Inr (Some msg)" "tx_sighash (\<lambda>s. s) tx2 scr2 k ht2 = Inr (Some msg)"
  shows "with_ins tx1 (map strip (vlist (tx_vin tx1))) = with_ins tx2 (map strip (vlist (tx_vin tx2))) \<and>
    ht1 = ht2 \<and> script_code scr1 = script_code scr2"
proof -
  obtain ins1 outs1 where 1: "tx_vin tx1 = Some ins1" "tx_vout tx1 = Some outs1" "list_all tx_in_ok ins1"
    using assms(1) by (auto simp: tx_ok_def)
  obtain ins2 outs2 where 2: "tx_vin tx2 = Some ins2" "tx_vout tx2 = Some outs2" "list_all tx_in_ok ins2"
    using assms(2) by (auto simp: tx_ok_def)
  have k: "k < length ins1" "k < length ins2"
    using assms(9,10) 1(1) 2(1) by (auto simp: tx_sighash_def vlist_def split: if_splits)
  have hs: "list_all has_script ins1" "list_all has_script ins2"
    using 1(3) 2(3) by (auto simp: list_all_iff has_script_def tx_in_ok_def)
  let ?a = "set_scripts k (script_code scr1) 0 ins1" and ?b = "set_scripts k (script_code scr2) 0 ins2"
  have "tx_serialize [] (with_ins tx1 ?a) @ ser_s32 [] ht1 = tx_serialize [] (with_ins tx2 ?b) @ ser_s32 [] ht2"
    using assms(9,10) tx_sighash_all [OF assms(3) k(1) 1(1,2) hs(1)] tx_sighash_all [OF assms(4) k(2) 2(1,2) hs(2)]
      assms(5,6) by simp
  moreover have "tx_ok (with_ins tx1 ?a) \<and> vlist (tx_vin (with_ins tx1 ?a)) \<noteq> []"
    using assms(1) 1 k(1) set_scripts_ok [OF 1(3) assms(7)]
    by (auto simp: tx_ok_def with_ins_def vlist_def simp flip: length_greater_0_conv)
  moreover have "tx_ok (with_ins tx2 ?b) \<and> vlist (tx_vin (with_ins tx2 ?b)) \<noteq> []"
    using assms(2) 2 k(2) set_scripts_ok [OF 2(3) assms(8)]
    by (auto simp: tx_ok_def with_ins_def vlist_def simp flip: length_greater_0_conv)
  ultimately have eq: "with_ins tx1 ?a = with_ins tx2 ?b" "ser_s32 [] ht1 = ser_s32 [] ht2"
    using txc.enc_prefix_free by blast+
  have ht: "ht1 = ht2" using eq(2) s32c.enc_inject by blast
  have ab: "?a = ?b" using arg_cong [OF eq(1), of tx_vin] by (simp add: with_ins_def)
  have sc: "script_code scr1 = script_code scr2"
    using set_scripts_nth [OF k(1), of k "script_code scr1" 0] set_scripts_nth [OF k(2), of k "script_code scr2" 0]
    unfolding ab by simp
  have "map strip ins1 = map strip ins2" using ab map_strip_set_scripts by metis
  moreover have "with_ins tx1 x = with_ins tx2 x" for x
    using eq(1) by (cases tx1; cases tx2) (simp add: with_ins_def)
  ultimately show ?thesis using ht sc 1(1) 2(1) by (simp add: vlist_def)
qed

theorem sighash_all_commits_witness:
  "with_ins (with_ins tx_new [tx_in_new\<lparr>in_script_sig := Some [1]\<rparr>])
      (map strip (vlist (tx_vin (with_ins tx_new [tx_in_new\<lparr>in_script_sig := Some [1]\<rparr>])))) =
    with_ins (with_ins tx_new [tx_in_new\<lparr>in_script_sig := Some [2]\<rparr>])
      (map strip (vlist (tx_vin (with_ins tx_new [tx_in_new\<lparr>in_script_sig := Some [2]\<rparr>])))) \<and>
    (1 :: u32) = 1 \<and> script_code [] = script_code []"
proof (rule sighash_all_commits)
  let ?t = "\<lambda>c. with_ins tx_new [tx_in_new\<lparr>in_script_sig := Some [c]\<rparr>]"
  show "sig_all 1" "sig_all 1" "\<not> bit (1 :: u32) 7" "\<not> bit (1 :: u32) 7"
    by (simp_all add: sig_all_def SIGHASH_NONE_def SIGHASH_SINGLE_def bit_1_iff)
  show "tx_ok (?t 1)" "tx_ok (?t 2)"
    by (simp_all add: tx_ok_def tx_in_ok_def tx_new_def tx_in_new_def with_ins_def)
  show "length (script_code []) < 2 ^ 32" "length (script_code []) < 2 ^ 32"
    by (simp_all add: script_copy_without_op_codeseperator_def)
  show "tx_sighash (\<lambda>s. s) (?t 1) [] 0 1 = Inr (Some (tx_serialize [] (with_ins tx_new [strip tx_in_new]) @ ser_s32 [] 1))"
    "tx_sighash (\<lambda>s. s) (?t 2) [] 0 1 = Inr (Some (tx_serialize [] (with_ins tx_new [strip tx_in_new]) @ ser_s32 [] 1))"
    by (subst tx_sighash_all [where outs = "[]"], auto simp: sig_all_def SIGHASH_NONE_def SIGHASH_SINGLE_def
        bit_1_iff has_script_def strip_def tx_new_def script_copy_without_op_codeseperator_def)+
qed

text \<open>
  With \<open>SIGHASH_ANYONECANPAY\<close> the hash depends on no other input: it is the hash of the
  transaction that has the signed input alone.
\<close>

theorem sighash_anyonecanpay_single_input:
  assumes "sig_all ht" "bit ht 7" "k < length ins" "tx_vin tx = Some ins" "tx_vout tx = Some outs"
    "list_all has_script ins"
  shows "tx_sighash H tx scr k ht = tx_sighash H (with_ins tx [ins ! k]) scr 0 ht"
proof -
  have 1: "take 1 (drop k (set_scripts k c 0 ins)) = set_scripts 0 c 0 [ins ! k]" for c
    using assms(3) by (simp add: take_Suc_conv_app_nth hd_drop_conv_nth take_Suc set_scripts_def nth_enumerate_eq)
  have "has_script (ins ! k)" using assms(3,6) by (simp add: list_all_length)
  then show ?thesis
    using assms(2) tx_sighash_all [OF assms(1,3,4,5,6)] tx_sighash_all [OF assms(1), of 0 "[ins ! k]" "with_ins tx [ins ! k]" outs]
      assms(5) by (simp add: 1 [unfolded One_nat_def])
qed

theorem sighash_anyonecanpay_single_input_witness:
  "tx_sighash (\<lambda>s. s) (with_ins tx_new [(strip tx_in_new)\<lparr>in_sequence := 4\<rparr>, strip tx_in_new]) [] 1 0x81 =
   tx_sighash (\<lambda>s. s) (with_ins tx_new [strip tx_in_new]) [] 0 0x81"
proof -
  have "sig_all 0x81" "bit (0x81 :: u32) 7"
    by (simp_all add: sig_all_def SIGHASH_NONE_def SIGHASH_SINGLE_def bit_numeral_rec)
  then show ?thesis
    using sighash_anyonecanpay_single_input [of "0x81" 1 "[(strip tx_in_new)\<lparr>in_sequence := 4\<rparr>, strip tx_in_new]"
        "with_ins tx_new [(strip tx_in_new)\<lparr>in_sequence := 4\<rparr>, strip tx_in_new]" "[]" "\<lambda>s. s" "[]"]
    by (simp add: has_script_def strip_def tx_new_def)
qed

text \<open>
  \<open>dogecoin_tx_in_deserialize\<close> does not check that the 32-byte outpoint hash could be read: a
  transaction of 19 bytes with one input whose hash is missing is accepted, with the all-zero hash.
\<close>

theorem tx_deserialize_accepts_missing_hash:
  "tx_deserialize tx_new [1, 0, 0, 0, 1, 5, 0, 0, 0, 0, 9, 0, 0, 0, 0, 7, 0, 0, 0] =
    Some (\<lparr>tx_version = 1, tx_vin = Some [\<lparr>in_prevout = \<lparr>po_hash = replicate 32 0, po_n = 5\<rparr>,
        in_script_sig = Some [], in_sequence = 9\<rparr>], tx_vout = Some [], tx_locktime = 7\<rparr>, [])"
  by (simp add: tx_deserialize_def tx_deserialize_ex_def tx_in_deserialize_def deser_varlen_Cons deser_varstr_def
      deser_s32_def deser_u32_def deser_u256_def deser_bytes_def tx_new_def tx_in_new_def vlist_def)

text \<open>
  Signing a pay-to-pubkey-hash input with the matching key succeeds: the result is
  \<open>DOGECOIN_SIGN_OK\<close>, the DER signature handed out is the one of the signature hash of the
  transaction followed by the hash type, and the only change to the transaction is the script of
  that input, which now pushes exactly the signature and the public key.
\<close>

theorem sign_p2pkh_ok:
  assumes "tx_vin tx = Some ins" "k < length ins" "in_script_sig (ins ! k) = Some []"
    and "privkey_is_valid cr key" "pubkey_from_key cr key = pk" "pubkey_is_valid cr pk" "pubkey_ok pk"
    and "pubkey_get_hash160 cr pk = h" "length h = 20"
    and "tx_sighash H tx (script_build_p2pkh h) k ht = Inr (Some hash)"
    and "key_sign_hash_compact cr key hash = sig" "length sig = 64"
    and "ecc_compact_to_der_normalized cr sig = Some der" "1 \<le> length der" "length der \<le> 72"
  shows "\<exists>scr. tx_sign_input cr H (Some tx) (Some (script_build_p2pkh h)) key k ht =
      Inr (DOGECOIN_SIGN_OK, Some (with_ins tx (ins[k := (ins ! k)\<lparr>in_script_sig := Some scr\<rparr>])),
           Some sig, Some (der @ [ucast ht])) \<and>
    script_get_ops scr = (True, [item_op (Push (der @ [ucast ht])), item_op (Push (pk_bytes pk))])"
proof -
  let ?scr = "p2pkh_script_sig [] (der @ [ucast ht]) pk"
  have ne: "der \<noteq> []" "\<not> 72 < length der" using assms(14,15) by auto
  have "tx_sign_input cr H (Some tx) (Some (script_build_p2pkh h)) key k ht =
      Inr (DOGECOIN_SIGN_OK, Some (with_ins tx (ins[k := (ins ! k)\<lparr>in_script_sig := Some ?scr\<rparr>])),
           Some sig, Some (der @ [ucast ht]))"
    using assms(1-6,8-13) ne
    by (simp add: tx_sign_input_def classify_p2pkh vlist_def Let_def with_ins_def)
  moreover have "script_get_ops ?scr = (True, [item_op (Push (der @ [ucast ht])), item_op (Push (pk_bytes pk))])"
    using assms(7,14,15) by (intro p2pkh_script_sig_ops) simp_all
  ultimately show ?thesis by blast
qed

text \<open>
  The first multisig signature on an input: with a redeem script of at most 75 bytes the
  script of the input is \<open>OP_0\<close>, the signature and the redeem script as pushes; with 79 to 252
  bytes the length byte written in front of the redeem script is an opcode that pushes nothing,
  so the redeem script is not on the stack (a two-of-three script has 105 bytes).
\<close>

theorem multisig_redeem_push:
  assumes "1 \<le> length sigder" "length sigder \<le> 73" "script \<noteq> []"
  shows "(length script \<le> 75 \<longrightarrow> script_get_ops (multisig_script_sig [] sigder script) =
      (True, [\<lparr>op_code = OP_0, op_data = Some [], op_datalen = 0\<rparr>, item_op (Push sigder), item_op (Push script)])) \<and>
    (79 \<le> length script \<and> length script \<le> 252 \<longrightarrow>
      (\<exists>ops ok. script_get_ops (multisig_script_sig [] sigder script) =
        (ok, [\<lparr>op_code = OP_0, op_data = Some [], op_datalen = 0\<rparr>, item_op (Push sigder),
              \<lparr>op_code = of_nat (length script), op_data = None, op_datalen = 0\<rparr>] @ ops)))"
proof -
  let ?o0 = "\<lparr>op_code = OP_0, op_data = Some [], op_datalen = 0\<rparr>"
  have ok: "item_ok (Push sigder)" using assms(1,2) by auto
  have first: "script_get_ops (OP_0 # render (Push sigder) @ r) = get_ops_loop r [?o0, item_op (Push sigder)]" for r
    using get_ops_OP_0 [of "render (Push sigder) @ r" "[]"] get_ops_step [OF ok, of r "[?o0]"] render_nonempty
    by (simp add: script_get_ops_def del: render.simps item_op.simps)
  have small: "script_get_ops (multisig_script_sig [] sigder script) = (True, [?o0, item_op (Push sigder), item_op (Push script)])"
    if "length script \<le> 75"
  proof -
    have "multisig_script_sig [] sigder script = OP_0 # render (Push sigder) @ concat (map render [Push script])"
      using that assms(2) by (simp add: multisig_first_sig ser_sized_push del: render.simps)
    then show ?thesis
      using first [of "concat (map render [Push script])"] get_ops_items [of "[Push script]"] that assms(3)
      by (simp del: render.simps)
  qed
  have large: "\<exists>ops ok. script_get_ops (multisig_script_sig [] sigder script) =
      (ok, [?o0, item_op (Push sigder), \<lparr>op_code = of_nat (length script), op_data = None, op_datalen = 0\<rparr>] @ ops)"
    if "79 \<le> length script" "length script \<le> 252"
  proof -
    have "item_ok (Op (of_nat (length script)))" using that by (simp add: opcode_defs word_less_nat_alt)
    note step = get_ops_step [OF this, of script "[?o0, item_op (Push sigder)]"]
    have "multisig_script_sig [] sigder script = OP_0 # render (Push sigder) @ of_nat (length script) # script"
      using that assms(2) ser_sized_eq [of script] by (simp add: multisig_first_sig ser_sized_push del: render.simps)
    then have "script_get_ops (multisig_script_sig [] sigder script) =
        get_ops_loop script [?o0, item_op (Push sigder), item_op (Op (of_nat (length script)))]"
      using first [of "of_nat (length script) # script"] step by (simp del: render.simps(1))
    then show ?thesis using get_ops_loop_prefix by (metis item_op.simps(2))
  qed
  show ?thesis using small large by blast
qed

theorem multisig_redeem_push_witness:
  "\<exists>ops ok. script_get_ops (multisig_script_sig [] [48, 1] (replicate 105 1)) =
        (ok, [\<lparr>op_code = OP_0, op_data = Some [], op_datalen = 0\<rparr>, item_op (Push [48, 1]),
              \<lparr>op_code = 105, op_data = None, op_datalen = 0\<rparr>] @ ops)"
  using multisig_redeem_push [of "[48, 1]" "replicate 105 1"] by simp

definition demo_crypto :: "unit crypto" where
  "demo_crypto = \<lparr>privkey_is_valid = \<lambda>_. True,
     pubkey_from_key = \<lambda>_. \<lparr>pk_pubkey = 2 # replicate 64 5, pk_compressed = True\<rparr>,
     pubkey_is_valid = \<lambda>_. True, pubkey_get_hash160 = \<lambda>_. replicate 20 7,
     key_sign_hash_compact = \<lambda>_ _. replicate 64 1, ecc_compact_to_der_normalized = \<lambda>_. Some [48, 6]\<rparr>"

theorem sign_p2pkh_ok_witness:
  "\<exists>scr. tx_sign_input demo_crypto (\<lambda>_. []) (Some (with_ins tx_new [strip tx_in_new]))
      (Some (script_build_p2pkh (replicate 20 7))) () 0 1 =
      Inr (DOGECOIN_SIGN_OK, Some (with_ins (with_ins tx_new [strip tx_in_new])
             ([strip tx_in_new][0 := ([strip tx_in_new] ! 0)\<lparr>in_script_sig := Some scr\<rparr>])),
           Some (replicate 64 1), Some ([48, 6] @ [ucast (1 :: u32)])) \<and>
    script_get_ops scr = (True, [item_op (Push ([48, 6] @ [ucast (1 :: u32)])),
      item_op (Push (pk_bytes \<lparr>pk_pubkey = 2 # replicate 64 5, pk_compressed = True\<rparr>))])"
proof (rule sign_p2pkh_ok)
  show "tx_sighash (\<lambda>_. []) (with_ins tx_new [strip tx_in_new]) (script_build_p2pkh (replicate 20 7)) 0 1 = Inr (Some [])"
    by (subst tx_sighash_all [where outs = "[]" and ins = "[strip tx_in_new]"])
      (auto simp: sig_all_def SIGHASH_NONE_def SIGHASH_SINGLE_def has_script_def strip_def tx_new_def)
qed (simp_all add: demo_crypto_def strip_def pubkey_ok_def pubkey_get_length_def)

text \<open>
  What \<open>dogecoin_tx_is_coinbase\<close> decides: exactly one input, index \<open>UINT32_MAX\<close> and a hash whose
  first 20 bytes are zero; the last 12 bytes of the hash are not looked at.
\<close>

theorem tx_is_coinbase_iff:
  assumes "tx_vin tx = Some ins" "\<forall>t \<in> set ins. length (po_hash (in_prevout t)) = 32"
  shows "tx_is_coinbase tx \<longleftrightarrow>
    (\<exists>t. ins = [t] \<and> po_n (in_prevout t) = 0xFFFFFFFF \<and> take 20 (po_hash (in_prevout t)) = replicate 20 0)"
  using assms by (auto simp: tx_is_coinbase_def vlist_def Let_def hash_is_empty_iff length_Suc_conv)

theorem tx_is_coinbase_iff_witness:
  "tx_is_coinbase (with_ins tx_new
     [tx_in_new\<lparr>in_prevout := \<lparr>po_hash = replicate 20 0 @ replicate 12 9, po_n = 0xFFFFFFFF\<rparr>\<rparr>])"
  using tx_is_coinbase_iff [of "with_ins tx_new
     [tx_in_new\<lparr>in_prevout := \<lparr>po_hash = replicate 20 0 @ replicate 12 9, po_n = 0xFFFFFFFF\<rparr>\<rparr>]"
     "[tx_in_new\<lparr>in_prevout := \<lparr>po_hash = replicate 20 0 @ replicate 12 9, po_n = 0xFFFFFFFF\<rparr>\<rparr>]"]
  by simp

end
