(* ===== verification/Arith256.thy ===== *)
theory Arith256
  imports Serialize
begin

text \<open>
  Model of \<open>src/src/arith_uint256.c\<close> and \<open>src/src/pow.c\<close> (with \<open>swap_bytes\<close> of \<open>utils.c\<close>):
  256-bit unsigned arithmetic on eight 32-bit limbs, the compact target encoding and the
  proof-of-work check with its chain-work computation.

  An \<open>arith_uint256\<close> is the list of its limbs, least significant first; \<open>aval\<close> is the number it
  stands for. Loops over the limbs are recursions over the list or over the index range.
\<close>

unbundle bit_operations_syntax

type_synonym arith = "u32 list"

abbreviation WIDTH :: nat where
  "WIDTH \<equiv> 8"

section \<open>The operations\<close>

definition arith_negate :: "arith \<Rightarrow> arith" where
  "arith_negate input = map NOT input"

definition init_arith_uint256 :: arith where
  "init_arith_uint256 = replicate WIDTH 0"

definition shl_step :: "arith \<Rightarrow> nat \<Rightarrow> nat \<Rightarrow> arith \<Rightarrow> nat \<Rightarrow> arith" where
  "shl_step temp k shift acc i =
     (let acc1 = (if i + k + 1 < WIDTH \<and> shift \<noteq> 0
                  then acc[i + k + 1 := acc ! (i + k + 1) OR drop_bit (32 - shift) (temp ! i)] else acc) in
      if i + k < WIDTH then acc1[i + k := acc1 ! (i + k) OR push_bit shift (temp ! i)] else acc1)"

definition arith_shift_left :: "arith \<Rightarrow> nat \<Rightarrow> arith" where
  "arith_shift_left input shift =
     foldl (shl_step input (shift div 32) (shift mod 32)) (replicate WIDTH 0) [0..<WIDTH]"

definition shr_step :: "arith \<Rightarrow> nat \<Rightarrow> nat \<Rightarrow> arith \<Rightarrow> nat \<Rightarrow> arith" where
  "shr_step temp k shift acc i =
     (let acc1 = (if i \<ge> k + 1 \<and> shift \<noteq> 0
                  then acc[i - k - 1 := acc ! (i - k - 1) OR push_bit (32 - shift) (temp ! i)] else acc) in
      if i \<ge> k then acc1[i - k := acc1 ! (i - k) OR drop_bit shift (temp ! i)] else acc1)"

definition arith_shift_right :: "arith \<Rightarrow> nat \<Rightarrow> arith" where
  "arith_shift_right input shift =
     foldl (shr_step input (shift div 32) (shift mod 32)) (replicate WIDTH 0) [0..<WIDTH]"

text \<open>The number and the two flags.\<close>

definition set_compact :: "arith \<Rightarrow> u32 \<Rightarrow> arith \<times> bool \<times> bool" where
  "set_compact hash compact =
     (let size = unat (drop_bit 24 compact);
          word0 = compact AND 0x007fffff;
          word = (if size \<le> 3 then drop_bit (8 * (3 - size)) word0 else word0);
          hash1 = hash[0 := word];
          hash2 = (if size \<le> 3 then hash1 else arith_shift_left hash1 (8 * (size - 3))) in
      (hash2,
       word \<noteq> 0 \<and> compact AND 0x00800000 \<noteq> 0,
       word \<noteq> 0 \<and> (size > 34 \<or> (word > 0xff \<and> size > 33) \<or> (word > 0xffff \<and> size > 32))))"

fun bytes_to_limbs :: "nat \<Rightarrow> bytes \<Rightarrow> arith" where
  "bytes_to_limbs 0 bs = []"
| "bytes_to_limbs (Suc n) bs = of_nat (le_val (take 4 bs)) # bytes_to_limbs n (drop 4 bs)"

definition uint_to_arith :: "bytes \<Rightarrow> arith" where
  "uint_to_arith a = bytes_to_limbs WIDTH a"

definition arith_to_uint256 :: "arith \<Rightarrow> bytes" where
  "arith_to_uint256 a = concat (map (\<lambda>w. le_bytes 4 (unat w)) a)"

fun add_loop :: "arith \<Rightarrow> arith \<Rightarrow> u64 \<Rightarrow> arith" where
  "add_loop (a # as) (b # bs) carry =
     (let sum = ucast a + ucast b + carry :: u64 in ucast sum # add_loop as bs (drop_bit 32 sum))"
| "add_loop _ _ carry = []"

definition add_arith_uint256 :: "arith \<Rightarrow> arith \<Rightarrow> arith" where
  "add_arith_uint256 a b = add_loop a b 0"

text \<open>The comparison loop runs from the highest limb: the arguments are reversed.\<close>

fun less_loop :: "arith \<Rightarrow> arith \<Rightarrow> bool" where
  "less_loop (a # as) (b # bs) = (if a < b then True else if a > b then False else less_loop as bs)"
| "less_loop _ _ = False"

definition arith_uint256_less_than :: "arith \<Rightarrow> arith \<Rightarrow> bool" where
  "arith_uint256_less_than a b = less_loop (rev a) (rev b)"

fun sub_loop :: "arith \<Rightarrow> arith \<Rightarrow> u64 \<Rightarrow> arith" where
  "sub_loop (a # as) (b # bs) borrow =
     (let diff = ucast a - ucast b - borrow :: u64 in
      ucast diff # sub_loop as bs (if diff > 0xFFFFFFFF then 1 else 0))"
| "sub_loop _ _ borrow = []"

definition sub_arith_uint256 :: "arith \<Rightarrow> arith \<Rightarrow> arith option" where
  "sub_arith_uint256 a b =
     (if arith_uint256_less_than a b then None else Some (sub_loop a b 0))"

definition arith_uint256_is_zero :: "arith \<Rightarrow> bool" where
  "arith_uint256_is_zero a = list_all (\<lambda>w. w = 0) a"

definition arith_uint256_equal :: "arith \<Rightarrow> arith \<Rightarrow> bool" where
  "arith_uint256_equal a b = list_all2 (\<lambda>v w. v = w) a b"

definition arith_uint256_less_than_or_equal :: "arith \<Rightarrow> arith \<Rightarrow> bool" where
  "arith_uint256_less_than_or_equal a b = (arith_uint256_less_than a b \<or> arith_uint256_equal a b)"

definition arith_uint256_greater_than :: "arith \<Rightarrow> arith \<Rightarrow> bool" where
  "arith_uint256_greater_than a b = (\<not> arith_uint256_less_than_or_equal a b)"

definition arith_uint256_greater_than_or_equal :: "arith \<Rightarrow> arith \<Rightarrow> bool" where
  "arith_uint256_greater_than_or_equal a b = (\<not> arith_uint256_less_than a b)"

text \<open>The division loop: \<open>i\<close> bits are still to be processed, the next one is bit \<open>i - 1\<close>.\<close>

fun div_loop :: "arith \<Rightarrow> arith \<Rightarrow> nat \<Rightarrow> arith \<Rightarrow> arith \<Rightarrow> arith" where
  "div_loop a b 0 quo rmdr = quo"
| "div_loop a b (Suc i) quo rmdr =
     (let rem1 = arith_shift_left rmdr 1;
          word_idx = i div 32;
          bit_idx = i mod 32;
          rem2 = (if a ! word_idx AND push_bit bit_idx 1 \<noteq> 0 then rem1[0 := rem1 ! 0 OR 1] else rem1) in
      if arith_uint256_greater_than_or_equal rem2 b then
        div_loop a b i (quo[word_idx := quo ! word_idx OR push_bit bit_idx 1])
          (case sub_arith_uint256 rem2 b of Some t \<Rightarrow> t | None \<Rightarrow> rem2)
      else div_loop a b i quo rem2)"

definition div_arith_uint256 :: "arith \<Rightarrow> arith \<Rightarrow> arith option" where
  "div_arith_uint256 a b =
     (if arith_uint256_is_zero b then None
      else Some (div_loop a b (WIDTH * 32) init_arith_uint256 init_arith_uint256))"

definition get_low64 :: "arith \<Rightarrow> u64" where
  "get_low64 a = ucast (a ! (WIDTH - 2)) OR push_bit 32 (ucast (a ! (WIDTH - 1)))"

section \<open>Proof of work\<close>

text \<open>The loop from byte 31 down: the arguments are reversed.\<close>

fun cmp_loop :: "bytes \<Rightarrow> bytes \<Rightarrow> bool" where
  "cmp_loop (a # as) (b # bs) = (if a > b then True else if a < b then False else cmp_loop as bs)"
| "cmp_loop _ _ = False"

definition uint256_cmp :: "bytes \<Rightarrow> bytes \<Rightarrow> bool" where
  "uint256_cmp a b = cmp_loop (rev (take 32 a)) (rev (take 32 b))"

fun swap_loop_bytes :: "bytes \<Rightarrow> nat \<Rightarrow> nat \<Rightarrow> bytes" where
  "swap_loop_bytes buf i 0 = buf"
| "swap_loop_bytes buf i (Suc n) =
     (let temp = buf ! i; j = length buf - i - 1 in
      swap_loop_bytes (buf[i := buf ! j, j := temp]) (Suc i) n)"

definition swap_bytes :: "bytes \<Rightarrow> bytes" where
  "swap_bytes buf = swap_loop_bytes buf 0 (length buf div 2)"

text \<open>The result, the hash as it is left in memory, and the chain work when it is computed.\<close>

definition check_pow :: "bytes \<Rightarrow> u32 \<Rightarrow> bytes \<Rightarrow> bool \<times> bytes \<times> arith option" where
  "check_pow hash nbits pow_limit =
     (let (target, f_negative, f_overflow) = set_compact init_arith_uint256 nbits;
          target_bytes = arith_to_uint256 target in
      if f_negative \<or> arith_uint256_is_zero target \<or> f_overflow \<or> uint256_cmp target_bytes pow_limit
      then (False, hash, None)
      else
        let hash1 = swap_bytes hash in
        if uint256_cmp hash1 target_bytes then (False, hash1, None)
        else
          let neg_target = arith_negate target;
              one = init_arith_uint256[0 := 1];
              target_plus_one = add_arith_uint256 target one;
              hashes = div_arith_uint256 neg_target target_plus_one in
          (True, hash1, map_option (\<lambda>h. add_arith_uint256 h one) hashes))"

section \<open>The number of a limb list\<close>

fun aval :: "arith \<Rightarrow> nat" where
  "aval [] = 0"
| "aval (w # ws) = unat w + 2 ^ 32 * aval ws"

lemma aval_less: "aval ws < 2 ^ (32 * length ws)"
proof (induction ws)
  case (Cons w ws)
  have "unat w + 2 ^ 32 * aval ws < 2 ^ 32 * Suc (aval ws)" using unat_u32_less [of w] by simp
  also have "\<dots> \<le> 2 ^ 32 * 2 ^ (32 * length ws)" using Cons.IH by (intro mult_le_mono2) simp
  finally show ?case by (simp add: power_add)
qed simp

lemma aval_append: "aval (xs @ ys) = aval xs + 2 ^ (32 * length xs) * aval ys"
  by (induction xs) (auto simp: algebra_simps power_add)

lemma aval_replicate_0 [simp]: "aval (replicate n 0) = 0"
  by (induction n) auto

lemma bit_aval: "n < 32 * length ws \<Longrightarrow> bit (aval ws) n \<longleftrightarrow> bit (ws ! (n div 32)) (n mod 32)"
proof (induction ws arbitrary: n)
  case (Cons w ws)
  have lo: "take_bit 32 (aval (w # ws)) = unat w"
    using unat_u32_less [of w] by (simp add: take_bit_eq_mod)
  have hi: "drop_bit 32 (aval (w # ws)) = aval ws"
    using unat_u32_less [of w] by (simp add: drop_bit_eq_div)
  show ?case
  proof (cases "n < 32")
    case True
    then have "bit (aval (w # ws)) n = bit (take_bit 32 (aval (w # ws))) n" by (simp add: bit_take_bit_iff)
    then show ?thesis using True unfolding lo by (simp add: bit_unsigned_iff)
  next
    case False
    then obtain m where m: "n = 32 + m" using le_Suc_ex not_less by blast
    have "bit (aval (w # ws)) n = bit (drop_bit 32 (aval (w # ws))) m" by (simp add: bit_drop_bit_eq m)
    then show ?thesis using Cons.IH [of m] Cons.prems unfolding hi by (simp add: m div_add_self1)
  qed
qed simp

lemma bit_aval_limb:
  assumes "length ws = 8" "q < 32"
  shows "bit (aval ws) (32 * p + q) \<longleftrightarrow> p < 8 \<and> bit (ws ! p) q"
proof (cases "p < 8")
  case True
  then show ?thesis using bit_aval [of "32 * p + q" ws] assms by simp
next
  case False
  then have "(2 :: nat) ^ 256 \<le> 2 ^ (32 * p + q)" by (intro power_increasing) auto
  then have "aval ws < 2 ^ (32 * p + q)" using aval_less [of ws] assms(1) by simp
  then show ?thesis using False by (simp add: bit_iff_odd)
qed

lemma aval_eqI:
  assumes "length ws = 8" "v < 2 ^ 256"
    and "\<And>j m. j < 8 \<Longrightarrow> m < 32 \<Longrightarrow> bit (ws ! j) m \<longleftrightarrow> bit v (32 * j + m)"
  shows "aval ws = v"
proof (rule bit_eqI)
  fix n
  have hi: "\<not> bit x n" if "x < 2 ^ 256" "256 \<le> n" for x :: nat
  proof -
    have "x < 2 ^ n" using that by (meson less_le_trans one_le_numeral power_increasing)
    then show ?thesis by (simp add: bit_iff_odd)
  qed
  show "bit (aval ws) n = bit v n"
  proof (cases "n < 256")
    case True
    then show ?thesis using bit_aval [of n ws] assms(1) assms(3) [of "n div 32" "n mod 32"] by simp
  next
    case False
    then show ?thesis using hi [of "aval ws"] hi [of v] aval_less [of ws] assms by simp
  qed
qed

section \<open>Addition, subtraction, comparison\<close>

lemma add_loop_length: "length as = length bs \<Longrightarrow> length (add_loop as bs c) = length as"
  by (induction as bs c rule: add_loop.induct) (auto simp: Let_def)

lemma digit_mod: "s < B \<Longrightarrow> (s + B * t) mod (B * m) = s + B * (t mod m)" for B :: nat
  by (simp add: mod_mult2_eq)

lemma add_loop_aval:
  "length as = length bs \<Longrightarrow> unat c \<le> 1 \<Longrightarrow>
    aval (add_loop as bs c) = (aval as + aval bs + unat c) mod 2 ^ (32 * length as)"
proof (induction as bs c rule: add_loop.induct)
  case (1 a as b bs c)
  let ?S = "unat a + unat b + unat c"
  have lt: "?S < 2 ^ 33" using unat_u32_less [of a] unat_u32_less [of b] "1.prems" by simp
  have s: "unat (ucast a + ucast b + c :: u64) = ?S"
    using lt by (simp add: unat_word_ariths unat_ucast_up)
  have lo: "unat (ucast (ucast a + ucast b + c :: u64) :: u32) = ?S mod 2 ^ 32"
    by (simp add: unsigned_ucast_eq s take_bit_eq_mod)
  have hi: "unat (drop_bit 32 (ucast a + ucast b + c :: u64)) = ?S div 2 ^ 32"
    by (simp add: drop_bit_eq_div unat_div s)
  have "?S div 2 ^ 32 < 2" using lt by (intro less_mult_imp_div_less) simp
  then have c1: "?S div 2 ^ 32 \<le> 1" by simp
  let ?T = "aval as + aval bs + ?S div 2 ^ 32"
  have ih: "aval (add_loop as bs (drop_bit 32 (ucast a + ucast b + c :: u64))) = ?T mod 2 ^ (32 * length as)"
    using "1.IH" [OF refl] "1.prems"(1) c1 unfolding hi by simp
  have "aval (a # as) + aval (b # bs) + unat c = ?S mod 2 ^ 32 + 2 ^ 32 * ?T"
    using mult_div_mod_eq [of "2 ^ 32" ?S] by (simp add: algebra_simps)
  moreover have "(?S mod 2 ^ 32 + 2 ^ 32 * ?T) mod (2 ^ 32 * 2 ^ (32 * length as)) =
      ?S mod 2 ^ 32 + 2 ^ 32 * (?T mod 2 ^ (32 * length as))"
    by (rule digit_mod) simp
  ultimately show ?case using ih lo by (simp only: add_loop.simps Let_def aval.simps power_add length_Cons mult_Suc_right)
qed auto

lemma less_loop_append:
  "length as = length bs \<Longrightarrow> less_loop (as @ [a]) (bs @ [b]) \<longleftrightarrow>
    less_loop as bs \<or> (as = bs \<and> a < b)"
  by (induction as bs rule: list_induct2) auto

lemma less_loop_rev:
  "length as = length bs \<Longrightarrow> less_loop (rev as) (rev bs) \<longleftrightarrow> aval as < aval bs"
proof (induction as bs rule: list_induct2)
  case (Cons a as b bs)
  have inj: "aval as = aval bs \<longleftrightarrow> as = bs"
    using Cons.hyps
  proof (induction as bs rule: list_induct2)
    case (Cons x xs y ys)
    have "(unat x + 2 ^ 32 * aval xs) mod 2 ^ 32 = unat x" "(unat y + 2 ^ 32 * aval ys) mod 2 ^ 32 = unat y"
      using unat_u32_less [of x] unat_u32_less [of y] by simp_all
    then show ?case using Cons.IH by (auto simp: word_unat_eq_iff)
  qed simp
  have "aval (a # as) < aval (b # bs) \<longleftrightarrow> aval as < aval bs \<or> (aval as = aval bs \<and> unat a < unat b)"
    using unat_u32_less [of a] unat_u32_less [of b] by auto
  then show ?case using Cons.IH Cons.hyps inj by (simp add: less_loop_append word_less_nat_alt)
qed simp

lemma aval_inject: "length as = length bs \<Longrightarrow> aval as = aval bs \<longleftrightarrow> as = bs"
proof (induction as bs rule: list_induct2)
  case (Cons x xs y ys)
  have "(unat x + 2 ^ 32 * aval xs) mod 2 ^ 32 = unat x" "(unat y + 2 ^ 32 * aval ys) mod 2 ^ 32 = unat y"
    using unat_u32_less [of x] unat_u32_less [of y] by simp_all
  then show ?case using Cons.IH by (auto simp: word_unat_eq_iff)
qed simp

lemma less_than_aval:
  "length a = length b \<Longrightarrow> arith_uint256_less_than a b \<longleftrightarrow> aval a < aval b"
  by (simp add: arith_uint256_less_than_def less_loop_rev)

lemma is_zero_aval: "arith_uint256_is_zero a \<longleftrightarrow> aval a = 0"
  unfolding arith_uint256_is_zero_def by (induction a) (auto simp: unat_eq_0)

lemma comparisons_aval:
  assumes "length a = length b"
  shows "arith_uint256_equal a b \<longleftrightarrow> aval a = aval b"
    "arith_uint256_less_than_or_equal a b \<longleftrightarrow> aval a \<le> aval b"
    "arith_uint256_greater_than a b \<longleftrightarrow> aval a > aval b"
    "arith_uint256_greater_than_or_equal a b \<longleftrightarrow> aval a \<ge> aval b"
proof -
  show eq: "arith_uint256_equal a b \<longleftrightarrow> aval a = aval b"
    using aval_inject [OF assms] by (simp add: arith_uint256_equal_def list_all2_eq)
  show le: "arith_uint256_less_than_or_equal a b \<longleftrightarrow> aval a \<le> aval b"
    using eq less_than_aval [OF assms] by (auto simp: arith_uint256_less_than_or_equal_def)
  show "arith_uint256_greater_than a b \<longleftrightarrow> aval a > aval b"
    using le by (auto simp: arith_uint256_greater_than_def)
  show "arith_uint256_greater_than_or_equal a b \<longleftrightarrow> aval a \<ge> aval b"
    using less_than_aval [OF assms] by (auto simp: arith_uint256_greater_than_or_equal_def)
qed

lemma sub_loop_length: "length as = length bs \<Longrightarrow> length (sub_loop as bs c) = length as"
  by (induction as bs c rule: sub_loop.induct) (auto simp: Let_def)

lemma sub_limb:
  fixes a b :: u32 and c :: u64
  assumes "unat c \<le> 1"
  defines "d \<equiv> ucast a - ucast b - c :: u64"
  shows "unat (ucast d :: u32) + unat b + unat c = unat a + 2 ^ 32 * of_bool (d > 0xFFFFFFFF)"
    and "d > 0xFFFFFFFF \<longleftrightarrow> unat a < unat b + unat c"
proof -
  have la: "unat a < 2 ^ 32" "unat b < 2 ^ 32" using unat_u32_less [of a] unat_u32_less [of b] by simp_all
  show lt: "d > 0xFFFFFFFF \<longleftrightarrow> unat a < unat b + unat c"
    and "unat (ucast d :: u32) + unat b + unat c = unat a + 2 ^ 32 * of_bool (d > 0xFFFFFFFF)"
  proof -
    consider "unat b + unat c \<le> unat a" | "unat a < unat b + unat c" by linarith
    then have "(d > 0xFFFFFFFF \<longleftrightarrow> unat a < unat b + unat c) \<and>
        unat (ucast d :: u32) + unat b + unat c = unat a + 2 ^ 32 * of_bool (d > 0xFFFFFFFF)"
    proof cases
      case 1
      have "d = of_nat (unat a - (unat b + unat c))"
        using 1 by (simp add: d_def of_nat_diff)
      then have ud: "unat d = unat a - (unat b + unat c)" using la by (simp add: unat_of_nat)
      have "unat (ucast d :: u32) = unat d" using ud la by (intro unat_ucast_down) simp
      then show ?thesis using 1 la ud by (simp add: word_less_nat_alt)
    next
      case 2
      define e where "e = unat b + unat c - unat a"
      have e: "0 < e" "e \<le> 2 ^ 32" using 2 la assms(1) by (auto simp: e_def)
      have "d = - of_nat e" using 2 by (simp add: d_def e_def of_nat_diff)
      also have "\<dots> = of_nat (2 ^ 64 - e)"
        using e by (subst of_nat_diff) simp_all
      finally have de: "d = of_nat (2 ^ 64 - e)" .
      have "unat (of_nat (2 ^ 64 - e) :: u64) = (2 ^ 64 - e) mod 2 ^ 64" by (simp only: unat_of_nat) simp
      then have ud: "unat d = 2 ^ 64 - e" using e unfolding de by simp
      have "unat (ucast d :: u32) = unat d mod 2 ^ 32" by (simp add: unsigned_ucast_eq take_bit_eq_mod)
      also have "\<dots> = 2 ^ 32 - e"
      proof -
        have "unat d = (2 ^ 32 - e) + (2 ^ 32 - 1) * 2 ^ 32" using ud e by simp
        then have "unat d mod 2 ^ 32 = (2 ^ 32 - e) mod 2 ^ 32" by (metis mod_mult_self1)
        then show ?thesis using e by simp
      qed
      finally show ?thesis using 2 la ud e by (simp add: word_less_nat_alt e_def)
    qed
    then show "d > 0xFFFFFFFF \<longleftrightarrow> unat a < unat b + unat c"
      "unat (ucast d :: u32) + unat b + unat c = unat a + 2 ^ 32 * of_bool (d > 0xFFFFFFFF)" by blast+
  qed
qed

lemma sub_loop_aval:
  "length as = length bs \<Longrightarrow> unat c \<le> 1 \<Longrightarrow> aval bs + unat c \<le> aval as \<Longrightarrow>
    aval (sub_loop as bs c) = aval as - (aval bs + unat c)"
proof (induction as bs c rule: sub_loop.induct)
  case (1 a as b bs c)
  let ?d = "ucast a - ucast b - c :: u64"
  let ?c = "if ?d > 0xFFFFFFFF then 1 else 0 :: u64"
  note limb = sub_limb [OF "1.prems"(2), of a b]
  have c: "unat ?c = of_bool (?d > 0xFFFFFFFF)" by simp
  have le: "aval bs + unat ?c \<le> aval as"
  proof (rule ccontr)
    assume "\<not> ?thesis"
    then have "aval as + 1 \<le> aval bs + unat ?c" by simp
    then have "2 ^ 32 * (aval as + 1) \<le> 2 ^ 32 * (aval bs + unat ?c)" by (intro mult_le_mono2)
    then show False
      using "1.prems"(3) limb(2) unat_u32_less [of a] unfolding c by (auto split: if_splits)
  qed
  have "aval (sub_loop as bs ?c) = aval as - (aval bs + unat ?c)"
    using "1.IH" [OF refl] "1.prems"(1) le by simp
  then have "aval (sub_loop (a # as) (b # bs) c) + (aval (b # bs) + unat c) = aval (a # as)"
    using limb(1) le unfolding c by (simp add: Let_def algebra_simps diff_mult_distrib2)
  then show ?case by simp
qed auto

lemma sub_aval:
  assumes "length a = length b" "aval b \<le> aval a"
  shows "\<exists>d. sub_arith_uint256 a b = Some d \<and> aval d = aval a - aval b \<and> length d = length a"
  using assms sub_loop_aval [of a b 0] less_than_aval [OF assms(1)]
  by (simp add: sub_arith_uint256_def sub_loop_length)

lemma add_aval:
  "length a = length b \<Longrightarrow> aval (add_arith_uint256 a b) = (aval a + aval b) mod 2 ^ (32 * length a)"
  using add_loop_aval [of a b 0] by (simp add: add_arith_uint256_def)

lemma sub_underflow: "length a = length b \<Longrightarrow> aval a < aval b \<Longrightarrow> sub_arith_uint256 a b = None"
  by (simp add: sub_arith_uint256_def less_than_aval)

lemma length_add: "length a = length b \<Longrightarrow> length (add_arith_uint256 a b) = length a"
  by (simp add: add_arith_uint256_def add_loop_length)

section \<open>Shifts\<close>

lemma length_shl_step [simp]: "length (shl_step temp k sh acc i) = length acc"
  by (simp add: shl_step_def Let_def)

lemma shl_foldl:
  assumes "length acc = 8"
  shows "length (foldl (shl_step temp k sh) acc [0..<n]) = 8 \<and>
    (\<forall>j < 8. \<forall>m. bit (foldl (shl_step temp k sh) acc [0..<n] ! j) m \<longleftrightarrow> bit (acc ! j) m \<or>
      (\<exists>i < n. i + k + 1 = j \<and> sh \<noteq> 0 \<and> bit (drop_bit (32 - sh) (temp ! i)) m) \<or>
      (\<exists>i < n. i + k = j \<and> bit (push_bit sh (temp ! i)) m))"
proof (induction n)
  case (Suc n)
  let ?f = "foldl (shl_step temp k sh) acc [0..<n]"
  have l: "length ?f = 8" using Suc by blast
  have step: "bit (shl_step temp k sh ?f n ! j) m \<longleftrightarrow> bit (?f ! j) m \<or>
      (n + k + 1 = j \<and> sh \<noteq> 0 \<and> bit (drop_bit (32 - sh) (temp ! n)) m) \<or>
      (n + k = j \<and> bit (push_bit sh (temp ! n)) m)" if "j < 8" for j m
    using that l by (auto simp: shl_step_def Let_def nth_list_update bit_or_iff)
  then show ?case using Suc l by (auto simp: less_Suc_eq)
qed (use assms in simp)

lemma shl_aval:
  assumes "length x = 8"
  shows "aval (arith_shift_left x sh) = (aval x * 2 ^ sh) mod 2 ^ 256"
    and "length (arith_shift_left x sh) = 8"
proof -
  define k where "k = sh div 32"
  define r where "r = sh mod 32"
  have sh: "sh = 32 * k + r" "r < 32" by (simp_all add: k_def r_def)
  have res: "arith_shift_left x sh = foldl (shl_step x k r) (replicate 8 0) [0..<8]"
    by (simp add: arith_shift_left_def k_def r_def)
  note F = shl_foldl [of "replicate 8 0" x k r 8]
  show l: "length (arith_shift_left x sh) = 8" using F by (simp add: res)
  show "aval (arith_shift_left x sh) = (aval x * 2 ^ sh) mod 2 ^ 256"
  proof (rule aval_eqI [OF l])
    fix j m :: nat
    assume jm: "j < 8" "m < 32"
    have "(aval x * 2 ^ sh) mod 2 ^ 256 = take_bit 256 (push_bit sh (aval x))"
      by (simp add: take_bit_eq_mod push_bit_eq_mult)
    then have R: "bit ((aval x * 2 ^ sh) mod 2 ^ 256) (32 * j + m) \<longleftrightarrow>
        sh \<le> 32 * j + m \<and> bit (aval x) (32 * j + m - sh)"
      using jm by (simp add: bit_take_bit_iff bit_push_bit_iff)
    have L: "bit (arith_shift_left x sh ! j) m \<longleftrightarrow>
        (k + 1 \<le> j \<and> r \<noteq> 0 \<and> bit (drop_bit (32 - r) (x ! (j - k - 1))) m) \<or>
        (k \<le> j \<and> bit (push_bit r (x ! (j - k))) m)"
      unfolding res using F jm
      by (auto simp: le_iff_add)
    show "bit (arith_shift_left x sh ! j) m \<longleftrightarrow> bit ((aval x * 2 ^ sh) mod 2 ^ 256) (32 * j + m)"
    proof (cases "r \<le> m")
      case True
      have "sh \<le> 32 * j + m \<longleftrightarrow> k \<le> j" using sh jm True by auto
      moreover have "bit (aval x) (32 * j + m - sh) \<longleftrightarrow> bit (x ! (j - k)) (m - r)" if "k \<le> j"
      proof -
        have "32 * j + m - sh = 32 * (j - k) + (m - r)" using sh(1) that True by simp
        then show ?thesis using bit_aval [of "32 * (j - k) + (m - r)" x] jm assms by simp
      qed
      ultimately show ?thesis
        unfolding L R using True jm sh(2) by (auto simp: bit_drop_bit_eq bit_push_bit_iff dest: bit_imp_le_length)
    next
      case False
      have "sh \<le> 32 * j + m \<longleftrightarrow> k + 1 \<le> j" using sh jm False by auto
      moreover have "bit (aval x) (32 * j + m - sh) \<longleftrightarrow> bit (x ! (j - k - 1)) (32 - r + m)" if "k + 1 \<le> j"
      proof -
        have "32 * j + m - sh = 32 * (j - k - 1) + (32 - r + m)" using sh that False by simp
        moreover have "32 - r + m < 32" using False sh(2) by simp
        ultimately show ?thesis using bit_aval [of "32 * (j - k - 1) + (32 - r + m)" x] jm assms by simp
      qed
      ultimately show ?thesis
        unfolding L R using False jm by (auto simp: bit_drop_bit_eq bit_push_bit_iff)
    qed
  qed simp
qed

lemma shr_foldl:
  assumes "length acc = 8" "n \<le> 8"
  shows "length (foldl (shr_step temp k sh) acc [0..<n]) = 8 \<and>
    (\<forall>j < 8. \<forall>m. bit (foldl (shr_step temp k sh) acc [0..<n] ! j) m \<longleftrightarrow> bit (acc ! j) m \<or>
      (\<exists>i < n. j + k + 1 = i \<and> sh \<noteq> 0 \<and> bit (push_bit (32 - sh) (temp ! i)) m) \<or>
      (\<exists>i < n. j + k = i \<and> bit (drop_bit sh (temp ! i)) m))"
  using assms(2)
proof (induction n)
  case (Suc n)
  let ?f = "foldl (shr_step temp k sh) acc [0..<n]"
  have l: "length ?f = 8" using Suc by simp
  have step: "bit (shr_step temp k sh ?f n ! j) m \<longleftrightarrow> bit (?f ! j) m \<or>
      (j + k + 1 = n \<and> sh \<noteq> 0 \<and> bit (push_bit (32 - sh) (temp ! n)) m) \<or>
      (j + k = n \<and> bit (drop_bit sh (temp ! n)) m)" if "j < 8" for j m
    using that l Suc.prems by (auto simp: shr_step_def Let_def nth_list_update bit_or_iff)
  moreover have "length (shr_step temp k sh ?f n) = 8" using l by (simp add: shr_step_def Let_def)
  ultimately show ?case using Suc by (auto simp: less_Suc_eq)
qed (use assms in simp)

lemma shr_aval:
  assumes "length x = 8"
  shows "aval (arith_shift_right x sh) = aval x div 2 ^ sh" and "length (arith_shift_right x sh) = 8"
proof -
  define k where "k = sh div 32"
  define r where "r = sh mod 32"
  have sh: "sh = 32 * k + r" "r < 32" by (simp_all add: k_def r_def)
  have res: "arith_shift_right x sh = foldl (shr_step x k r) (replicate 8 0) [0..<8]"
    by (simp add: arith_shift_right_def k_def r_def)
  note F = shr_foldl [of "replicate 8 0" 8 x k r]
  show l: "length (arith_shift_right x sh) = 8" using F by (simp add: res)
  have x256: "aval x < 2 ^ 256" using aval_less [of x] assms by simp
  show "aval (arith_shift_right x sh) = aval x div 2 ^ sh"
  proof (rule aval_eqI [OF l])
    show "aval x div 2 ^ sh < 2 ^ 256" using x256 by (meson div_le_dividend le_less_trans)
    fix j m :: nat
    assume jm: "j < 8" "m < 32"
    have R: "bit (aval x div 2 ^ sh) (32 * j + m) \<longleftrightarrow> bit (aval x) (sh + (32 * j + m))"
      by (simp add: bit_drop_bit_eq flip: drop_bit_eq_div)
    have L: "bit (arith_shift_right x sh ! j) m \<longleftrightarrow>
        (j + k + 1 < 8 \<and> r \<noteq> 0 \<and> bit (push_bit (32 - r) (x ! (j + k + 1))) m) \<or>
        (j + k < 8 \<and> bit (drop_bit r (x ! (j + k))) m)"
      unfolding res using F jm by auto
    show "bit (arith_shift_right x sh ! j) m \<longleftrightarrow> bit (aval x div 2 ^ sh) (32 * j + m)"
    proof (cases "r + m < 32")
      case True
      have e: "sh + (32 * j + m) = 32 * (j + k) + (r + m)" using sh(1) by simp
      have "bit (aval x) (sh + (32 * j + m)) \<longleftrightarrow> j + k < 8 \<and> bit (x ! (j + k)) (r + m)"
        unfolding e by (rule bit_aval_limb [OF assms True])
      then show ?thesis
        unfolding L R using True jm sh(2) by (auto simp: bit_drop_bit_eq bit_push_bit_iff)
    next
      case False
      then have e: "sh + (32 * j + m) = 32 * (j + k + 1) + (r + m - 32)" "r + m - 32 < 32" using sh jm by auto
      have "bit (aval x) (sh + (32 * j + m)) \<longleftrightarrow> j + k + 1 < 8 \<and> bit (x ! (j + k + 1)) (r + m - 32)"
        unfolding e(1) by (rule bit_aval_limb [OF assms e(2)])
      moreover have "m - (32 - r) = r + m - 32" using False sh(2) by simp
      ultimately show ?thesis
        unfolding L R using False jm sh(2)
        by (auto simp: bit_drop_bit_eq bit_push_bit_iff dest: bit_imp_le_length)
    qed
  qed
qed

section \<open>Division\<close>

lemma or_bit_aval:
  assumes "length x = 8" "i < 256" "\<not> bit (aval x) i"
  shows "aval (x[i div 32 := x ! (i div 32) OR push_bit (i mod 32) 1]) = aval x + 2 ^ i"
proof (rule aval_eqI)
  have s: "aval x + 2 ^ i = set_bit i (aval x)" using assms(3) by (simp add: set_bit_eq)
  have "take_bit 256 (set_bit i (aval x)) = set_bit i (take_bit 256 (aval x))"
    using assms(2) by (auto intro!: bit_eqI simp: bit_take_bit_iff bit_set_bit_iff)
  moreover have "take_bit 256 (aval x) = aval x"
    using aval_less [of x] assms(1) by (simp add: take_bit_nat_eq_self)
  ultimately show "aval x + 2 ^ i < 2 ^ 256" using s by (metis take_bit_nat_less_exp)
  show "length (x[i div 32 := x ! (i div 32) OR push_bit (i mod 32) 1]) = 8" using assms(1) by simp
  fix j m :: nat
  assume jm: "j < 8" "m < 32"
  have "32 * j + m = i \<longleftrightarrow> j = i div 32 \<and> m = i mod 32" using jm by auto
  then show "bit (x[i div 32 := x ! (i div 32) OR push_bit (i mod 32) 1] ! j) m \<longleftrightarrow> bit (aval x + 2 ^ i) (32 * j + m)"
    unfolding s using jm assms(1,2) bit_aval [of "32 * j + m" x]
    by (auto simp: bit_set_bit_iff nth_list_update bit_or_iff bit_exp_iff)
qed

lemma and_bit_aval:
  assumes "length a = 8" "i < 256"
  shows "a ! (i div 32) AND push_bit (i mod 32) 1 \<noteq> 0 \<longleftrightarrow> bit (aval a) i"
proof -
  have "a ! (i div 32) AND push_bit (i mod 32) 1 = of_bool (bit (a ! (i div 32)) (i mod 32)) * 2 ^ (i mod 32)"
    by (auto intro!: bit_word_eqI simp: bit_and_iff bit_push_bit_iff bit_1_iff bit_exp_iff)
  then show ?thesis using bit_aval [of i a] assms by auto
qed

lemma div_digit:
  fixes D B e :: nat
  assumes "0 < B" "e \<le> 1"
  shows "(2 * D + e) div B = 2 * (D div B) + of_bool (B \<le> 2 * (D mod B) + e)"
    and "(2 * D + e) mod B = 2 * (D mod B) + e - B * of_bool (B \<le> 2 * (D mod B) + e)"
proof -
  let ?r = "2 * (D mod B) + e"
  have alg: "2 * (B * q + m) + e = (2 * m + e) + 2 * q * B" for q m :: nat by (simp add: algebra_simps)
  have "2 * D + e = 2 * (B * (D div B) + D mod B) + e" by (simp only: mult_div_mod_eq)
  also have "\<dots> = ?r + 2 * (D div B) * B" by (rule alg)
  finally have split: "2 * D + e = ?r + 2 * (D div B) * B" .
  have r: "?r < 2 * B" using assms mod_less_divisor [of B D] by linarith
  have rd: "?r div B = of_bool (B \<le> ?r)" "?r mod B = ?r - B * of_bool (B \<le> ?r)"
    using r assms(1) by (auto simp: le_div_geq le_mod_geq)
  show "(2 * D + e) div B = 2 * (D div B) + of_bool (B \<le> ?r)"
    unfolding split using rd(1) assms(1) by (simp add: div_mult_self1)
  show "(2 * D + e) mod B = ?r - B * of_bool (B \<le> ?r)"
    unfolding split using rd(2) by (simp add: mod_mult_self1)
qed

lemma rem_step:
  assumes "length a = 8" "length r = 8" "i < 256" "aval r < 2 ^ 255"
  defines "rem1 \<equiv> arith_shift_left r 1"
  defines "rem2 \<equiv> if a ! (i div 32) AND push_bit (i mod 32) 1 \<noteq> 0 then rem1[0 := rem1 ! 0 OR 1] else rem1"
  shows "aval rem2 = 2 * aval r + of_bool (bit (aval a) i)" and "length rem2 = 8"
proof -
  have l1: "length rem1 = 8" by (simp add: rem1_def shl_aval(2) [OF assms(2)])
  have v1: "aval rem1 = 2 * aval r" using assms(4) by (simp add: rem1_def shl_aval(1) [OF assms(2)])
  have "\<not> bit (aval rem1) 0" by (simp add: v1 bit_0)
  from or_bit_aval [OF l1 _ this] have "aval (rem1[0 := rem1 ! 0 OR 1]) = 2 * aval r + 1" by (simp add: v1)
  then show "aval rem2 = 2 * aval r + of_bool (bit (aval a) i)"
    unfolding rem2_def and_bit_aval [OF assms(1,3)] using v1 by simp
  show "length rem2 = 8" using l1 by (simp add: rem2_def)
qed

lemma div_loop_aval:
  assumes "length a = 8" "length b = 8" "0 < aval b" "aval b \<le> 2 ^ 255"
    and "i \<le> 256" "length q = 8" "length r = 8"
    and "aval r = (aval a div 2 ^ i) mod aval b" "aval q = (aval a div 2 ^ i) div aval b * 2 ^ i"
  shows "aval (div_loop a b i q r) = aval a div aval b \<and> length (div_loop a b i q r) = 8"
  using assms(5-)
proof (induction i arbitrary: q r)
  case (Suc i)
  define rem1 where "rem1 = arith_shift_left r 1"
  define rem2 where "rem2 = (if a ! (i div 32) AND push_bit (i mod 32) 1 \<noteq> 0 then rem1[0 := rem1 ! 0 OR 1] else rem1)"
  let ?D = "aval a div 2 ^ Suc i" and ?e = "of_bool (bit (aval a) i) :: nat"
  have i: "i < 256" "i \<le> 256" using Suc.prems by auto
  have "aval r < aval b" unfolding Suc.prems(4) using assms(3) by (rule mod_less_divisor)
  then have "aval r < 2 ^ 255" using assms(4) by (rule less_le_trans)
  note rs = rem_step [OF assms(1) Suc.prems(3) i(1) this, folded rem1_def, folded rem2_def]
  have v2: "aval rem2 = 2 * (?D mod aval b) + ?e" and l2: "length rem2 = 8" using rs Suc.prems(4) by simp_all
  have A: "aval a div 2 ^ i = 2 * ?D + ?e"
  proof -
    have "aval a div 2 ^ i = 2 * (aval a div 2 ^ i div 2) + (aval a div 2 ^ i) mod 2" by simp
    moreover have "aval a div 2 ^ i div 2 = ?D" by (simp only: power_Suc2 div_mult2_eq)
    moreover have "(aval a div 2 ^ i) mod 2 = ?e" by (simp add: bit_iff_odd mod_2_eq_odd)
    ultimately show ?thesis by metis
  qed
  have e1: "?e \<le> 1" by simp
  note dg = div_digit [OF assms(3) e1, of ?D, folded A, folded v2]
  have ge: "arith_uint256_greater_than_or_equal rem2 b \<longleftrightarrow> aval b \<le> aval rem2"
    using comparisons_aval(4) [of rem2 b] l2 assms(2) by simp
  have nb: "\<not> bit (aval q) i"
    unfolding Suc.prems(5) by (simp add: bit_iff_odd)
  have step: "div_loop a b (Suc i) q r =
      (if arith_uint256_greater_than_or_equal rem2 b then
         div_loop a b i (q[i div 32 := q ! (i div 32) OR push_bit (i mod 32) 1])
           (case sub_arith_uint256 rem2 b of Some t \<Rightarrow> t | None \<Rightarrow> rem2)
       else div_loop a b i q rem2)"
    by (simp only: div_loop.simps Let_def rem1_def rem2_def)
  show ?case
  proof (cases "aval b \<le> aval rem2")
    case True
    obtain t where t: "sub_arith_uint256 rem2 b = Some t" "aval t = aval rem2 - aval b" "length t = 8"
      using sub_aval [of rem2 b] True l2 assms(2) by auto
    let ?q = "q[i div 32 := q ! (i div 32) OR push_bit (i mod 32) 1]"
    have "div_loop a b (Suc i) q r = div_loop a b i ?q t"
      unfolding step using True ge t(1) by simp
    moreover have "aval ?q = (aval a div 2 ^ i) div aval b * 2 ^ i"
      using or_bit_aval [OF Suc.prems(2) i(1) nb] True by (simp add: dg(1) Suc.prems(5) algebra_simps)
    moreover have "aval t = (aval a div 2 ^ i) mod aval b" using True by (simp add: dg(2) t(2))
    moreover have "length ?q = 8" using Suc.prems(2) by simp
    ultimately show ?thesis using Suc.IH [OF i(2)] t(3) by simp
  next
    case False
    then have "div_loop a b (Suc i) q r = div_loop a b i q rem2"
      unfolding step using ge by simp
    moreover have "aval q = (aval a div 2 ^ i) div aval b * 2 ^ i"
      using False by (simp add: dg(1) Suc.prems(5))
    moreover have "aval rem2 = (aval a div 2 ^ i) mod aval b" using False by (simp add: dg(2))
    ultimately show ?thesis using Suc.IH [OF i(2) Suc.prems(2) l2] by simp
  qed
qed simp

lemma div_aval:
  assumes "length a = 8" "length b = 8" "0 < aval b" "aval b \<le> 2 ^ 255"
  shows "\<exists>q. div_arith_uint256 a b = Some q \<and> aval q = aval a div aval b \<and> length q = 8"
proof -
  have "aval a div 2 ^ 256 = 0" using aval_less [of a] assms(1) by simp
  then show ?thesis
    using div_loop_aval [OF assms, of 256 "replicate 8 0" "replicate 8 0"] assms(3)
    by (simp add: div_arith_uint256_def is_zero_aval init_arith_uint256_def)
qed

section \<open>Compact targets\<close>

definition compact_size :: "u32 \<Rightarrow> nat" where
  "compact_size c = unat c div 2 ^ 24"

definition compact_word :: "u32 \<Rightarrow> nat" where
  "compact_word c = unat c mod 2 ^ 23"

text \<open>The number a compact target stands for, without any truncation.\<close>

definition compact_value :: "u32 \<Rightarrow> nat" where
  "compact_value c =
     (if compact_size c \<le> 3 then compact_word c div 256 ^ (3 - compact_size c)
      else compact_word c * 256 ^ (compact_size c - 3))"

lemma unat_size: "unat (drop_bit 24 (c :: u32)) = compact_size c"
  by (simp add: compact_size_def drop_bit_eq_div unat_div)

lemma unat_word: "unat (c AND 0x007fffff :: u32) = compact_word c"
proof -
  have "c AND 0x007fffff = take_bit 23 c" by (simp add: take_bit_eq_mask mask_numeral)
  then show ?thesis by (simp add: compact_word_def take_bit_eq_mod unat_mod)
qed

lemma and_push_1: "c AND push_bit n 1 = of_bool (bit c n) * push_bit n 1" for c :: u32
  by (auto intro!: bit_word_eqI simp: bit_and_iff bit_push_bit_iff bit_1_iff bit_exp_iff)

lemma and_sign: "c AND 0x00800000 \<noteq> 0 \<longleftrightarrow> bit (c :: u32) 23"
proof -
  have "(0x00800000 :: u32) = push_bit 23 1" by (simp add: push_bit_eq_mult)
  moreover have "c AND push_bit 23 1 = of_bool (bit c 23) * push_bit 23 1" by (rule and_push_1)
  moreover have "push_bit 23 1 \<noteq> (0 :: u32)" by (simp add: push_bit_eq_mult)
  ultimately show ?thesis by auto
qed

lemma init_upd_0: "init_arith_uint256[0 := w] = w # replicate 7 0"
proof -
  have "replicate (Suc 7) (0 :: u32) = 0 # replicate 7 0" by (rule replicate_Suc)
  then show ?thesis by (simp add: init_arith_uint256_def)
qed

lemma aval_init_0: "aval (init_arith_uint256[0 := w]) = unat w"
  by (simp add: init_upd_0)

lemma length_init [simp]: "length init_arith_uint256 = 8"
  by (simp add: init_arith_uint256_def)

lemma pow256: "(256 :: nat) ^ n = 2 ^ (8 * n)"
  by (simp add: power_mult)

lemma overflow_iff:
  fixes W sz :: nat
  assumes "W < 2 ^ 23"
  shows "(W \<noteq> 0 \<and> (sz > 34 \<or> (W > 0xff \<and> sz > 33) \<or> (W > 0xffff \<and> sz > 32))) \<longleftrightarrow>
    3 < sz \<and> 2 ^ 256 \<le> W * 256 ^ (sz - 3)"
proof -
  consider "sz \<le> 3" | "3 < sz" "sz \<le> 32" | "sz = 33" | "sz = 34" | "34 < sz" by linarith
  then show ?thesis
  proof cases
    case 2
    then have "(256 :: nat) ^ (sz - 3) \<le> 256 ^ 29" by (intro power_increasing) auto
    then have "W * 256 ^ (sz - 3) \<le> 2 ^ 23 * 256 ^ 29" using assms by (intro mult_le_mono) auto
    also have "(2 :: nat) ^ 23 * 256 ^ 29 < 2 ^ 256" by simp
    finally show ?thesis using 2 by simp
  next
    case 3
    have "W * 256 ^ 30 \<ge> 2 ^ 256 \<longleftrightarrow> W \<ge> 65536"
      by simp
    then show ?thesis using 3 by auto
  next
    case 4
    have "W * 256 ^ 31 \<ge> 2 ^ 256 \<longleftrightarrow> W \<ge> 256"
      by simp
    then show ?thesis using 4 by auto
  next
    case 5
    then have "(256 :: nat) ^ 32 \<le> 256 ^ (sz - 3)" by (intro power_increasing) auto
    moreover have "(256 :: nat) ^ 32 = 2 ^ 256" by simp
    ultimately have "2 ^ 256 \<le> W * 256 ^ (sz - 3)" if "W \<noteq> 0"
      using that by (metis One_nat_def Suc_leI mult.left_neutral mult_le_mono neq0_conv)
    then show ?thesis using 5 by (cases "W = 0") auto
  qed auto
qed

lemma compact_word_less: "compact_word c < 2 ^ 23"
  by (simp add: compact_word_def)

lemma set_compact_spec:
  "\<exists>t. set_compact init_arith_uint256 c =
     (t, compact_value c \<noteq> 0 \<and> bit c 23, 2 ^ 256 \<le> compact_value c) \<and>
     aval t = compact_value c mod 2 ^ 256 \<and> length t = 8"
proof (cases "compact_size c \<le> 3")
  case True
  define w where "w = drop_bit (8 * (3 - compact_size c)) (c AND 0x007fffff)"
  have sh: "8 * (3 - compact_size c) < 32" by simp
  have uw: "unat w = compact_value c"
    using True unfolding w_def unat_drop unat_word by (simp add: compact_value_def pow256)
  have "compact_value c \<le> compact_word c" using True by (simp add: compact_value_def)
  then have small: "compact_value c < 2 ^ 23" using compact_word_less [of c] by (rule le_less_trans)
  have "set_compact init_arith_uint256 c =
      (init_arith_uint256[0 := w], w \<noteq> 0 \<and> bit c 23, False)"
    using True by (simp add: set_compact_def Let_def unat_size and_sign w_def)
  moreover have "w \<noteq> 0 \<longleftrightarrow> compact_value c \<noteq> 0" using uw by (metis unat_eq_zero)
  ultimately show ?thesis using uw small by (simp add: aval_init_0)
next
  case False
  define w where "w = c AND 0x007fffff"
  have uw: "unat w = compact_word c" by (simp add: w_def unat_word)
  let ?h = "init_arith_uint256[0 := w]"
  have gt: "w > 0xff \<longleftrightarrow> compact_word c > 0xff" "w > 0xffff \<longleftrightarrow> compact_word c > 0xffff" "w \<noteq> 0 \<longleftrightarrow> compact_word c \<noteq> 0"
    using uw by (simp_all add: word_less_nat_alt flip: uw unat_eq_zero)
  have l: "length ?h = 8" by simp
  have v: "compact_value c = compact_word c * 256 ^ (compact_size c - 3)"
    using False by (simp add: compact_value_def)
  have nz: "compact_value c \<noteq> 0 \<longleftrightarrow> compact_word c \<noteq> 0" by (simp add: v)
  have ov: "2 ^ 256 \<le> compact_value c \<longleftrightarrow>
      w \<noteq> 0 \<and> (compact_size c > 34 \<or> (w > 0xff \<and> compact_size c > 33) \<or> (w > 0xffff \<and> compact_size c > 32))"
    using overflow_iff [OF compact_word_less, of c "compact_size c"] False unfolding gt v by simp
  have eq: "set_compact init_arith_uint256 c =
      (arith_shift_left ?h (8 * (compact_size c - 3)), compact_value c \<noteq> 0 \<and> bit c 23, 2 ^ 256 \<le> compact_value c)"
    unfolding ov nz gt(3) [symmetric] using False by (simp add: set_compact_def Let_def unat_size and_sign w_def)
  then show ?thesis using shl_aval [OF l] by (simp add: aval_init_0 uw v pow256)
qed

section \<open>Byte strings and limbs\<close>

lemma le_val_take_drop: "le_val bs = le_val (take n bs) + 256 ^ length (take n bs) * le_val (drop n bs)"
  using le_val_append [of "take n bs" "drop n bs"] by simp

lemma bytes_to_limbs_aval:
  "length bs = 4 * n \<Longrightarrow> aval (bytes_to_limbs n bs) = le_val bs \<and> length (bytes_to_limbs n bs) = n"
proof (induction n arbitrary: bs)
  case (Suc n)
  have l: "length (take 4 bs) = 4" using Suc.prems by simp
  have "le_val (take 4 bs) < 2 ^ 32" using le_val_less [of "take 4 bs"] l by simp
  then show ?case using Suc le_val_take_drop [of bs 4] l by (simp add: unat_of_nat)
qed simp

lemma arith_bytes_le_val: "le_val (arith_to_uint256 a) = aval a \<and> length (arith_to_uint256 a) = 4 * length a"
proof (induction a)
  case (Cons w ws)
  have "le_val (le_bytes 4 (unat w)) = unat w" using unat_u32_less [of w] by (simp add: le_val_le_bytes)
  then show ?case using Cons by (simp add: arith_to_uint256_def le_val_append)
qed (simp add: arith_to_uint256_def)

lemma cmp_loop_append:
  "length as = length bs \<Longrightarrow> cmp_loop (as @ [a]) (bs @ [b]) \<longleftrightarrow> cmp_loop as bs \<or> (as = bs \<and> a > b)"
  by (induction as bs rule: list_induct2) auto

lemma le_val_inject: "length as = length bs \<Longrightarrow> le_val as = le_val bs \<longleftrightarrow> as = bs"
  by (metis le_bytes_le_val)

lemma cmp_loop_rev: "length as = length bs \<Longrightarrow> cmp_loop (rev as) (rev bs) \<longleftrightarrow> le_val as > le_val bs"
proof (induction as bs rule: list_induct2)
  case (Cons a as b bs)
  have "le_val (a # as) > le_val (b # bs) \<longleftrightarrow> le_val as > le_val bs \<or> (le_val as = le_val bs \<and> unat a > unat b)"
    using unat_u8_less [of a] unat_u8_less [of b] by auto
  then show ?case using Cons by (auto simp: cmp_loop_append le_val_inject word_less_nat_alt)
qed simp

lemma uint256_cmp_le_val: "length a = 32 \<Longrightarrow> length b = 32 \<Longrightarrow> uint256_cmp a b \<longleftrightarrow> le_val a > le_val b"
  by (simp add: uint256_cmp_def cmp_loop_rev)

lemma swap_loop_nth:
  "i + n \<le> length buf div 2 \<Longrightarrow>
    length (swap_loop_bytes buf i n) = length buf \<and>
    (\<forall>j < length buf. swap_loop_bytes buf i n ! j =
      (if (i \<le> j \<and> j < i + n) \<or> (length buf - i - n \<le> j \<and> j < length buf - i)
       then buf ! (length buf - 1 - j) else buf ! j))"
proof (induction n arbitrary: i buf)
  case (Suc n)
  let ?L = "length buf"
  let ?b = "buf[i := buf ! (?L - i - 1), ?L - i - 1 := buf ! i]"
  have b: "?b ! j = (if j = i \<or> j = ?L - i - 1 then buf ! (?L - 1 - j) else buf ! j)" if "j < ?L" for j
    using that Suc.prems by (auto simp: nth_list_update)
  have e: "swap_loop_bytes buf i (Suc n) = swap_loop_bytes ?b (Suc i) n" by (simp add: Let_def)
  have ih: "length (swap_loop_bytes ?b (Suc i) n) = ?L \<and>
      (\<forall>j < ?L. swap_loop_bytes ?b (Suc i) n ! j =
        (if (Suc i \<le> j \<and> j < Suc i + n) \<or> (?L - Suc i - n \<le> j \<and> j < ?L - Suc i)
         then ?b ! (?L - 1 - j) else ?b ! j))"
    using Suc.IH [of "Suc i" ?b] Suc.prems by simp
  show ?case
  proof (intro conjI allI impI)
    show "length (swap_loop_bytes buf i (Suc n)) = ?L" unfolding e using ih by simp
    fix j
    assume j: "j < ?L"
    have "?b ! (?L - 1 - j) = buf ! (?L - 1 - j)"
      if "(Suc i \<le> j \<and> j < Suc i + n) \<or> (?L - Suc i - n \<le> j \<and> j < ?L - Suc i)"
      using b [of "?L - 1 - j"] that j Suc.prems by auto
    moreover have "swap_loop_bytes buf i (Suc n) ! j =
        (if (Suc i \<le> j \<and> j < Suc i + n) \<or> (?L - Suc i - n \<le> j \<and> j < ?L - Suc i)
         then ?b ! (?L - 1 - j) else ?b ! j)"
      unfolding e using ih j by blast
    ultimately show "swap_loop_bytes buf i (Suc n) ! j =
        (if (i \<le> j \<and> j < i + Suc n) \<or> (?L - i - Suc n \<le> j \<and> j < ?L - i)
         then buf ! (?L - 1 - j) else buf ! j)"
      using b [OF j] Suc.prems by auto
  qed
qed auto

lemma swap_bytes_rev: "swap_bytes buf = rev buf"
proof (rule nth_equalityI)
  note S = swap_loop_nth [of 0 "length buf div 2" buf]
  show "length (swap_bytes buf) = length (rev buf)" using S by (simp add: swap_bytes_def)
  fix j
  assume "j < length (swap_bytes buf)"
  then have j: "j < length buf" using S by (simp add: swap_bytes_def)
  moreover have "buf ! (length buf - 1 - j) = buf ! j" if "length buf div 2 \<le> j" "j < length buf - length buf div 2"
  proof -
    have "length buf - 1 - j = j" using that by linarith
    then show ?thesis by simp
  qed
  ultimately show "swap_bytes buf ! j = rev buf ! j"
    using S by (auto simp: swap_bytes_def rev_nth)
qed

section \<open>The proof-of-work check\<close>

lemma negate_aval: "length a = 8 \<Longrightarrow> aval (arith_negate a) = 2 ^ 256 - 1 - aval a"
proof -
  have "aval (map NOT a) + aval a = 2 ^ (32 * length a) - 1" for a :: arith
  proof (induction a)
    case (Cons w ws)
    have "NOT w = - 1 - w" by (simp add: not_eq_complement)
    then have "unat (NOT w) = unat (- 1 :: u32) - unat w" by (metis unat_sub word_order.extremum)
    then have "unat (NOT w) = 2 ^ 32 - 1 - unat w" by (simp add: unsigned_minus_1_eq_mask mask_eq_exp_minus_1)
    then have "aval (map NOT (w # ws)) + aval (w # ws) = 2 ^ 32 - 1 + 2 ^ 32 * (2 ^ (32 * length ws) - 1)"
      using Cons unat_u32_less [of w] by (simp flip: Cons)
    also have "\<dots> = 2 ^ (32 * length (w # ws)) - 1" by (simp add: power_add algebra_simps)
    finally show ?case .
  qed simp
  from this [of a] show "length a = 8 \<Longrightarrow> aval (arith_negate a) = 2 ^ 256 - 1 - aval a"
    by (simp add: arith_negate_def)
qed

lemma work_quotient:
  fixes T M :: nat
  assumes "T < M"
  shows "(M - 1 - T) div (T + 1) + 1 = M div (T + 1)"
proof -
  have "M = (M - 1 - T) + (T + 1)" using assms by simp
  then have "M div (T + 1) = ((M - 1 - T) + (T + 1)) div (T + 1)" by simp
  also have "\<dots> = (M - 1 - T) div (T + 1) + 1" by (subst div_add_self2) auto
  finally show ?thesis by simp
qed

lemma check_pow_cases:
  fixes nbits :: u32
  assumes "length hash = 32" "length pow_limit = 32"
  defines "T \<equiv> compact_value nbits"
  shows "\<exists>t. aval t = T mod 2 ^ 256 \<and> length t = 8 \<and>
    check_pow hash nbits pow_limit =
      (if (T \<noteq> 0 \<and> bit nbits 23) \<or> T mod 2 ^ 256 = 0 \<or> 2 ^ 256 \<le> T \<or> le_val pow_limit < T mod 2 ^ 256
       then (False, hash, None)
       else if T mod 2 ^ 256 < le_val (rev hash) then (False, rev hash, None)
       else (True, rev hash,
         map_option (\<lambda>h. add_arith_uint256 h (init_arith_uint256[0 := 1]))
           (div_arith_uint256 (arith_negate t) (add_arith_uint256 t (init_arith_uint256[0 := 1])))))"
proof -
  obtain t where t: "set_compact init_arith_uint256 nbits = (t, T \<noteq> 0 \<and> bit nbits 23, 2 ^ 256 \<le> T)"
    "aval t = T mod 2 ^ 256" "length t = 8" using set_compact_spec [of nbits] unfolding T_def by blast
  have l: "length (arith_to_uint256 t) = 32" "le_val (arith_to_uint256 t) = aval t"
    using arith_bytes_le_val [of t] t(3) by simp_all
  have c: "uint256_cmp (arith_to_uint256 t) pow_limit \<longleftrightarrow> le_val pow_limit < aval t"
    "uint256_cmp (rev hash) (arith_to_uint256 t) \<longleftrightarrow> aval t < le_val (rev hash)"
    using l assms(1,2) by (simp_all add: uint256_cmp_le_val)
  have "check_pow hash nbits pow_limit =
      (if (T \<noteq> 0 \<and> bit nbits 23) \<or> aval t = 0 \<or> 2 ^ 256 \<le> T \<or> le_val pow_limit < aval t
       then (False, hash, None)
       else if aval t < le_val (rev hash) then (False, rev hash, None)
       else (True, rev hash,
         map_option (\<lambda>h. add_arith_uint256 h (init_arith_uint256[0 := 1]))
           (div_arith_uint256 (arith_negate t) (add_arith_uint256 t (init_arith_uint256[0 := 1])))))"
    unfolding check_pow_def t(1) by (simp only: Let_def prod.case c swap_bytes_rev is_zero_aval)
  then show ?thesis using t by metis
qed

lemma chainwork_aval:
  assumes "length t = 8" "0 < aval t" "aval t < 2 ^ 255"
  shows "\<exists>w. map_option (\<lambda>h. add_arith_uint256 h (init_arith_uint256[0 := 1]))
      (div_arith_uint256 (arith_negate t) (add_arith_uint256 t (init_arith_uint256[0 := 1]))) = Some w \<and>
    aval w = 2 ^ 256 div (aval t + 1) \<and> length w = 8"
proof -
  let ?one = "init_arith_uint256[0 := 1]"
  have one: "aval ?one = 1" "length ?one = 8" by (simp_all add: aval_init_0)
  have s: "aval (add_arith_uint256 t ?one) = aval t + 1" "length (add_arith_uint256 t ?one) = 8"
    using add_aval [of t ?one] length_add [of t ?one] one assms by simp_all
  obtain q where q: "div_arith_uint256 (arith_negate t) (add_arith_uint256 t ?one) = Some q"
    "aval q = (2 ^ 256 - 1 - aval t) div (aval t + 1)" "length q = 8"
    using div_aval [of "arith_negate t" "add_arith_uint256 t ?one"] s assms negate_aval [of t]
    by (auto simp: arith_negate_def)
  have "aval q + 1 = 2 ^ 256 div (aval t + 1)"
    using work_quotient [of "aval t" "2 ^ 256"] assms(3) q(2) by simp
  moreover have "2 ^ 256 div (aval t + 1) \<le> 2 ^ 256 div (2 :: nat)" using assms(2) by (intro div_le_mono2) auto
  ultimately have "aval (add_arith_uint256 q ?one) = 2 ^ 256 div (aval t + 1) \<and> length (add_arith_uint256 q ?one) = 8"
    using add_aval [of q ?one] length_add [of q ?one] one q(3) by simp
  then show ?thesis using q(1) by simp
qed

section \<open>Properties\<close>

lemma regtest_limit: "le_val (replicate 31 0xff @ [0x7f]) = 2 ^ 255 - 1"
proof -
  have ff: "unat (0xff :: u8) = 255" by simp
  have "le_val (replicate n 0xff) + 1 = 256 ^ n" for n by (induction n) (simp_all add: ff)
  from this [of 31] show ?thesis by (simp add: le_val_append)
qed

lemma compact_value_207fffff: "compact_value 0x207fffff = 0x7fffff * 256 ^ 29"
  by (simp add: compact_value_def compact_size_def compact_word_def)

lemma sign_207fffff: "\<not> bit (0x207fffff :: u32) 23"
  by (simp flip: and_sign)

lemma check_pow_fst_iff:
  assumes "length hash = 32" "length pow_limit = 32"
  shows "fst (check_pow hash nbits pow_limit) \<longleftrightarrow>
    0 < compact_value nbits \<and> \<not> bit nbits 23 \<and> compact_value nbits \<le> le_val pow_limit \<and>
    le_val (rev hash) \<le> compact_value nbits"
proof -
  have "le_val pow_limit < 2 ^ 256" using le_val_less [of pow_limit] assms(2) by simp
  then show ?thesis using check_pow_cases [OF assms, of nbits] by (cases "2 ^ 256 \<le> compact_value nbits") (auto split: if_splits)
qed

lemma check_pow_regtest: "fst (check_pow (replicate 32 0) 0x207fffff (replicate 31 0xff @ [0x7f]))"
proof -
  show ?thesis
    using sign_207fffff check_pow_cases [of "replicate 32 0" "replicate 31 0xff @ [0x7f]" "0x207fffff"]
    by (auto simp: regtest_limit compact_value_207fffff split: if_splits)
qed

text \<open>
  A compact target is decoded to the number it stands for: starting from zero, \<open>set_compact\<close>
  leaves the low 256 bits of the exact value (mantissa times a power of 256, or shifted down when the
  exponent is below 3), raises the negative flag exactly when the value is not zero and the sign bit
  is set, and the overflow flag exactly when the exact value does not fit in 256 bits.
\<close>

theorem set_compact_exact:
  "\<exists>t. set_compact init_arith_uint256 c =
     (t, compact_value c \<noteq> 0 \<and> bit c 23, 2 ^ 256 \<le> compact_value c) \<and>
     aval t = compact_value c mod 2 ^ 256 \<and> length t = WIDTH"
  using set_compact_spec by blast

text \<open>
  C9. The proof-of-work check accepts exactly the hashes it should: the compact target is positive and
  not negative, it does not exceed the chain's limit, and the hash, its 32 bytes reversed and read as a
  little-endian number, is at most the target. No 256-bit wrap-around makes it accept anything else.
\<close>

theorem check_pow_accepts_iff:
  assumes "length hash = 32" "length pow_limit = 32"
  shows "fst (check_pow hash nbits pow_limit) \<longleftrightarrow>
    0 < compact_value nbits \<and> \<not> bit nbits 23 \<and> compact_value nbits \<le> le_val pow_limit \<and>
    le_val (rev hash) \<le> compact_value nbits"
  by (rule check_pow_fst_iff [OF assms])

theorem check_pow_accepts_iff_witness:
  "fst (check_pow (replicate 32 0) 0x207fffff (replicate 31 0xff @ [0x7f]))"
  using check_pow_accepts_iff [of "replicate 32 0" "replicate 31 0xff @ [0x7f]" "0x207fffff"] sign_207fffff
  by (simp add: regtest_limit compact_value_207fffff)

text \<open>
  C10. An accepted header contributes the work Bitcoin defines: when the chain's limit is below
  \<open>2 ^ 255\<close> (it is for every chain), \<open>check_pow\<close> stores \<open>2 ^ 256 div (target + 1)\<close>, although it only
  has 256-bit arithmetic and computes \<open>~target / (target + 1) + 1\<close>; the stored hash is byte-reversed.
\<close>

theorem check_pow_chainwork:
  assumes "length hash = 32" "length pow_limit = 32" "le_val pow_limit < 2 ^ 255"
    and "fst (check_pow hash nbits pow_limit)"
  shows "\<exists>w. check_pow hash nbits pow_limit = (True, rev hash, Some w) \<and> length w = WIDTH \<and>
    aval w = 2 ^ 256 div (compact_value nbits + 1)"
proof -
  obtain t where t: "aval t = compact_value nbits mod 2 ^ 256" "length t = 8"
    "check_pow hash nbits pow_limit =
      (if (compact_value nbits \<noteq> 0 \<and> bit nbits 23) \<or> compact_value nbits mod 2 ^ 256 = 0 \<or>
          2 ^ 256 \<le> compact_value nbits \<or> le_val pow_limit < compact_value nbits mod 2 ^ 256
       then (False, hash, None)
       else if compact_value nbits mod 2 ^ 256 < le_val (rev hash) then (False, rev hash, None)
       else (True, rev hash,
         map_option (\<lambda>h. add_arith_uint256 h (init_arith_uint256[0 := 1]))
           (div_arith_uint256 (arith_negate t) (add_arith_uint256 t (init_arith_uint256[0 := 1])))))"
    using check_pow_cases [OF assms(1,2), of nbits] by blast
  have acc: "\<not> ((compact_value nbits \<noteq> 0 \<and> bit nbits 23) \<or> compact_value nbits mod 2 ^ 256 = 0 \<or>
      2 ^ 256 \<le> compact_value nbits \<or> le_val pow_limit < compact_value nbits mod 2 ^ 256)"
    "\<not> compact_value nbits mod 2 ^ 256 < le_val (rev hash)"
    using assms(4) unfolding t(3) by (auto split: if_splits)
  then have v: "aval t = compact_value nbits" "0 < aval t" "aval t < 2 ^ 255" using t(1) assms(3) by auto
  show ?thesis using chainwork_aval [OF t(2) v(2,3)] t(3) acc v(1) by auto
qed

theorem check_pow_chainwork_witness:
  "\<exists>w. check_pow (replicate 32 0) 0x207fffff (replicate 31 0xff @ [0x7f]) = (True, replicate 32 0, Some w) \<and> aval w = 2"
  using check_pow_chainwork [of "replicate 32 0" "replicate 31 0xff @ [0x7f]" "0x207fffff"] check_pow_regtest
  by (auto simp: regtest_limit compact_value_207fffff)

text \<open>
  C35. The 256-bit operations agree with arithmetic on numbers: addition modulo \<open>2 ^ 256\<close>, subtraction
  failing exactly on underflow, long division giving the quotient for every divisor up to \<open>2 ^ 255\<close>,
  shifts multiplying and dividing by powers of two, and the ordering being the numerical one.
\<close>

theorem arith_ops_numeric:
  assumes "length a = WIDTH" "length b = WIDTH"
  shows "aval (add_arith_uint256 a b) = (aval a + aval b) mod 2 ^ 256 \<and>
    (if aval a < aval b then sub_arith_uint256 a b = None
     else \<exists>d. sub_arith_uint256 a b = Some d \<and> aval d = aval a - aval b) \<and>
    (if aval b = 0 then div_arith_uint256 a b = None
     else aval b \<le> 2 ^ 255 \<longrightarrow> (\<exists>q. div_arith_uint256 a b = Some q \<and> aval q = aval a div aval b)) \<and>
    aval (arith_shift_left a s) = (aval a * 2 ^ s) mod 2 ^ 256 \<and>
    aval (arith_shift_right a s) = aval a div 2 ^ s \<and>
    (arith_uint256_less_than_or_equal a b \<longleftrightarrow> aval a \<le> aval b)"
  using add_aval [of a b] sub_aval [of a b] sub_underflow [of a b] div_aval [of a b] shl_aval [of a s] shr_aval [of a s]
    comparisons_aval [of a b] assms
  by (auto simp: div_arith_uint256_def is_zero_aval)

theorem arith_ops_numeric_witness:
  "\<exists>q. div_arith_uint256 (init_arith_uint256[0 := 7]) (init_arith_uint256[0 := 2]) = Some q \<and> aval q = 3"
  using arith_ops_numeric [of "init_arith_uint256[0 := 7]" "init_arith_uint256[0 := 2]"]
  by (simp add: aval_init_0)

text \<open>
  \<open>get_low64\<close> returns the \<^emph>\<open>most\<close> significant 64 bits of the number, not the low ones its name
  and its use suggest.
\<close>

theorem get_low64_is_high:
  assumes "length a = WIDTH"
  shows "unat (get_low64 a) = aval a div 2 ^ 192"
proof -
  let ?x = "a ! 6" and ?y = "a ! 7"
  have "get_low64 a = ucast ?x + push_bit 32 (ucast ?y)"
    unfolding get_low64_def
    by (simp, rule disjunctive_add [symmetric]) (auto simp: bit_push_bit_iff bit_unsigned_iff dest: bit_imp_le_length)
  then have v: "unat (get_low64 a) = unat ?x + 2 ^ 32 * unat ?y"
    using unat_u32_less [of ?x] unat_u32_less [of ?y]
    by (simp add: push_bit_eq_mult unat_word_ariths unat_ucast_up mult.commute)
  have "drop 6 a = [?x, ?y]" using assms by (intro nth_equalityI) (auto simp: less_2_cases_iff)
  then have "aval (take 6 a @ drop 6 a) = aval (take 6 a) + 2 ^ 192 * (unat ?x + 2 ^ 32 * unat ?y)"
    using assms by (simp add: aval_append)
  then have "aval a = aval (take 6 a) + 2 ^ 192 * (unat ?x + 2 ^ 32 * unat ?y)"
    by (simp only: append_take_drop_id)
  moreover have "aval (take 6 a) < 2 ^ 192" using aval_less [of "take 6 a"] assms by simp
  ultimately show ?thesis using v by simp
qed

theorem get_low64_is_high_witness: "unat (get_low64 (init_arith_uint256[0 := 5])) = 0"
  using get_low64_is_high [of "init_arith_uint256[0 := 5]"] by (simp add: aval_init_0)

end
