(* ===== verification/Sha2.thy ===== *)
theory Sha2
  imports Serialize
begin

text \<open>
  Model of the SHA-256 and SHA-512 code of \<open>src/src/sha2.c\<close> in its portable configuration (no SIMD
  kernels, rolled transforms, little-endian host): the compression functions with their circular
  16-word message schedule, the buffered \<open>_init\<close>/\<open>_write\<close>/\<open>_finalize\<close> interface, and the
  specialised double hash of 64-byte blocks.

  A context is a record; memory that the code reads both as bytes and as words is kept as bytes
  and converted with \<open>load_words\<close> and \<open>store_words\<close>, the little-endian view of a word array. The
  transform uses the context's own buffer as its schedule, so it overwrites the buffer: the model does.
\<close>

unbundle bit_operations_syntax

section \<open>Words in memory\<close>

fun load_words :: "nat \<Rightarrow> nat \<Rightarrow> bytes \<Rightarrow> 'a :: len word list" where
  "load_words k 0 bs = []"
| "load_words k (Suc n) bs = of_nat (le_val (take k bs)) # load_words k n (drop k bs)"

definition store_words :: "nat \<Rightarrow> 'a :: len word list \<Rightarrow> bytes" where
  "store_words k ws = concat (map (\<lambda>w. le_bytes k (unat w)) ws)"

definition REVERSE32 :: "u32 \<Rightarrow> u32" where
  "REVERSE32 w = (let tmp = drop_bit 16 w OR push_bit 16 w in
     drop_bit 8 (tmp AND 0xff00ff00) OR push_bit 8 (tmp AND 0x00ff00ff))"

definition REVERSE64 :: "u64 \<Rightarrow> u64" where
  "REVERSE64 w = (let tmp = drop_bit 32 w OR push_bit 32 w;
       tmp2 = drop_bit 8 (tmp AND 0xff00ff00ff00ff00) OR push_bit 8 (tmp AND 0x00ff00ff00ff00ff) in
     drop_bit 16 (tmp2 AND 0xffff0000ffff0000) OR push_bit 16 (tmp2 AND 0x0000ffff0000ffff))"

text \<open>The two 64-bit halves of a 128-bit counter, low half first.\<close>

definition ADDINC128 :: "u64 \<times> u64 \<Rightarrow> u64 \<Rightarrow> u64 \<times> u64" where
  "ADDINC128 w n = (let lo = fst w + n in (lo, if lo < n then snd w + 1 else snd w))"

section \<open>Logical functions and constants\<close>

definition S32 :: "nat \<Rightarrow> u32 \<Rightarrow> u32" where
  "S32 b x = drop_bit b x OR push_bit (32 - b) x"

definition S64 :: "nat \<Rightarrow> u64 \<Rightarrow> u64" where
  "S64 b x = drop_bit b x OR push_bit (64 - b) x"

definition hyperbolic_cosign :: "'a :: len word \<Rightarrow> 'a word \<Rightarrow> 'a word \<Rightarrow> 'a word" where
  "hyperbolic_cosign x y z = (x AND y) XOR (NOT x AND z)"

definition majority :: "'a :: len word \<Rightarrow> 'a word \<Rightarrow> 'a word \<Rightarrow> 'a word" where
  "majority x y z = (x AND y) XOR (x AND z) XOR (y AND z)"

definition Sigma0_256 :: "u32 \<Rightarrow> u32" where
  "Sigma0_256 x = S32 2 x XOR S32 13 x XOR S32 22 x"

definition Sigma1_256 :: "u32 \<Rightarrow> u32" where
  "Sigma1_256 x = S32 6 x XOR S32 11 x XOR S32 25 x"

definition sigma0_256 :: "u32 \<Rightarrow> u32" where
  "sigma0_256 x = S32 7 x XOR S32 18 x XOR drop_bit 3 x"

definition sigma1_256 :: "u32 \<Rightarrow> u32" where
  "sigma1_256 x = S32 17 x XOR S32 19 x XOR drop_bit 10 x"

definition Sigma0_512 :: "u64 \<Rightarrow> u64" where
  "Sigma0_512 x = S64 28 x XOR S64 34 x XOR S64 39 x"

definition Sigma1_512 :: "u64 \<Rightarrow> u64" where
  "Sigma1_512 x = S64 14 x XOR S64 18 x XOR S64 41 x"

definition sigma0_512 :: "u64 \<Rightarrow> u64" where
  "sigma0_512 x = S64 1 x XOR S64 8 x XOR drop_bit 7 x"

definition sigma1_512 :: "u64 \<Rightarrow> u64" where
  "sigma1_512 x = S64 19 x XOR S64 61 x XOR drop_bit 6 x"

definition K256 :: "u32 list" where
  "K256 = concat
     [[0x428a2f98, 0x71374491, 0xb5c0fbcf, 0xe9b5dba5],
      [0x3956c25b, 0x59f111f1, 0x923f82a4, 0xab1c5ed5],
      [0xd807aa98, 0x12835b01, 0x243185be, 0x550c7dc3],
      [0x72be5d74, 0x80deb1fe, 0x9bdc06a7, 0xc19bf174],
      [0xe49b69c1, 0xefbe4786, 0x0fc19dc6, 0x240ca1cc],
      [0x2de92c6f, 0x4a7484aa, 0x5cb0a9dc, 0x76f988da],
      [0x983e5152, 0xa831c66d, 0xb00327c8, 0xbf597fc7],
      [0xc6e00bf3, 0xd5a79147, 0x06ca6351, 0x14292967],
      [0x27b70a85, 0x2e1b2138, 0x4d2c6dfc, 0x53380d13],
      [0x650a7354, 0x766a0abb, 0x81c2c92e, 0x92722c85],
      [0xa2bfe8a1, 0xa81a664b, 0xc24b8b70, 0xc76c51a3],
      [0xd192e819, 0xd6990624, 0xf40e3585, 0x106aa070],
      [0x19a4c116, 0x1e376c08, 0x2748774c, 0x34b0bcb5],
      [0x391c0cb3, 0x4ed8aa4a, 0x5b9cca4f, 0x682e6ff3],
      [0x748f82ee, 0x78a5636f, 0x84c87814, 0x8cc70208],
      [0x90befffa, 0xa4506ceb, 0xbef9a3f7, 0xc67178f2]]"

definition sha256_initial_hash_value :: "u32 list" where
  "sha256_initial_hash_value = concat
     [[0x6a09e667, 0xbb67ae85, 0x3c6ef372, 0xa54ff53a],
      [0x510e527f, 0x9b05688c, 0x1f83d9ab, 0x5be0cd19]]"

definition K512 :: "u64 list" where
  "K512 = concat
     [[0x428a2f98d728ae22, 0x7137449123ef65cd],
      [0xb5c0fbcfec4d3b2f, 0xe9b5dba58189dbbc],
      [0x3956c25bf348b538, 0x59f111f1b605d019],
      [0x923f82a4af194f9b, 0xab1c5ed5da6d8118],
      [0xd807aa98a3030242, 0x12835b0145706fbe],
      [0x243185be4ee4b28c, 0x550c7dc3d5ffb4e2],
      [0x72be5d74f27b896f, 0x80deb1fe3b1696b1],
      [0x9bdc06a725c71235, 0xc19bf174cf692694],
      [0xe49b69c19ef14ad2, 0xefbe4786384f25e3],
      [0x0fc19dc68b8cd5b5, 0x240ca1cc77ac9c65],
      [0x2de92c6f592b0275, 0x4a7484aa6ea6e483],
      [0x5cb0a9dcbd41fbd4, 0x76f988da831153b5],
      [0x983e5152ee66dfab, 0xa831c66d2db43210],
      [0xb00327c898fb213f, 0xbf597fc7beef0ee4],
      [0xc6e00bf33da88fc2, 0xd5a79147930aa725],
      [0x06ca6351e003826f, 0x142929670a0e6e70],
      [0x27b70a8546d22ffc, 0x2e1b21385c26c926],
      [0x4d2c6dfc5ac42aed, 0x53380d139d95b3df],
      [0x650a73548baf63de, 0x766a0abb3c77b2a8],
      [0x81c2c92e47edaee6, 0x92722c851482353b],
      [0xa2bfe8a14cf10364, 0xa81a664bbc423001],
      [0xc24b8b70d0f89791, 0xc76c51a30654be30],
      [0xd192e819d6ef5218, 0xd69906245565a910],
      [0xf40e35855771202a, 0x106aa07032bbd1b8],
      [0x19a4c116b8d2d0c8, 0x1e376c085141ab53],
      [0x2748774cdf8eeb99, 0x34b0bcb5e19b48a8],
      [0x391c0cb3c5c95a63, 0x4ed8aa4ae3418acb],
      [0x5b9cca4f7763e373, 0x682e6ff3d6b2b8a3],
      [0x748f82ee5defb2fc, 0x78a5636f43172f60],
      [0x84c87814a1f0ab72, 0x8cc702081a6439ec],
      [0x90befffa23631e28, 0xa4506cebde82bde9],
      [0xbef9a3f7b2c67915, 0xc67178f2e372532b],
      [0xca273eceea26619c, 0xd186b8c721c0c207],
      [0xeada7dd6cde0eb1e, 0xf57d4f7fee6ed178],
      [0x06f067aa72176fba, 0x0a637dc5a2c898a6],
      [0x113f9804bef90dae, 0x1b710b35131c471b],
      [0x28db77f523047d84, 0x32caab7b40c72493],
      [0x3c9ebe0a15c9bebc, 0x431d67c49c100d4c],
      [0x4cc5d4becb3e42b6, 0x597f299cfc657e2a],
      [0x5fcb6fab3ad6faec, 0x6c44198c4a475817]]"

definition sha512_initial_hash_value :: "u64 list" where
  "sha512_initial_hash_value = concat
     [[0x6a09e667f3bcc908, 0xbb67ae8584caa73b],
      [0x3c6ef372fe94f82b, 0xa54ff53a5f1d36f1],
      [0x510e527fade682d1, 0x9b05688c2b3e6c1f],
      [0x1f83d9abfb41bd6b, 0x5be0cd19137e2179]]"

section \<open>The compression loops\<close>

text \<open>
  The two transforms run the same two loops, SHA-256 over 32-bit words and 64 rounds, SHA-512 over
  64-bit words and 80 rounds, with their own logical functions, constants and byte reversal.
  The registers \<open>a\<close> \<dots> \<open>h\<close> are a tuple, the schedule is the 16-word array.
\<close>

type_synonym 'w regs = "'w \<times> 'w \<times> 'w \<times> 'w \<times> 'w \<times> 'w \<times> 'w \<times> 'w"

definition sha2_round ::
  "('w word \<Rightarrow> 'w word) \<Rightarrow> ('w word \<Rightarrow> 'w word) \<Rightarrow> 'w word regs \<Rightarrow> 'w word \<Rightarrow> 'w :: len word \<Rightarrow> 'w word regs" where
  "sha2_round Sig0 Sig1 r k w =
     (case r of (a, b, c, d, e, f, g, h) \<Rightarrow>
        let T1 = h + Sig1 e + hyperbolic_cosign e f g + k + w;
            T2 = Sig0 a + majority a b c in
        (T1 + T2, a, b, c, d + T1, e, f, g))"

definition load_step ::
  "('w word \<Rightarrow> 'w word) \<Rightarrow> ('w word regs \<Rightarrow> 'w word \<Rightarrow> 'w word \<Rightarrow> 'w word regs) \<Rightarrow> 'w word list \<Rightarrow> 'w word list \<Rightarrow>
    'w word regs \<times> 'w :: len word list \<Rightarrow> nat \<Rightarrow> 'w word regs \<times> 'w word list" where
  "load_step rv rnd K data s j =
     (let W = (snd s)[j := rv (data ! j)] in (rnd (fst s) (K ! j) (W ! j), W))"

definition expand_step ::
  "('w word \<Rightarrow> 'w word) \<Rightarrow> ('w word \<Rightarrow> 'w word) \<Rightarrow> ('w word regs \<Rightarrow> 'w word \<Rightarrow> 'w word \<Rightarrow> 'w word regs) \<Rightarrow>
    'w word list \<Rightarrow> 'w word regs \<times> 'w :: len word list \<Rightarrow> nat \<Rightarrow> 'w word regs \<times> 'w word list" where
  "expand_step sig0 sig1 rnd K s j =
     (let W = snd s;
          s0 = sig0 (W ! ((j + 1) mod 16));
          s1 = sig1 (W ! ((j + 14) mod 16));
          W2 = W[j mod 16 := W ! (j mod 16) + (s1 + W ! ((j + 9) mod 16) + s0)] in
      (rnd (fst s) (K ! j) (W2 ! (j mod 16)), W2))"

definition regs_of :: "'w list \<Rightarrow> 'w regs" where
  "regs_of st = (st ! 0, st ! 1, st ! 2, st ! 3, st ! 4, st ! 5, st ! 6, st ! 7)"

definition add_regs :: "'w :: len word list \<Rightarrow> 'w word regs \<Rightarrow> 'w word list" where
  "add_regs st r = (case r of (a, b, c, d, e, f, g, h) \<Rightarrow>
     [st ! 0 + a, st ! 1 + b, st ! 2 + c, st ! 3 + d, st ! 4 + e, st ! 5 + f, st ! 6 + g, st ! 7 + h])"

section \<open>SHA-256\<close>

record sha256_context =
  s256_state :: "u32 list"
  s256_bitcount :: u64
  s256_buffer :: bytes

definition sha256_init :: sha256_context where
  "sha256_init = \<lparr>s256_state = sha256_initial_hash_value, s256_bitcount = 0, s256_buffer = replicate 64 0\<rparr>"

definition sha256_transform :: "sha256_context \<Rightarrow> bytes \<Rightarrow> sha256_context" where
  "sha256_transform context data =
     (let rnd = sha2_round Sigma0_256 Sigma1_256;
          s1 = foldl (load_step REVERSE32 rnd K256 (load_words 4 16 data))
                 (regs_of (s256_state context), load_words 4 16 (s256_buffer context)) [0..<16];
          s2 = foldl (expand_step sigma0_256 sigma1_256 rnd K256) s1 [16..<64] in
      context\<lparr>s256_state := add_regs (s256_state context) (fst s2), s256_buffer := store_words 4 (snd s2)\<rparr>)"

text \<open>The loop over complete blocks: the context and the bytes that are left.\<close>

function sha256_blocks :: "sha256_context \<Rightarrow> bytes \<Rightarrow> sha256_context \<times> bytes" where
  "sha256_blocks context data =
     (if length data \<ge> 64 then
        let c = sha256_transform context (take 64 data) in
        sha256_blocks (c\<lparr>s256_bitcount := s256_bitcount c + 512\<rparr>) (drop 64 data)
      else (context, data))"
  by pat_completeness auto
termination by (relation "measure (\<lambda>(c, d). length d)") auto

declare sha256_blocks.simps [simp del]

definition sha256_write_aligned :: "sha256_context \<Rightarrow> bytes \<Rightarrow> sha256_context" where
  "sha256_write_aligned context data =
     (let (c, rest) = sha256_blocks context data in
      if rest = [] then c
      else c\<lparr>s256_buffer := blit (s256_buffer c) 0 rest,
             s256_bitcount := s256_bitcount c + of_nat (length rest * 8)\<rparr>)"

definition sha256_write :: "sha256_context \<Rightarrow> bytes \<Rightarrow> sha256_context" where
  "sha256_write context data =
     (if data = [] then context
      else
        let usedspace = unat (drop_bit 3 (s256_bitcount context)) mod 64 in
        if usedspace > 0 then
          let freespace = 64 - usedspace in
          if length data \<ge> freespace then
            let c1 = context\<lparr>s256_buffer := blit (s256_buffer context) usedspace (take freespace data),
                             s256_bitcount := s256_bitcount context + of_nat (freespace * 8)\<rparr> in
            sha256_write_aligned (sha256_transform c1 (s256_buffer c1)) (drop freespace data)
          else context\<lparr>s256_buffer := blit (s256_buffer context) usedspace data,
                       s256_bitcount := s256_bitcount context + of_nat (length data * 8)\<rparr>
        else sha256_write_aligned context data)"

definition sha256_finalize :: "sha256_context \<Rightarrow> bytes" where
  "sha256_finalize context =
     (let usedspace = unat (drop_bit 3 (s256_bitcount context)) mod 64;
          bitcount = REVERSE64 (s256_bitcount context);
          buf = s256_buffer context;
          c1 = (if usedspace > 0 then
                  let buf1 = buf[usedspace := 0x80]; used1 = usedspace + 1 in
                  if used1 \<le> 56 then context\<lparr>s256_buffer := blit buf1 used1 (replicate (56 - used1) 0)\<rparr>
                  else
                    let buf2 = (if used1 < 64 then blit buf1 used1 (replicate (64 - used1) 0) else buf1);
                        c = sha256_transform (context\<lparr>s256_buffer := buf2\<rparr>) buf2 in
                    c\<lparr>s256_buffer := blit (s256_buffer c) 0 (replicate 56 0)\<rparr>
                else context\<lparr>s256_buffer := (blit buf 0 (replicate 56 0))[0 := 0x80]\<rparr>);
          c2 = c1\<lparr>s256_buffer := blit (s256_buffer c1) 56 (le_bytes 8 (unat bitcount))\<rparr>;
          c3 = sha256_transform c2 (s256_buffer c2) in
      store_words 4 (map REVERSE32 (s256_state c3)))"

definition sha256_raw :: "bytes \<Rightarrow> bytes" where
  "sha256_raw data = sha256_finalize (sha256_write sha256_init data)"

definition sha256_reset :: "sha256_context \<Rightarrow> sha256_context" where
  "sha256_reset ctx = ctx\<lparr>s256_state := sha256_initial_hash_value, s256_buffer := replicate 64 0, s256_bitcount := 0\<rparr>"

text \<open>
  The portable loop of \<open>sha256d64\<close>: two transforms for the hash of a 64-byte block, one for the hash
  of the digest, with the padding blocks written out.
\<close>

definition sha256d64_block :: "bytes \<Rightarrow> bytes" where
  "sha256d64_block input =
     (let c1 = sha256_transform sha256_init input;
          block1 = blit ((replicate 64 0)[0 := 0x80]) 56 (le_bytes 8 (unat (REVERSE64 512)));
          c2 = sha256_transform c1 block1;
          mid = store_words 4 (map REVERSE32 (s256_state c2));
          block2 = blit ((blit (replicate 64 0) 0 mid)[32 := 0x80]) 56 (le_bytes 8 (unat (REVERSE64 256)));
          c3 = sha256_transform sha256_init block2 in
      store_words 4 (map REVERSE32 (s256_state c3)))"

fun sha256d64 :: "bytes \<Rightarrow> nat \<Rightarrow> bytes" where
  "sha256d64 input 0 = []"
| "sha256d64 input (Suc blocks) = sha256d64_block (take 64 input) @ sha256d64 (drop 64 input) blocks"

definition sha256d_2_input :: "bytes \<Rightarrow> bytes \<Rightarrow> bytes" where
  "sha256d_2_input left right = sha256d64 (take 32 left @ take 32 right) 1"

text \<open>\<open>dogecoin_hash\<close> of \<open>hash.h\<close>, the double hash.\<close>

definition dogecoin_hash :: "bytes \<Rightarrow> bytes" where
  "dogecoin_hash datain = sha256_raw (sha256_raw datain)"

section \<open>SHA-512\<close>

record sha512_context =
  s512_state :: "u64 list"
  s512_bitcount :: "u64 \<times> u64"
  s512_buffer :: bytes

definition sha512_init :: sha512_context where
  "sha512_init = \<lparr>s512_state = sha512_initial_hash_value, s512_bitcount = (0, 0), s512_buffer = replicate 128 0\<rparr>"

definition sha512_transform :: "sha512_context \<Rightarrow> bytes \<Rightarrow> sha512_context" where
  "sha512_transform context data =
     (let rnd = sha2_round Sigma0_512 Sigma1_512;
          s1 = foldl (load_step REVERSE64 rnd K512 (load_words 8 16 data))
                 (regs_of (s512_state context), load_words 8 16 (s512_buffer context)) [0..<16];
          s2 = foldl (expand_step sigma0_512 sigma1_512 rnd K512) s1 [16..<80] in
      context\<lparr>s512_state := add_regs (s512_state context) (fst s2), s512_buffer := store_words 8 (snd s2)\<rparr>)"

function sha512_blocks :: "sha512_context \<Rightarrow> bytes \<Rightarrow> sha512_context \<times> bytes" where
  "sha512_blocks context data =
     (if length data \<ge> 128 then
        let c = sha512_transform context (take 128 data) in
        sha512_blocks (c\<lparr>s512_bitcount := ADDINC128 (s512_bitcount c) 1024\<rparr>) (drop 128 data)
      else (context, data))"
  by pat_completeness auto
termination by (relation "measure (\<lambda>(c, d). length d)") auto

declare sha512_blocks.simps [simp del]

definition sha512_write_aligned :: "sha512_context \<Rightarrow> bytes \<Rightarrow> sha512_context" where
  "sha512_write_aligned context data =
     (let (c, rest) = sha512_blocks context data in
      if rest = [] then c
      else c\<lparr>s512_buffer := blit (s512_buffer c) 0 rest,
             s512_bitcount := ADDINC128 (s512_bitcount c) (of_nat (length rest * 8))\<rparr>)"

definition sha512_write :: "sha512_context \<Rightarrow> bytes \<Rightarrow> sha512_context" where
  "sha512_write context data =
     (if data = [] then context
      else
        let usedspace = unat (drop_bit 3 (fst (s512_bitcount context))) mod 128 in
        if usedspace > 0 then
          let freespace = 128 - usedspace in
          if length data \<ge> freespace then
            let c1 = context\<lparr>s512_buffer := blit (s512_buffer context) usedspace (take freespace data),
                             s512_bitcount := ADDINC128 (s512_bitcount context) (of_nat (freespace * 8))\<rparr> in
            sha512_write_aligned (sha512_transform c1 (s512_buffer c1)) (drop freespace data)
          else context\<lparr>s512_buffer := blit (s512_buffer context) usedspace data,
                       s512_bitcount := ADDINC128 (s512_bitcount context) (of_nat (length data * 8))\<rparr>
        else sha512_write_aligned context data)"

definition sha512_last :: "sha512_context \<Rightarrow> sha512_context" where
  "sha512_last context =
     (let usedspace = unat (drop_bit 3 (fst (s512_bitcount context))) mod 128;
          bc0 = REVERSE64 (fst (s512_bitcount context));
          bc1 = REVERSE64 (snd (s512_bitcount context));
          buf = s512_buffer context;
          c1 = (if usedspace > 0 then
                  let buf1 = buf[usedspace := 0x80]; used1 = usedspace + 1 in
                  if used1 \<le> 112 then context\<lparr>s512_buffer := blit buf1 used1 (replicate (112 - used1) 0)\<rparr>
                  else
                    let buf2 = (if used1 < 128 then blit buf1 used1 (replicate (128 - used1) 0) else buf1);
                        c = sha512_transform (context\<lparr>s512_buffer := buf2\<rparr>) buf2 in
                    c\<lparr>s512_buffer := blit (s512_buffer c) 0 (replicate 126 0)\<rparr>
                else context\<lparr>s512_buffer := (blit buf 0 (replicate 112 0))[0 := 0x80]\<rparr>);
          buf3 = blit (blit (s512_buffer c1) 112 (le_bytes 8 (unat bc1))) 120 (le_bytes 8 (unat bc0)) in
      sha512_transform (c1\<lparr>s512_buffer := buf3, s512_bitcount := (bc0, bc1)\<rparr>) buf3)"

definition sha512_finalize :: "sha512_context \<Rightarrow> bytes" where
  "sha512_finalize context = store_words 8 (map REVERSE64 (s512_state (sha512_last context)))"

definition sha512_raw :: "bytes \<Rightarrow> bytes" where
  "sha512_raw data = sha512_finalize (sha512_write sha512_init data)"

section \<open>Reference compression\<close>

text \<open>
  The functions of FIPS 180-4: big-endian words, the message schedule as a growing list, one loop of
  rounds over it.
\<close>

fun be_words :: "nat \<Rightarrow> nat \<Rightarrow> bytes \<Rightarrow> 'a :: len word list" where
  "be_words k 0 bs = []"
| "be_words k (Suc n) bs = of_nat (le_val (rev (take k bs))) # be_words k n (drop k bs)"

definition be_bytes :: "nat \<Rightarrow> 'a :: len word list \<Rightarrow> bytes" where
  "be_bytes k ws = concat (map (\<lambda>w. rev (le_bytes k (unat w))) ws)"

definition fips_schedule ::
  "('w word \<Rightarrow> 'w word) \<Rightarrow> ('w word \<Rightarrow> 'w word) \<Rightarrow> 'w :: len word list \<Rightarrow> nat \<Rightarrow> 'w word list" where
  "fips_schedule sig0 sig1 ws n =
     foldl (\<lambda>W t. W @ [sig1 (W ! (t - 2)) + W ! (t - 7) + sig0 (W ! (t - 15)) + W ! (t - 16)]) ws [16..<n]"

definition fips_rounds ::
  "('w word regs \<Rightarrow> 'w word \<Rightarrow> 'w word \<Rightarrow> 'w word regs) \<Rightarrow> 'w word list \<Rightarrow> 'w :: len word list \<Rightarrow>
    'w word regs \<Rightarrow> nat list \<Rightarrow> 'w word regs" where
  "fips_rounds rnd K W r ts = foldl (\<lambda>r t. rnd r (K ! t) (W ! t)) r ts"

definition sha256_block :: "u32 list \<Rightarrow> bytes \<Rightarrow> u32 list" where
  "sha256_block st block =
     add_regs st (fips_rounds (sha2_round Sigma0_256 Sigma1_256) K256
       (fips_schedule sigma0_256 sigma1_256 (be_words 4 16 block) 64) (regs_of st) [0..<64])"

definition sha512_block :: "u64 list \<Rightarrow> bytes \<Rightarrow> u64 list" where
  "sha512_block st block =
     add_regs st (fips_rounds (sha2_round Sigma0_512 Sigma1_512) K512
       (fips_schedule sigma0_512 sigma1_512 (be_words 8 16 block) 80) (regs_of st) [0..<80])"

lemma length_load_words [simp]: "length (load_words k n bs) = n"
  by (induction n arbitrary: bs) auto

lemma length_be_words [simp]: "length (be_words k n bs) = n"
  by (induction n arbitrary: bs) auto

lemma length_store_words [simp]: "length (store_words k ws) = k * length ws"
  by (induction ws) (auto simp: store_words_def)

lemma fips_schedule_Suc:
  "16 \<le> n \<Longrightarrow> fips_schedule sig0 sig1 ws (Suc n) =
    (let W = fips_schedule sig0 sig1 ws n in
     W @ [sig1 (W ! (n - 2)) + W ! (n - 7) + sig0 (W ! (n - 15)) + W ! (n - 16)])"
  by (simp add: fips_schedule_def Let_def)

lemma length_fips_schedule:
  assumes "length ws = 16" "16 \<le> n"
  shows "length (fips_schedule sig0 sig1 ws n) = n"
  using assms(2)
proof (induction n rule: nat_induct_at_least)
  case base
  then show ?case using assms(1) by (simp add: fips_schedule_def)
qed (simp add: fips_schedule_Suc Let_def)

lemma fips_schedule_prefix:
  assumes "length ws = 16" "16 \<le> m" "m \<le> n" "i < m"
  shows "fips_schedule sig0 sig1 ws n ! i = fips_schedule sig0 sig1 ws m ! i"
  using assms(3)
proof (induction n rule: dec_induct)
  case (step n)
  then show ?case
    using assms length_fips_schedule [OF assms(1), of n] by (simp add: fips_schedule_Suc Let_def nth_append)
qed simp

lemma fips_rounds_cong:
  "(\<And>t. t \<in> set ts \<Longrightarrow> W ! t = W' ! t) \<Longrightarrow> fips_rounds rnd K W r ts = fips_rounds rnd K W' r ts"
  unfolding fips_rounds_def by (rule foldl_cong) auto

lemma load_loop:
  assumes "length data = 16" "length W0 = 16" "n \<le> 16"
  shows "foldl (load_step rv rnd K data) (r, W0) [0..<n] =
    (fips_rounds rnd K (map rv data) r [0..<n], map rv (take n data) @ drop n W0)"
  using assms(3)
proof (induction n)
  case (Suc n)
  have "(map rv (take n data) @ drop n W0)[n := rv (data ! n)] = map rv (take (Suc n) data) @ drop (Suc n) W0"
    using Suc.prems assms(1,2)
    by (simp add: list_update_append take_Suc_conv_app_nth Cons_nth_drop_Suc [of n W0, symmetric] min_def)
  moreover have "(map rv (take (Suc n) data) @ drop (Suc n) W0) ! n = map rv data ! n"
    using Suc.prems assms(1) by (simp add: nth_append)
  ultimately show ?case using Suc by (simp add: load_step_def Let_def fips_rounds_def)
qed (simp add: fips_rounds_def)

lemma expand_loop:
  fixes ws :: "'w :: len word list"
  assumes "length ws = 16" "16 \<le> n"
  shows "\<exists>W. foldl (expand_step sig0 sig1 rnd K) (r, ws) [16..<n] =
      (fips_rounds rnd K (fips_schedule sig0 sig1 ws n) r [16..<n], W) \<and> length W = 16 \<and>
    (\<forall>i. n - 16 \<le> i \<and> i < n \<longrightarrow> W ! (i mod 16) = fips_schedule sig0 sig1 ws n ! i)"
  using assms(2)
proof (induction n rule: nat_induct_at_least)
  case base
  show ?case using assms(1) by (simp add: fips_rounds_def fips_schedule_def)
next
  case (Suc n)
  let ?S = "fips_schedule sig0 sig1 ws"
  obtain W where W: "foldl (expand_step sig0 sig1 rnd K) (r, ws) [16..<n] = (fips_rounds rnd K (?S n) r [16..<n], W)"
    "length W = 16" "\<And>i. n - 16 \<le> i \<Longrightarrow> i < n \<Longrightarrow> W ! (i mod 16) = ?S n ! i"
    using Suc.IH by blast
  have idx: "W ! ((n + 1) mod 16) = ?S n ! (n - 15)" "W ! ((n + 14) mod 16) = ?S n ! (n - 2)"
    "W ! ((n + 9) mod 16) = ?S n ! (n - 7)" "W ! (n mod 16) = ?S n ! (n - 16)"
  proof -
    have m: "W ! (k mod 16) = ?S n ! i" if "k = i + 16" "n - 16 \<le> i" "i < n" for k i
      using W(3) [OF that(2,3)] that(1) by simp
    show "W ! ((n + 1) mod 16) = ?S n ! (n - 15)" "W ! ((n + 14) mod 16) = ?S n ! (n - 2)"
      "W ! ((n + 9) mod 16) = ?S n ! (n - 7)" "W ! (n mod 16) = ?S n ! (n - 16)"
      using Suc.hyps by (intro m; simp)+
  qed
  let ?w = "sig1 (?S n ! (n - 2)) + ?S n ! (n - 7) + sig0 (?S n ! (n - 15)) + ?S n ! (n - 16)"
  let ?W2 = "W[n mod 16 := ?w]"
  have S: "?S (Suc n) = ?S n @ [?w]" using Suc.hyps by (simp add: fips_schedule_Suc Let_def)
  have ln: "length (?S n) = n" using length_fips_schedule [OF assms(1) Suc.hyps] .
  have last: "?S (Suc n) ! n = ?w" "?W2 ! (n mod 16) = ?w" using S ln W(2) by (simp_all add: nth_append)
  have pre: "?S (Suc n) ! i = ?S n ! i" if "i < n" for i using S ln that by (simp add: nth_append)
  have "foldl (expand_step sig0 sig1 rnd K) (r, ws) [16..<Suc n] =
      expand_step sig0 sig1 rnd K (fips_rounds rnd K (?S n) r [16..<n], W) n"
    using Suc.hyps W(1) by simp
  also have "\<dots> = (rnd (fips_rounds rnd K (?S n) r [16..<n]) (K ! n) ?w, ?W2)"
  proof -
    have "?S n ! (n - 16) + (sig1 (?S n ! (n - 2)) + ?S n ! (n - 7) + sig0 (?S n ! (n - 15))) = ?w"
      by (simp only: ac_simps)
    then show ?thesis by (simp only: expand_step_def Let_def idx last(2) fst_conv snd_conv)
  qed
  also have "rnd (fips_rounds rnd K (?S n) r [16..<n]) (K ! n) ?w = fips_rounds rnd K (?S (Suc n)) r [16..<Suc n]"
    using Suc.hyps last(1) fips_rounds_cong [of "[16..<n]" "?S n" "?S (Suc n)" rnd K r] pre
    by (simp add: fips_rounds_def)
  finally have e: "foldl (expand_step sig0 sig1 rnd K) (r, ws) [16..<Suc n] =
      (fips_rounds rnd K (?S (Suc n)) r [16..<Suc n], ?W2)" .
  have "?W2 ! (i mod 16) = ?S (Suc n) ! i" if i: "Suc n - 16 \<le> i" "i < Suc n" for i
  proof (cases "i = n")
    case False
    have "i mod 16 \<noteq> n mod 16"
    proof
      assume "i mod 16 = n mod 16"
      then have "16 dvd n - i" using i(2) by (metis less_Suc_eq_le mod_eq_dvd_iff_nat)
      then show False using i False dvd_imp_le [of 16 "n - i"] by linarith
    qed
    then show ?thesis using W(3) [of i] pre [of i] i False by simp
  qed (use last in simp)
  then show ?case using e W(2) by auto
qed

text \<open>The two loops over a circular buffer compute the reference rounds over the full schedule.\<close>

lemma transform_loops:
  fixes data W0 :: "'w :: len word list"
  assumes "length data = 16" "length W0 = 16" "16 \<le> n"
  shows "\<exists>W. foldl (expand_step sig0 sig1 rnd K) (foldl (load_step rv rnd K data) (r, W0) [0..<16]) [16..<n] =
      (fips_rounds rnd K (fips_schedule sig0 sig1 (map rv data) n) r [0..<n], W) \<and> length W = 16"
proof -
  let ?S = "fips_schedule sig0 sig1 (map rv data)"
  let ?r = "fips_rounds rnd K (map rv data) r [0..<16]"
  have l: "foldl (load_step rv rnd K data) (r, W0) [0..<16] = (?r, map rv data)"
    using load_loop [OF assms(1,2), of 16] assms(1,2) by simp
  have "?r = fips_rounds rnd K (?S n) r [0..<16]"
    using fips_schedule_prefix [of "map rv data" 16 n] assms
    by (intro fips_rounds_cong) (auto simp: fips_schedule_def)
  moreover have "[0..<n] = [0..<16] @ [16..<n]" using assms(3) upt_add_eq_append [of 0 16 "n - 16"] by simp
  ultimately have "fips_rounds rnd K (?S n) ?r [16..<n] = fips_rounds rnd K (?S n) r [0..<n]"
    by (simp add: fips_rounds_def)
  moreover have "length (map rv data) = 16" using assms(1) by simp
  ultimately show ?thesis using l expand_loop [of "map rv data" n sig0 sig1 rnd K ?r] assms(3) by auto
qed

section \<open>Byte order\<close>

lemma bit_le_bytes: "i < n \<Longrightarrow> m < 8 \<Longrightarrow> bit (le_bytes n v ! i) m \<longleftrightarrow> bit v (8 * i + m)"
proof (induction i arbitrary: n v)
  case 0
  then show ?case by (cases n) (auto simp: bit_of_nat_iff)
next
  case (Suc i)
  then obtain k where n: "n = Suc k" by (cases n) auto
  have "v div 256 = drop_bit 8 v" by (simp add: drop_bit_eq_div)
  then show ?case using Suc by (simp add: n bit_drop_bit_eq add.assoc)
qed

lemma bytes_eqI:
  fixes xs ys :: bytes
  assumes "length xs = length ys"
    and "\<And>i m. i < length xs \<Longrightarrow> m < 8 \<Longrightarrow> bit (xs ! i) m \<longleftrightarrow> bit (ys ! i) m"
  shows "xs = ys"
  using assms by (intro nth_equalityI bit_word_eqI) auto

lemma upt_first: "2 < n \<Longrightarrow> [0..<n] = 0 # 1 # [2..<n]"
  by (metis One_nat_def Suc_1 less_2_cases_iff less_trans upt_conv_Cons zero_less_Suc)

lemmas reverse_bits = bit_or_iff bit_and_iff bit_drop_bit_eq bit_push_bit_iff

lemma bit_beyond: "LENGTH('a) \<le> k \<Longrightarrow> \<not> bit (w :: 'a :: len word) k"
  by (meson bit_imp_le_length not_le)

lemma bit_REVERSE32: "list_all (\<lambda>n. bit (REVERSE32 w) n \<longleftrightarrow> bit w (8 * (3 - n div 8) + n mod 8)) [0..<32]"
  by (simp add: REVERSE32_def Let_def reverse_bits upt_first bit_beyond)
    (simp add: numeral_2_eq_2)

lemma bit_REVERSE64: "list_all (\<lambda>n. bit (REVERSE64 w) n \<longleftrightarrow> bit w (8 * (7 - n div 8) + n mod 8)) [0..<64]"
  by (simp add: REVERSE64_def Let_def reverse_bits upt_first bit_beyond)
    (simp add: numeral_2_eq_2)

lemma le_bytes_reversed:
  fixes v w :: "'a :: len word"
  assumes "list_all (\<lambda>n. bit v n \<longleftrightarrow> bit w (8 * (k - n div 8) + n mod 8)) [0..<N]" "N = 8 * K" "K = Suc k"
  shows "le_bytes K (unat v) = rev (le_bytes K (unat w))"
proof (rule bytes_eqI)
  fix i m :: nat
  assume "i < length (le_bytes K (unat v))" and m: "m < 8"
  then have i: "i < Suc k" using assms(3) by simp
  have b: "bit v (8 * i + m) \<longleftrightarrow> bit w (8 * (k - i) + m)"
    using assms i m by (auto simp: list_all_iff dest: bspec [of _ _ "8 * i + m"])
  have "rev (le_bytes K (unat w)) ! i = le_bytes K (unat w) ! (k - i)"
    using i assms(3) by (subst rev_nth) simp_all
  moreover have "bit (le_bytes K (unat v) ! i) m \<longleftrightarrow> bit v (8 * i + m)"
    using i m assms(3) bit_le_bytes [of i K m "unat v"] by (simp add: bit_unsigned_iff)
  moreover have "bit (le_bytes K (unat w) ! (k - i)) m \<longleftrightarrow> bit w (8 * (k - i) + m)"
    using i m assms(3) bit_le_bytes [of "k - i" K m "unat w"] by (simp add: bit_unsigned_iff)
  ultimately show "bit (le_bytes K (unat v) ! i) m \<longleftrightarrow> bit (rev (le_bytes K (unat w)) ! i) m"
    using b by simp
qed simp

lemma le_bytes_REVERSE32: "le_bytes 4 (unat (REVERSE32 w)) = rev (le_bytes 4 (unat w))"
  by (rule le_bytes_reversed [OF bit_REVERSE32]) simp_all

lemma le_bytes_REVERSE64: "le_bytes 8 (unat (REVERSE64 w)) = rev (le_bytes 8 (unat w))"
  by (rule le_bytes_reversed [OF bit_REVERSE64]) simp_all

lemma reverse_load:
  fixes rv :: "'a :: len word \<Rightarrow> 'a word"
  assumes rv: "\<And>w. le_bytes k (unat (rv w)) = rev (le_bytes k (unat w))"
    and "LENGTH('a) = 8 * k" "length bs = k"
  shows "rv (of_nat (le_val bs)) = of_nat (le_val (rev bs))"
proof -
  have p: "(256 :: nat) ^ k = 2 ^ LENGTH('a)" by (simp add: assms(2) power_mult)
  have u: "unat (of_nat (le_val xs) :: 'a word) = le_val xs" if "length xs = k" for xs
    using le_val_less [of xs] that p by (simp add: unat_of_nat)
  have "unat x < 256 ^ k" for x :: "'a word" unfolding p by (rule unsigned_less)
  then have "unat (rv (of_nat (le_val bs))) = le_val (le_bytes k (unat (rv (of_nat (le_val bs)))))"
    by (simp add: le_val_le_bytes)
  also have "\<dots> = le_val (rev bs)" by (simp add: rv u assms(3) le_bytes_le_val)
  finally show ?thesis by (simp add: word_unat_eq_iff u assms(3))
qed

lemma reverse_load_words:
  fixes rv :: "'a :: len word \<Rightarrow> 'a word"
  assumes "\<And>w. le_bytes k (unat (rv w)) = rev (le_bytes k (unat w))" "LENGTH('a) = 8 * k"
  shows "length bs = k * n \<Longrightarrow> map rv (load_words k n bs) = be_words k n bs"
  by (induction n arbitrary: bs) (auto simp: reverse_load [OF assms])

lemma reverse_store_words:
  assumes "\<And>w. le_bytes k (unat (rv w)) = rev (le_bytes k (unat w))"
  shows "store_words k (map rv ws) = be_bytes k ws"
  by (simp add: store_words_def be_bytes_def assms comp_def)

section \<open>The transforms\<close>

lemma sha256_transform_fips:
  assumes "length data = 64"
  shows "s256_state (sha256_transform c data) = sha256_block (s256_state c) data"
    and "s256_bitcount (sha256_transform c data) = s256_bitcount c"
    and "length (s256_buffer (sha256_transform c data)) = 64"
proof -
  have d: "map REVERSE32 (load_words 4 16 data) = be_words 4 16 data"
    using assms by (intro reverse_load_words [OF le_bytes_REVERSE32]) auto
  obtain W where "foldl (expand_step sigma0_256 sigma1_256 (sha2_round Sigma0_256 Sigma1_256) K256)
      (foldl (load_step REVERSE32 (sha2_round Sigma0_256 Sigma1_256) K256 (load_words 4 16 data))
        (regs_of (s256_state c), load_words 4 16 (s256_buffer c)) [0..<16]) [16..<64] =
      (fips_rounds (sha2_round Sigma0_256 Sigma1_256) K256
        (fips_schedule sigma0_256 sigma1_256 (be_words 4 16 data) 64) (regs_of (s256_state c)) [0..<64], W)"
    "length W = 16"
    using transform_loops [of "load_words 4 16 data :: u32 list" "load_words 4 16 (s256_buffer c) :: u32 list" 64
        sigma0_256 sigma1_256 "sha2_round Sigma0_256 Sigma1_256" K256 REVERSE32 "regs_of (s256_state c)"]
    unfolding d by auto
  then show "s256_state (sha256_transform c data) = sha256_block (s256_state c) data"
    "s256_bitcount (sha256_transform c data) = s256_bitcount c"
    "length (s256_buffer (sha256_transform c data)) = 64"
    by (simp_all only: sha256_transform_def Let_def) (simp_all add: sha256_block_def)
qed

lemma sha512_transform_fips:
  assumes "length data = 128"
  shows "s512_state (sha512_transform c data) = sha512_block (s512_state c) data"
    and "s512_bitcount (sha512_transform c data) = s512_bitcount c"
    and "length (s512_buffer (sha512_transform c data)) = 128"
proof -
  have d: "map REVERSE64 (load_words 8 16 data) = be_words 8 16 data"
    using assms by (intro reverse_load_words [OF le_bytes_REVERSE64]) auto
  obtain W where "foldl (expand_step sigma0_512 sigma1_512 (sha2_round Sigma0_512 Sigma1_512) K512)
      (foldl (load_step REVERSE64 (sha2_round Sigma0_512 Sigma1_512) K512 (load_words 8 16 data))
        (regs_of (s512_state c), load_words 8 16 (s512_buffer c)) [0..<16]) [16..<80] =
      (fips_rounds (sha2_round Sigma0_512 Sigma1_512) K512
        (fips_schedule sigma0_512 sigma1_512 (be_words 8 16 data) 80) (regs_of (s512_state c)) [0..<80], W)"
    "length W = 16"
    using transform_loops [of "load_words 8 16 data :: u64 list" "load_words 8 16 (s512_buffer c) :: u64 list" 80
        sigma0_512 sigma1_512 "sha2_round Sigma0_512 Sigma1_512" K512 REVERSE64 "regs_of (s512_state c)"]
    unfolding d by auto
  then show "s512_state (sha512_transform c data) = sha512_block (s512_state c) data"
    "s512_bitcount (sha512_transform c data) = s512_bitcount c"
    "length (s512_buffer (sha512_transform c data)) = 128"
    by (simp_all only: sha512_transform_def Let_def) (simp_all add: sha512_block_def)
qed

section \<open>Absorbing a message block by block\<close>

function absorb :: "nat \<Rightarrow> ('s \<Rightarrow> bytes \<Rightarrow> 's) \<Rightarrow> 's \<Rightarrow> bytes \<Rightarrow> 's \<times> bytes" where
  "absorb B f s m = (if 0 < B \<and> B \<le> length m then absorb B f (f s (take B m)) (drop B m) else (s, m))"
  by pat_completeness auto
termination by (relation "measure (\<lambda>(B, f, s, m). length m)") auto

declare absorb.simps [simp del]

lemma absorb_short: "length m < B \<Longrightarrow> absorb B f s m = (s, m)"
  by (simp add: absorb.simps)

lemma absorb_block: "0 < B \<Longrightarrow> length b = B \<Longrightarrow> absorb B f s (b @ m) = absorb B f (f s b) m"
  by (subst absorb.simps) simp

lemma absorb_one: "0 < B \<Longrightarrow> length b = B \<Longrightarrow> absorb B f s b = (f s b, [])"
  using absorb_block [of B b f s "[]"] by (simp add: absorb_short)

lemma absorb_append:
  assumes "0 < B"
  shows "absorb B f s (m @ d) = (case absorb B f s m of (t, r) \<Rightarrow> absorb B f t (r @ d))"
proof (induction B f s m rule: absorb.induct)
  case (1 B f s m)
  show ?case
  proof (cases "0 < B \<and> B \<le> length m")
    case True
    have "absorb B f s (m @ d) = absorb B f (f s (take B m)) (drop B m @ d)"
      using True absorb_block [of B "take B m" f s "drop B m @ d"] by (simp flip: append_assoc)
    also have "\<dots> = (case absorb B f (f s (take B m)) (drop B m) of (t, r) \<Rightarrow> absorb B f t (r @ d))"
      by (rule "1.IH" [OF True])
    finally show ?thesis using True by (simp add: absorb.simps [of B f s m])
  qed (auto simp: absorb.simps [of B f s m])
qed

lemma absorb_extend: "absorb B f s m = (t, r) \<Longrightarrow> 0 < B \<Longrightarrow> absorb B f s (m @ d) = absorb B f t (r @ d)"
  using absorb_append [of B f s m d] by simp

lemma absorb_rest: "0 < B \<Longrightarrow> length (snd (absorb B f s m)) = length m mod B"
  by (induction B f s m rule: absorb.induct) (subst absorb.simps, auto simp: le_mod_geq)

text \<open>Merkle-Damg{\aa}rd padding: a one bit, zeros, and the length field.\<close>

definition md_pad :: "nat \<Rightarrow> bytes \<Rightarrow> bytes \<Rightarrow> bytes" where
  "md_pad B len m =
     m @ 0x80 # replicate ((2 * B - 1 - length len - length m mod B) mod B) 0 @ len"

lemma absorb_pad:
  assumes "absorb B f s m = (t, r)" "length len < B"
  shows "absorb B f s (md_pad B len m) =
    (if length r + 1 \<le> B - length len
     then f t (r @ 0x80 # replicate (B - length len - 1 - length r) 0 @ len)
     else f (f t (r @ 0x80 # replicate (B - 1 - length r) 0)) (replicate (B - length len) 0 @ len), [])"
proof -
  have B: "0 < B" using assms(2) by simp
  have r: "length r = length m mod B" using absorb_rest [OF B, of f s m] assms(1) by simp
  then have rB: "length r < B" using B by simp
  let ?z = "2 * B - 1 - length len - length r"
  have e: "absorb B f s (md_pad B len m) = absorb B f t (r @ 0x80 # replicate (?z mod B) 0 @ len)"
    using absorb_append [OF B, of f s m] assms(1) r by (simp add: md_pad_def)
  show ?thesis
  proof (cases "length r + 1 \<le> B - length len")
    case True
    have "?z = (B - length len - 1 - length r) + B" using True by simp
    then have "?z mod B = (B - length len - 1 - length r) mod B" by (metis mod_add_self2)
    then have "?z mod B = B - length len - 1 - length r" using B by simp
    then show ?thesis unfolding e using True B absorb_one [of B "r @ 0x80 # replicate (B - length len - 1 - length r) 0 @ len" f t]
      by simp
  next
    case False
    then have "?z mod B = (B - 1 - length r) + (B - length len)" using rB assms(2) by simp
    then have "r @ 0x80 # replicate (?z mod B) 0 @ len =
        (r @ 0x80 # replicate (B - 1 - length r) 0) @ (replicate (B - length len) 0 @ len)"
      by (simp add: replicate_add)
    then show ?thesis unfolding e
      using False B rB assms(2) absorb_block [of B "r @ 0x80 # replicate (B - 1 - length r) 0" f t]
        absorb_one [of B "replicate (B - length len) 0 @ len"]
      by simp
  qed
qed

section \<open>SHA-256 contexts\<close>

definition sha256_spec :: "bytes \<Rightarrow> bytes" where
  "sha256_spec m = be_bytes 4 (fst (absorb 64 sha256_block sha256_initial_hash_value
     (md_pad 64 (rev (le_bytes 8 (8 * length m))) m)))"

text \<open>The context that has absorbed the message \<open>m\<close>.\<close>

definition repr256 :: "sha256_context \<Rightarrow> bytes \<Rightarrow> bool" where
  "repr256 c m \<longleftrightarrow> length (s256_buffer c) = 64 \<and> s256_bitcount c = of_nat (8 * length m) \<and>
     absorb 64 sha256_block sha256_initial_hash_value m = (s256_state c, take (length m mod 64) (s256_buffer c))"

lemma mod_add_0: "a mod n = 0 \<Longrightarrow> (a + b) mod n = b mod n" for a b n :: nat
  by (metis add_0 mod_add_left_eq)

lemma fill_mod: "0 < n \<Longrightarrow> (a + (n - a mod n)) mod n = 0" for a n :: nat
proof -
  assume "0 < n"
  then have "a + (n - a mod n) = n * (a div n) + n"
    using mult_div_mod_eq [of n a] mod_less_divisor [of n a] by linarith
  then show ?thesis by simp
qed

lemma bytecount: "unat (drop_bit 3 (of_nat (8 * n) :: u64)) mod 2 ^ k = n mod 2 ^ k" if "k \<le> 61"
proof -
  have "unat (drop_bit 3 (of_nat (8 * n) :: u64)) = (8 * n) mod 2 ^ 64 div 8"
    by (simp add: drop_bit_eq_div unat_div unat_of_nat del: of_nat_mult)
  also have "\<dots> = n mod 2 ^ 61" using mod_mult_mult1 [of 8 n "2 ^ 61 :: nat"] by simp
  finally show ?thesis using that by (metis mod_mod_cancel le_imp_power_dvd)
qed

lemma used256: "repr256 c m \<Longrightarrow> unat (drop_bit 3 (s256_bitcount c)) mod 64 = length m mod 64"
  using bytecount [of 6 "length m"] by (simp add: repr256_def)

lemma sha256_blocks_absorb:
  "length (s256_buffer c) = 64 \<Longrightarrow>
    \<exists>c' rest. sha256_blocks c data = (c', rest) \<and> absorb 64 sha256_block (s256_state c) data = (s256_state c', rest) \<and>
      s256_bitcount c' = s256_bitcount c + of_nat (8 * (length data - length rest)) \<and>
      length rest \<le> length data \<and> length (s256_buffer c') = 64"
proof (induction c data rule: sha256_blocks.induct)
  case (1 c data)
  show ?case
  proof (cases "64 \<le> length data")
    case True
    define c1 where "c1 = sha256_transform c (take 64 data)"
    define c2 where "c2 = c1\<lparr>s256_bitcount := s256_bitcount c1 + 512\<rparr>"
    have l: "length (take 64 data) = 64" using True by simp
    note tr = sha256_transform_fips [OF l, of c, folded c1_def]
    have "length (s256_buffer c2) = 64" using tr by (simp add: c2_def)
    from "1.IH" [OF True c1_def] this obtain c' rest where ih: "sha256_blocks c2 (drop 64 data) = (c', rest)"
      "absorb 64 sha256_block (s256_state c2) (drop 64 data) = (s256_state c', rest)"
      "s256_bitcount c' = s256_bitcount c2 + of_nat (8 * (length (drop 64 data) - length rest))"
      "length rest \<le> length (drop 64 data)" "length (s256_buffer c') = 64"
      unfolding c2_def by blast
    have "sha256_blocks c data = (c', rest)"
      using True ih(1) by (subst sha256_blocks.simps) (simp add: Let_def c1_def c2_def)
    moreover have "absorb 64 sha256_block (s256_state c) data = (s256_state c', rest)"
      using ih(2) True tr(1) by (subst absorb.simps) (simp add: c2_def)
    moreover have "8 * (length data - length rest) = 512 + 8 * (length (drop 64 data) - length rest)"
      using True ih(4) by simp
    ultimately show ?thesis using ih(3,4,5) tr(2) by (simp add: c2_def)
  next
    case False
    then show ?thesis using 1 by (simp add: sha256_blocks.simps [of c data] absorb_short)
  qed
qed

lemma sha256_write_aligned_repr:
  assumes "repr256 c m" "length m mod 64 = 0"
  shows "repr256 (sha256_write_aligned c d) (m @ d)"
proof -
  obtain c' rest where b: "sha256_blocks c d = (c', rest)" "absorb 64 sha256_block (s256_state c) d = (s256_state c', rest)"
    "s256_bitcount c' = s256_bitcount c + of_nat (8 * (length d - length rest))" "length rest \<le> length d"
    "length (s256_buffer c') = 64"
    using sha256_blocks_absorb [of c d] assms(1) by (auto simp: repr256_def)
  have rest: "length rest = length d mod 64" using absorb_rest [of 64 sha256_block "s256_state c" d] b(2) by simp
  moreover have "absorb 64 sha256_block sha256_initial_hash_value (m @ d) = (s256_state c', rest)"
    using assms b(2) absorb_extend [of 64 sha256_block sha256_initial_hash_value m] by (simp add: repr256_def)
  moreover have "(length m + length d) mod 64 = length d mod 64" using assms(2) by (rule mod_add_0)
  moreover have "s256_bitcount c' + of_nat (8 * length rest) = of_nat (8 * length (m @ d))"
    using assms(1) b(3,4) by (simp add: repr256_def of_nat_diff algebra_simps)
  moreover have "length rest < 64" using rest by simp
  ultimately show ?thesis using b(1,5)
    by (auto simp: repr256_def sha256_write_aligned_def take_blit mult.commute simp del: of_nat_mult of_nat_add)
qed

lemma sha256_write_repr:
  assumes "repr256 c m"
  shows "repr256 (sha256_write c d) (m @ d)"
proof (cases "d = [] \<or> length m mod 64 = 0")
  case True
  then show ?thesis using assms used256 [OF assms] sha256_write_aligned_repr [OF assms]
    by (auto simp: sha256_write_def Let_def)
next
  case False
  define u where "u = length m mod 64"
  have u: "0 < u" "u < 64" using False by (simp_all add: u_def)
  have c: "length (s256_buffer c) = 64" "s256_bitcount c = of_nat (8 * length m)"
    "absorb 64 sha256_block sha256_initial_hash_value m = (s256_state c, take u (s256_buffer c))"
    using assms by (simp_all add: repr256_def u_def)
  show ?thesis
  proof (cases "64 - u \<le> length d")
    case True
    define x where "x = take (64 - u) d"
    define c1 where "c1 = c\<lparr>s256_buffer := blit (s256_buffer c) u x,
      s256_bitcount := s256_bitcount c + of_nat ((64 - u) * 8)\<rparr>"
    have lx: "length x = 64 - u" using True by (simp add: x_def)
    have buf: "s256_buffer c1 = take u (s256_buffer c) @ x" "length (s256_buffer c1) = 64"
      using u c(1) lx by (simp_all add: c1_def blit_def)
    have w: "sha256_write c d = sha256_write_aligned (sha256_transform c1 (s256_buffer c1)) (drop (64 - u) d)"
      using False True used256 [OF assms] by (simp add: sha256_write_def Let_def u_def [symmetric] x_def c1_def)
    have "absorb 64 sha256_block sha256_initial_hash_value (m @ x) = (sha256_block (s256_state c) (s256_buffer c1), [])"
      using absorb_extend [OF c(3), of x] u lx buf by (simp add: absorb_one)
    moreover have "(length m + (64 - u)) mod 64 = 0" unfolding u_def by (rule fill_mod) simp
    ultimately have "repr256 (sha256_transform c1 (s256_buffer c1)) (m @ x)" "length (m @ x) mod 64 = 0"
      using sha256_transform_fips [OF buf(2), of c1] c(2) lx by (simp_all add: repr256_def c1_def algebra_simps)
    from sha256_write_aligned_repr [OF this, of "drop (64 - u) d"] show ?thesis by (simp add: w x_def)
  next
    case short: False
    have "sha256_write c d = c\<lparr>s256_buffer := blit (s256_buffer c) u d,
        s256_bitcount := s256_bitcount c + of_nat (length d * 8)\<rparr>"
      using False short used256 [OF assms] by (simp add: sha256_write_def Let_def u_def)
    moreover have "absorb 64 sha256_block sha256_initial_hash_value (m @ d) = (s256_state c, take u (s256_buffer c) @ d)"
      using absorb_extend [OF c(3), of d] c(1) u short by (simp add: absorb_short)
    moreover have "(length m + length d) mod 64 = u + length d"
    proof -
      have "(length m + length d) mod 64 = (u + length d) mod 64" by (simp add: u_def mod_add_left_eq)
      then show ?thesis using short u by simp
    qed
    ultimately show ?thesis using c u short
      by (simp add: repr256_def take_blit algebra_simps)
  qed
qed

lemma le_bytes_mod: "le_bytes n (k mod 256 ^ n) = le_bytes n k"
  by (metis le_bytes_le_val le_val_le_bytes length_le_bytes)

lemma length_field: "le_bytes 8 (unat (REVERSE64 (of_nat k))) = rev (le_bytes 8 k)"
proof -
  have "unat (of_nat k :: u64) = k mod 256 ^ 8" by (simp add: unat_of_nat)
  then show ?thesis by (metis le_bytes_REVERSE64 le_bytes_mod)
qed

lemma blit_pad:
  assumes "u + 1 + n \<le> length buf"
  shows "blit (buf[u := x]) (u + 1) (replicate n 0) = take u buf @ x # replicate n 0 @ drop (u + 1 + n) buf"
  using assms blit_Cons [of u buf x "replicate n 0"] by (simp add: blit_def)

lemma blit_tail:
  "length a = p \<Longrightarrow> length (a @ b) = p + length x \<Longrightarrow> blit (a @ b) p x = a @ x"
  by (simp add: blit_def)

text \<open>The three ways the last block is prepared: the field goes at the end, after the padding byte and zeros.\<close>

lemma pad_fits:
  assumes "length buf = B" "length len = L" "u + 1 \<le> B - L" "L < B"
  shows "blit (blit (buf[u := 0x80]) (u + 1) (replicate (B - L - (u + 1)) 0)) (B - L) len =
    take u buf @ 0x80 # replicate (B - L - 1 - u) 0 @ len"
  using assms blit_pad [of u "B - L - (u + 1)" buf "0x80"]
    blit_tail [of "take u buf @ 0x80 # replicate (B - L - (u + 1)) 0" "B - L" "drop (B - L) buf" len]
    Suc_diff_Suc [OF assms(4)]
  by simp

lemma pad_full:
  assumes "length buf = B" "u < B"
  shows "(if u + 1 < B then blit (buf[u := 0x80]) (u + 1) (replicate (B - (u + 1)) 0) else buf[u := 0x80]) =
    take u buf @ 0x80 # replicate (B - 1 - u) 0"
proof (cases "u + 1 < B")
  case True
  then show ?thesis using blit_pad [of u "B - (u + 1)" buf "0x80"] assms by simp
next
  case False
  then have "B = Suc u" using assms(2) by simp
  then show ?thesis using assms by (simp add: upd_conv_take_nth_drop)
qed

lemma pad_empty:
  assumes "length buf = B" "length len = L" "L < B"
  shows "blit ((blit buf 0 (replicate (B - L) 0))[0 := 0x80]) (B - L) len = 0x80 # replicate (B - L - 1) 0 @ len"
proof -
  obtain n where n: "B - L = Suc n" using assms(3) by (metis Suc_diff_Suc)
  have "(blit buf 0 (replicate (B - L) 0))[0 := 0x80] = (0x80 # replicate n 0) @ drop (B - L) buf"
    by (simp add: n blit_def)
  then show ?thesis using blit_tail [of "0x80 # replicate n 0" "B - L" "drop (B - L) buf" len] assms n by simp
qed

lemma digest256: "store_words 4 (map REVERSE32 ws) = be_bytes 4 ws"
  by (rule reverse_store_words [OF le_bytes_REVERSE32])

lemma sha256_finalize_repr:
  assumes "repr256 c m"
  shows "sha256_finalize c = sha256_spec m"
proof -
  define u where "u = length m mod 64"
  define len where "len = rev (le_bytes 8 (8 * length m))"
  have u: "u < 64" by (simp add: u_def)
  have c: "length (s256_buffer c) = 64" "s256_bitcount c = of_nat (8 * length m)"
    "absorb 64 sha256_block sha256_initial_hash_value m = (s256_state c, take u (s256_buffer c))"
    using assms by (simp_all add: repr256_def u_def)
  have bc: "le_bytes 8 (unat (REVERSE64 (s256_bitcount c))) = len"
    unfolding c(2) len_def by (rule length_field)
  have len: "length len = 8" by (simp add: len_def)
  have used: "unat (drop_bit 3 (s256_bitcount c)) mod 64 = u" using used256 [OF assms] by (simp add: u_def)
  have spec: "sha256_spec m = be_bytes 4 (if u + 1 \<le> 56
      then sha256_block (s256_state c) (take u (s256_buffer c) @ 0x80 # replicate (55 - u) 0 @ len)
      else sha256_block (sha256_block (s256_state c) (take u (s256_buffer c) @ 0x80 # replicate (63 - u) 0)) (replicate 56 0 @ len))"
    using absorb_pad [OF c(3), of len] len u c(1) unfolding sha256_spec_def len_def [symmetric] by simp
  consider "u = 0" | "0 < u" "u + 1 \<le> 56" | "56 < u + 1" by linarith
  then show ?thesis
  proof cases
    case 1
    have "sha256_finalize c = be_bytes 4 (sha256_block (s256_state c) (0x80 # replicate 55 0 @ len))"
      using pad_empty [OF c(1) len] 1 sha256_transform_fips(1) [of "0x80 # replicate 55 0 @ len"] len
      by (simp add: sha256_finalize_def Let_def used bc digest256)
    then show ?thesis using 1 by (simp add: spec)
  next
    case 2
    let ?b = "take u (s256_buffer c) @ 0x80 # replicate (55 - u) 0 @ len"
    have "length ?b = 64" using 2 c(1) len by simp
    then have "sha256_finalize c = be_bytes 4 (sha256_block (s256_state c) ?b)"
      using pad_fits [OF c(1) len, of u] 2 sha256_transform_fips(1) [of ?b]
      by (simp add: sha256_finalize_def Let_def used bc digest256)
    then show ?thesis using 2 by (simp add: spec)
  next
    case 3
    let ?b = "take u (s256_buffer c) @ 0x80 # replicate (63 - u) 0"
    define c1 where "c1 = sha256_transform (c\<lparr>s256_buffer := ?b\<rparr>) ?b"
    have b: "length ?b = 64" using u c(1) by simp
    note t1 = sha256_transform_fips [OF b, of "c\<lparr>s256_buffer := ?b\<rparr>", folded c1_def]
    have z: "blit (blit (s256_buffer c1) 0 (replicate 56 0)) 56 len = replicate 56 0 @ len"
      using t1(3) len by (simp add: blit_def)
    have "sha256_finalize c = be_bytes 4 (sha256_block (s256_state c1) (replicate 56 0 @ len))"
      unfolding sha256_finalize_def Let_def used bc pad_full [OF c(1) u]
      using 3 sha256_transform_fips(1) [of "replicate 56 0 @ len"] len z by (simp add: digest256 c1_def)
    then show ?thesis using 3 t1(1) by (simp add: spec)
  qed
qed

lemma sha256_init_repr: "repr256 sha256_init []"
  by (simp add: repr256_def sha256_init_def absorb_short)

section \<open>SHA-512 contexts\<close>

lemma le_bytes_append: "le_bytes (a + b) k = le_bytes a k @ le_bytes b (k div 256 ^ a)"
  by (induction a arbitrary: k) (simp_all add: div_mult2_eq)

lemma length_field128:
  "le_bytes 8 (unat (REVERSE64 (of_nat (k div 2 ^ 64)))) @ le_bytes 8 (unat (REVERSE64 (of_nat k))) =
    rev (le_bytes 16 k)"
  using le_bytes_append [of 8 8 k] unfolding length_field by simp

definition sha512_spec :: "bytes \<Rightarrow> bytes" where
  "sha512_spec m = be_bytes 8 (fst (absorb 128 sha512_block sha512_initial_hash_value
     (md_pad 128 (rev (le_bytes 16 (8 * length m))) m)))"

text \<open>The 128-bit counter of \<open>k\<close> bits, low half first.\<close>

definition bits128 :: "nat \<Rightarrow> u64 \<times> u64" where
  "bits128 k = (of_nat k, of_nat (k div 2 ^ 64))"

definition repr512 :: "sha512_context \<Rightarrow> bytes \<Rightarrow> bool" where
  "repr512 c m \<longleftrightarrow> length (s512_buffer c) = 128 \<and> s512_bitcount c = bits128 (8 * length m) \<and>
     absorb 128 sha512_block sha512_initial_hash_value m = (s512_state c, take (length m mod 128) (s512_buffer c))"

lemma used512: "repr512 c m \<Longrightarrow> unat (drop_bit 3 (fst (s512_bitcount c))) mod 128 = length m mod 128"
  using bytecount [of 7 "length m"] by (simp add: repr512_def bits128_def)

lemma add_carry:
  fixes k n M :: nat
  assumes "0 < M" "n < M"
  shows "(k + n) div M = k div M + of_bool ((k + n) mod M < n)"
proof -
  obtain r where r: "k mod M = r" "r < M" using assms(1) by simp
  have "(k + n) div M = k div M + (r + n) div M" using assms div_add1_eq [of k n M] r by simp
  moreover have "(k + n) mod M = (r + n) mod M" unfolding r(1) [symmetric] by (simp add: mod_add_left_eq)
  ultimately show ?thesis
    using assms r(2) by (cases "r + n < M") (simp_all add: le_mod_geq le_div_geq)
qed

lemma ADDINC128_bits:
  assumes "n < 2 ^ 64"
  shows "ADDINC128 (bits128 k) (of_nat n) = bits128 (k + n)"
proof -
  let ?M = "2 ^ 64 :: nat"
  have un: "unat (of_nat n :: u64) = n" using assms by (simp add: unat_of_nat)
  have us: "unat (of_nat k + of_nat n :: u64) = (k + n) mod ?M"
    by (simp add: unat_of_nat flip: of_nat_add)
  have "(k + n) div ?M = k div ?M + of_bool ((k + n) mod ?M < n)" using assms by (intro add_carry) simp_all
  then show ?thesis
    by (auto simp: ADDINC128_def bits128_def Let_def word_less_nat_alt un us)
qed

lemma sha512_blocks_absorb:
  "length (s512_buffer c) = 128 \<Longrightarrow> s512_bitcount c = bits128 k \<Longrightarrow>
    \<exists>c' rest. sha512_blocks c data = (c', rest) \<and> absorb 128 sha512_block (s512_state c) data = (s512_state c', rest) \<and>
      s512_bitcount c' = bits128 (k + 8 * (length data - length rest)) \<and>
      length rest \<le> length data \<and> length (s512_buffer c') = 128"
proof (induction c data arbitrary: k rule: sha512_blocks.induct)
  case (1 c data)
  show ?case
  proof (cases "128 \<le> length data")
    case True
    define c1 where "c1 = sha512_transform c (take 128 data)"
    define c2 where "c2 = c1\<lparr>s512_bitcount := ADDINC128 (s512_bitcount c1) 1024\<rparr>"
    have l: "length (take 128 data) = 128" using True by simp
    note tr = sha512_transform_fips [OF l, of c, folded c1_def]
    have "length (s512_buffer c2) = 128" "s512_bitcount c2 = bits128 (k + 1024)"
      using tr "1.prems"(2) ADDINC128_bits [of 1024 k] by (simp_all add: c2_def)
    from "1.IH" [OF True c1_def, folded c2_def, OF this] obtain c' rest where ih: "sha512_blocks c2 (drop 128 data) = (c', rest)"
      "absorb 128 sha512_block (s512_state c2) (drop 128 data) = (s512_state c', rest)"
      "s512_bitcount c' = bits128 (k + 1024 + 8 * (length (drop 128 data) - length rest))"
      "length rest \<le> length (drop 128 data)" "length (s512_buffer c') = 128"
      by blast
    have "sha512_blocks c data = (c', rest)"
      using True ih(1) by (subst sha512_blocks.simps) (simp add: Let_def c1_def c2_def)
    moreover have "absorb 128 sha512_block (s512_state c) data = (s512_state c', rest)"
      using ih(2) True tr(1) by (subst absorb.simps) (simp add: c2_def)
    moreover have "k + 8 * (length data - length rest) = k + 1024 + 8 * (length (drop 128 data) - length rest)"
      using True ih(4) by simp
    ultimately show ?thesis using ih(3,4,5) by (metis diff_le_self le_trans length_drop)
  next
    case False
    then show ?thesis using 1 by (simp add: sha512_blocks.simps [of c data] absorb_short)
  qed
qed

lemma sha512_write_aligned_repr:
  assumes "repr512 c m" "length m mod 128 = 0" "length d < 2 ^ 61"
  shows "repr512 (sha512_write_aligned c d) (m @ d)"
proof -
  obtain c' rest where b: "sha512_blocks c d = (c', rest)" "absorb 128 sha512_block (s512_state c) d = (s512_state c', rest)"
    "s512_bitcount c' = bits128 (8 * length m + 8 * (length d - length rest))" "length rest \<le> length d"
    "length (s512_buffer c') = 128"
    using sha512_blocks_absorb [of c "8 * length m" d] assms(1) by (auto simp: repr512_def)
  have rest: "length rest = length d mod 128" using absorb_rest [of 128 sha512_block "s512_state c" d] b(2) by simp
  moreover have "absorb 128 sha512_block sha512_initial_hash_value (m @ d) = (s512_state c', rest)"
    using assms b(2) absorb_extend [of 128 sha512_block sha512_initial_hash_value m] by (simp add: repr512_def)
  moreover have "(length m + length d) mod 128 = length d mod 128" using assms(2) by (rule mod_add_0)
  moreover have "ADDINC128 (s512_bitcount c') (of_nat (length rest * 8)) = bits128 (8 * length (m @ d))"
    using ADDINC128_bits [of "length rest * 8" "8 * length m + 8 * (length d - length rest)"] b(3,4) assms(3)
    by (simp add: algebra_simps)
  moreover have "s512_bitcount c' = bits128 (8 * length (m @ d))" if "rest = []"
    using b(3) that by (simp add: algebra_simps)
  moreover have "length rest < 128" using rest by simp
  ultimately show ?thesis using b(1,5)
    by (auto simp: repr512_def sha512_write_aligned_def take_blit simp del: of_nat_mult of_nat_add)
qed

lemma sha512_write_repr:
  assumes "repr512 c m" "length d < 2 ^ 61"
  shows "repr512 (sha512_write c d) (m @ d)"
proof (cases "d = [] \<or> length m mod 128 = 0")
  case True
  then show ?thesis using assms used512 [OF assms(1)] sha512_write_aligned_repr [OF assms(1) _ assms(2)]
    by (auto simp: sha512_write_def Let_def)
next
  case False
  define u where "u = length m mod 128"
  have u: "0 < u" "u < 128" using False by (simp_all add: u_def)
  have c: "length (s512_buffer c) = 128" "s512_bitcount c = bits128 (8 * length m)"
    "absorb 128 sha512_block sha512_initial_hash_value m = (s512_state c, take u (s512_buffer c))"
    using assms by (simp_all add: repr512_def u_def)
  show ?thesis
  proof (cases "128 - u \<le> length d")
    case True
    define x where "x = take (128 - u) d"
    define c1 where "c1 = c\<lparr>s512_buffer := blit (s512_buffer c) u x,
      s512_bitcount := ADDINC128 (s512_bitcount c) (of_nat ((128 - u) * 8))\<rparr>"
    have lx: "length x = 128 - u" using True by (simp add: x_def)
    have buf: "s512_buffer c1 = take u (s512_buffer c) @ x" "length (s512_buffer c1) = 128"
      using u c(1) lx by (simp_all add: c1_def blit_def)
    have w: "sha512_write c d = sha512_write_aligned (sha512_transform c1 (s512_buffer c1)) (drop (128 - u) d)"
      using False True used512 [OF assms(1)] by (simp add: sha512_write_def Let_def u_def [symmetric] x_def c1_def)
    have "absorb 128 sha512_block sha512_initial_hash_value (m @ x) = (sha512_block (s512_state c) (s512_buffer c1), [])"
      using absorb_extend [OF c(3), of x] u lx buf by (simp add: absorb_one)
    moreover have "(length m + (128 - u)) mod 128 = 0" unfolding u_def by (rule fill_mod) simp
    ultimately have "repr512 (sha512_transform c1 (s512_buffer c1)) (m @ x)" "length (m @ x) mod 128 = 0"
      using sha512_transform_fips [OF buf(2), of c1] c(2) lx u ADDINC128_bits [of "(128 - u) * 8" "8 * length m"]
      by (simp_all add: repr512_def c1_def algebra_simps)
    from sha512_write_aligned_repr [OF this, of "drop (128 - u) d"] assms(2) show ?thesis by (simp add: w x_def)
  next
    case short: False
    have "sha512_write c d = c\<lparr>s512_buffer := blit (s512_buffer c) u d,
        s512_bitcount := ADDINC128 (s512_bitcount c) (of_nat (length d * 8))\<rparr>"
      using False short used512 [OF assms(1)] by (simp add: sha512_write_def Let_def u_def)
    moreover have "absorb 128 sha512_block sha512_initial_hash_value (m @ d) = (s512_state c, take u (s512_buffer c) @ d)"
      using absorb_extend [OF c(3), of d] c(1) u short by (simp add: absorb_short)
    moreover have "(length m + length d) mod 128 = u + length d"
    proof -
      have "(length m + length d) mod 128 = (u + length d) mod 128" by (simp add: u_def mod_add_left_eq)
      then show ?thesis using short u by simp
    qed
    ultimately show ?thesis using c u short ADDINC128_bits [of "length d * 8" "8 * length m"]
      by (simp add: repr512_def take_blit algebra_simps)
  qed
qed

lemma digest512: "store_words 8 (map REVERSE64 ws) = be_bytes 8 ws"
  by (rule reverse_store_words [OF le_bytes_REVERSE64])

lemma sha512_finalize_repr:
  assumes "repr512 c m"
  shows "sha512_finalize c = sha512_spec m"
proof -
  define u where "u = length m mod 128"
  define len where "len = rev (le_bytes 16 (8 * length m))"
  have u: "u < 128" by (simp add: u_def)
  have c: "length (s512_buffer c) = 128" "s512_bitcount c = bits128 (8 * length m)"
    "absorb 128 sha512_block sha512_initial_hash_value m = (s512_state c, take u (s512_buffer c))"
    using assms by (simp_all add: repr512_def u_def)
  define hi where "hi = le_bytes 8 (unat (REVERSE64 (snd (s512_bitcount c))))"
  define lo where "lo = le_bytes 8 (unat (REVERSE64 (fst (s512_bitcount c))))"
  have bc: "hi @ lo = len" unfolding hi_def lo_def c(2) len_def bits128_def fst_conv snd_conv by (rule length_field128)
  have fields: "blit (blit b 112 hi) 120 lo = blit b 112 len" if "length b = 128" for b
  proof -
    have "length hi = 8" by (simp add: hi_def)
    then show ?thesis using blit_append [of 112 hi b lo] that bc by simp
  qed
  have len: "length len = 16" by (simp add: len_def)
  have used: "unat (drop_bit 3 (fst (s512_bitcount c))) mod 128 = u" using used512 [OF assms(1)] by (simp add: u_def)
  note last = sha512_finalize_def sha512_last_def Let_def used hi_def [symmetric] lo_def [symmetric]
  have spec: "sha512_spec m = be_bytes 8 (if u + 1 \<le> 112
      then sha512_block (s512_state c) (take u (s512_buffer c) @ 0x80 # replicate (111 - u) 0 @ len)
      else sha512_block (sha512_block (s512_state c) (take u (s512_buffer c) @ 0x80 # replicate (127 - u) 0)) (replicate 112 0 @ len))"
    using absorb_pad [OF c(3), of len] len u c(1) unfolding sha512_spec_def len_def [symmetric] by simp
  consider "u = 0" | "0 < u" "u + 1 \<le> 112" | "112 < u + 1" by linarith
  then show ?thesis
  proof cases
    case 1
    have "sha512_finalize c = be_bytes 8 (sha512_block (s512_state c) (0x80 # replicate 111 0 @ len))"
      using pad_empty [OF c(1) len] 1 sha512_transform_fips(1) [of "0x80 # replicate 111 0 @ len"] len c(1)
      by (simp add: last fields digest512)
    then show ?thesis using 1 by (simp add: spec)
  next
    case 2
    let ?b = "take u (s512_buffer c) @ 0x80 # replicate (111 - u) 0 @ len"
    have "length ?b = 128" using 2 c(1) len by simp
    then have "sha512_finalize c = be_bytes 8 (sha512_block (s512_state c) ?b)"
      using pad_fits [OF c(1) len, of u] 2 sha512_transform_fips(1) [of ?b] c(1)
      by (simp add: last fields digest512)
    then show ?thesis using 2 by (simp add: spec)
  next
    case 3
    let ?b = "take u (s512_buffer c) @ 0x80 # replicate (127 - u) 0"
    define c1 where "c1 = sha512_transform (c\<lparr>s512_buffer := ?b\<rparr>) ?b"
    have b: "length ?b = 128" using u c(1) by simp
    note t1 = sha512_transform_fips [OF b, of "c\<lparr>s512_buffer := ?b\<rparr>", folded c1_def]
    have z: "blit (blit (blit (s512_buffer c1) 0 (replicate 126 0)) 112 hi) 120 lo = replicate 112 0 @ len"
      using t1(3) len by (subst fields) (simp_all add: blit_def)
    have "sha512_finalize c = be_bytes 8 (sha512_block (s512_state c1) (replicate 112 0 @ len))"
      unfolding last pad_full [OF c(1) u]
      using 3 sha512_transform_fips(1) [of "replicate 112 0 @ len"] len z by (simp add: digest512 c1_def)
    then show ?thesis using 3 t1(1) by (simp add: spec)
  qed
qed

lemma sha512_init_repr: "repr512 sha512_init []"
  by (simp add: repr512_def sha512_init_def absorb_short bits128_def)

section \<open>The contract of a streaming hash\<close>

text \<open>
  What the clients of a hash context rely on: \<open>repr c m\<close> says that the context has absorbed the
  message \<open>m\<close>, \<open>ok\<close> which chunks one call of \<open>write\<close> can take, \<open>H\<close> is the hash function.
\<close>

locale stream_hash =
  fixes init :: 'c
    and wr :: "'c \<Rightarrow> bytes \<Rightarrow> 'c"
    and fin :: "'c \<Rightarrow> bytes"
    and H :: "bytes \<Rightarrow> bytes"
    and repr :: "'c \<Rightarrow> bytes \<Rightarrow> bool"
    and ok :: "bytes \<Rightarrow> bool"
  assumes init_repr: "repr init []"
    and wr_repr: "repr c m \<Longrightarrow> ok d \<Longrightarrow> repr (wr c d) (m @ d)"
    and fin_repr: "repr c m \<Longrightarrow> fin c = H m"
begin

lemma writes_repr: "repr c m \<Longrightarrow> list_all ok ds \<Longrightarrow> repr (foldl wr c ds) (m @ concat ds)"
proof (induction ds arbitrary: c m)
  case (Cons d ds)
  then show ?case using Cons.IH [of "wr c d" "m @ d"] wr_repr by simp
qed simp

lemma chunked: "list_all ok ds \<Longrightarrow> fin (foldl wr init ds) = H (concat ds)"
  using writes_repr [OF init_repr] fin_repr by fastforce

lemma oneshot: "ok d \<Longrightarrow> fin (wr init d) = H d"
  using chunked [of "[d]"] by simp

lemma twopart: "ok d \<Longrightarrow> ok e \<Longrightarrow> fin (wr (wr init d) e) = H (d @ e)"
  using chunked [of "[d, e]"] by simp

end

interpretation s256: stream_hash sha256_init sha256_write sha256_finalize sha256_spec repr256 "\<lambda>_. True"
  by unfold_locales (auto intro: sha256_init_repr sha256_write_repr sha256_finalize_repr)

interpretation s512: stream_hash sha512_init sha512_write sha512_finalize sha512_spec repr512 "\<lambda>d. length d < 2 ^ 61"
  by unfold_locales (auto intro: sha512_init_repr sha512_write_repr sha512_finalize_repr)

lemma sha256_raw_spec: "sha256_raw d = sha256_spec d"
  by (simp add: sha256_raw_def s256.oneshot)

lemma sha512_raw_spec: "length d < 2 ^ 61 \<Longrightarrow> sha512_raw d = sha512_spec d"
  by (simp add: sha512_raw_def s512.oneshot)

lemma length_add_regs [simp]: "length (add_regs st r) = 8"
  by (simp add: add_regs_def split_def)

lemma length_be_bytes [simp]: "length (be_bytes k ws) = k * length ws"
  by (induction ws) (auto simp: be_bytes_def)

lemma absorb_state: "P s \<Longrightarrow> (\<And>s b. P s \<Longrightarrow> P (f s b)) \<Longrightarrow> P (fst (absorb B f s m))"
  by (induction B f s m rule: absorb.induct) (subst absorb.simps, auto)

lemma length_sha256_spec [simp]: "length (sha256_spec m) = 32"
proof -
  have "length (fst (absorb 64 sha256_block sha256_initial_hash_value p)) = 8" for p
    by (rule absorb_state) (simp_all add: sha256_initial_hash_value_def sha256_block_def)
  then show ?thesis by (simp add: sha256_spec_def)
qed

lemma length_sha512_spec [simp]: "length (sha512_spec m) = 64"
proof -
  have "length (fst (absorb 128 sha512_block sha512_initial_hash_value p)) = 8" for p
    by (rule absorb_state) (simp_all add: sha512_initial_hash_value_def sha512_block_def)
  then show ?thesis by (simp add: sha512_spec_def)
qed

section \<open>The double hash of a 64-byte block\<close>

lemma sha256d64_block_double:
  assumes "length b = 64"
  shows "sha256d64_block b = dogecoin_hash b"
proof -
  let ?l1 = "rev (le_bytes 8 512)" and ?l2 = "rev (le_bytes 8 256)"
  let ?iv = sha256_initial_hash_value
  define mid where "mid = sha256_spec b"
  have lm: "length mid = 32" by (simp add: mid_def)
  have f: "le_bytes 8 (unat (REVERSE64 512)) = ?l1" "le_bytes 8 (unat (REVERSE64 256)) = ?l2"
    using length_field [of 512] length_field [of 256] by simp_all
  have b1: "blit ((replicate 64 0)[0 := 0x80]) 56 ?l1 = 0x80 # replicate 55 0 @ ?l1"
    using pad_empty [of "replicate 64 0" 64 ?l1 8] replicate_add [of 56 8 "0 :: u8"] by (simp add: blit_def)
  have b2: "blit ((blit (replicate 64 0) 0 mid)[32 := 0x80]) 56 ?l2 = mid @ 0x80 # replicate 23 0 @ ?l2"
  proof -
    have "replicate 32 (0 :: u8) = 0 # replicate 31 0" using replicate_Suc [of 31 "0 :: u8"] by simp
    then show ?thesis by (simp add: blit_def mid_def list_update_append)
  qed
  have s1: "mid = be_bytes 4 (sha256_block (sha256_block ?iv b) (0x80 # replicate 55 0 @ ?l1))"
    using absorb_pad [OF absorb_one, of 64 b ?l1 sha256_block ?iv] assms by (simp add: mid_def sha256_spec_def)
  have s2: "sha256_spec mid = be_bytes 4 (sha256_block ?iv (mid @ 0x80 # replicate 23 0 @ ?l2))"
    using absorb_pad [OF absorb_short, of mid 64 ?l2 sha256_block ?iv] lm by (simp add: sha256_spec_def)
  have t2: "s256_state (sha256_transform (sha256_transform sha256_init b) (0x80 # replicate 55 0 @ ?l1)) =
      sha256_block (sha256_block ?iv b) (0x80 # replicate 55 0 @ ?l1)"
    using sha256_transform_fips(1) [OF assms, of sha256_init]
      sha256_transform_fips(1) [of "0x80 # replicate 55 0 @ ?l1" "sha256_transform sha256_init b"]
    by (simp add: sha256_init_def)
  have t3: "s256_state (sha256_transform sha256_init (mid @ 0x80 # replicate 23 0 @ ?l2)) =
      sha256_block ?iv (mid @ 0x80 # replicate 23 0 @ ?l2)"
    using sha256_transform_fips(1) [of "mid @ 0x80 # replicate 23 0 @ ?l2" sha256_init]
    by (simp add: sha256_init_def mid_def)
  have "sha256d64_block b = sha256_spec mid"
    unfolding sha256d64_block_def Let_def f b1 digest256 t2 s1 [symmetric] b2 t3 s2 ..
  then show ?thesis by (simp add: dogecoin_hash_def sha256_raw_spec mid_def)
qed

section \<open>Properties\<close>

text \<open>
  C30. However a message is cut into \<open>sha256_write\<close> calls, the digest is the SHA-256 of FIPS 180-4 of
  the whole message: the buffering, the circular message schedule that shares memory with the buffer,
  the padding over one or two blocks and the byte-order conversions are all right.
\<close>

theorem sha256_streaming:
  "sha256_finalize (foldl sha256_write sha256_init ds) = sha256_spec (concat ds)"
  by (rule s256.chunked) (simp add: list_all_iff)

text \<open>
  The same for SHA-512 and its 128-bit length counter: any cutting into chunks of less than
  \<open>2 ^ 61\<close> bytes (so that the bit length of a chunk fits in 64 bits) gives the SHA-512 of the whole
  message, also when the total length overflows the low half of the counter.
\<close>

theorem sha512_streaming:
  "list_all (\<lambda>d. length d < 2 ^ 61) ds \<Longrightarrow>
    sha512_finalize (foldl sha512_write sha512_init ds) = sha512_spec (concat ds)"
  by (rule s512.chunked)

theorem sha512_streaming_witness:
  "sha512_finalize (sha512_write (sha512_write sha512_init [0x61]) [0x62, 0x63]) = sha512_spec [0x61, 0x62, 0x63]"
  using sha512_streaming [of "[[0x61], [0x62, 0x63]]"] by simp

text \<open>
  The specialised double hash that merkle trees use (three transforms with hand-written padding
  blocks) is the ordinary double SHA-256: of the concatenation of the two 32-byte inputs.
\<close>

theorem sha256d_2_input_double:
  assumes "length l = 32" "length r = 32"
  shows "sha256d_2_input l r = dogecoin_hash (l @ r)"
  using sha256d64_block_double [of "l @ r"] assms by (simp add: sha256d_2_input_def)

theorem sha256d_2_input_double_witness:
  "sha256d_2_input (replicate 32 1) (replicate 32 2) = dogecoin_hash (replicate 32 1 @ replicate 32 2)"
  using sha256d_2_input_double [of "replicate 32 1" "replicate 32 2"] by simp

end
