(* ===== verification/Hmac.thy ===== *)
theory Hmac
  imports Sha2
begin

text \<open>
  Model of the HMAC and PBKDF2 code of \<open>src/src/sha2.c\<close> over SHA-256 and SHA-512. A context is a
  record; the word arrays \<open>f\<close> and \<open>g\<close> of a PBKDF2 context are kept as their memory, so that the
  XOR of words is the XOR of their bytes. The locale \<open>keyed_hash\<close> proves the HMAC construction
  once for every hash that keeps the contract \<open>stream_hash\<close>.
\<close>

unbundle bit_operations_syntax

section \<open>HMAC-SHA-256\<close>

record hmac_sha256_context =
  h256_o_key_pad :: bytes
  h256_ctx :: sha256_context

text \<open>The two states after one block, from the key padded to a block.\<close>

definition hmac_sha256_prepare :: "bytes \<Rightarrow> u32 list \<times> u32 list" where
  "hmac_sha256_prepare key =
     (let key_block = (if length key > 64 then blit (replicate 64 0) 0 (sha256_raw key)
                       else blit (replicate 64 0) 0 key) in
      (s256_state (sha256_transform sha256_init (map (\<lambda>b. b XOR 0x5c) key_block)),
       s256_state (sha256_transform sha256_init (map (\<lambda>b. b XOR 0x36) key_block))))"

definition hmac_sha256_init :: "bytes \<Rightarrow> hmac_sha256_context" where
  "hmac_sha256_init key =
     (let i_key_pad = (if length key > 64 then blit (replicate 64 0) 0 (sha256_raw key)
                       else blit (replicate 64 0) 0 key) in
      \<lparr>h256_o_key_pad = map (\<lambda>b. b XOR 0x5c) i_key_pad,
       h256_ctx = sha256_write sha256_init (map (\<lambda>b. b XOR 0x36) i_key_pad)\<rparr>)"

definition hmac_sha256_write :: "hmac_sha256_context \<Rightarrow> bytes \<Rightarrow> hmac_sha256_context" where
  "hmac_sha256_write hctx msg = hctx\<lparr>h256_ctx := sha256_write (h256_ctx hctx) msg\<rparr>"

definition hmac_sha256_finalize :: "hmac_sha256_context \<Rightarrow> bytes" where
  "hmac_sha256_finalize hctx =
     (let hash = sha256_finalize (h256_ctx hctx) in
      sha256_finalize (sha256_write (sha256_write sha256_init (h256_o_key_pad hctx)) hash))"

definition hmac_sha256 :: "bytes \<Rightarrow> bytes \<Rightarrow> bytes" where
  "hmac_sha256 key msg =
     (let buf = (if length key > 64 then blit (replicate 64 0) 0 (sha256_raw key)
                 else blit (replicate 64 0) 0 key);
          o_key_pad = map (\<lambda>b. b XOR 0x5c) buf;
          i_key_pad = map (\<lambda>b. b XOR 0x36) buf;
          buf2 = blit buf 0 (sha256_finalize (sha256_write (sha256_write sha256_init i_key_pad) msg)) in
      sha256_finalize (sha256_write (sha256_write sha256_init o_key_pad) (take 32 buf2)))"

section \<open>HMAC-SHA-512\<close>

record hmac_sha512_context =
  h512_o_key_pad :: bytes
  h512_ctx :: sha512_context

definition hmac_sha512_init :: "bytes \<Rightarrow> hmac_sha512_context" where
  "hmac_sha512_init key =
     (let i_key_pad = (if length key > 128 then blit (replicate 128 0) 0 (sha512_raw key)
                       else blit (replicate 128 0) 0 key) in
      \<lparr>h512_o_key_pad = map (\<lambda>b. b XOR 0x5c) i_key_pad,
       h512_ctx = sha512_write sha512_init (map (\<lambda>b. b XOR 0x36) i_key_pad)\<rparr>)"

definition hmac_sha512_write :: "hmac_sha512_context \<Rightarrow> bytes \<Rightarrow> hmac_sha512_context" where
  "hmac_sha512_write hctx msg = hctx\<lparr>h512_ctx := sha512_write (h512_ctx hctx) msg\<rparr>"

definition hmac_sha512_finalize :: "hmac_sha512_context \<Rightarrow> bytes" where
  "hmac_sha512_finalize hctx =
     (let hash = sha512_finalize (h512_ctx hctx) in
      sha512_finalize (sha512_write (sha512_write sha512_init (h512_o_key_pad hctx)) hash))"

definition hmac_sha512 :: "bytes \<Rightarrow> bytes \<Rightarrow> bytes" where
  "hmac_sha512 key msg =
     (let buf = (if length key > 128 then blit (replicate 128 0) 0 (sha512_raw key)
                 else blit (replicate 128 0) 0 key);
          o_key_pad = map (\<lambda>b. b XOR 0x5c) buf;
          i_key_pad = map (\<lambda>b. b XOR 0x36) buf;
          buf2 = blit buf 0 (sha512_finalize (sha512_write (sha512_write sha512_init i_key_pad) msg)) in
      sha512_finalize (sha512_write (sha512_write sha512_init o_key_pad) (take 64 buf2)))"

section \<open>PBKDF2\<close>

record pbkdf2_hmac_sha256_context =
  p256_f :: bytes
  p256_g :: bytes
  p256_pass :: bytes
  p256_first :: nat
  p256_odig :: "u32 list"
  p256_idig :: "u32 list"

text \<open>
  The context starts zeroed. The words \<open>g[8]\<close> and \<open>g[15]\<close> (the padding of a 32-byte message) and the
  two prepared digests are set as in the code, although nothing reads them afterwards.
\<close>

definition pbkdf2_hmac_sha256_init :: "bytes \<Rightarrow> bytes \<Rightarrow> u32 \<Rightarrow> pbkdf2_hmac_sha256_context" where
  "pbkdf2_hmac_sha256_init pass salt blocknr =
     (let nr = REVERSE32 blocknr;
          (odig, idig) = hmac_sha256_prepare pass;
          g0 = blit (blit (replicate 64 0) 32 (le_bytes 4 0x80000000)) 60 (le_bytes 4 ((64 + 32) * 8));
          h1 = hmac_sha256_write (hmac_sha256_init pass) salt;
          h2 = hmac_sha256_write h1 (le_bytes 4 (unat nr));
          g = blit g0 0 (hmac_sha256_finalize h2) in
      \<lparr>p256_f = take 32 g, p256_g = g, p256_pass = pass, p256_first = 1, p256_odig = odig, p256_idig = idig\<rparr>)"

definition pbkdf2_step256 :: "pbkdf2_hmac_sha256_context \<Rightarrow> nat \<Rightarrow> pbkdf2_hmac_sha256_context" where
  "pbkdf2_step256 pctx i =
     (let g = blit (p256_g pctx) 0 (hmac_sha256 (p256_pass pctx) (take 32 (p256_g pctx))) in
      pctx\<lparr>p256_g := g, p256_f := map2 (XOR) (p256_f pctx) (take 32 g)\<rparr>)"

definition pbkdf2_hmac_sha256_write :: "pbkdf2_hmac_sha256_context \<Rightarrow> u32 \<Rightarrow> pbkdf2_hmac_sha256_context" where
  "pbkdf2_hmac_sha256_write pctx iterations =
     (foldl pbkdf2_step256 pctx [p256_first pctx..<unat iterations])\<lparr>p256_first := 0\<rparr>"

definition pbkdf2_hmac_sha256_finalize :: "pbkdf2_hmac_sha256_context \<Rightarrow> bytes" where
  "pbkdf2_hmac_sha256_finalize pctx = take 32 (p256_f pctx)"

text \<open>The key buffer after the call; \<open>keylen\<close> is its length in bytes.\<close>

definition pbkdf2_hmac_sha256 :: "bytes \<Rightarrow> bytes \<Rightarrow> u32 \<Rightarrow> nat \<Rightarrow> bytes \<Rightarrow> bytes" where
  "pbkdf2_hmac_sha256 pass salt iterations keylen key =
     (let (blocks_count, last_block_size) =
            (if keylen mod 32 \<noteq> 0 then (keylen div 32 + 1, keylen mod 32) else (keylen div 32, 32)) in
      foldl (\<lambda>key blocknr.
          let digest = pbkdf2_hmac_sha256_finalize
                (pbkdf2_hmac_sha256_write (pbkdf2_hmac_sha256_init pass salt (of_nat blocknr)) iterations);
              key_offset = (blocknr - 1) * 32 in
          blit key key_offset (if blocknr < blocks_count then digest else take last_block_size digest))
        key [1..<blocks_count + 1])"

record pbkdf2_hmac_sha512_context =
  p512_f :: bytes
  p512_g :: bytes
  p512_pass :: bytes
  p512_first :: nat

definition pbkdf2_hmac_sha512_init :: "bytes \<Rightarrow> bytes \<Rightarrow> pbkdf2_hmac_sha512_context" where
  "pbkdf2_hmac_sha512_init pass salt =
     (let h1 = hmac_sha512_write (hmac_sha512_init pass) salt;
          h2 = hmac_sha512_write h1 [0, 0, 0, 1];
          g = hmac_sha512_finalize h2 in
      \<lparr>p512_f = g, p512_g = g, p512_pass = pass, p512_first = 1\<rparr>)"

definition pbkdf2_step512 :: "pbkdf2_hmac_sha512_context \<Rightarrow> nat \<Rightarrow> pbkdf2_hmac_sha512_context" where
  "pbkdf2_step512 pctx i =
     (let g = hmac_sha512 (p512_pass pctx) (p512_g pctx) in
      pctx\<lparr>p512_g := g, p512_f := map2 (XOR) (p512_f pctx) g\<rparr>)"

definition pbkdf2_hmac_sha512_write :: "pbkdf2_hmac_sha512_context \<Rightarrow> u32 \<Rightarrow> pbkdf2_hmac_sha512_context" where
  "pbkdf2_hmac_sha512_write pctx iterations =
     (foldl pbkdf2_step512 pctx [p512_first pctx..<unat iterations])\<lparr>p512_first := 0\<rparr>"

definition pbkdf2_hmac_sha512_finalize :: "pbkdf2_hmac_sha512_context \<Rightarrow> bytes" where
  "pbkdf2_hmac_sha512_finalize pctx = p512_f pctx"

definition pbkdf2_hmac_sha512 :: "bytes \<Rightarrow> bytes \<Rightarrow> u32 \<Rightarrow> bytes" where
  "pbkdf2_hmac_sha512 pass salt iterations =
     pbkdf2_hmac_sha512_finalize (pbkdf2_hmac_sha512_write (pbkdf2_hmac_sha512_init pass salt) iterations)"

section \<open>The HMAC construction over any streaming hash\<close>

definition hmac_key :: "(bytes \<Rightarrow> bytes) \<Rightarrow> nat \<Rightarrow> bytes \<Rightarrow> bytes" where
  "hmac_key H B key = (let k = (if length key > B then H key else key) in k @ replicate (B - length k) 0)"

definition hmac_spec :: "(bytes \<Rightarrow> bytes) \<Rightarrow> nat \<Rightarrow> bytes \<Rightarrow> bytes \<Rightarrow> bytes" where
  "hmac_spec H B key msg =
     H (map (\<lambda>b. b XOR 0x5c) (hmac_key H B key) @ H (map (\<lambda>b. b XOR 0x36) (hmac_key H B key) @ msg))"

lemma blit_zeros: "length k \<le> n \<Longrightarrow> blit (replicate n 0) 0 k = k @ replicate (n - length k) 0"
  by (simp add: blit_def)

locale keyed_hash = stream_hash +
  fixes B D :: nat
  assumes digest_length: "length (H m) = D"
    and digest_fits: "D \<le> B"
    and ok_block: "length d \<le> B \<Longrightarrow> ok d"
begin

lemma key_block:
  "(if length key > B then blit (replicate B 0) 0 (H key) else blit (replicate B 0) 0 key) = hmac_key H B key"
  using digest_length digest_fits by (auto simp: hmac_key_def blit_zeros Let_def)

lemma length_hmac_key: "length (hmac_key H B key) = B"
  using digest_length digest_fits by (auto simp: hmac_key_def Let_def)

lemma hmac_chunks:
  assumes "list_all ok ds"
  shows "fin (wr (wr init (map (\<lambda>b. b XOR 0x5c) (hmac_key H B key)))
      (fin (foldl wr (wr init (map (\<lambda>b. b XOR 0x36) (hmac_key H B key))) ds))) =
    hmac_spec H B key (concat ds)"
proof -
  let ?i = "map (\<lambda>b. b XOR 0x36) (hmac_key H B key)" and ?o = "map (\<lambda>b. b XOR 0x5c) (hmac_key H B key)"
  have "ok ?i" "ok ?o" by (simp_all add: ok_block length_hmac_key)
  then have "fin (foldl wr (wr init ?i) ds) = H (?i @ concat ds)"
    using chunked [of "?i # ds"] assms by simp
  then show ?thesis
    using twopart [OF \<open>ok ?o\<close>, of "H (?i @ concat ds)"] ok_block [of "H (?i @ concat ds)"] digest_length digest_fits
    by (simp add: hmac_spec_def)
qed

lemma length_hmac: "length (hmac_spec H B key msg) = D"
  by (simp add: hmac_spec_def digest_length)

end

interpretation k256: keyed_hash sha256_init sha256_write sha256_finalize sha256_spec repr256 "\<lambda>_. True" 64 32
  by unfold_locales simp_all

interpretation k512: keyed_hash sha512_init sha512_write sha512_finalize sha512_spec repr512
    "\<lambda>d. length d < 2 ^ 61" 128 64
  by unfold_locales simp_all

section \<open>HMAC of the code\<close>

lemma h256_writes: "foldl hmac_sha256_write h ds = h\<lparr>h256_ctx := foldl sha256_write (h256_ctx h) ds\<rparr>"
  by (induction ds arbitrary: h) (simp_all add: hmac_sha256_write_def)

lemma h512_writes: "foldl hmac_sha512_write h ds = h\<lparr>h512_ctx := foldl sha512_write (h512_ctx h) ds\<rparr>"
  by (induction ds arbitrary: h) (simp_all add: hmac_sha512_write_def)

lemma hmac_sha256_chunks:
  "hmac_sha256_finalize (foldl hmac_sha256_write (hmac_sha256_init key) ds) = hmac_spec sha256_spec 64 key (concat ds)"
  unfolding hmac_sha256_init_def Let_def sha256_raw_spec k256.key_block
  using k256.hmac_chunks [of ds key] by (simp add: hmac_sha256_finalize_def h256_writes Let_def list_all_iff)

lemma hmac_sha256_oneshot: "hmac_sha256 key msg = hmac_spec sha256_spec 64 key msg"
proof -
  let ?k = "hmac_key sha256_spec 64 key"
  let ?h = "sha256_finalize (sha256_write (sha256_write sha256_init (map (\<lambda>b. b XOR 0x36) ?k)) msg)"
  have "length ?h = 32" using s256.twopart [of "map (\<lambda>b. b XOR 0x36) ?k" msg] by simp
  then have "take 32 (blit ?k 0 ?h) = ?h" by (simp add: blit_def)
  then show ?thesis
    unfolding hmac_sha256_def Let_def sha256_raw_spec k256.key_block
    using k256.hmac_chunks [of "[msg]" key] by simp
qed

lemma hmac_sha512_chunks:
  assumes "length key < 2 ^ 61" "list_all (\<lambda>d. length d < 2 ^ 61) ds"
  shows "hmac_sha512_finalize (foldl hmac_sha512_write (hmac_sha512_init key) ds) =
    hmac_spec sha512_spec 128 key (concat ds)"
  unfolding hmac_sha512_init_def Let_def sha512_raw_spec [OF assms(1)] k512.key_block
  using k512.hmac_chunks [OF assms(2), of key] by (simp add: hmac_sha512_finalize_def h512_writes Let_def)

lemma hmac_sha512_oneshot:
  assumes "length key < 2 ^ 61" "length msg < 2 ^ 61"
  shows "hmac_sha512 key msg = hmac_spec sha512_spec 128 key msg"
proof -
  let ?k = "hmac_key sha512_spec 128 key"
  let ?h = "sha512_finalize (sha512_write (sha512_write sha512_init (map (\<lambda>b. b XOR 0x36) ?k)) msg)"
  have "length ?h = 64"
    using s512.twopart [of "map (\<lambda>b. b XOR 0x36) ?k" msg] assms k512.length_hmac_key [of key] by simp
  then have "take 64 (blit ?k 0 ?h) = ?h" by (simp add: blit_def)
  then show ?thesis
    unfolding hmac_sha512_def Let_def sha512_raw_spec [OF assms(1)] k512.key_block
    using k512.hmac_chunks [of "[msg]" key] assms(2) by simp
qed

section \<open>PBKDF2 of RFC 8018\<close>

text \<open>\<open>U\<close> iterates the pseudorandom function, \<open>F\<close> is the XOR of the first \<open>c\<close> iterates.\<close>

fun pbkdf2_U :: "(bytes \<Rightarrow> bytes) \<Rightarrow> bytes \<Rightarrow> nat \<Rightarrow> bytes" where
  "pbkdf2_U prf s 0 = prf s"
| "pbkdf2_U prf s (Suc n) = prf (pbkdf2_U prf s n)"

fun pbkdf2_F :: "(bytes \<Rightarrow> bytes) \<Rightarrow> bytes \<Rightarrow> nat \<Rightarrow> bytes" where
  "pbkdf2_F prf s 0 = pbkdf2_U prf s 0"
| "pbkdf2_F prf s (Suc n) = map2 (XOR) (pbkdf2_F prf s n) (pbkdf2_U prf s (Suc n))"

definition be32 :: "nat \<Rightarrow> bytes" where
  "be32 i = rev (le_bytes 4 i)"

definition pbkdf2_spec :: "(bytes \<Rightarrow> bytes) \<Rightarrow> nat \<Rightarrow> bytes \<Rightarrow> nat \<Rightarrow> nat \<Rightarrow> bytes" where
  "pbkdf2_spec prf D salt c keylen =
     take keylen (concat (map (\<lambda>i. pbkdf2_F prf (salt @ be32 i) (c - 1)) [1..<(keylen + D - 1) div D + 1]))"

lemma pbkdf2_U_length: "(\<And>m. length (prf m) = D) \<Longrightarrow> length (pbkdf2_U prf s n) = D"
  by (cases n) auto

lemma pbkdf2_F_length: "(\<And>m. length (prf m) = D) \<Longrightarrow> length (pbkdf2_F prf s n) = D"
  by (induction n) auto

abbreviation prf256 :: "bytes \<Rightarrow> bytes \<Rightarrow> bytes" where
  "prf256 \<equiv> hmac_spec sha256_spec 64"

abbreviation prf512 :: "bytes \<Rightarrow> bytes \<Rightarrow> bytes" where
  "prf512 \<equiv> hmac_spec sha512_spec 128"

lemma take_blit_0: "length d = n \<Longrightarrow> take n (blit g 0 d) = d"
  by (simp add: blit_def)

lemma pbkdf2_write256:
  assumes "p256_pass p = pass" "take 32 (p256_g p) = pbkdf2_U (prf256 pass) s 0" "p256_f p = pbkdf2_F (prf256 pass) s 0"
  shows "p256_pass (foldl pbkdf2_step256 p [1..<Suc n]) = pass \<and>
    take 32 (p256_g (foldl pbkdf2_step256 p [1..<Suc n])) = pbkdf2_U (prf256 pass) s n \<and>
    p256_f (foldl pbkdf2_step256 p [1..<Suc n]) = pbkdf2_F (prf256 pass) s n"
proof (induction n)
  case (Suc n)
  have "[1..<Suc (Suc n)] = [1..<Suc n] @ [Suc n]" by simp
  then show ?case using Suc
    by (simp add: pbkdf2_step256_def Let_def hmac_sha256_oneshot take_blit_0 k256.length_hmac)
qed (use assms in simp)

lemma pbkdf2_write512:
  assumes "p512_pass p = pass" "p512_g p = pbkdf2_U (prf512 pass) s 0" "p512_f p = pbkdf2_F (prf512 pass) s 0"
    and "length pass < 2 ^ 61"
  shows "p512_pass (foldl pbkdf2_step512 p [1..<Suc n]) = pass \<and>
    p512_g (foldl pbkdf2_step512 p [1..<Suc n]) = pbkdf2_U (prf512 pass) s n \<and>
    p512_f (foldl pbkdf2_step512 p [1..<Suc n]) = pbkdf2_F (prf512 pass) s n"
proof (induction n)
  case (Suc n)
  have "[1..<Suc (Suc n)] = [1..<Suc n] @ [Suc n]" by simp
  moreover have "length (pbkdf2_U (prf512 pass) s n) < 2 ^ 61"
    using pbkdf2_U_length [of "prf512 pass" 64 s n] k512.length_hmac by simp
  ultimately show ?case using Suc assms(4)
    by (simp add: pbkdf2_step512_def Let_def hmac_sha512_oneshot)
qed (use assms in simp)

lemma pbkdf2_init256:
  defines "p \<equiv> pbkdf2_hmac_sha256_init"
  shows "p256_pass (p pass salt nr) = pass" "p256_first (p pass salt nr) = 1"
    "take 32 (p256_g (p pass salt nr)) = pbkdf2_U (prf256 pass) (salt @ be32 (unat nr)) 0"
    "p256_f (p pass salt nr) = pbkdf2_F (prf256 pass) (salt @ be32 (unat nr)) 0"
proof -
  have "hmac_sha256_finalize (hmac_sha256_write (hmac_sha256_write (hmac_sha256_init pass) salt)
      (le_bytes 4 (unat (REVERSE32 nr)))) = prf256 pass (salt @ be32 (unat nr))"
    using hmac_sha256_chunks [of pass "[salt, be32 (unat nr)]"] by (simp add: be32_def le_bytes_REVERSE32)
  then show "p256_pass (p pass salt nr) = pass" "p256_first (p pass salt nr) = 1"
    "take 32 (p256_g (p pass salt nr)) = pbkdf2_U (prf256 pass) (salt @ be32 (unat nr)) 0"
    "p256_f (p pass salt nr) = pbkdf2_F (prf256 pass) (salt @ be32 (unat nr)) 0"
    unfolding p_def pbkdf2_hmac_sha256_init_def Let_def split_def
    by (simp_all add: take_blit_0 k256.length_hmac)
qed

lemma unat_positive_Suc: "0 < unat (w :: u32) \<Longrightarrow> \<exists>n. unat w = Suc n"
  using gr0_implies_Suc by blast

lemma pbkdf2_block256:
  assumes "0 < iterations"
  shows "pbkdf2_hmac_sha256_finalize
      (pbkdf2_hmac_sha256_write (pbkdf2_hmac_sha256_init pass salt nr) iterations) =
    pbkdf2_F (prf256 pass) (salt @ be32 (unat nr)) (unat iterations - 1)"
proof -
  obtain n where n: "unat iterations = Suc n" using assms unat_positive_Suc by (metis unat_gt_0 word_gt_0)
  have "length (pbkdf2_F (prf256 pass) s k) = 32" for s k by (rule pbkdf2_F_length) (rule k256.length_hmac)
  then show ?thesis
    using pbkdf2_write256 [OF pbkdf2_init256(1,3,4), of pass salt nr n]
    by (simp add: pbkdf2_hmac_sha256_finalize_def pbkdf2_hmac_sha256_write_def pbkdf2_init256(2) n)
qed

lemma pbkdf2_512_correct:
  assumes "0 < iterations" "length pass < 2 ^ 61" "length salt < 2 ^ 61"
  shows "pbkdf2_hmac_sha512 pass salt iterations = pbkdf2_F (prf512 pass) (salt @ be32 1) (unat iterations - 1)"
proof -
  obtain n where n: "unat iterations = Suc n" using assms(1) unat_positive_Suc by (metis unat_gt_0 word_gt_0)
  let ?p = "pbkdf2_hmac_sha512_init pass salt"
  have "be32 1 = [0, 0, 0, 1]" by (simp add: be32_def le_bytes_numeral)
  then have h: "hmac_sha512_finalize (hmac_sha512_write (hmac_sha512_write (hmac_sha512_init pass) salt) [0, 0, 0, 1]) =
      prf512 pass (salt @ be32 1)"
    using hmac_sha512_chunks [of pass "[salt, [0, 0, 0, 1]]"] assms(2,3) by simp
  have p: "p512_pass ?p = pass" "p512_first ?p = 1" "p512_g ?p = pbkdf2_U (prf512 pass) (salt @ be32 1) 0"
    "p512_f ?p = pbkdf2_F (prf512 pass) (salt @ be32 1) 0"
    by (simp_all add: pbkdf2_hmac_sha512_init_def h Let_def)
  show ?thesis
    using pbkdf2_write512 [OF p(1,3,4) assms(2), of n] p(2) n
    by (simp add: pbkdf2_hmac_sha512_def pbkdf2_hmac_sha512_finalize_def pbkdf2_hmac_sha512_write_def)
qed

section \<open>Assembling the key\<close>

lemma length_concat_blocks: "(\<And>i. length (d i) = D) \<Longrightarrow> length (concat (map d xs)) = D * length xs"
  by (induction xs) auto

lemma blit_at_end: "length a = p \<Longrightarrow> length x \<le> length b \<Longrightarrow> blit (a @ b) p x = a @ x @ drop (length x) b"
  by (simp add: blit_def)

lemma full_blocks:
  assumes d: "\<And>i. length (d i) = 32" and "m < n" "32 * m \<le> length key"
  shows "foldl (\<lambda>key b. blit key ((b - 1) * 32) (if b < n then d b else take l (d b))) key [1..<m + 1] =
    concat (map d [1..<m + 1]) @ drop (32 * m) key"
  using assms(2,3)
proof (induction m)
  case (Suc m)
  let ?a = "concat (map d [1..<m + 1])"
  have "length ?a = 32 * m" using length_concat_blocks [of d 32 "[1..<m + 1]"] d by simp
  then have "blit (?a @ drop (32 * m) key) (m * 32) (d (Suc m)) = ?a @ d (Suc m) @ drop (32 * Suc m) key"
    using Suc.prems blit_at_end [of ?a "32 * m" "d (Suc m)" "drop (32 * m) key"] d by (simp add: mult.commute)
  then show ?case using Suc by simp
qed simp

lemma ceil32: "(k + 31) div 32 = (if k mod 32 \<noteq> 0 then k div 32 + 1 else k div 32)" for k :: nat
proof -
  define q r where "q = k div 32" and "r = k mod 32"
  have "k = 32 * q + r" "r < 32" by (simp_all add: q_def r_def)
  then show ?thesis unfolding q_def [symmetric] r_def [symmetric] by (intro div_nat_eqI) auto
qed

lemma assemble_key:
  assumes d: "\<And>i. length (d i) = 32" and "keylen \<le> length key"
    and "(n, l) = (if keylen mod 32 \<noteq> 0 then (keylen div 32 + 1, keylen mod 32) else (keylen div 32, 32))"
  shows "foldl (\<lambda>key b. blit key ((b - 1) * 32) (if b < n then d b else take l (d b))) key [1..<n + 1] =
    take keylen (concat (map d [1..<(keylen + 31) div 32 + 1])) @ drop keylen key"
proof (cases "keylen = 0")
  case True
  then show ?thesis using assms(3) by simp
next
  case False
  have n: "n = (keylen + 31) div 32" "0 < n" "32 * (n - 1) + l = keylen" "l \<le> 32"
    using assms(3) False ceil32 [of keylen] by (auto split: if_splits)
  obtain m where m: "n = Suc m" using n(2) gr0_implies_Suc by blast
  let ?a = "concat (map d [1..<m + 1])"
  have la: "length ?a = 32 * m" using length_concat_blocks [of d 32 "[1..<m + 1]"] d by simp
  have "foldl (\<lambda>key b. blit key ((b - 1) * 32) (if b < n then d b else take l (d b))) key [1..<n + 1] =
      blit (?a @ drop (32 * m) key) (m * 32) (take l (d n))"
    using full_blocks [of d m n key l] d m n(3) assms(2) by simp
  also have "\<dots> = (?a @ take l (d n)) @ drop keylen key"
    using blit_at_end [of ?a "32 * m" "take l (d n)" "drop (32 * m) key"] la m n(3,4) assms(2) d [of n]
    by (simp add: mult.commute add.commute)
  also have "?a @ take l (d n) = take keylen (concat (map d [1..<n + 1]))"
  proof -
    have "[1..<n + 1] = [1..<m + 1] @ [n]" by (simp add: m)
    then have "concat (map d [1..<n + 1]) = ?a @ d n" by (simp only: map_append concat_append) simp
    moreover have "take keylen ?a = ?a" "keylen - length ?a = l" using la m n(3) by auto
    ultimately show ?thesis by (simp only: take_append)
  qed
  finally show ?thesis unfolding n(1) [symmetric] by simp
qed

section \<open>Properties\<close>

lemma pbkdf2_hmac_sha256_spec:
  assumes "0 < iterations" "keylen \<le> length key" "keylen < 2 ^ 31"
  shows "pbkdf2_hmac_sha256 pass salt iterations keylen key =
    pbkdf2_spec (hmac_spec sha256_spec 64 pass) 32 salt (unat iterations) keylen @ drop keylen key"
proof -
  define d where "d i = pbkdf2_F (prf256 pass) (salt @ be32 (unat (of_nat i :: u32))) (unat iterations - 1)" for i
  have d: "length (d i) = 32" for i unfolding d_def by (rule pbkdf2_F_length) (rule k256.length_hmac)
  obtain n l where nl: "(n, l) = (if keylen mod 32 \<noteq> 0 then (keylen div 32 + 1, keylen mod 32) else (keylen div 32, 32))"
    by (metis surj_pair)
  have "pbkdf2_hmac_sha256 pass salt iterations keylen key =
      foldl (\<lambda>key b. blit key ((b - 1) * 32) (if b < n then d b else take l (d b))) key [1..<n + 1]"
    unfolding pbkdf2_hmac_sha256_def nl [symmetric] Let_def prod.case pbkdf2_block256 [OF assms(1)] d_def ..
  also have "\<dots> = take keylen (concat (map d [1..<(keylen + 31) div 32 + 1])) @ drop keylen key"
    by (rule assemble_key [OF d assms(2) nl])
  also have "map d [1..<(keylen + 31) div 32 + 1] =
      map (\<lambda>i. pbkdf2_F (prf256 pass) (salt @ be32 i) (unat iterations - 1)) [1..<(keylen + 31) div 32 + 1]"
    using assms(3) by (intro map_cong refl) (auto simp: d_def unat_of_nat)
  also have "keylen + 31 = keylen + 32 - 1" by simp
  finally show ?thesis unfolding pbkdf2_spec_def .
qed

text \<open>
  C34. HMAC-SHA-256, computed in one call or through the init, write and finalize functions on any
  cutting of the message, is the HMAC of RFC 2104 for every key length: keys longer than a block are
  hashed first, shorter ones are padded with zeros.
\<close>

theorem hmac_sha256_correct:
  "hmac_sha256 key (concat ds) = hmac_spec sha256_spec 64 key (concat ds) \<and>
   hmac_sha256_finalize (foldl hmac_sha256_write (hmac_sha256_init key) ds) = hmac_spec sha256_spec 64 key (concat ds)"
  by (simp add: hmac_sha256_oneshot hmac_sha256_chunks)

text \<open>
  \<open>pbkdf2_hmac_sha256\<close> fills the first \<open>keylen\<close> bytes of the key buffer with the PBKDF2 of RFC 8018
  over HMAC-SHA-256, for every positive iteration count and every length, a partial last block
  included, and leaves the rest of the buffer alone.
\<close>

theorem pbkdf2_hmac_sha256_correct:
  assumes "0 < iterations" "keylen \<le> length key" "keylen < 2 ^ 31"
  shows "pbkdf2_hmac_sha256 pass salt iterations keylen key =
    pbkdf2_spec (hmac_spec sha256_spec 64 pass) 32 salt (unat iterations) keylen @ drop keylen key"
  by (rule pbkdf2_hmac_sha256_spec [OF assms])

theorem pbkdf2_hmac_sha256_correct_witness:
  "pbkdf2_hmac_sha256 [1] [2] 3 40 (replicate 50 0) =
    pbkdf2_spec (hmac_spec sha256_spec 64 [1]) 32 [2] 3 40 @ replicate 10 0"
  using pbkdf2_hmac_sha256_correct [of 3 40 "replicate 50 0" "[1]" "[2]"] by simp

text \<open>
  \<open>pbkdf2_hmac_sha512\<close>, the function that stretches a mnemonic sentence to a seed, is the first
  64-byte block of PBKDF2 over HMAC-SHA-512 for every positive iteration count.
\<close>

theorem pbkdf2_hmac_sha512_correct:
  assumes "0 < iterations" "length pass < 2 ^ 61" "length salt < 2 ^ 61"
  shows "pbkdf2_hmac_sha512 pass salt iterations =
    pbkdf2_spec (hmac_spec sha512_spec 128 pass) 64 salt (unat iterations) 64"
proof -
  have "length (pbkdf2_F (prf512 pass) s k) = 64" for s k by (rule pbkdf2_F_length) (rule k512.length_hmac)
  then show ?thesis by (simp add: pbkdf2_512_correct [OF assms] pbkdf2_spec_def)
qed

theorem pbkdf2_hmac_sha512_correct_witness:
  "pbkdf2_hmac_sha512 [1] [2] 2048 = pbkdf2_spec (hmac_spec sha512_spec 128 [1]) 64 [2] 2048 64"
  using pbkdf2_hmac_sha512_correct [of 2048 "[1]" "[2]"] by simp

end
