(* ===== verification/Merkle.thy ===== *)
theory Merkle
  imports Sha2 Tx
begin

text \<open>
  Model of the merkle tree code: \<open>dogecoin_compute_merkle_root\<close> and \<open>dogecoin_block_merkle_root\<close> of
  \<open>src/src/block.c\<close>, \<open>check_merkle_branch\<close> and \<open>get_expected_index\<close> of \<open>src/src/auxpow.c\<close>.

  The root computation keeps one pending node per level in the array \<open>inner\<close>, indexed by the bits
  of a 32-bit counter. The model keeps the counter at its width and makes a shift by 32 or more and
  the access behind the end of \<open>inner\<close> a fault. It is proved equal to the textbook definition that
  halves the list of nodes, on roots and on the duplicate flag.
\<close>

unbundle bit_operations_syntax

section \<open>The code\<close>

text \<open>
  The loop over the levels, shared by the two places of the code that have it: from \<open>level\<close> up to the
  lowest set bit of \<open>count\<close>, combining the pending node with \<open>h\<close>.
\<close>

function merkle_climb :: "u32 \<Rightarrow> bytes list \<Rightarrow> nat \<Rightarrow> bytes \<Rightarrow> bool \<Rightarrow> (nat \<times> bytes \<times> bool) c_outcome" where
  "merkle_climb count inner level h mutated =
     (if 32 \<le> level then Inl OutOfBounds
      else if count AND push_bit level 1 \<noteq> 0 then Inr (level, h, mutated)
      else merkle_climb count inner (level + 1) (dogecoin_hash (inner ! level @ h))
             (mutated \<or> inner ! level = h))"
  by pat_completeness auto
termination by (relation "measure (\<lambda>(c, i, l, h, m). 32 - l)") auto

declare merkle_climb.simps [simp del]

fun merkle_leaves :: "bytes list \<Rightarrow> u32 \<Rightarrow> bytes list \<Rightarrow> bool \<Rightarrow> (u32 \<times> bytes list \<times> bool) c_outcome" where
  "merkle_leaves [] count inner mutated = Inr (count, inner, mutated)"
| "merkle_leaves (h # leaves) count inner mutated =
     seqc (merkle_climb (count + 1) inner 0 h mutated)
       (\<lambda>(level, h2, mutated2). merkle_leaves leaves (count + 1) (inner[level := h2]) mutated2)"

text \<open>\<open>while (!(count & (1 << level))) level++\<close>\<close>

function lowest_level :: "u32 \<Rightarrow> nat \<Rightarrow> nat c_outcome" where
  "lowest_level count level =
     (if 32 \<le> level then Inl OutOfBounds
      else if count AND push_bit level 1 \<noteq> 0 then Inr level
      else lowest_level count (level + 1))"
  by pat_completeness auto
termination by (relation "measure (\<lambda>(c, l). 32 - l)") auto

declare lowest_level.simps [simp del]

lemma merkle_climb_mono: "merkle_climb count inner level h m = Inr (l, h2, m2) \<Longrightarrow> level \<le> l \<and> l < 32"
proof (induction count inner level h m rule: merkle_climb.induct)
  case (1 count inner level h m)
  show ?case
  proof (cases "32 \<le> level \<or> count AND push_bit level 1 \<noteq> 0")
    case True
    then show ?thesis using "1.prems" by (auto simp: merkle_climb.simps [of count inner level] split: if_splits)
  next
    case False
    then show ?thesis using "1.IH" "1.prems" by (simp add: merkle_climb.simps [of count inner level])
  qed
qed

function merkle_sweep :: "u32 \<Rightarrow> bytes list \<Rightarrow> nat \<Rightarrow> bytes \<Rightarrow> bool \<Rightarrow> (bytes \<times> bool) c_outcome" where
  "merkle_sweep count inner level h mutated =
     (if 32 \<le> level then Inl OutOfBounds
      else if count = push_bit level 1 then Inr (h, mutated)
      else
        case merkle_climb (count + push_bit level 1) inner (level + 1) (dogecoin_hash (h @ h)) mutated of
          Inl e \<Rightarrow> Inl e
        | Inr (l, h2, m2) \<Rightarrow> merkle_sweep (count + push_bit level 1) inner l h2 m2)"
  by pat_completeness auto
termination
  by (relation "measure (\<lambda>(c, i, l, h, m). 32 - l)") (auto dest!: merkle_climb_mono)

declare merkle_sweep.simps [simp del]

text \<open>The root and the duplicate flag; \<open>None\<close> leaves is a null pointer.\<close>

definition compute_merkle_root :: "bytes list option \<Rightarrow> (bytes \<times> bool) c_outcome" where
  "compute_merkle_root leaves =
     (case leaves of
        None \<Rightarrow> Inr (replicate 32 0, False)
      | Some ls \<Rightarrow>
          if ls = [] then Inr (replicate 32 0, False)
          else if length ls > 0xFFFFFFFF then Inr (replicate 32 0, False)
          else
            seqc (merkle_leaves ls 0 (replicate 32 (replicate 32 0)) False) (\<lambda>(count, inner, mutated).
            seqc (lowest_level count 0) (\<lambda>level.
            merkle_sweep count inner level (inner ! level) mutated)))"

text \<open>
  \<open>dogecoin_block_merkle_root\<close>: a missing transaction array, an empty one or a hole in it makes it
  return false, with the duplicate flag false. The result is the return value, the root and the flag.
\<close>

definition block_merkle_root :: "dogecoin_tx option list option \<Rightarrow> (bytes option \<times> bool) c_outcome" where
  "block_merkle_root txs =
     (case txs of
        None \<Rightarrow> Inr (None, False)
      | Some ts \<Rightarrow>
          if ts = [] then Inr (None, False)
          else if list_ex (\<lambda>t. t = None) ts then Inr (None, False)
          else seqc (compute_merkle_root (Some (map (\<lambda>t. tx_hash dogecoin_hash (the t)) ts)))
                 (\<lambda>(root, mutated). Inr (Some root, mutated)))"

text \<open>The branch check: the index is a C \<open>int\<close>, shifted arithmetically.\<close>

fun branch_loop :: "bytes \<Rightarrow> bytes list \<Rightarrow> u32 \<Rightarrow> bytes" where
  "branch_loop current [] index = current"
| "branch_loop current (b # branch) index =
     branch_loop (if index AND 1 \<noteq> 0 then sha256d_2_input b current else sha256d_2_input current b)
       branch (signed_drop_bit 1 index)"

definition check_merkle_branch :: "bytes \<Rightarrow> bytes list \<Rightarrow> u32 \<Rightarrow> bytes" where
  "check_merkle_branch hash merkle_branch index =
     (if index = - 1 then replicate 32 0 else branch_loop hash merkle_branch index)"

definition get_expected_index :: "u32 \<Rightarrow> u32 \<Rightarrow> nat \<Rightarrow> u32" where
  "get_expected_index nNonce nChainId h =
     (let r1 = nNonce * 1103515245 + 12345;
          r2 = r1 + nChainId;
          r3 = r2 * 1103515245 + 12345 in
      r3 mod push_bit h 1)"

section \<open>The textbook tree\<close>

text \<open>One level of the tree: pairs are hashed together, a last single node with itself.\<close>

fun pair_up :: "bytes list \<Rightarrow> bytes list" where
  "pair_up [] = []"
| "pair_up [x] = [dogecoin_hash (x @ x)]"
| "pair_up (x # y # zs) = dogecoin_hash (x @ y) # pair_up zs"

lemma length_pair_up: "length (pair_up xs) = (length xs + 1) div 2"
  by (induction xs rule: pair_up.induct) auto

function merkle_root :: "bytes list \<Rightarrow> bytes" where
  "merkle_root xs = (if length xs \<le> 1 then (case xs of [] \<Rightarrow> replicate 32 0 | x # _ \<Rightarrow> x) else merkle_root (pair_up xs))"
  by pat_completeness auto
termination by (relation "measure length") (auto simp: length_pair_up)

declare merkle_root.simps [simp del]

text \<open>Two equal nodes side by side under one parent, at any level.\<close>

fun twin_pair :: "bytes list \<Rightarrow> bool" where
  "twin_pair (x # y # zs) \<longleftrightarrow> x = y \<or> twin_pair zs"
| "twin_pair _ \<longleftrightarrow> False"

function merkle_mutated :: "bytes list \<Rightarrow> bool" where
  "merkle_mutated xs = (if length xs \<le> 1 then False else twin_pair xs \<or> merkle_mutated (pair_up xs))"
  by pat_completeness auto
termination by (relation "measure length") (auto simp: length_pair_up)

declare merkle_mutated.simps [simp del]

section \<open>Levels of the tree\<close>

text \<open>The nodes over complete pairs only: what the code has computed while leaves may still follow.\<close>

fun full_pairs :: "bytes list \<Rightarrow> bytes list" where
  "full_pairs (x # y # zs) = dogecoin_hash (x @ y) # full_pairs zs"
| "full_pairs _ = []"

primrec full_level :: "bytes list \<Rightarrow> nat \<Rightarrow> bytes list" where
  "full_level xs 0 = xs"
| "full_level xs (Suc k) = full_pairs (full_level xs k)"

primrec tree_level :: "bytes list \<Rightarrow> nat \<Rightarrow> bytes list" where
  "tree_level xs 0 = xs"
| "tree_level xs (Suc k) = pair_up (tree_level xs k)"

lemma length_full_pairs: "length (full_pairs xs) = length xs div 2"
  by (induction xs rule: full_pairs.induct) auto

lemma length_full_level: "length (full_level xs k) = length xs div 2 ^ k"
  by (induction k) (simp_all add: length_full_pairs mult.commute flip: div_mult2_eq)

lemma full_pairs_snoc:
  "full_pairs (xs @ [h]) = (if even (length xs) then full_pairs xs else full_pairs xs @ [dogecoin_hash (last xs @ h)])"
  by (induction xs rule: full_pairs.induct) auto

lemma twin_pair_snoc: "twin_pair (xs @ [h]) \<longleftrightarrow> twin_pair xs \<or> (odd (length xs) \<and> last xs = h)"
  by (induction xs rule: twin_pair.induct) auto

lemma pair_up_even: "even (length xs) \<Longrightarrow> pair_up xs = full_pairs xs"
  by (induction xs rule: pair_up.induct) auto

lemma pair_up_snoc:
  "pair_up (xs @ [h]) = full_pairs xs @ [if even (length xs) then dogecoin_hash (h @ h) else dogecoin_hash (last xs @ h)]"
  by (induction xs rule: full_pairs.induct) auto

lemma level_bit:
  assumes "unat (count :: u32) = n" "k < 32"
  shows "count AND push_bit k 1 \<noteq> 0 \<longleftrightarrow> odd (n div 2 ^ k)"
proof -
  have "count AND push_bit k 1 = of_bool (bit count k) * push_bit k 1"
    by (auto intro!: bit_word_eqI simp: bit_and_iff bit_push_bit_iff bit_1_iff bit_exp_iff)
  moreover have "push_bit k 1 \<noteq> (0 :: u32)" using assms(2) by (simp add: push_bit_eq_mult)
  moreover have "bit count k \<longleftrightarrow> odd (n div 2 ^ k)"
    using bit_unsigned_iff [of count k, where 'a = nat] assms by (simp add: bit_iff_odd)
  ultimately show ?thesis by auto
qed

section \<open>The first loop\<close>

text \<open>
  After the leaves \<open>xs\<close>: on every level with an odd number of complete nodes the last one is pending,
  and the flag tells whether two equal nodes have been combined.
\<close>

definition pending_ok :: "bytes list \<Rightarrow> u32 \<Rightarrow> bytes list \<Rightarrow> bool \<Rightarrow> bool" where
  "pending_ok xs count inner mutated \<longleftrightarrow>
     unat count = length xs \<and> length inner = 32 \<and>
     (\<forall>k < 32. odd (length (full_level xs k)) \<longrightarrow> inner ! k = last (full_level xs k)) \<and>
     (mutated \<longleftrightarrow> (\<exists>k. twin_pair (full_level xs k)))"

text \<open>
  A new leaf extends the levels up to the lowest set bit \<open>l\<close> of the new count by one node each, and
  changes nothing above.
\<close>

lemma full_level_snoc_above:
  assumes "full_level (xs @ [x]) l = full_level xs l @ [h]" "even (length (full_level xs l))"
  shows "l < j \<Longrightarrow> full_level (xs @ [x]) j = full_level xs j"
proof (induction j)
  case (Suc j)
  show ?case
  proof (cases "j = l")
    case True
    then show ?thesis using assms by (simp add: full_pairs_snoc)
  qed (use Suc in simp)
qed simp

lemma climb_leaf:
  assumes "unat count = length xs + 1" "length xs + 1 < 2 ^ 32" "length inner = 32"
    and pend: "\<And>k. k < 32 \<Longrightarrow> odd (length (full_level xs k)) \<Longrightarrow> inner ! k = last (full_level xs k)"
  shows "2 ^ level dvd length xs + 1 \<Longrightarrow> full_level (xs @ [x]) level = full_level xs level @ [h] \<Longrightarrow>
    \<exists>l h2 m2. merkle_climb count inner level h m = Inr (l, h2, m2) \<and> level \<le> l \<and> l < 32 \<and>
      (\<forall>j. level \<le> j \<and> j < l \<longrightarrow> odd (length (full_level xs j))) \<and> even (length (full_level xs l)) \<and>
      full_level (xs @ [x]) l = full_level xs l @ [h2] \<and>
      (m2 \<longleftrightarrow> m \<or> (\<exists>j. (level \<le> j \<and> j < l) \<and> full_level (xs @ [x]) j = full_level xs j @ [last (full_level xs j)]))"
proof (induction "32 - level" arbitrary: level h m)
  case 0
  then have "(2 :: nat) ^ 32 dvd 2 ^ level" by (intro le_imp_power_dvd) simp
  then have "(2 :: nat) ^ 32 dvd length xs + 1" using "0.prems"(1) by (rule dvd_trans)
  then show ?case using assms(2) by (auto dest: dvd_imp_le)
next
  case (Suc d)
  have lv: "level < 32" using Suc.hyps(2) by simp
  let ?F = "full_level xs level"
  have len: "length (xs @ [x]) div 2 ^ level = length ?F + 1"
    using Suc.prems(2) length_full_level [of "xs @ [x]" level] by simp
  have bt: "count AND push_bit level 1 \<noteq> 0 \<longleftrightarrow> even (length ?F)"
    using level_bit [of count "length (xs @ [x])" level] assms(1) lv len by simp
  show ?case
  proof (cases "even (length ?F)")
    case True
    then have "merkle_climb count inner level h m = Inr (level, h, m)"
      using bt lv by (simp add: merkle_climb.simps [of count inner level])
    then show ?thesis using True lv Suc.prems by auto
  next
    case False
    have inn: "inner ! level = last ?F" using pend [OF lv] False by simp
    let ?h = "dogecoin_hash (last ?F @ h)"
    have step: "merkle_climb count inner level h m = merkle_climb count inner (Suc level) ?h (m \<or> last ?F = h)"
      using bt lv False inn by (simp add: merkle_climb.simps [of count inner level])
    obtain q where q: "length xs + 1 = 2 ^ level * q" using Suc.prems(1) by (auto elim: dvdE)
    have "q = length ?F + 1" using len q by simp
    then have "2 ^ Suc level dvd length xs + 1" using False q by (auto elim!: oddE)
    moreover have nx: "full_level (xs @ [x]) (Suc level) = full_level xs (Suc level) @ [?h]"
      using Suc.prems(2) False by (simp add: full_pairs_snoc)
    moreover have "d = 32 - Suc level" using Suc.hyps(2) by simp
    ultimately obtain l h2 m2 where ih: "merkle_climb count inner (Suc level) ?h (m \<or> last ?F = h) = Inr (l, h2, m2)"
      "Suc level \<le> l" "l < 32" "\<forall>j. Suc level \<le> j \<and> j < l \<longrightarrow> odd (length (full_level xs j))"
      "even (length (full_level xs l))" "full_level (xs @ [x]) l = full_level xs l @ [h2]"
      "m2 \<longleftrightarrow> (m \<or> last ?F = h) \<or>
        (\<exists>j. (Suc level \<le> j \<and> j < l) \<and> full_level (xs @ [x]) j = full_level xs j @ [last (full_level xs j)])"
      using Suc.hyps(1) [of "Suc level" ?h "m \<or> last ?F = h"] by blast
    have split: "level \<le> j \<and> j < l \<longleftrightarrow> j = level \<or> Suc level \<le> j \<and> j < l" for j using ih(2) by auto
    have "\<forall>j. level \<le> j \<and> j < l \<longrightarrow> odd (length (full_level xs j))" unfolding split using ih(4) False by auto
    moreover have "m2 \<longleftrightarrow> m \<or>
        (\<exists>j. (level \<le> j \<and> j < l) \<and> full_level (xs @ [x]) j = full_level xs j @ [last (full_level xs j)])"
      unfolding split ih(7) using Suc.prems(2) by auto
    ultimately show ?thesis unfolding step using ih by auto
  qed
qed

lemma leaf_step:
  assumes "pending_ok xs count inner m" "length xs + 1 < 2 ^ 32"
  shows "\<exists>l h2 m2. merkle_climb (count + 1) inner 0 x m = Inr (l, h2, m2) \<and>
    pending_ok (xs @ [x]) (count + 1) (inner[l := h2]) m2"
proof -
  have p: "unat count = length xs" "length inner = 32"
    "\<And>k. k < 32 \<Longrightarrow> odd (length (full_level xs k)) \<Longrightarrow> inner ! k = last (full_level xs k)"
    "m \<longleftrightarrow> (\<exists>k. twin_pair (full_level xs k))"
    using assms(1) by (auto simp: pending_ok_def)
  have c: "unat (count + 1) = length xs + 1" using assms(2) p(1) by (simp add: unat_word_ariths)
  obtain l h2 m2 where cl: "merkle_climb (count + 1) inner 0 x m = Inr (l, h2, m2)" "l < 32"
    "\<And>j. j < l \<Longrightarrow> odd (length (full_level xs j))" "even (length (full_level xs l))"
    "full_level (xs @ [x]) l = full_level xs l @ [h2]"
    "m2 \<longleftrightarrow> m \<or> (\<exists>j. j < l \<and> full_level (xs @ [x]) j = full_level xs j @ [last (full_level xs j)])"
    using climb_leaf [OF c assms(2) p(2,3), of 0 x x m] by auto
  note above = full_level_snoc_above [OF cl(5,4)]
  have below: "\<exists>h. full_level (xs @ [x]) j = full_level xs j @ [h]" if "j \<le> l" for j
    using that
  proof (induction j)
    case (Suc j)
    then show ?case using cl(3) [of j] by (auto simp: full_pairs_snoc)
  qed simp
  have tw: "twin_pair (full_level (xs @ [x]) j) \<longleftrightarrow> twin_pair (full_level xs j) \<or>
      (j < l \<and> full_level (xs @ [x]) j = full_level xs j @ [last (full_level xs j)])" for j
  proof (cases "l < j")
    case False
    then obtain h where "full_level (xs @ [x]) j = full_level xs j @ [h]" using below [of j] by auto
    then show ?thesis using cl(3) [of j] cl(4) False by (cases "j = l") (auto simp: twin_pair_snoc)
  qed (use above in auto)
  have pend: "inner[l := h2] ! k = last (full_level (xs @ [x]) k)"
    if "k < 32" "odd (length (full_level (xs @ [x]) k))" for k
  proof -
    consider "k < l" | "k = l" | "l < k" by linarith
    then show ?thesis
    proof cases
      case 1
      then show ?thesis using below [of k] cl(3) [of k] that(2) by auto
    next
      case 2
      then show ?thesis using cl(2,5) p(2) by simp
    next
      case 3
      then show ?thesis using above [of k] p(3) [of k] that by simp
    qed
  qed
  have "m2 \<longleftrightarrow> (\<exists>k. twin_pair (full_level (xs @ [x]) k))" unfolding cl(6) p(4) tw by blast
  then have "pending_ok (xs @ [x]) (count + 1) (inner[l := h2]) m2"
    using c p(2) pend by (simp add: pending_ok_def)
  then show ?thesis using cl(1) by blast
qed

lemma merkle_leaves_ok:
  "pending_ok xs count inner m \<Longrightarrow> length xs + length ys < 2 ^ 32 \<Longrightarrow>
    \<exists>count' inner' m'. merkle_leaves ys count inner m = Inr (count', inner', m') \<and> pending_ok (xs @ ys) count' inner' m'"
proof (induction ys arbitrary: xs count inner m)
  case (Cons y ys)
  obtain l h2 m2 where s: "merkle_climb (count + 1) inner 0 y m = Inr (l, h2, m2)"
    "pending_ok (xs @ [y]) (count + 1) (inner[l := h2]) m2"
    using leaf_step [OF Cons.prems(1), of y] Cons.prems(2) by auto
  then show ?case using Cons.IH [OF s(2)] Cons.prems(2) by simp
qed simp

lemma twin_pair_short: "length xs \<le> 1 \<Longrightarrow> \<not> twin_pair xs"
  by (cases xs rule: twin_pair.cases) auto

lemma pending_empty: "pending_ok [] 0 (replicate 32 z) False"
proof -
  have "full_level [] k = []" for k by (induction k) auto
  then show ?thesis by (simp add: pending_ok_def)
qed

section \<open>The sweep\<close>

lemma tree_level_full: "tree_level xs k = full_level xs k \<or> (\<exists>p. tree_level xs k = full_level xs k @ [p])"
proof (induction k)
  case (Suc k)
  have "pair_up ys = full_pairs ys \<or> (\<exists>p. pair_up ys = full_pairs ys @ [p])" for ys
    by (induction ys rule: pair_up.induct) auto
  moreover have "\<exists>p. pair_up (ys @ [h]) = full_pairs ys @ [p]" for ys h by (simp add: pair_up_snoc)
  ultimately show ?case using Suc by (metis full_level.simps(2) tree_level.simps(2))
qed simp

lemma twin_full_tree: "twin_pair (full_level xs k) \<Longrightarrow> twin_pair (tree_level xs k)"
  using tree_level_full [of xs k] by (auto simp: twin_pair_snoc)

lemma merkle_root_level:
  "\<forall>j < k. 1 < length (tree_level xs j) \<Longrightarrow> merkle_root xs = merkle_root (tree_level xs k)"
proof (induction k)
  case (Suc k)
  have "merkle_root (tree_level xs k) = merkle_root (tree_level xs (Suc k))"
    using Suc.prems by (subst merkle_root.simps) auto
  then show ?case using Suc by simp
qed simp

lemma merkle_mutated_level:
  "\<forall>j < k. 1 < length (tree_level xs j) \<Longrightarrow>
    merkle_mutated xs \<longleftrightarrow> (\<exists>i < k. twin_pair (tree_level xs i)) \<or> merkle_mutated (tree_level xs k)"
proof (induction k)
  case (Suc k)
  have "merkle_mutated (tree_level xs k) \<longleftrightarrow> twin_pair (tree_level xs k) \<or> merkle_mutated (tree_level xs (Suc k))"
    using Suc.prems by (subst merkle_mutated.simps) auto
  then show ?case using Suc by (auto simp: less_Suc_eq)
qed simp

lemma tree_level_single: "length (tree_level xs k) = 1 \<Longrightarrow> k \<le> j \<Longrightarrow> length (tree_level xs j) = 1"
  by (induction j) (auto simp: le_Suc_eq length_pair_up)

lemma lowest_level_ok:
  assumes "unat count = n" "0 < n"
  shows "2 ^ level dvd n \<Longrightarrow> \<exists>l. lowest_level count level = Inr l \<and> l < 32 \<and> 2 ^ l dvd n \<and> odd (n div 2 ^ l)"
proof (induction "32 - level" arbitrary: level)
  case 0
  then have "(2 :: nat) ^ 32 dvd 2 ^ level" by (intro le_imp_power_dvd) simp
  then have "(2 :: nat) ^ 32 dvd n" using "0.prems"(1) by (rule dvd_trans)
  then show ?case using assms unat_u32_less [of count] by (auto dest: dvd_imp_le)
next
  case (Suc d)
  have lv: "level < 32" using Suc.hyps(2) by simp
  note bt = level_bit [OF assms(1) lv]
  show ?case
  proof (cases "odd (n div 2 ^ level)")
    case True
    then show ?thesis using lv bt Suc.prems by (subst lowest_level.simps) auto
  next
    case False
    obtain q where "n = 2 ^ level * q" using Suc.prems by (auto elim: dvdE)
    then have "2 ^ Suc level dvd n" using False by auto
    then show ?thesis
      using Suc.hyps(1) [of "Suc level"] Suc.hyps(2) lv bt False by (subst lowest_level.simps) auto
  qed
qed

text \<open>
  The state of the sweep on level \<open>k\<close>: \<open>h\<close> is the last node of the level, the counter stands for a
  padded number of leaves, and the flag covers every combination so far.
\<close>

definition flag_ok :: "bytes list \<Rightarrow> nat \<Rightarrow> bool \<Rightarrow> bool" where
  "flag_ok xs k m \<longleftrightarrow> (m \<longleftrightarrow> (\<exists>j. twin_pair (full_level xs j)) \<or> (\<exists>i < k. twin_pair (tree_level xs i)))"

definition sweep_ok :: "bytes list \<Rightarrow> nat \<Rightarrow> u32 \<Rightarrow> bytes \<Rightarrow> bool \<Rightarrow> bool" where
  "sweep_ok xs k count h m \<longleftrightarrow>
     unat count = 2 ^ k * length (tree_level xs k) \<and> unat count \<le> 2 ^ 31 \<and>
     (\<exists>ys. tree_level xs k = ys @ [h] \<and> (full_level xs k = ys \<or> full_level xs k = ys @ [h])) \<and>
     (\<forall>j < k. 1 < length (tree_level xs j)) \<and> flag_ok xs k m"

lemma sweep_okI:
  assumes "unat count = 2 ^ k * length (tree_level xs k)" "unat count \<le> 2 ^ 31"
    and "tree_level xs k = full_level xs k @ [h]" "\<forall>j < k. 1 < length (tree_level xs j)" "flag_ok xs k m"
  shows "sweep_ok xs k count h m"
  using assms unfolding sweep_ok_def by blast

lemma flag_ok_Suc:
  assumes "flag_ok xs k m"
  shows "flag_ok xs (Suc k) (m \<or> twin_pair (tree_level xs k))"
  using assms by (auto simp: flag_ok_def less_Suc_eq)

lemma climb_sweep:
  assumes "length inner = 32"
    and pend: "\<And>k. k < 32 \<Longrightarrow> odd (length (full_level xs k)) \<Longrightarrow> inner ! k = last (full_level xs k)"
  shows "sweep_ok xs level count h m \<Longrightarrow> tree_level xs level = full_level xs level @ [h] \<Longrightarrow>
    \<exists>l h2 m2. merkle_climb count inner level h m = Inr (l, h2, m2) \<and> level \<le> l \<and> l < 32 \<and>
      odd (length (tree_level xs l)) \<and> sweep_ok xs l count h2 m2"
proof (induction "32 - level" arbitrary: level h m)
  case 0
  then have "(2 :: nat) ^ 32 \<le> 2 ^ level" by (intro power_increasing) simp_all
  also have "\<dots> \<le> unat count" using "0.prems"(1) by (auto simp: sweep_ok_def)
  finally show ?case using "0.prems"(1) by (simp add: sweep_ok_def)
next
  case (Suc d)
  have lv: "level < 32" using Suc.hyps(2) by simp
  let ?F = "full_level xs level" and ?C = "tree_level xs level"
  have C: "?C = ?F @ [h]" by fact
  have ok: "unat count = 2 ^ level * length ?C" "unat count \<le> 2 ^ 31" "\<forall>j < level. 1 < length (tree_level xs j)"
    "flag_ok xs level m" using Suc.prems(1) by (auto simp: sweep_ok_def)
  have bt: "count AND push_bit level 1 \<noteq> 0 \<longleftrightarrow> odd (length ?C)"
    using level_bit [OF ok(1) lv] by simp
  show ?case
  proof (cases "odd (length ?C)")
    case True
    then have "merkle_climb count inner level h m = Inr (level, h, m)"
      using bt lv by (simp add: merkle_climb.simps [of count inner level])
    then show ?thesis using True lv Suc.prems(1) by auto
  next
    case False
    then have oF: "odd (length ?F)" using C by simp
    have inn: "inner ! level = last ?F" using pend [OF lv oF] .
    let ?h = "dogecoin_hash (last ?F @ h)"
    have step: "merkle_climb count inner level h m = merkle_climb count inner (Suc level) ?h (m \<or> last ?F = h)"
      using bt lv False inn by (simp add: merkle_climb.simps [of count inner level])
    have nx: "tree_level xs (Suc level) = full_level xs (Suc level) @ [?h]"
      using C oF by (simp add: pair_up_snoc)
    have "twin_pair ?C \<longleftrightarrow> twin_pair ?F \<or> last ?F = h" using C oF by (simp add: twin_pair_snoc)
    then have "(m \<or> twin_pair ?C) = (m \<or> last ?F = h)" using ok(4) by (auto simp: flag_ok_def)
    then have fl: "flag_ok xs (Suc level) (m \<or> last ?F = h)" using flag_ok_Suc [OF ok(4)] by simp
    have "length (tree_level xs (Suc level)) * 2 = length ?C" using False by (simp add: length_pair_up)
    then have "unat count = 2 ^ Suc level * length (tree_level xs (Suc level))"
      unfolding ok(1) power_Suc by (metis mult.assoc mult.commute)
    moreover have "\<forall>j < Suc level. 1 < length (tree_level xs j)"
      using ok(3) odd_pos [OF oF] C by (simp add: All_less_Suc)
    ultimately have "sweep_ok xs (Suc level) count ?h (m \<or> last ?F = h)"
      using ok(2) fl nx by (intro sweep_okI)
    then show ?thesis
      unfolding step using Suc.hyps(1) [of "Suc level" ?h "m \<or> last ?F = h"] Suc.hyps(2) nx by fastforce
  qed
qed

lemma sweep_next:
  assumes "sweep_ok xs k count h m" "odd (length (tree_level xs k))" "count \<noteq> push_bit k 1" "k < 32"
  shows "sweep_ok xs (Suc k) (count + push_bit k 1) (dogecoin_hash (h @ h)) m"
    and "tree_level xs (Suc k) = full_level xs (Suc k) @ [dogecoin_hash (h @ h)]"
proof -
  let ?n = "length (tree_level xs k)"
  obtain ys where ys: "tree_level xs k = ys @ [h]" "full_level xs k = ys \<or> full_level xs k = ys @ [h]"
    using assms(1) by (auto simp: sweep_ok_def)
  have ok: "unat count = 2 ^ k * ?n" "unat count \<le> 2 ^ 31" "\<forall>j < k. 1 < length (tree_level xs j)" "flag_ok xs k m"
    using assms(1) by (auto simp: sweep_ok_def)
  have ev: "even (length ys)" using assms(2) ys(1) by simp
  show nx: "tree_level xs (Suc k) = full_level xs (Suc k) @ [dogecoin_hash (h @ h)]"
    using ys ev by (auto simp: pair_up_snoc full_pairs_snoc)
  have u1: "unat (push_bit k 1 :: u32) = 2 ^ k" using assms(4) unat_2p [of k, where 'a = 32] by (simp add: push_bit_eq_mult)
  then have n1: "?n \<noteq> 1" using ok(1) assms(3) by (metis mult.right_neutral word_unat_eq_iff)
  then have n: "3 \<le> ?n" using assms(2) by (cases "?n = 2") (auto elim!: oddE)
  have "k < 31"
  proof (rule ccontr)
    assume "\<not> k < 31"
    then have "(2 :: nat) ^ 31 \<le> 2 ^ k" by (intro power_increasing) simp_all
    moreover have "2 ^ k * 3 \<le> 2 ^ k * ?n" using n by (rule mult_le_mono2)
    moreover have "0 < (2 :: nat) ^ k" by simp
    ultimately show False using ok(1,2) by linarith
  qed
  then have p31: "(2 :: nat) ^ 31 = 2 ^ k * 2 ^ (31 - k)" by (simp flip: power_add)
  then have "2 ^ k * ?n \<le> 2 ^ k * 2 ^ (31 - k)" using ok(1,2) by (metis)
  then have "?n \<le> 2 ^ (31 - k)" by (simp only: mult_le_cancel1) simp
  moreover have "?n \<noteq> 2 ^ (31 - k)" using assms(2) \<open>k < 31\<close> by (metis even_power dvd_refl zero_less_diff)
  ultimately have "?n + 1 \<le> 2 ^ (31 - k)" by simp
  then have "2 ^ k * (?n + 1) \<le> 2 ^ 31" unfolding p31 by (rule mult_le_mono2)
  moreover have "unat count + unat (push_bit k 1 :: u32) = 2 ^ k * (?n + 1)" using ok(1) u1 by (simp add: algebra_simps)
  ultimately have cnt: "unat (count + push_bit k 1) = 2 ^ k * (?n + 1)" "unat (count + push_bit k 1) \<le> 2 ^ 31"
    by (simp_all only: unat_word_ariths) simp_all
  have "length (tree_level xs (Suc k)) * 2 = ?n + 1" using assms(2) by (auto simp: length_pair_up elim!: oddE)
  then have c2: "unat (count + push_bit k 1) = 2 ^ Suc k * length (tree_level xs (Suc k))"
    unfolding cnt(1) power_Suc by (metis mult.assoc mult.commute)
  have "twin_pair (tree_level xs k) \<longleftrightarrow> twin_pair (full_level xs k)"
    using ys ev by (auto simp: twin_pair_snoc)
  then have "(m \<or> twin_pair (tree_level xs k)) = m" using ok(4) by (auto simp: flag_ok_def)
  then have "flag_ok xs (Suc k) m" using flag_ok_Suc [OF ok(4)] by simp
  moreover have "\<forall>j < Suc k. 1 < length (tree_level xs j)" using ok(3) n by (simp add: All_less_Suc)
  ultimately show "sweep_ok xs (Suc k) (count + push_bit k 1) (dogecoin_hash (h @ h)) m"
    using c2 cnt(2) nx by (intro sweep_okI)
qed

lemma merkle_sweep_ok:
  assumes "length inner = 32"
    and pend: "\<And>k. k < 32 \<Longrightarrow> odd (length (full_level xs k)) \<Longrightarrow> inner ! k = last (full_level xs k)"
  shows "sweep_ok xs k count h m \<Longrightarrow> odd (length (tree_level xs k)) \<Longrightarrow> k < 32 \<Longrightarrow>
    merkle_sweep count inner k h m = Inr (merkle_root xs, merkle_mutated xs)"
proof (induction "32 - k" arbitrary: k count h m rule: less_induct)
  case less
  show ?case
  proof (cases "count = push_bit k 1")
    case True
    have "unat (push_bit k 1 :: u32) = 2 ^ k"
      using less.prems(3) unat_2p [of k, where 'a = 32] by (simp add: push_bit_eq_mult)
    then have "length (tree_level xs k) = 1" using less.prems(1) True by (auto simp: sweep_ok_def)
    moreover obtain ys where "tree_level xs k = ys @ [h]" using less.prems(1) by (auto simp: sweep_ok_def)
    ultimately have C: "tree_level xs k = [h]" by simp
    have big: "\<forall>j < k. 1 < length (tree_level xs j)" "flag_ok xs k m" using less.prems(1) by (auto simp: sweep_ok_def)
    have "merkle_root xs = h" using merkle_root_level [OF big(1)] C by (simp add: merkle_root.simps [of "[h]"])
    moreover have "merkle_mutated xs \<longleftrightarrow> (\<exists>i < k. twin_pair (tree_level xs i))"
      using merkle_mutated_level [OF big(1)] C by (simp add: merkle_mutated.simps [of "[h]"])
    moreover have "\<exists>i < k. twin_pair (tree_level xs i)" if tw: "twin_pair (full_level xs j)" for j
    proof -
      have "twin_pair (tree_level xs j)" using tw by (rule twin_full_tree)
      moreover have "j < k"
        using tree_level_single [of xs k j] C calculation twin_pair_short [of "tree_level xs j"] by force
      ultimately show ?thesis by blast
    qed
    ultimately have "m = merkle_mutated xs" using big(2) by (auto simp: flag_ok_def)
    then show ?thesis using True less.prems(3) \<open>merkle_root xs = h\<close> by (subst merkle_sweep.simps) simp
  next
    case False
    note nx = sweep_next [OF less.prems(1,2) False less.prems(3)]
    obtain l h2 m2 where c: "merkle_climb (count + push_bit k 1) inner (Suc k) (dogecoin_hash (h @ h)) m = Inr (l, h2, m2)"
      "Suc k \<le> l" "l < 32" "odd (length (tree_level xs l))" "sweep_ok xs l (count + push_bit k 1) h2 m2"
      using climb_sweep [OF assms(1) pend nx] by blast
    have "merkle_sweep (count + push_bit k 1) inner l h2 m2 = Inr (merkle_root xs, merkle_mutated xs)"
      using less.hyps [of l] c(2-5) less.prems(3) by simp
    then show ?thesis using c(1) False less.prems(3) by (subst merkle_sweep.simps) simp
  qed
qed

lemma low_levels:
  assumes "2 ^ l dvd length xs" "0 < length xs"
  shows "k \<le> l \<Longrightarrow> tree_level xs k = full_level xs k \<and> 2 ^ k * length (tree_level xs k) = length xs"
proof (induction k)
  case (Suc k)
  have "2 ^ Suc k dvd length xs" using assms(1) Suc.prems by (meson dvd_trans le_imp_power_dvd)
  moreover have ih: "2 ^ k * length (tree_level xs k) = length xs" using Suc.IH Suc.prems Suc_leD by blast
  ultimately have ev: "even (length (tree_level xs k))" by (metis nat_mult_dvd_cancel_disj power_Suc2 power_not_zero zero_neq_numeral)
  then show ?case using Suc by (auto simp: pair_up_even length_full_pairs)
qed simp

lemma compute_merkle_root_ok:
  assumes "xs \<noteq> []" "length xs \<le> 2 ^ 31"
  shows "compute_merkle_root (Some xs) = Inr (merkle_root xs, merkle_mutated xs)"
proof -
  obtain count inner m where a: "merkle_leaves xs 0 (replicate 32 (replicate 32 0)) False = Inr (count, inner, m)"
    "pending_ok xs count inner m"
    using merkle_leaves_ok [OF pending_empty, of xs "replicate 32 0"] assms(2) by auto
  have p: "unat count = length xs" "length inner = 32"
    "\<And>k. k < 32 \<Longrightarrow> odd (length (full_level xs k)) \<Longrightarrow> inner ! k = last (full_level xs k)"
    "m \<longleftrightarrow> (\<exists>k. twin_pair (full_level xs k))"
    using a(2) by (auto simp: pending_ok_def)
  have pos: "0 < length xs" using assms(1) by simp
  obtain l where l: "lowest_level count 0 = Inr l" "l < 32" "2 ^ l dvd length xs" "odd (length xs div 2 ^ l)"
    using lowest_level_ok [OF p(1) pos, of 0] by auto
  note low = low_levels [OF l(3) pos]
  have oF: "odd (length (full_level xs l))" using l(4) by (simp add: length_full_level)
  have in_l: "inner ! l = last (full_level xs l)" using p(3) [OF l(2) oF] .
  have "tree_level xs l = butlast (full_level xs l) @ [inner ! l]"
    using low [of l] in_l odd_pos [OF oF] by (metis append_butlast_last_id length_greater_0_conv order_refl)
  moreover have "\<forall>j < l. 1 < length (tree_level xs j)"
  proof (intro allI impI)
    fix j
    assume "j < l"
    then have "2 ^ j * length (tree_level xs j) = length xs" "2 ^ Suc j dvd length xs"
      using low [of j] l(3) by (blast intro: less_imp_le, meson Suc_leI dvd_trans le_imp_power_dvd)
    then show "1 < length (tree_level xs j)" using pos by (cases "length (tree_level xs j)"; cases "length (tree_level xs j) = 1") (auto dest!: dvd_imp_le)
  qed
  moreover have "m \<longleftrightarrow> (\<exists>j. twin_pair (full_level xs j)) \<or> (\<exists>i < l. twin_pair (tree_level xs i))"
    using p(4) low by (metis less_imp_le)
  moreover have "2 ^ l * length (tree_level xs l) = length xs" using low [of l] by blast
  ultimately have "sweep_ok xs l count (inner ! l) m"
    using p(1) assms(2) low [of l] unfolding sweep_ok_def flag_ok_def by fastforce
  then have "merkle_sweep count inner l (inner ! l) m = Inr (merkle_root xs, merkle_mutated xs)"
    using merkle_sweep_ok [OF p(2,3)] low [of l] oF l(2) by simp
  then show ?thesis using assms a(1) l(1) by (simp add: compute_merkle_root_def)
qed

section \<open>Branches\<close>

text \<open>The siblings on the way from leaf \<open>i\<close> to the root; a last single node is its own sibling.\<close>

function merkle_branch :: "bytes list \<Rightarrow> nat \<Rightarrow> bytes list" where
  "merkle_branch xs i =
     (if length xs \<le> 1 then []
      else (if odd i then xs ! (i - 1) else if i + 1 < length xs then xs ! (i + 1) else xs ! i) #
        merkle_branch (pair_up xs) (i div 2))"
  by pat_completeness auto
termination by (relation "measure (\<lambda>(xs, i). length xs)") (auto simp: length_pair_up)

declare merkle_branch.simps [simp del]

lemma nth_pair_up:
  "j < (length xs + 1) div 2 \<Longrightarrow>
    pair_up xs ! j = dogecoin_hash (xs ! (2 * j) @ (if 2 * j + 1 < length xs then xs ! (2 * j + 1) else xs ! (2 * j)))"
proof (induction xs arbitrary: j rule: pair_up.induct)
  case (3 x y zs)
  then show ?case by (cases j) auto
qed auto

lemma length_dogecoin_hash [simp]: "length (dogecoin_hash m) = 32"
  by (simp add: dogecoin_hash_def sha256_raw_spec)

lemma pair_up_lengths: "list_all (\<lambda>x. length x = 32) (pair_up xs)"
  by (induction xs rule: pair_up.induct) auto

lemma sha256d_2_input_eq: "length l = 32 \<Longrightarrow> length r = 32 \<Longrightarrow> sha256d_2_input l r = dogecoin_hash (l @ r)"
  using sha256d64_block_double [of "l @ r"] by (simp add: sha256d_2_input_def)

lemma index_odd: "(of_nat i :: u32) AND 1 \<noteq> 0 \<longleftrightarrow> odd i"
proof -
  have "w AND 1 \<noteq> 0 \<longleftrightarrow> bit w 0" for w :: u32 by (simp add: and_one_eq bit_0 odd_iff_mod_2_eq_one)
  moreover have "bit (of_nat i :: u32) 0 \<longleftrightarrow> odd i" by (simp only: bit_of_nat_iff) (simp add: bit_0)
  ultimately show ?thesis by blast
qed

lemma index_half: "i < 2 ^ 31 \<Longrightarrow> signed_drop_bit 1 (of_nat i :: u32) = of_nat (i div 2)"
proof -
  assume i: "i < 2 ^ 31"
  have s: "sint (of_nat k :: u32) = int k" if "k < 2 ^ 31" for k
    using that by (simp add: sint_uint uint_nat unat_of_nat signed_take_bit_int_eq_self)
  have "sint (signed_drop_bit 1 (of_nat i :: u32)) = int i div 2"
    using s [OF i] by (simp add: sint_signed_drop_bit_eq drop_bit_eq_div)
  also have "\<dots> = sint (of_nat (i div 2) :: u32)" using s [of "i div 2"] i by (simp add: zdiv_int)
  finally show ?thesis by (rule signed_word_eqI)
qed

lemma branch_loop_root:
  "i < length xs \<Longrightarrow> length xs \<le> 2 ^ 31 \<Longrightarrow> list_all (\<lambda>x. length x = 32) xs \<Longrightarrow>
    branch_loop (xs ! i) (merkle_branch xs i) (of_nat i) = merkle_root xs"
proof (induction xs i rule: merkle_branch.induct)
  case (1 xs i)
  show ?case
  proof (cases "length xs \<le> 1")
    case True
    then obtain x where "xs = [x]" using "1.prems"(1) by (cases xs) auto
    then show ?thesis using "1.prems"(1) by (simp add: merkle_branch.simps [of "[x]"] merkle_root.simps [of "[x]"])
  next
    case False
    define b where "b = (if odd i then xs ! (i - 1) else if i + 1 < length xs then xs ! (i + 1) else xs ! i)"
    have l: "length (xs ! i) = 32" "length b = 32"
      using "1.prems" by (auto simp: b_def list_all_length)
    have j: "i div 2 < (length xs + 1) div 2" using "1.prems"(1) by simp
    have node: "(if (of_nat i :: u32) AND 1 \<noteq> 0 then sha256d_2_input b (xs ! i) else sha256d_2_input (xs ! i) b) =
        pair_up xs ! (i div 2)"
      unfolding nth_pair_up [OF j] index_odd using l "1.prems"(1)
      by (cases "odd i") (auto simp: sha256d_2_input_eq b_def elim!: oddE evenE)
    have "branch_loop (xs ! i) (merkle_branch xs i) (of_nat i) =
        branch_loop (pair_up xs ! (i div 2)) (merkle_branch (pair_up xs) (i div 2)) (signed_drop_bit 1 (of_nat i))"
      using False unfolding merkle_branch.simps [of xs i] b_def [symmetric] node [symmetric] by simp
    also have "signed_drop_bit 1 (of_nat i :: u32) = of_nat (i div 2)"
      using "1.prems"(1,2) by (intro index_half) simp
    also have "branch_loop (pair_up xs ! (i div 2)) (merkle_branch (pair_up xs) (i div 2)) (of_nat (i div 2)) =
        merkle_root (pair_up xs)"
      using "1.IH" [OF False] j "1.prems"(2) pair_up_lengths by (simp add: length_pair_up)
    also have "\<dots> = merkle_root xs" using False by (simp add: merkle_root.simps [of xs])
    finally show ?thesis .
  qed
qed

section \<open>Properties\<close>

text \<open>
  C11. For every list of one up to \<open>2 ^ 31\<close> leaves the one-pass computation with its array of pending
  nodes returns the root and the duplicate flag of the textbook tree, without a fault: the root of
  repeatedly hashing pairs (a last single node with itself), and whether two nodes that were combined
  are equal.
\<close>

theorem compute_merkle_root_correct:
  assumes "xs \<noteq> []" "length xs \<le> 2 ^ 31"
  shows "compute_merkle_root (Some xs) = Inr (merkle_root xs, merkle_mutated xs)"
  by (rule compute_merkle_root_ok [OF assms])

theorem compute_merkle_root_correct_witness:
  "compute_merkle_root (Some [replicate 32 1, replicate 32 2, replicate 32 3]) =
    Inr (dogecoin_hash (dogecoin_hash (replicate 32 1 @ replicate 32 2) @ dogecoin_hash (replicate 32 3 @ replicate 32 3)),
      merkle_mutated [replicate 32 1, replicate 32 2, replicate 32 3])"
  using compute_merkle_root_correct [of "[replicate 32 1, replicate 32 2, replicate 32 3]"]
  by (simp add: merkle_root.simps)

text \<open>
  C12. The mutation of CVE-2012-2459 is caught: repeating the last leaf of an odd list (of at least three)
  gives a block with the same root, and the code reports it as mutated.
\<close>

theorem duplicated_leaf_flagged:
  assumes "odd (length xs)" "3 \<le> length xs" "length xs < 2 ^ 31"
  shows "compute_merkle_root (Some (xs @ [last xs])) = Inr (merkle_root xs, True)"
proof -
  have ne: "xs \<noteq> []" using assms(2) by auto
  then obtain ys y where xs: "xs = ys @ [y]" by (cases xs rule: rev_cases) auto
  have "pair_up (xs @ [last xs]) = pair_up xs"
    using assms(1) unfolding xs pair_up_snoc by (simp add: full_pairs_snoc)
  moreover have "merkle_root (xs @ [last xs]) = merkle_root (pair_up (xs @ [last xs]))" "merkle_root xs = merkle_root (pair_up xs)"
    using assms(2) merkle_root.simps [of "xs @ [last xs]"] merkle_root.simps [of xs] by auto
  moreover have "merkle_mutated (xs @ [last xs])"
    using assms(1) ne by (subst merkle_mutated.simps) (simp add: twin_pair_snoc)
  ultimately show ?thesis using compute_merkle_root_ok [of "xs @ [last xs]"] assms(3) by simp
qed

theorem duplicated_leaf_flagged_witness:
  "\<exists>r. compute_merkle_root (Some [[1], [2], [3], [3]]) = Inr (r, True)"
  using duplicated_leaf_flagged [of "[[1], [2], [3]]"] by auto

text \<open>
  C13. A branch proves what the tree says: for every leaf of a tree of 32-byte hashes, folding its branch
  with \<open>check_merkle_branch\<close> at the leaf's index gives the root of the tree, including the levels where
  a single last node is paired with itself.
\<close>

theorem check_merkle_branch_complete:
  assumes "i < length xs" "length xs \<le> 2 ^ 31" "list_all (\<lambda>x. length x = 32) xs"
  shows "check_merkle_branch (xs ! i) (merkle_branch xs i) (of_nat i) = merkle_root xs"
proof -
  have "unat (of_nat i :: u32) = i" using assms(1,2) by (simp add: unat_of_nat)
  moreover have "unat (- 1 :: u32) = 2 ^ 32 - 1" by (simp add: unsigned_minus_1_eq_mask mask_eq_exp_minus_1)
  ultimately have "(of_nat i :: u32) = - 1 \<Longrightarrow> i = 2 ^ 32 - 1" by metis
  then have "(of_nat i :: u32) \<noteq> - 1" using assms(1,2) by fastforce
  then show ?thesis using branch_loop_root [OF assms] by (simp add: check_merkle_branch_def)
qed

theorem check_merkle_branch_complete_witness:
  "check_merkle_branch (replicate 32 3) (merkle_branch [replicate 32 1, replicate 32 2, replicate 32 3] 2) 2 =
    merkle_root [replicate 32 1, replicate 32 2, replicate 32 3]"
  using check_merkle_branch_complete [of 2 "[replicate 32 1, replicate 32 2, replicate 32 3]"] by simp

end
