(* ===== verification/Scrypt.thy ===== *)
theory Scrypt
  imports Hmac Arith256
begin

text \<open>
  Model of \<open>src/src/scrypt.c\<close>: the scrypt of the proof of work (\<open>N = 1024\<close>, \<open>r = p = 1\<close>, unrolled and
  interleaved Salsa20/8) in its generic form, and the general scrypt of RFC 7914 that the password
  functions use. Buffers of words are lists of words; the scratch memory \<open>V\<close> is the list of the
  blocks stored in it. Uninitialised buffers that are overwritten in full start as zeros.
\<close>

unbundle bit_operations_syntax

section \<open>Words\<close>

definition le32dec :: "bytes \<Rightarrow> u32" where
  "le32dec p = ucast (p ! 0) + push_bit 8 (ucast (p ! 1)) + push_bit 16 (ucast (p ! 2)) + push_bit 24 (ucast (p ! 3))"

definition le32enc :: "u32 \<Rightarrow> bytes" where
  "le32enc x = [ucast (x AND 0xff), ucast (drop_bit 8 x AND 0xff), ucast (drop_bit 16 x AND 0xff), ucast (drop_bit 24 x AND 0xff)]"

definition ROTL :: "u32 \<Rightarrow> nat \<Rightarrow> u32" where
  "ROTL a b = push_bit b a OR drop_bit (32 - b) a"

text \<open>One statement \<open>x[d] ^= ROTL(x[a] + x[b], n)\<close>; a round is a list of them, in the order of the code.\<close>

definition salsa_upd :: "u32 list \<Rightarrow> nat \<times> nat \<times> nat \<times> nat \<Rightarrow> u32 list" where
  "salsa_upd x s = (case s of (d, a, b, n) \<Rightarrow> x[d := x ! d XOR ROTL (x ! a + x ! b) n])"

section \<open>The scrypt of the proof of work\<close>

definition columns_unrolled :: "(nat \<times> nat \<times> nat \<times> nat) list" where
  "columns_unrolled =
    [(4, 0, 12, 7), (9, 5, 1, 7), (14, 10, 6, 7), (3, 15, 11, 7),
     (8, 4, 0, 9), (13, 9, 5, 9), (2, 14, 10, 9), (7, 3, 15, 9),
     (12, 8, 4, 13), (1, 13, 9, 13), (6, 2, 14, 13), (11, 7, 3, 13),
     (0, 12, 8, 18), (5, 1, 13, 18), (10, 6, 2, 18), (15, 11, 7, 18)]"

definition rows_unrolled :: "(nat \<times> nat \<times> nat \<times> nat) list" where
  "rows_unrolled =
    [(1, 0, 3, 7), (6, 5, 4, 7), (11, 10, 9, 7), (12, 15, 14, 7),
     (2, 1, 0, 9), (7, 6, 5, 9), (8, 11, 10, 9), (13, 12, 15, 9),
     (3, 2, 1, 13), (4, 7, 6, 13), (9, 8, 11, 13), (14, 13, 12, 13),
     (0, 3, 2, 18), (5, 4, 7, 18), (10, 9, 8, 18), (15, 14, 13, 18)]"

definition xor_salsa8 :: "u32 list \<Rightarrow> u32 list \<Rightarrow> u32 list" where
  "xor_salsa8 B Bx =
     (let B1 = map2 (XOR) B Bx;
          x = foldl (\<lambda>x _. foldl salsa_upd (foldl salsa_upd x columns_unrolled) rows_unrolled) B1 [0..<4] in
      map2 (+) B1 x)"

text \<open>The two calls \<open>xor_salsa8(&X[0], &X[16]); xor_salsa8(&X[16], &X[0])\<close>.\<close>

definition salsa_pair :: "u32 list \<Rightarrow> u32 list" where
  "salsa_pair X = (let lo = xor_salsa8 (take 16 X) (drop 16 X); hi = xor_salsa8 (drop 16 X) lo in lo @ hi)"

definition fill_step :: "u32 list \<times> u32 list list \<Rightarrow> nat \<Rightarrow> u32 list \<times> u32 list list" where
  "fill_step s i = (case s of (X, V) \<Rightarrow> (salsa_pair X, V @ [X]))"

definition mix_step :: "u32 list list \<Rightarrow> u32 list \<Rightarrow> nat \<Rightarrow> u32 list" where
  "mix_step V X i = (let j = unat (X ! 16 AND 1023) in salsa_pair (map2 (XOR) X (V ! j)))"

definition scrypt_1024_1_1_256_sp_generic :: "bytes \<Rightarrow> bytes" where
  "scrypt_1024_1_1_256_sp_generic input =
     (let B = pbkdf2_hmac_sha256 (take 80 input) (take 80 input) 1 128 (replicate 128 0);
          X = map (\<lambda>k. le32dec (take 4 (drop (4 * k) B))) [0..<32];
          (X, V) = foldl fill_step (X, []) [0..<1024];
          X = foldl (mix_step V) X [0..<1024];
          B = concat (map (\<lambda>k. le32enc (X ! k)) [0..<32]);
          out = pbkdf2_hmac_sha256 (take 80 input) B 1 32 (replicate 32 0) in
      swap_bytes out)"

section \<open>The scrypt of RFC 7914\<close>

definition scrypt_rfc7914_blkxor :: "u32 list \<Rightarrow> u32 list \<Rightarrow> u32 list" where
  "scrypt_rfc7914_blkxor dest src = map2 (XOR) dest src"

definition columns_rfc :: "(nat \<times> nat \<times> nat \<times> nat) list" where
  "columns_rfc =
    [(4, 0, 12, 7), (8, 4, 0, 9), (12, 8, 4, 13), (0, 12, 8, 18),
     (9, 5, 1, 7), (13, 9, 5, 9), (1, 13, 9, 13), (5, 1, 13, 18),
     (14, 10, 6, 7), (2, 14, 10, 9), (6, 2, 14, 13), (10, 6, 2, 18),
     (3, 15, 11, 7), (7, 3, 15, 9), (11, 7, 3, 13), (15, 11, 7, 18)]"

definition rows_rfc :: "(nat \<times> nat \<times> nat \<times> nat) list" where
  "rows_rfc =
    [(1, 0, 3, 7), (2, 1, 0, 9), (3, 2, 1, 13), (0, 3, 2, 18),
     (6, 5, 4, 7), (7, 6, 5, 9), (4, 7, 6, 13), (5, 4, 7, 18),
     (11, 10, 9, 7), (8, 11, 10, 9), (9, 8, 11, 13), (10, 9, 8, 18),
     (12, 15, 14, 7), (13, 12, 15, 9), (14, 13, 12, 13), (15, 14, 13, 18)]"

definition scrypt_rfc7914_salsa20_8 :: "u32 list \<Rightarrow> u32 list" where
  "scrypt_rfc7914_salsa20_8 B =
     (let x = foldl (\<lambda>x _. foldl salsa_upd (foldl salsa_upd x columns_rfc) rows_rfc) B [0..<4] in
      map2 (+) B x)"

definition wblit :: "'a list \<Rightarrow> nat \<Rightarrow> 'a list \<Rightarrow> 'a list" where
  "wblit dst off src = take off dst @ src @ drop (off + length src) dst"

text \<open>One turn of the loop handles the blocks \<open>2 * m\<close> and \<open>2 * m + 1\<close>.\<close>

definition blockmix_step :: "u32 list \<Rightarrow> nat \<Rightarrow> u32 list \<times> u32 list \<Rightarrow> nat \<Rightarrow> u32 list \<times> u32 list" where
  "blockmix_step Bin r s m =
     (case s of (X, Bout) \<Rightarrow>
        let i = 2 * m;
            X1 = scrypt_rfc7914_salsa20_8 (scrypt_rfc7914_blkxor X (take 16 (drop (i * 16) Bin)));
            Bout1 = wblit Bout (i * 8) X1;
            X2 = scrypt_rfc7914_salsa20_8 (scrypt_rfc7914_blkxor X1 (take 16 (drop (i * 16 + 16) Bin))) in
        (X2, wblit Bout1 (i * 8 + r * 16) X2))"

definition scrypt_rfc7914_blockmix_salsa8 :: "u32 list \<Rightarrow> u32 list \<Rightarrow> nat \<Rightarrow> u32 list" where
  "scrypt_rfc7914_blockmix_salsa8 Bin Bout r =
     snd (foldl (blockmix_step Bin r) (take 16 (drop ((2 * r - 1) * 16) Bin), Bout) [0..<r])"

definition scrypt_rfc7914_integerify :: "u32 list \<Rightarrow> nat \<Rightarrow> u64" where
  "scrypt_rfc7914_integerify B r =
     (let X = drop ((2 * r - 1) * 16) B in push_bit 32 (ucast (X ! 1)) + ucast (X ! 0))"

definition smix_fill :: "nat \<Rightarrow> u32 list \<times> u32 list \<times> u32 list list \<Rightarrow> nat \<Rightarrow> u32 list \<times> u32 list \<times> u32 list list" where
  "smix_fill r s i =
     (case s of (X, Y, V) \<Rightarrow>
        let Y1 = scrypt_rfc7914_blockmix_salsa8 X Y r;
            X1 = scrypt_rfc7914_blockmix_salsa8 Y1 X r in
        (X1, Y1, V @ [X, Y1]))"

definition smix_mix :: "nat \<Rightarrow> u64 \<Rightarrow> u32 list list \<Rightarrow> u32 list \<times> u32 list \<Rightarrow> nat \<Rightarrow> u32 list \<times> u32 list" where
  "smix_mix r N V s i =
     (case s of (X, Y) \<Rightarrow>
        let j = unat (scrypt_rfc7914_integerify X r AND (N - 1));
            X1 = scrypt_rfc7914_blkxor X (V ! j);
            Y1 = scrypt_rfc7914_blockmix_salsa8 X1 Y r;
            j2 = unat (scrypt_rfc7914_integerify Y1 r AND (N - 1));
            Y2 = scrypt_rfc7914_blkxor Y1 (V ! j2);
            X2 = scrypt_rfc7914_blockmix_salsa8 Y2 X1 r in
        (X2, Y2))"

definition scrypt_rfc7914_smix :: "bytes \<Rightarrow> nat \<Rightarrow> u64 \<Rightarrow> bytes" where
  "scrypt_rfc7914_smix B r N =
     (let X = map (\<lambda>k. le32dec (take 4 (drop (4 * k) B))) [0..<32 * r];
          (X, Y, V) = foldl (smix_fill r) (X, replicate (32 * r) 0, []) [0..<(unat N + 1) div 2];
          (X, Y) = foldl (smix_mix r N V) (X, Y) [0..<(unat N + 1) div 2] in
      concat (map (\<lambda>k. le32enc (X ! k)) [0..<32 * r]))"

text \<open>
  \<open>Inr None\<close> is the return value 0. The lengths passed on as \<open>int\<close> are right below \<open>2 ^ 31\<close>; beyond,
  the C conversions overflow, which is a fault here.
\<close>

definition scrypt_rfc7914 :: "bytes \<Rightarrow> bytes \<Rightarrow> u64 \<Rightarrow> u32 \<Rightarrow> u32 \<Rightarrow> nat \<Rightarrow> bytes option c_outcome" where
  "scrypt_rfc7914 passwd salt N r p buflen =
     (if buflen > (2 ^ 32 - 1) * 32 then Inr None
      else if unat r * unat p \<ge> 2 ^ 30 then Inr None
      else if r = 0 \<or> p = 0 then Inr None
      else if N AND (N - 1) \<noteq> 0 \<or> N < 2 then Inr None
      else if unat r > (2 ^ 64 - 1) div 128 div unat p then Inr None
      else if unat N > (2 ^ 64 - 1) div 128 div unat r then Inr None
      else if 128 * unat r * unat p \<ge> 2 ^ 31 \<or> buflen \<ge> 2 ^ 31 \<or> length passwd \<ge> 2 ^ 31 \<or> length salt \<ge> 2 ^ 31
        then Inl OutOfBounds
      else
        let len = unat p * 128 * unat r;
            B = pbkdf2_hmac_sha256 passwd salt 1 len (replicate len 0);
            B1 = concat (map (\<lambda>i. scrypt_rfc7914_smix (take (128 * unat r) (drop (i * 128 * unat r) B)) (unat r) N) [0..<unat p]) in
        Inr (Some (pbkdf2_hmac_sha256 passwd B1 1 buflen (replicate buflen 0))))"


section \<open>Lemmas\<close>

subsection \<open>The two Salsa20/8\<close>

lemma length_salsa_upd [simp]: "length (salsa_upd x s) = length x"
  by (simp add: salsa_upd_def split: prod.split)

lemma length_foldl_salsa_upd [simp]: "length (foldl salsa_upd x ss) = length x"
  by (induction ss arbitrary: x) simp_all

lemma length_foldl_rounds [simp]:
  "length (foldl (\<lambda>x _. foldl salsa_upd (foldl salsa_upd x cs) rs) x is) = length x"
  by (induction "is" arbitrary: x) simp_all

lemma list16E:
  assumes "length x = 16"
  obtains a b c d e f g h i j k l m n o' p where "x = [a, b, c, d, e, f, g, h, i, j, k, l, m, n, o', p]"
proof -
  have "length x = Suc (Suc (Suc (Suc (Suc (Suc (Suc (Suc (Suc (Suc (Suc (Suc (Suc (Suc (Suc (Suc 0)))))))))))))))"
    using assms by simp
  thus ?thesis using that by (auto simp only: length_Suc_conv length_0_conv)
qed

lemma columns_agree:
  assumes "length x = 16"
  shows "foldl salsa_upd x columns_unrolled = foldl salsa_upd x columns_rfc"
  by (rule list16E [OF assms]) (simp add: columns_unrolled_def columns_rfc_def salsa_upd_def)

lemma rows_agree:
  assumes "length x = 16"
  shows "foldl salsa_upd x rows_unrolled = foldl salsa_upd x rows_rfc"
  by (rule list16E [OF assms]) (simp add: rows_unrolled_def rows_rfc_def salsa_upd_def)

lemma rounds_agree:
  assumes "length x = 16"
  shows "foldl (\<lambda>x _. foldl salsa_upd (foldl salsa_upd x columns_unrolled) rows_unrolled) x is =
         foldl (\<lambda>x _. foldl salsa_upd (foldl salsa_upd x columns_rfc) rows_rfc) x is"
  using assms by (induction "is" arbitrary: x) (simp_all add: columns_agree rows_agree)

lemma xor_salsa8_rfc:
  assumes "length B = 16" "length Bx = 16"
  shows "xor_salsa8 B Bx = scrypt_rfc7914_salsa20_8 (map2 (XOR) B Bx)"
  using assms by (simp add: xor_salsa8_def scrypt_rfc7914_salsa20_8_def Let_def rounds_agree)

lemma length_scrypt_rfc7914_salsa20_8 [simp]: "length (scrypt_rfc7914_salsa20_8 B) = length B"
  by (simp add: scrypt_rfc7914_salsa20_8_def Let_def)

lemma length_xor_salsa8 [simp]: "length (xor_salsa8 B Bx) = min (length B) (length Bx)"
  by (simp add: xor_salsa8_def Let_def)

lemma length_salsa_pair [simp]: "length X = 32 \<Longrightarrow> length (salsa_pair X) = 32"
  by (simp add: salsa_pair_def Let_def)

lemma map2_xor_commute: "map2 (XOR) (xs :: 'a :: len word list) ys = map2 (XOR) ys xs"
  by (auto simp: list_eq_iff_nth_eq xor.commute)

subsection \<open>The mixing of one block\<close>

lemma blockmix_salsa_pair:
  assumes "length X = 32" "length Y = 32"
  shows "scrypt_rfc7914_blockmix_salsa8 X Y 1 = salsa_pair X"
  using assms
  by (simp add: scrypt_rfc7914_blockmix_salsa8_def blockmix_step_def salsa_pair_def Let_def wblit_def
      xor_salsa8_rfc scrypt_rfc7914_blkxor_def map2_xor_commute [of "take 16 X"]
      map2_xor_commute [of "drop 16 X" "scrypt_rfc7914_salsa20_8 _"])

lemma integerify_mask:
  assumes "length X = 32"
  shows "unat (scrypt_rfc7914_integerify X 1 AND 1023) = unat (X ! 16 AND 1023)"
proof -
  have "(push_bit 32 (ucast h) + ucast l) AND (mask 10 :: u64) = ucast (l AND mask 10)" for h l :: u32
  proof -
    have "push_bit 32 (ucast h) + ucast l = (push_bit 32 (ucast h) OR ucast l :: u64)"
      by (rule disjunctive_add) (auto simp: bit_simps dest: bit_imp_le_length)
    thus ?thesis by (auto intro!: bit_eqI simp: bit_simps)
  qed
  moreover have "mask 10 = (1023 :: u64)" "mask 10 = (1023 :: u32)" by (simp_all add: mask_eq_exp_minus_1)
  ultimately have "(push_bit 32 (ucast h) + ucast l) AND (1023 :: u64) = ucast (l AND 1023)" for h l :: u32 by metis
  moreover have "unat (X ! 16 AND 1023) < 2 ^ 64"
    by (rule order.strict_trans2 [OF unsigned_less]) simp
  ultimately show ?thesis
    using assms by (simp add: scrypt_rfc7914_integerify_def Let_def unsigned_ucast_eq take_bit_nat_eq_self)
qed


subsection \<open>The loops\<close>

lemma foldl_upt_Suc: "foldl f s [0..<Suc n] = f (foldl f s [0..<n]) n"
  by simp

definition blocks_ok :: "u32 list \<times> u32 list list \<Rightarrow> nat \<Rightarrow> bool" where
  "blocks_ok s n = (length (fst s) = 32 \<and> length (snd s) = n \<and> list_all (\<lambda>v. length v = 32) (snd s))"

lemma fill_blocks_ok:
  assumes "length X = 32"
  shows "blocks_ok (foldl fill_step (X, []) [0..<n]) n"
  using assms by (induction n) (auto simp: blocks_ok_def fill_step_def split: prod.split)

lemma smix_fill_step:
  assumes "length X = 32" "length Y = 32"
  shows "smix_fill 1 (X, Y, V) i = (salsa_pair (salsa_pair X), salsa_pair X, V @ [X, salsa_pair X])"
  using assms unfolding smix_fill_def Let_def by (simp only: blockmix_salsa_pair length_salsa_pair prod.case)

lemma smix_fill_agree:
  assumes "length X = 32" "length Y = 32"
  shows "\<exists>Y'. length Y' = 32 \<and> foldl (smix_fill 1) (X, Y, []) [0..<n] =
           (case foldl fill_step (X, []) [0..<2 * n] of (X', V) \<Rightarrow> (X', Y', V))"
proof (induction n)
  case 0
  show ?case using assms by auto
next
  case (Suc n)
  obtain X' V where f: "foldl fill_step (X, []) [0..<2 * n] = (X', V)" by fastforce
  have "length X' = 32" using fill_blocks_ok [OF assms(1), of "2 * n"] f by (simp add: blocks_ok_def)
  moreover have "foldl fill_step (X, []) [0..<2 * Suc n] = (salsa_pair (salsa_pair X'), V @ [X', salsa_pair X'])"
    using f by (simp add: fill_step_def)
  moreover obtain Y' where "length Y' = 32" "foldl (smix_fill 1) (X, Y, []) [0..<n] = (X', Y', V)"
    using Suc f by auto
  ultimately show ?case by (simp add: foldl_upt_Suc smix_fill_step del: One_nat_def)
qed

lemma length_mix_step:
  assumes "length X = 32" "length V = 1024" "list_all (\<lambda>v. length v = 32) V"
  shows "length (mix_step V X i) = 32"
proof -
  have "unat (X ! 16 AND 1023) < 1024"
    using word_and_le1 [of "X ! 16" 1023] by (simp add: word_le_nat_alt)
  thus ?thesis using assms by (simp add: mix_step_def Let_def list_all_length)
qed

lemma mix_step_index: "mix_step V X i = mix_step V X j"
  by (simp add: mix_step_def)

lemma smix_mix_step:
  assumes "length X = 32" "length Y = 32" "length V = 1024" "list_all (\<lambda>v. length v = 32) V"
  shows "\<exists>Y'. length Y' = 32 \<and> smix_mix 1 1024 V (X, Y) i = (mix_step V (mix_step V X i) j, Y')"
proof -
  have V: "length (V ! unat (x AND 1023)) = 32" for x :: u32
    using assms(3,4) word_and_le1 [of x 1023] by (simp add: word_le_nat_alt list_all_length)
  have mix: "scrypt_rfc7914_blockmix_salsa8 (scrypt_rfc7914_blkxor A (V ! unat (scrypt_rfc7914_integerify A 1 AND 1023))) B 1 = mix_step V A k"
    if "length A = 32" "length B = 32" for A B k
    using that V [of "A ! 16"]
    by (simp add: integerify_mask mix_step_def Let_def scrypt_rfc7914_blkxor_def blockmix_salsa_pair del: One_nat_def)
  have l: "length (mix_step V A k) = 32" if "length A = 32" for A k
    using that assms by (simp add: length_mix_step)
  have lx: "length (scrypt_rfc7914_blkxor A (V ! unat (scrypt_rfc7914_integerify A 1 AND 1023))) = 32" if "length A = 32" for A
    using that V [of "A ! 16"] by (simp add: integerify_mask scrypt_rfc7914_blkxor_def del: One_nat_def)
  show ?thesis
    using assms(1,2) by (simp add: smix_mix_def Let_def mix [of _ _ i] l lx mix_step_index [of V _ i j] del: One_nat_def)
qed


lemma length_foldl_mix_step:
  assumes "length X = 32" "length V = 1024" "list_all (\<lambda>v. length v = 32) V"
  shows "length (foldl (mix_step V) X [0..<n]) = 32"
  using assms by (induction n) (simp_all add: length_mix_step)

lemma smix_mix_agree:
  assumes "length X = 32" "length Y = 32" "length V = 1024" "list_all (\<lambda>v. length v = 32) V"
  shows "\<exists>Y'. length Y' = 32 \<and> foldl (smix_mix 1 1024 V) (X, Y) [0..<n] = (foldl (mix_step V) X [0..<2 * n], Y')"
proof (induction n)
  case 0
  show ?case using assms by simp
next
  case (Suc n)
  define X' where "X' = foldl (mix_step V) X [0..<2 * n]"
  obtain Y' where Y': "length Y' = 32" "foldl (smix_mix 1 1024 V) (X, Y) [0..<n] = (X', Y')"
    using Suc X'_def by auto
  have "length X' = 32" unfolding X'_def by (rule length_foldl_mix_step [OF assms(1,3,4)])
  then obtain Y'' where "length Y'' = 32"
    "smix_mix 1 1024 V (X', Y') n = (mix_step V (mix_step V X' n) n, Y'')"
    using smix_mix_step [of X' Y' V n n] Y' assms by blast
  moreover have "foldl (mix_step V) X [0..<2 * Suc n] = mix_step V (mix_step V X' n) n"
    by (simp add: X'_def mix_step_def)
  ultimately show ?case using Y' by (simp add: foldl_upt_Suc del: One_nat_def)
qed

text \<open>The 1024 steps of each loop of the proof of work, on a block of words.\<close>

definition mixed_block :: "u32 list \<Rightarrow> u32 list" where
  "mixed_block X = (case foldl fill_step (X, []) [0..<1024] of (X, V) \<Rightarrow> foldl (mix_step V) X [0..<1024])"

lemma smix_mixed_block:
  "scrypt_rfc7914_smix B 1 1024 =
    (let X = mixed_block (map (\<lambda>k. le32dec (take 4 (drop (4 * k) B))) [0..<32]) in
     concat (map (\<lambda>k. le32enc (X ! k)) [0..<32]))"
proof -
  define X where "X = map (\<lambda>k. le32dec (take 4 (drop (4 * k) B))) [0..<32]"
  have X: "length X = 32" by (simp add: X_def)
  obtain X1 V where f: "foldl fill_step (X, []) [0..<2 * 512] = (X1, V)" by fastforce
  obtain Y1 where Y1: "length Y1 = 32" "foldl (smix_fill 1) (X, replicate 32 0, []) [0..<512] = (X1, Y1, V)"
    using smix_fill_agree [OF X, of "replicate 32 0" 512] f by auto
  have ok: "length X1 = 32" "length V = 1024" "list_all (\<lambda>v. length v = 32) V"
    using fill_blocks_ok [OF X, of "2 * 512"] f by (simp_all add: blocks_ok_def)
  obtain Y2 where Y2: "foldl (smix_mix 1 1024 V) (X1, Y1) [0..<512] = (foldl (mix_step V) X1 [0..<2 * 512], Y2)"
    using smix_mix_agree [OF ok(1) Y1(1) ok(2,3), of 512] by blast
  have 1: "(unat (1024 :: u64) + 1) div 2 = 512" "32 * (1 :: nat) = 32" "2 * 512 = (1024 :: nat)" by simp_all
  show ?thesis
    unfolding scrypt_rfc7914_smix_def 1 X_def [symmetric] mixed_block_def f [unfolded 1] Y1(2) Y2 Let_def prod.case 1 ..
qed

lemma generic_mixed_block:
  "scrypt_1024_1_1_256_sp_generic input =
    (let B = pbkdf2_hmac_sha256 (take 80 input) (take 80 input) 1 128 (replicate 128 0);
         B1 = scrypt_rfc7914_smix B 1 1024 in
     rev (pbkdf2_hmac_sha256 (take 80 input) B1 1 32 (replicate 32 0)))"
  unfolding scrypt_1024_1_1_256_sp_generic_def smix_mixed_block mixed_block_def Let_def swap_bytes_rev
  by (simp only: case_prod_beta)

lemma length_pbkdf2_hmac_sha256:
  assumes "0 < iterations" "keylen = length key" "keylen < 2 ^ 31"
  shows "length (pbkdf2_hmac_sha256 pass salt iterations keylen key) = keylen"
proof -
  have "keylen \<le> (keylen + 32 - 1) div 32 * 32" by simp
  moreover have "length (concat (map (\<lambda>i. pbkdf2_F (prf256 pass) (salt @ be32 i) n) [1..<Suc m])) = m * 32" for n m
    by (simp add: length_concat comp_def pbkdf2_F_length [OF k256.length_hmac] sum_list_triv)
  ultimately show ?thesis
    using pbkdf2_hmac_sha256_spec [of iterations keylen key pass salt] assms by (simp add: pbkdf2_spec_def)
qed

section \<open>Properties\<close>

text \<open>
  The unrolled, interleaved Salsa20/8 of the proof of work, which folds the XOR of its second
  argument in, computes the quarter-round by quarter-round Salsa20/8 of the RFC 7914 code on the XOR
  of the two blocks.
\<close>

theorem salsa8_implementations_agree:
  assumes "length B = 16" "length Bx = 16"
  shows "xor_salsa8 B Bx = scrypt_rfc7914_salsa20_8 (scrypt_rfc7914_blkxor B Bx)"
  using xor_salsa8_rfc [OF assms] by (simp add: scrypt_rfc7914_blkxor_def)

theorem salsa8_implementations_agree_witness:
  "xor_salsa8 (replicate 16 1) (replicate 16 3) = scrypt_rfc7914_salsa20_8 (replicate 16 2)"
  using salsa8_implementations_agree [of "replicate 16 1" "replicate 16 3"]
  by (simp add: scrypt_rfc7914_blkxor_def)

text \<open>
  C33. The proof-of-work hash of a block header is the scrypt of RFC 7914 with \<open>N = 1024\<close>, \<open>r = p = 1\<close>
  and 32 bytes of output, the 80 header bytes being both password and salt, with the bytes of the
  result reversed: the one-block routine with its single 1024-step loops agrees with the general
  one, which takes the steps two at a time between two buffers.
\<close>

theorem scrypt_pow_is_rfc7914:
  "\<exists>out. scrypt_rfc7914 (take 80 input) (take 80 input) 1024 1 1 32 = Inr (Some out) \<and>
     scrypt_1024_1_1_256_sp_generic input = rev out"
proof -
  define B where "B = pbkdf2_hmac_sha256 (take 80 input) (take 80 input) 1 128 (replicate 128 0)"
  have "take 128 B = B" by (simp add: B_def length_pbkdf2_hmac_sha256)
  moreover have "[0..<1] = [0 :: nat]" by simp
  ultimately show ?thesis
    by (simp add: scrypt_rfc7914_def Let_def generic_mixed_block B_def [symmetric] del: One_nat_def)
qed

end
