(* ===== verification/Utils.thy ===== *)
theory Utils
  imports Serialize
begin

text \<open>
  Model of the conversion and search helpers of \<open>src/src/utils.c\<close>: hexadecimal (two decoders, two
  encoders, byte reversal, the 256-bit reader), the substring searches, decimal printing and base64.

  A C string is the list of its characters without the terminating zero; a character is a byte.
  The range tests of the code are on signed characters, which for the ranges used here (all below
  128) accept the same bytes as the unsigned comparison. The thread-local result buffers are
  returned as values. Reads behind the end of a buffer are the fault \<open>OutOfBounds\<close>.
\<close>

unbundle bit_operations_syntax

section \<open>Hexadecimal\<close>

definition TO_UINT8_HEX_BUF_LEN :: nat where "TO_UINT8_HEX_BUF_LEN = 200001"

text \<open>One turn of the loop of \<open>utils_hex_to_bin\<close> on a zeroed output byte.\<close>

definition hex_to_bin_byte :: "u8 \<Rightarrow> u8 \<Rightarrow> u8" where
  "hex_to_bin_byte a b =
     (let o0 = 0;
          o1 = (if 0x30 \<le> a \<and> a \<le> 0x39 then push_bit 4 (a - 0x30) else o0);
          o2 = (if 0x61 \<le> a \<and> a \<le> 0x66 then push_bit 4 (10 + a - 0x61) else o1);
          o3 = (if 0x41 \<le> a \<and> a \<le> 0x46 then push_bit 4 (10 + a - 0x41) else o2);
          o4 = (if 0x30 \<le> b \<and> b \<le> 0x39 then o3 OR (b - 0x30) else o3);
          o5 = (if 0x61 \<le> b \<and> b \<le> 0x66 then o4 OR (10 + b - 0x61) else o4) in
      if 0x41 \<le> b \<and> b \<le> 0x46 then o5 OR (10 + b - 0x41) else o5)"

text \<open>The bytes written to \<open>out\<close>; their number is \<open>*outLen\<close>.\<close>

definition utils_hex_to_bin :: "bytes option \<Rightarrow> nat \<Rightarrow> bytes c_outcome" where
  "utils_hex_to_bin str inLen =
     (case str of
        None \<Rightarrow> Inr []
      | Some str \<Rightarrow>
          if length str < 2 * (inLen div 2) then Inl OutOfBounds
          else Inr (map (\<lambda>i. hex_to_bin_byte (str ! (i * 2)) (str ! (i * 2 + 1))) [0..<inLen div 2]))"

definition hex_to_uint8_byte :: "u8 \<Rightarrow> u8 \<Rightarrow> u8" where
  "hex_to_uint8_byte a b =
     (let c0 = 0;
          c1 = (if 0x30 \<le> a \<and> a \<le> 0x39 then c0 + push_bit 4 (a - 0x30) else c0);
          c2 = (if 0x61 \<le> a \<and> a \<le> 0x66 then c1 + push_bit 4 (10 + a - 0x61) else c1);
          c3 = (if 0x41 \<le> a \<and> a \<le> 0x46 then c2 + push_bit 4 (10 + a - 0x41) else c2);
          c4 = (if 0x30 \<le> b \<and> b \<le> 0x39 then c3 + (b - 0x30) else c3);
          c5 = (if 0x61 \<le> b \<and> b \<le> 0x66 then c4 + (10 + b - 0x61) else c4) in
      if 0x41 \<le> b \<and> b \<le> 0x46 then c5 + (10 + b - 0x41) else c5)"

definition utils_hex_to_uint8 :: "bytes option \<Rightarrow> bytes option" where
  "utils_hex_to_uint8 str =
     (let s = (case str of None \<Rightarrow> [] | Some s \<Rightarrow> s); n = length s div 2 in
      if length s > TO_UINT8_HEX_BUF_LEN then None
      else Some (map (\<lambda>i. hex_to_uint8_byte (s ! (i * 2)) (s ! (i * 2 + 1))) [0..<n] @ replicate (TO_UINT8_HEX_BUF_LEN - n) 0))"

definition digits :: bytes where
  "digits = [0x30, 0x31, 0x32, 0x33, 0x34, 0x35, 0x36, 0x37, 0x38, 0x39, 0x61, 0x62, 0x63, 0x64, 0x65, 0x66]"

definition hex_byte :: "u8 \<Rightarrow> bytes" where
  "hex_byte b = [digits ! unat (drop_bit 4 b AND 0xF), digits ! unat (b AND 0xF)]"

definition utils_bin_to_hex :: "bytes \<Rightarrow> nat \<Rightarrow> bytes c_outcome" where
  "utils_bin_to_hex bin_in inlen =
     (if length bin_in < inlen then Inl OutOfBounds else Inr (concat (map (\<lambda>i. hex_byte (bin_in ! i)) [0..<inlen])))"

text \<open>\<open>Inr None\<close> is the null pointer.\<close>

definition utils_uint8_to_hex :: "bytes \<Rightarrow> nat \<Rightarrow> bytes option c_outcome" where
  "utils_uint8_to_hex bin l =
     (if l > TO_UINT8_HEX_BUF_LEN div 2 - 1 then Inr None
      else if length bin < l then Inl OutOfBounds
      else Inr (Some (concat (map (\<lambda>i. hex_byte (bin ! i)) [0..<l]))))"

text \<open>The loop bound \<open>len - 1\<close> wraps for an empty string.\<close>

definition reverse_hex_step :: "bytes \<Rightarrow> nat \<Rightarrow> bytes \<Rightarrow> nat \<Rightarrow> bytes" where
  "reverse_hex_step copy len h m =
     (let i = 2 * m in h[i := copy ! (len - i - 2), i + 1 := copy ! (len - i - 1)])"

definition utils_reverse_hex :: "bytes \<Rightarrow> nat \<Rightarrow> bytes c_outcome" where
  "utils_reverse_hex h len =
     (if len = 0 \<or> length h < len then Inl OutOfBounds
      else Inr (foldl (reverse_hex_step (take len h) len) h [0..<len div 2]))"

text \<open>The table of 256 signed characters; \<open>-1\<close> is the byte 255.\<close>

definition p_util_hexdigit :: bytes where
  "p_util_hexdigit =
     replicate 48 (- 1) @ [0, 1, 2, 3, 4, 5, 6, 7, 8, 9] @ replicate 7 (- 1) @
     [0xa, 0xb, 0xc, 0xd, 0xe, 0xf] @ replicate 26 (- 1) @
     [0xa, 0xb, 0xc, 0xd, 0xe, 0xf] @ replicate 153 (- 1)"

definition utils_hex_digit :: "u8 \<Rightarrow> u8" where
  "utils_hex_digit c = p_util_hexdigit ! unat c"

text \<open>The filling loop of \<open>utils_uint256_sethex\<close>: it walks the digits from the last one backwards.\<close>

fun sethex_fill :: "bytes \<Rightarrow> nat \<Rightarrow> bytes \<Rightarrow> bytes" where
  "sethex_fill out p [] = out"
| "sethex_fill out p [c] = (if p < 32 then out[p := utils_hex_digit c] else out)"
| "sethex_fill out p (c # d # cs) =
     (if p < 32 then sethex_fill (out[p := utils_hex_digit c OR push_bit 4 (utils_hex_digit d)]) (p + 1) cs else out)"

definition utils_uint256_sethex :: "bytes \<Rightarrow> bytes" where
  "utils_uint256_sethex psz =
     (let psz1 = dropWhile (\<lambda>c. c = 0x20 \<or> c - 9 < 5) psz;
          psz2 = (if 2 \<le> length psz1 \<and> psz1 ! 0 = 0x30 \<and> (psz1 ! 1 = 0x78 \<or> psz1 ! 1 = 0x58) then drop 2 psz1 else psz1);
          ds = takeWhile (\<lambda>c. utils_hex_digit c \<noteq> - 1) psz2 in
      sethex_fill (replicate 32 0) 0 (rev ds))"

definition uint256S :: "bytes option \<Rightarrow> bytes option" where
  "uint256S str = utils_hex_to_uint8 str"

text \<open>The bytes that \<open>parse_hex\<close> writes; the character behind the last one is the terminator.\<close>

fun skip_0x :: "bytes \<Rightarrow> bytes" where
  "skip_0x (a # b # s) = (if a = 0x30 \<and> (b = 0x78 \<or> b = 0x58) then skip_0x (b # s) else a # b # s)"
| "skip_0x s = s"

lemma length_skip_0x: "length (skip_0x s) \<le> length s"
  by (induction s rule: skip_0x.induct) auto

function parse_hex :: "bytes \<Rightarrow> bytes" where
  "parse_hex psz =
     (case skip_0x psz of
        a # b # s \<Rightarrow>
          if utils_hex_digit a = - 1 \<or> utils_hex_digit b = - 1 then []
          else (push_bit 4 (utils_hex_digit a) OR utils_hex_digit b) # parse_hex s
      | _ \<Rightarrow> [])"
  by pat_completeness auto
termination
proof (relation "measure length")
  fix psz and a :: u8 and x' and b :: u8 and s
  assume "skip_0x psz = a # x'" "x' = b # s"
  then show "(s, psz) \<in> measure length" using length_skip_0x [of psz] by simp
qed simp

declare parse_hex.simps [simp del]

definition to_string :: "bytes \<Rightarrow> bytes option c_outcome" where
  "to_string x = utils_uint8_to_hex x 32"

definition hash_to_string :: "bytes \<Rightarrow> bytes c_outcome" where
  "hash_to_string x =
     seqc (to_string x) (\<lambda>h. case h of None \<Rightarrow> Inl NullDeref | Some hexbuf \<Rightarrow> utils_reverse_hex hexbuf 64)"

definition hash_to_bytes :: "bytes \<Rightarrow> bytes option c_outcome" where
  "hash_to_bytes x = seqc (hash_to_string x) (\<lambda>s. Inr (utils_hex_to_uint8 (Some s)))"

section \<open>Searching\<close>

text \<open>The position of the match; \<open>memchr\<close> finds the first byte that is equal to the first of the needle.\<close>

definition memchr :: "bytes \<Rightarrow> u8 \<Rightarrow> nat option" where
  "memchr s c = (let k = length (takeWhile (\<lambda>x. x \<noteq> c) s) in if k < length s then Some k else None)"

definition bytes_find :: "bytes \<Rightarrow> bytes \<Rightarrow> nat option c_outcome" where
  "bytes_find haystack needle =
     (if length needle > length haystack then Inr None
      else if needle = [] then Inl OutOfBounds
      else case memchr haystack (needle ! 0) of
             None \<Rightarrow> Inr None
           | Some k \<Rightarrow>
               if length needle \<le> length haystack - k \<and> take (length needle) (drop k haystack) = needle
               then Inr (Some k) else Inr None)"

fun needle_at :: "bytes \<Rightarrow> nat \<Rightarrow> bytes \<Rightarrow> bool c_outcome" where
  "needle_at hay i [] = Inr True"
| "needle_at hay i (n # ns) =
     (if length hay \<le> i then Inl OutOfBounds
      else if hay ! i = n then needle_at hay (i + 1) ns else Inr False)"

fun find_needle_from :: "bytes \<Rightarrow> bytes \<Rightarrow> nat \<Rightarrow> nat \<Rightarrow> nat option c_outcome" where
  "find_needle_from hay needle idx 0 = Inr None"
| "find_needle_from hay needle idx (Suc n) =
     seqc (needle_at hay idx needle)
       (\<lambda>found. if found then Inr (Some idx) else find_needle_from hay needle (idx + 1) n)"

definition find_needle :: "bytes \<Rightarrow> nat \<Rightarrow> bytes \<Rightarrow> nat option c_outcome" where
  "find_needle haystack haystack_length needle = find_needle_from haystack needle 0 haystack_length"

section \<open>Strings\<close>

definition slice :: "bytes \<Rightarrow> nat \<Rightarrow> nat \<Rightarrow> bytes" where
  "slice str start end' =
     (let slen = length str in
      if end' \<le> start \<or> start \<ge> slen then []
      else let e = (if end' > slen then slen else end') in take (e - start) (drop start str))"

text \<open>Decimal digits of a non-negative \<open>int\<close>, last digit first (the \<open>do ... while\<close> loop).\<close>

function uitoa_digits :: "int \<Rightarrow> bytes" where
  "uitoa_digits n = of_int (n mod 10 + 48) # (if n div 10 > 0 then uitoa_digits (n div 10) else [])"
  by pat_completeness auto
termination by (relation "measure nat") auto

declare uitoa_digits.simps [simp del]

text \<open>\<open>-n\<close> overflows for the least \<open>int\<close>: \<open>None\<close>.\<close>

definition dogecoin_uitoa :: "int \<Rightarrow> bytes option" where
  "dogecoin_uitoa n =
     (if n = - (2 ^ 31) then None
      else Some (rev (uitoa_digits (abs n) @ (if n < 0 then [0x2d] else []))))"

function integer_count :: "int \<Rightarrow> nat" where
  "integer_count x = (if x > 0 then Suc (integer_count (x div 10)) else 0)"
  by pat_completeness auto
termination by (relation "measure nat") auto

declare integer_count.simps [simp del]

definition integer_length :: "int \<Rightarrow> nat" where
  "integer_length x = (let count = integer_count x in if count > 0 then count else 1)"

section \<open>Base64\<close>

definition base64_char :: bytes where
  "base64_char = map of_nat ([65..<91] @ [97..<123] @ [48..<58] @ [43, 47])"

definition base64_int :: "u32 \<Rightarrow> u32" where
  "base64_int ch =
     (if ch = 43 then 62
      else if ch = 47 then 63
      else if ch = 61 then 64
      else if ch > 47 \<and> ch < 58 then ch + 4
      else if ch > 64 \<and> ch < 91 then ch - 65
      else if ch > 96 \<and> ch < 123 then (ch - 97) + 26
      else 0)"

definition base64_encoded_size :: "nat \<Rightarrow> nat" where
  "base64_encoded_size in_size = 4 * foldl (\<lambda>j i. if i mod 3 = 0 then j + 1 else j) 0 [0..<in_size]"

definition base64_decoded_size :: "u32 \<Rightarrow> u32" where
  "base64_decoded_size in_size = (3 * in_size) div 4"

definition b64c :: "u32 \<Rightarrow> u8" where
  "b64c w = base64_char ! unat w"

text \<open>The loop keeps the pending input bytes \<open>s[0..j-1]\<close> and the output.\<close>

definition encode_step :: "u32 list \<times> bytes \<Rightarrow> u8 \<Rightarrow> u32 list \<times> bytes" where
  "encode_step st c =
     (case st of (s, out) \<Rightarrow>
        let s = s @ [ucast c] in
        if length s = 3
        then ([], out @ [b64c (drop_bit 2 (s ! 0 AND 255)),
                         b64c (push_bit 4 (s ! 0 AND 3) + drop_bit 4 (s ! 1 AND 0xF0)),
                         b64c (push_bit 2 (s ! 1 AND 0xF) + drop_bit 6 (s ! 2 AND 0xC0)),
                         b64c (s ! 2 AND 0x3F)])
        else (s, out))"

definition base64_encode :: "bytes \<Rightarrow> bytes" where
  "base64_encode in' =
     (case foldl encode_step ([], []) in' of (s, out) \<Rightarrow>
        if s \<noteq> []
        then let j = length s; s = (if j = 1 then s @ [0] else s) in
             out @ [b64c (drop_bit 2 (s ! 0 AND 255)),
                    b64c (push_bit 4 (s ! 0 AND 3) + drop_bit 4 (s ! 1 AND 0xF0)),
                    (if j = 2 then b64c (push_bit 2 (s ! 1 AND 0xF)) else 0x3d),
                    0x3d]
        else out)"

definition decode_step :: "u32 list \<times> bytes \<Rightarrow> u8 \<Rightarrow> u32 list \<times> bytes" where
  "decode_step st c =
     (case st of (s, out) \<Rightarrow>
        let s = s @ [base64_int (ucast c)] in
        if length s = 4
        then ([], out @ [ucast (push_bit 2 (s ! 0 AND 255) + drop_bit 4 (s ! 1 AND 0x30))] @
                (if s ! 2 \<noteq> 64
                 then [ucast (push_bit 4 (s ! 1 AND 0xF) + drop_bit 2 (s ! 2 AND 0x3C))] @
                      (if s ! 3 \<noteq> 64 then [ucast (push_bit 6 (s ! 2 AND 3) + s ! 3)] else [])
                 else []))
        else (s, out))"

definition base64_decode :: "bytes \<Rightarrow> bytes" where
  "base64_decode in' = snd (foldl decode_step ([], []) in')"


section \<open>Lemmas on hexadecimal\<close>

definition nib :: "u8 \<Rightarrow> u8" where
  "nib c = (if 0x30 \<le> c \<and> c \<le> 0x39 then c - 0x30
            else if 0x61 \<le> c \<and> c \<le> 0x66 then 10 + c - 0x61
            else if 0x41 \<le> c \<and> c \<le> 0x46 then 10 + c - 0x41 else 0)"

lemma u8_nat_le: "a \<le> b \<longleftrightarrow> unat a \<le> unat b" for a b :: u8
  by (rule word_le_nat_alt)

lemma hex_to_bin_byte_nib: "hex_to_bin_byte a b = push_bit 4 (nib a) OR nib b"
  by (auto simp: hex_to_bin_byte_def nib_def u8_nat_le)

lemma hex_to_uint8_byte_nib: "hex_to_uint8_byte a b = push_bit 4 (nib a) + nib b"
  by (auto simp: hex_to_uint8_byte_def nib_def u8_nat_le)

lemma nib_less: "unat (nib c) < 16"
  unfolding nib_def u8_nat_le by (auto simp: unat_word_ariths unat_sub_if')

lemma hex_bytes_agree: "hex_to_bin_byte a b = hex_to_uint8_byte a b"
proof -
  have "\<not> bit (nib b) n" if "4 \<le> n" for n
  proof -
    have "(2 :: nat) ^ 4 \<le> 2 ^ n" using that by (rule power_increasing) simp
    then have "\<not> bit (unat (nib b)) n" using nib_less [of b] by (simp add: bit_iff_odd)
    then show ?thesis by (auto simp: bit_unsigned_iff dest: bit_imp_le_length)
  qed
  then have "push_bit 4 (nib a) + nib b = push_bit 4 (nib a) OR nib b"
    by (intro disjunctive_add) (auto simp: bit_simps)
  then show ?thesis by (simp add: hex_to_bin_byte_nib hex_to_uint8_byte_nib)
qed

lemma digit_tables: "list_all (\<lambda>d. nib (digits ! d) = of_nat d \<and> utils_hex_digit (digits ! d) = of_nat d) [0..<16]"
  by code_simp

lemma nib_digits: "d < 16 \<Longrightarrow> nib (digits ! d) = of_nat d"
  using digit_tables by (simp add: list_all_iff)

lemma hex_digit_digits: "d < 16 \<Longrightarrow> utils_hex_digit (digits ! d) = of_nat d"
  using digit_tables by (simp add: list_all_iff)

lemma low_nibble: "unat (b AND 0xF) < 16" for b :: u8
  using word_and_le1 [of b "0xF"] by (simp add: word_le_nat_alt)

lemma join_nibbles: "push_bit 4 (drop_bit 4 b AND 0xF) OR (b AND 0xF) = b" for b :: u8
proof -
  have m: "(0xF :: u8) = mask 4" by (simp add: mask_eq_exp_minus_1)
  show ?thesis unfolding m by (rule bit_eqI) (auto simp: bit_simps)
qed

lemma hex_byte_dec: "hex_byte b = [x, y] \<Longrightarrow> hex_to_bin_byte x y = b"
  using join_nibbles [of b] low_nibble [of b] low_nibble [of "drop_bit 4 b"]
  by (auto simp: hex_byte_def hex_to_bin_byte_nib nib_digits)

lemma length_hex_byte [simp]: "length (hex_byte b) = 2"
  by (simp add: hex_byte_def)

definition hex :: "bytes \<Rightarrow> bytes" where
  "hex bs = concat (map hex_byte bs)"

lemma hex_simps [simp]: "hex [] = []" "hex (b # bs) = hex_byte b @ hex bs" "hex (xs @ ys) = hex xs @ hex ys"
  by (simp_all add: hex_def)

lemma length_hex [simp]: "length (hex bs) = 2 * length bs"
  by (induction bs) auto

lemma hex_nth: "i < length bs \<Longrightarrow> [hex bs ! (2 * i), hex bs ! Suc (2 * i)] = hex_byte (bs ! i)"
proof (induction bs arbitrary: i)
  case (Cons b bs)
  then show ?case by (cases i) (auto simp: hex_byte_def nth_append)
qed simp

lemma map_hex_bytes: "l \<le> length bs \<Longrightarrow> concat (map (\<lambda>i. hex_byte (bs ! i)) [0..<l]) = hex (take l bs)"
  unfolding hex_def by (rule arg_cong [where f = concat]) (auto intro!: nth_equalityI)

lemma hex_encoders:
  "l \<le> length bs \<Longrightarrow> utils_bin_to_hex bs l = Inr (hex (take l bs))"
  "l \<le> length bs \<Longrightarrow> l \<le> 99999 \<Longrightarrow> utils_uint8_to_hex bs l = Inr (Some (hex (take l bs)))"
  by (simp_all add: utils_bin_to_hex_def utils_uint8_to_hex_def TO_UINT8_HEX_BUF_LEN_def map_hex_bytes)

lemma hex_decode_pairs: "map (\<lambda>i. hex_to_bin_byte (hex bs ! (i * 2)) (hex bs ! (i * 2 + 1))) [0..<length bs] = bs"
  by (rule nth_equalityI) (auto simp: mult.commute [of _ 2] intro!: hex_byte_dec hex_nth [symmetric])

lemma hex_to_bin_hex: "utils_hex_to_bin (Some (hex bs)) (2 * length bs) = Inr bs"
  by (simp add: utils_hex_to_bin_def hex_decode_pairs [simplified])

lemma hex_to_uint8_hex:
  "2 * length bs \<le> 200001 \<Longrightarrow> utils_hex_to_uint8 (Some (hex bs)) = Some (bs @ replicate (200001 - length bs) 0)"
  by (simp add: utils_hex_to_uint8_def Let_def TO_UINT8_HEX_BUF_LEN_def hex_bytes_agree [symmetric]
      hex_decode_pairs [simplified])

subsection \<open>Reversal\<close>

lemma reverse_steps_nth:
  assumes "2 * n \<le> length h"
  shows "length (foldl (reverse_hex_step copy len) h [0..<n]) = length h \<and>
    (\<forall>j. j < length h \<longrightarrow> foldl (reverse_hex_step copy len) h [0..<n] ! j =
       (if j < 2 * n then (if even j then copy ! (len - j - 2) else copy ! (len - j)) else h ! j))"
  using assms
proof (induction n)
  case (Suc n)
  let ?f = "foldl (reverse_hex_step copy len) h [0..<n]"
  have *: "length ?f = length h" "\<And>j. j < length h \<Longrightarrow> ?f ! j =
      (if j < 2 * n then (if even j then copy ! (len - j - 2) else copy ! (len - j)) else h ! j)"
    using Suc by auto
  have e: "foldl (reverse_hex_step copy len) h [0..<Suc n] =
      ?f[2 * n := copy ! (len - 2 * n - 2), 2 * n + 1 := copy ! (len - 2 * n - 1)]"
    by (simp add: reverse_hex_step_def Let_def)
  have "j < 2 * Suc n \<longleftrightarrow> j < 2 * n \<or> j = 2 * n \<or> j = 2 * n + 1" for j by auto
  then show ?case unfolding e using * Suc.prems by (auto simp: nth_list_update)
qed simp

lemma reverse_hex_hex:
  assumes "bs \<noteq> []"
  shows "utils_reverse_hex (hex bs) (2 * length bs) = Inr (hex (rev bs))"
proof -
  let ?n = "length bs"
  let ?r = "foldl (reverse_hex_step (hex bs) (2 * ?n)) (hex bs) [0..<?n]"
  note r = reverse_steps_nth [of ?n "hex bs" "hex bs" "2 * ?n", simplified]
  have "?r = hex (rev bs)"
  proof (rule nth_equalityI)
    show "length ?r = length (hex (rev bs))" using r by simp
    fix j assume "j < length ?r"
    then have j: "j < 2 * ?n" using r by simp
    define i where "i = j div 2"
    have i: "i < ?n" using j by (simp add: i_def)
    have a: "hex_byte (bs ! (?n - Suc i)) = [hex bs ! (2 * (?n - Suc i)), hex bs ! Suc (2 * (?n - Suc i))]"
      by (rule hex_nth [symmetric]) (use i in simp)
    have b: "hex_byte (rev bs ! i) = [hex (rev bs) ! (2 * i), hex (rev bs) ! Suc (2 * i)]"
      by (rule hex_nth [symmetric]) (use i in simp)
    have "rev bs ! i = bs ! (?n - Suc i)" using i by (simp add: rev_nth)
    then have ab: "hex (rev bs) ! (2 * i) = hex bs ! (2 * (?n - Suc i))"
      "hex (rev bs) ! Suc (2 * i) = hex bs ! Suc (2 * (?n - Suc i))"
      using a b by simp_all
    have x: "2 * (?n - Suc i) = 2 * ?n - 2 * i - 2" "Suc (2 * ?n - 2 * i - 2) = 2 * ?n - Suc (2 * i)" using i by auto
    show "?r ! j = hex (rev bs) ! j"
      using r j ab x by (cases "even j") (auto simp: i_def elim!: evenE oddE)
  qed
  then show ?thesis using assms by (simp add: utils_reverse_hex_def)
qed

lemma hash_to_string_hex: "length h = 32 \<Longrightarrow> hash_to_string h = Inr (hex (rev h))"
  using reverse_hex_hex [of h] by (cases "h = []") (auto simp: hash_to_string_def to_string_def hex_encoders)


subsection \<open>The 256-bit reader\<close>

lemma sethex_fill_bytes:
  assumes "p + length bs \<le> 32" "length out = 32"
  shows "sethex_fill out p (concat (map (\<lambda>b. rev (hex_byte b)) bs)) = take p out @ bs @ drop (p + length bs) out"
  using assms
proof (induction bs arbitrary: p out)
  case (Cons b bs)
  have "(b AND 0xF) OR push_bit 4 (drop_bit 4 b AND 0xF) = b"
    using join_nibbles [of b] by (simp only: or.commute)
  then have *: "sethex_fill out p (concat (map (\<lambda>b. rev (hex_byte b)) (b # bs))) =
      sethex_fill (out[p := b]) (p + 1) (concat (map (\<lambda>b. rev (hex_byte b)) bs))"
    using Cons.prems low_nibble [of b] low_nibble [of "drop_bit 4 b"] by (simp add: hex_byte_def hex_digit_digits)
  show ?case unfolding * using Cons.IH [of "p + 1" "out[p := b]"] Cons.prems
    by (simp add: take_Suc_conv_app_nth)
qed simp

lemma length_digits: "length digits = 16"
  by (simp add: digits_def)

lemma hex_chars:
  assumes "c \<in> set (hex bs)"
  shows "utils_hex_digit c \<noteq> - 1" "c \<noteq> 0x20" "\<not> c - 9 < 5" "c \<noteq> 0x78" "c \<noteq> 0x58"
proof -
  obtain b where "c \<in> set (hex_byte b)" using assms by (auto simp: hex_def)
  then have "c \<in> set digits"
    using low_nibble [of b] low_nibble [of "drop_bit 4 b"] by (auto simp: hex_byte_def length_digits intro!: nth_mem)
  moreover have "list_all (\<lambda>c. utils_hex_digit c \<noteq> - 1 \<and> c \<noteq> 0x20 \<and> \<not> c - 9 < 5 \<and> c \<noteq> 0x78 \<and> c \<noteq> 0x58) digits"
    by code_simp
  ultimately show "utils_hex_digit c \<noteq> - 1" "c \<noteq> 0x20" "\<not> c - 9 < 5" "c \<noteq> 0x78" "c \<noteq> 0x58"
    by (auto simp: list_all_iff)
qed

lemma rev_hex: "rev (hex (rev bs)) = concat (map (\<lambda>b. rev (hex_byte b)) bs)"
  by (induction bs) auto

lemma sethex_hex:
  assumes "length h = 32"
  shows "utils_uint256_sethex (hex (rev h)) = h"
proof -
  let ?s = "hex (rev h)"
  have d: "dropWhile (\<lambda>c. c = 0x20 \<or> c - 9 < 5) ?s = ?s"
    using hex_chars [of "hd ?s" "rev h"] by (cases ?s) auto
  have x: "\<not> (2 \<le> length ?s \<and> ?s ! 0 = 0x30 \<and> (?s ! 1 = 0x78 \<or> ?s ! 1 = 0x58))"
    using hex_chars [of "?s ! 1" "rev h"] by auto
  have w: "takeWhile (\<lambda>c. utils_hex_digit c \<noteq> - 1) ?s = ?s"
    using hex_chars(1) [of _ "rev h"] by simp
  have "utils_uint256_sethex ?s = sethex_fill (replicate 32 0) 0 (rev ?s)"
    unfolding utils_uint256_sethex_def Let_def d if_not_P [OF x] w ..
  then show ?thesis using sethex_fill_bytes [of 0 h "replicate 32 0"] assms by (simp add: rev_hex)
qed

section \<open>Lemmas on base64\<close>

lemma base64_int_char: "unat w < 64 \<Longrightarrow> base64_int (ucast (b64c w)) = w"
proof -
  assume "unat w < 64"
  moreover have "list_all (\<lambda>k. base64_int (ucast (base64_char ! k)) = of_nat k) [0..<64]" by code_simp
  ultimately have "base64_int (ucast (base64_char ! unat w)) = of_nat (unat w)" by (simp add: list_all_iff)
  then show ?thesis by (simp add: b64c_def)
qed

lemma masks32: "(255 :: u32) = mask 8" "(3 :: u32) = mask 2" "(0xF :: u32) = mask 4" "(0x3F :: u32) = mask 6"
  by (simp_all add: mask_eq_exp_minus_1)

definition q0 :: "u8 \<Rightarrow> u32" where "q0 a = drop_bit 2 (ucast a AND 255)"
definition q1 :: "u8 \<Rightarrow> u8 \<Rightarrow> u32" where "q1 a b = push_bit 4 (ucast a AND 3) + drop_bit 4 (ucast b AND 0xF0)"
definition q2 :: "u8 \<Rightarrow> u8 \<Rightarrow> u32" where "q2 b c = push_bit 2 (ucast b AND 0xF) + drop_bit 6 (ucast c AND 0xC0)"
definition q3 :: "u8 \<Rightarrow> u32" where "q3 c = ucast c AND 0x3F"

lemma mask_pieces:
  "(x :: u32) AND 255 = take_bit 8 x" "x AND 3 = take_bit 2 x" "x AND 0xF = take_bit 4 x" "x AND 0x3F = take_bit 6 x"
  "drop_bit 4 (x AND 0xF0) = take_bit 4 (drop_bit 4 x)" "drop_bit 6 (x AND 0xC0) = take_bit 2 (drop_bit 6 x)"
  "drop_bit 4 (x AND 0x30) = take_bit 2 (drop_bit 4 x)" "drop_bit 2 (x AND 0x3C) = take_bit 4 (drop_bit 2 x)"
  by (simp_all add: take_bit_eq_mask drop_bit_and mask_eq_exp_minus_1)

lemma plus_or: "(\<And>n. \<not> (bit x n \<and> bit y n)) \<Longrightarrow> x + y = x OR y" for x y :: "'a :: len word"
  by (intro disjunctive_add) auto

lemma q_bits:
  "q0 a = take_bit 6 (drop_bit 2 (ucast a))"
  "q1 a b = push_bit 4 (take_bit 2 (ucast a)) OR take_bit 4 (drop_bit 4 (ucast b))"
  "q2 b c = push_bit 2 (take_bit 4 (ucast b)) OR take_bit 2 (drop_bit 6 (ucast c))"
  "q3 c = take_bit 6 (ucast c)"
  unfolding q0_def q1_def q2_def q3_def mask_pieces
  by (auto intro!: bit_eqI plus_or simp: bit_simps dest: bit_imp_le_length)

lemma q_less:
  "unat (q0 a) < 64" "unat (q1 a b) < 64" "unat (q2 b c) < 64" "unat (q3 c) < 64"
proof -
  have "unat (take_bit 6 x) < 64" for x :: u32
    using take_bit_nat_less_exp [of 6 "unat x"] by (simp add: unsigned_take_bit_eq)
  moreover have "q0 a = take_bit 6 (q0 a)" "q1 a b = take_bit 6 (q1 a b)" "q2 b c = take_bit 6 (q2 b c)" "q3 c = take_bit 6 (q3 c)"
    unfolding q_bits by (auto intro!: bit_eqI simp: bit_simps)
  ultimately show "unat (q0 a) < 64" "unat (q1 a b) < 64" "unat (q2 b c) < 64" "unat (q3 c) < 64" by metis+
qed

lemma Suc_Suc_minus_2: "2 \<le> n \<Longrightarrow> Suc (Suc (n - 2)) = n"
  by simp

lemma q_dec:
  "ucast (push_bit 2 (q0 a AND 255) + drop_bit 4 (q1 a b AND 0x30)) = a"
  "ucast (push_bit 4 (q1 a b AND 0xF) + drop_bit 2 (q2 b c AND 0x3C)) = b"
  "ucast (push_bit 6 (q2 b c AND 3) + q3 c) = c"
proof -
  have 1: "push_bit 2 (q0 a AND 255) + drop_bit 4 (q1 a b AND 0x30) =
      push_bit 2 (q0 a AND 255) OR drop_bit 4 (q1 a b AND 0x30)"
    unfolding mask_pieces by (rule plus_or) (auto simp: bit_simps)
  have 2: "push_bit 4 (q1 a b AND 0xF) + drop_bit 2 (q2 b c AND 0x3C) =
      push_bit 4 (q1 a b AND 0xF) OR drop_bit 2 (q2 b c AND 0x3C)"
    unfolding mask_pieces by (rule plus_or) (auto simp: bit_simps)
  have 3: "push_bit 6 (q2 b c AND 3) + q3 c = push_bit 6 (q2 b c AND 3) OR q3 c"
    unfolding mask_pieces q_bits(4) by (rule plus_or) (auto simp: bit_simps)
  show "ucast (push_bit 2 (q0 a AND 255) + drop_bit 4 (q1 a b AND 0x30)) = a"
    unfolding 1 unfolding mask_pieces q_bits by (rule bit_eqI) (auto simp: bit_simps Suc_Suc_minus_2)
  show "ucast (push_bit 4 (q1 a b AND 0xF) + drop_bit 2 (q2 b c AND 0x3C)) = b"
    unfolding 2 unfolding mask_pieces q_bits by (rule bit_eqI) (auto simp: bit_simps)
  show "ucast (push_bit 6 (q2 b c AND 3) + q3 c) = c"
    unfolding 3 unfolding mask_pieces q_bits by (rule bit_eqI) (auto simp: bit_simps)
qed


text \<open>The encoding by groups of three bytes.\<close>

fun b64_spec :: "bytes \<Rightarrow> bytes" where
  "b64_spec [] = []"
| "b64_spec [a] = [b64c (q0 a), b64c (q1 a 0), 0x3d, 0x3d]"
| "b64_spec [a, b] = [b64c (q0 a), b64c (q1 a b), b64c (q2 b 0), 0x3d]"
| "b64_spec (a # b # c # bs) = [b64c (q0 a), b64c (q1 a b), b64c (q2 b c), b64c (q3 c)] @ b64_spec bs"

lemma encode_three:
  "encode_step (encode_step (encode_step ([], out) a) b) c = ([], out @ [b64c (q0 a), b64c (q1 a b), b64c (q2 b c), b64c (q3 c)])"
  by (simp add: encode_step_def Let_def q0_def q1_def q2_def q3_def)

definition encode_end :: "u32 list \<times> bytes \<Rightarrow> bytes" where
  "encode_end st =
     (case st of (s, out) \<Rightarrow>
        if s \<noteq> []
        then let j = length s; s = (if j = 1 then s @ [0] else s) in
             out @ [b64c (drop_bit 2 (s ! 0 AND 255)),
                    b64c (push_bit 4 (s ! 0 AND 3) + drop_bit 4 (s ! 1 AND 0xF0)),
                    (if j = 2 then b64c (push_bit 2 (s ! 1 AND 0xF)) else 0x3d),
                    0x3d]
        else out)"

lemma encode_loop: "encode_end (foldl encode_step ([], out) bs) = out @ b64_spec bs"
proof (induction bs arbitrary: out rule: b64_spec.induct)
  case (4 a b c bs)
  then show ?case by (simp add: encode_three)
qed (simp_all add: encode_end_def encode_step_def Let_def q0_def q1_def q2_def)

lemma base64_encode_spec: "base64_encode bs = b64_spec bs"
  using encode_loop [of "[]" bs] by (simp add: base64_encode_def encode_end_def)

lemma q_not_64: "unat w < 64 \<Longrightarrow> w \<noteq> (64 :: u32)"
  by auto

lemma base64_int_pad: "base64_int 61 = 64"
  by (simp add: base64_int_def)

lemma decode_four:
  "foldl decode_step ([], out) ([b64c (q0 a), b64c (q1 a b), b64c (q2 b c), b64c (q3 c)] @ r) =
     foldl decode_step ([], out @ [a, b, c]) r"
  "foldl decode_step ([], out) [b64c (q0 a), b64c (q1 a b), b64c (q2 b c), 0x3d] = ([], out @ [a, b])"
  "foldl decode_step ([], out) [b64c (q0 a), b64c (q1 a b), 0x3d, 0x3d] = ([], out @ [a])"
  by (simp_all only: foldl_append foldl_Cons foldl_Nil append.simps decode_step_def prod.case Let_def
      base64_int_char q_less)
     (simp_all add: q_not_64 [OF q_less(3)] q_not_64 [OF q_less(4)] q_dec [simplified] base64_int_pad)

lemma decode_loop: "foldl decode_step ([], out) (b64_spec bs) = ([], out @ bs)"
  by (induction bs arbitrary: out rule: b64_spec.induct) (simp_all only: b64_spec.simps decode_four, simp_all)

lemma encoded_groups: "foldl (\<lambda>j i. if i mod 3 = 0 then j + 1 else j) j [0..<n] = (j + (n + 2) div 3 :: nat)"
proof (induction n)
  case (Suc n)
  have "(Suc n + 2) div 3 = (if n mod 3 = 0 then (n + 2) div 3 + 1 else (n + 2) div 3)" by presburger
  then show ?case using Suc by simp
qed simp

lemma length_b64_spec: "length (b64_spec bs) = 4 * ((length bs + 2) div 3)"
proof (induction bs rule: b64_spec.induct)
  case (4 a b c bs)
  have "(length (a # b # c # bs) + 2) div 3 = (length bs + 2) div 3 + 1" by simp
  then show ?case using 4 by simp
qed auto

section \<open>Lemmas on searching\<close>

lemma memchr_Some: "memchr s c = Some k \<longleftrightarrow> k < length s \<and> s ! k = c \<and> (\<forall>j<k. s ! j \<noteq> c)"
proof -
  have "k < length s \<Longrightarrow> s ! k = c \<Longrightarrow> \<forall>j<k. s ! j \<noteq> c \<Longrightarrow> length (takeWhile (\<lambda>x. x \<noteq> c) s) = k"
    using takeWhile_eq_take_P_nth [of k s "\<lambda>x. x \<noteq> c"] by simp
  moreover have "length (takeWhile (\<lambda>x. x \<noteq> c) s) < length s \<Longrightarrow> s ! length (takeWhile (\<lambda>x. x \<noteq> c) s) = c"
    using nth_length_takeWhile [of "\<lambda>x. x \<noteq> c" s] by simp
  moreover have "j < length (takeWhile (\<lambda>x. x \<noteq> c) s) \<Longrightarrow> s ! j \<noteq> c" for j
    using nth_mem [of j "takeWhile (\<lambda>x. x \<noteq> c) s"] by (auto simp: takeWhile_nth dest: set_takeWhileD)
  ultimately show ?thesis by (auto simp: memchr_def Let_def)
qed

lemma needle_at_ok:
  assumes "i + length ns \<le> length hay"
  shows "needle_at hay i ns = Inr (take (length ns) (drop i hay) = ns)"
  using assms
proof (induction ns arbitrary: i)
  case (Cons n ns)
  then have "drop i hay = hay ! i # drop (Suc i) hay" by (simp add: Cons_nth_drop_Suc)
  then show ?case using Cons by auto
qed simp


lemma find_needle_from_ok:
  assumes "idx \<le> k" "k < idx + n" "k + length needle \<le> length hay" "take (length needle) (drop k hay) = needle"
    "\<And>j. idx \<le> j \<Longrightarrow> j < k \<Longrightarrow> take (length needle) (drop j hay) \<noteq> needle"
  shows "find_needle_from hay needle idx n = Inr (Some k)"
  using assms
proof (induction n arbitrary: idx)
  case (Suc n)
  show ?case
  proof (cases "idx = k")
    case True
    then show ?thesis using Suc.prems by (simp add: needle_at_ok)
  next
    case False
    then show ?thesis using Suc.prems Suc.IH [of "idx + 1"] by (simp add: needle_at_ok)
  qed
qed simp

section \<open>Properties\<close>

text \<open>
  Both hexadecimal decoders invert both encoders: the string that \<open>utils_bin_to_hex\<close> and
  \<open>utils_uint8_to_hex\<close> print for some bytes is read back as these bytes by \<open>utils_hex_to_bin\<close> and,
  up to the length of its static buffer and padded with zeros, by \<open>utils_hex_to_uint8\<close>.
\<close>

theorem hex_roundtrip:
  assumes "length bs \<le> 99999"
  shows "\<exists>s. utils_bin_to_hex bs (length bs) = Inr s \<and> utils_uint8_to_hex bs (length bs) = Inr (Some s) \<and>
    length s = 2 * length bs \<and> utils_hex_to_bin (Some s) (length s) = Inr bs \<and>
    utils_hex_to_uint8 (Some s) = Some (bs @ replicate (TO_UINT8_HEX_BUF_LEN - length bs) 0)"
  using assms by (simp add: hex_encoders hex_to_bin_hex hex_to_uint8_hex TO_UINT8_HEX_BUF_LEN_def)

theorem hex_roundtrip_witness:
  "\<exists>s. utils_bin_to_hex [0xde, 0xad] 2 = Inr s \<and> utils_hex_to_bin (Some s) (length s) = Inr [0xde, 0xad]"
  using hex_roundtrip [of "[0xde, 0xad]"] by (auto simp: numeral_2_eq_2)

text \<open>
  The displayed form of a hash (\<open>hash_to_string\<close>, the hexadecimal of the reversed bytes) is read
  back by \<open>utils_uint256_sethex\<close> as the same hash.
\<close>

theorem hash_string_roundtrip:
  assumes "length h = 32"
  shows "\<exists>s. hash_to_string h = Inr s \<and> utils_bin_to_hex (rev h) 32 = Inr s \<and> utils_uint256_sethex s = h"
  using assms by (simp add: hash_to_string_hex sethex_hex hex_encoders)

theorem hash_string_roundtrip_witness:
  "\<exists>s. hash_to_string (replicate 31 7 @ [1]) = Inr s \<and> utils_uint256_sethex s = replicate 31 7 @ [1]"
  using hash_string_roundtrip [of "replicate 31 7 @ [1]"] by auto

text \<open>
  \<open>base64_decode\<close> inverts \<open>base64_encode\<close> on every byte string, and the encoding has the length
  that \<open>base64_encoded_size\<close> announces.
\<close>

theorem base64_roundtrip:
  "base64_decode (base64_encode bs) = bs \<and> length (base64_encode bs) = base64_encoded_size (length bs)"
  by (simp add: base64_decode_def base64_encode_spec decode_loop length_b64_spec base64_encoded_size_def
      encoded_groups)

text \<open>
  \<open>find_needle\<close> returns the first occurrence of the needle. \<open>bytes_find\<close> does not: it looks at the
  first position where the first byte of the needle occurs and gives up when the rest does not
  follow there, so it misses \<open>a b\<close> in \<open>a a b\<close>.
\<close>

theorem searches_differ:
  assumes "k < length hay" "k + length needle \<le> length hay" "take (length needle) (drop k hay) = needle"
    "\<And>j. j < k \<Longrightarrow> take (length needle) (drop j hay) \<noteq> needle"
  shows "find_needle hay (length hay) needle = Inr (Some k) \<and>
    (bytes_find hay needle = Inr (Some k) \<longleftrightarrow> needle \<noteq> [] \<and> (\<forall>j<k. hay ! j \<noteq> needle ! 0))"
proof -
  have "find_needle hay (length hay) needle = Inr (Some k)"
    unfolding find_needle_def using assms by (intro find_needle_from_ok) auto
  moreover have "memchr hay (needle ! 0) = Some k \<longleftrightarrow> (\<forall>j<k. hay ! j \<noteq> needle ! 0)" if "needle \<noteq> []"
  proof -
    have "needle ! 0 = hay ! k" using assms(2) that by (subst assms(3) [symmetric]) simp
    then show ?thesis using assms(1) by (auto simp: memchr_Some)
  qed
  ultimately show ?thesis using assms(2,3) by (auto simp: bytes_find_def split: option.splits)
qed

theorem searches_differ_witness:
  "find_needle [1, 1, 2] 3 [1, 2] = Inr (Some 1) \<and> bytes_find [1, 1, 2] [1, 2] \<noteq> Inr (Some 1)"
  using searches_differ [of 1 "[1, 1, 2]" "[1, 2]"] by (auto simp: numeral_3_eq_3 dest: spec [of _ 0])

end
