(* ===== verification/Block.thy ===== *)
theory Block
  imports Merkle Scrypt Utils
begin

text \<open>
  Model of the block header code of \<open>src/src/block.c\<close> and of \<open>src/src/validation.c\<close>: the header and
  its AuxPoW proof (parser, serializer, copy), the check of the proof against the parent block, and
  the validation that combines it with the proof of work.

  A header is a record; the parent header inside a proof is the same record without a proof of its
  own, as the code guarantees. The validation hook of a header always is \<open>check\<close>, so only its flag
  \<open>is\<close> is kept. A branch array is the list of its hashes beside the count the code stores. The script
  of the parent coinbase is read with its terminating zero; reading behind it is \<open>OutOfBounds\<close>.
  The scrypt of the header is the generic one, the build without SSE2.
\<close>

unbundle bit_operations_syntax

section \<open>Data\<close>

record block_base =
  bh_version :: u32
  bh_prev_block :: bytes
  bh_merkle_root :: bytes
  bh_timestamp :: u32
  bh_bits :: u32
  bh_nonce :: u32
  bh_auxpow_is :: bool

record auxpow_payload =
  ap_parent_coinbase :: dogecoin_tx
  ap_parent_hash :: bytes
  ap_parent_merkle_count :: u8
  ap_parent_coinbase_merkle :: "bytes list"
  ap_parent_merkle_index :: u32
  ap_aux_merkle_count :: u8
  ap_aux_merkle_branch :: "bytes list"
  ap_aux_merkle_index :: u32
  ap_parent_header :: block_base

record block_header = block_base +
  bh_payload :: "auxpow_payload option"

record auxpow_block = auxpow_payload +
  ab_header :: block_header

record chainparams =
  cp_strict_id :: bool
  cp_auxpow_id :: u8
  cp_pow_limit :: bytes

definition base_new :: block_base where
  "base_new = \<lparr>bh_version = 0, bh_prev_block = replicate 32 0, bh_merkle_root = replicate 32 0,
     bh_timestamp = 0, bh_bits = 0, bh_nonce = 0, bh_auxpow_is = False\<rparr>"

definition block_header_new :: block_header where
  "block_header_new = block_base.extend base_new \<lparr>bh_payload = None\<rparr>"

definition auxpow_block_new :: auxpow_block where
  "auxpow_block_new =
     \<lparr>ap_parent_coinbase = tx_new, ap_parent_hash = replicate 32 0, ap_parent_merkle_count = 0,
      ap_parent_coinbase_merkle = [], ap_parent_merkle_index = 0, ap_aux_merkle_count = 0,
      ap_aux_merkle_branch = [], ap_aux_merkle_index = 0, ap_parent_header = base_new,
      ab_header = block_header_new\<rparr>"

section \<open>Copies\<close>

definition copy_base :: "'a block_base_scheme \<Rightarrow> 'b block_base_scheme \<Rightarrow> 'a block_base_scheme" where
  "copy_base dest src =
     dest\<lparr>bh_version := bh_version src, bh_prev_block := bh_prev_block src, bh_merkle_root := bh_merkle_root src,
          bh_timestamp := bh_timestamp src, bh_bits := bh_bits src, bh_nonce := bh_nonce src,
          bh_auxpow_is := bh_auxpow_is src\<rparr>"

text \<open>Into a zeroed payload; an array is copied when its count is not zero.\<close>

definition payload_copy :: "auxpow_payload option \<Rightarrow> auxpow_payload option" where
  "payload_copy src =
     (case src of
        None \<Rightarrow> None
      | Some p \<Rightarrow>
          Some \<lparr>ap_parent_coinbase = tx_copy tx_new (ap_parent_coinbase p),
                ap_parent_hash = ap_parent_hash p,
                ap_parent_merkle_count = ap_parent_merkle_count p,
                ap_parent_coinbase_merkle =
                  (if ap_parent_merkle_count p \<noteq> 0 then take (unat (ap_parent_merkle_count p)) (ap_parent_coinbase_merkle p) else []),
                ap_parent_merkle_index = ap_parent_merkle_index p,
                ap_aux_merkle_count = ap_aux_merkle_count p,
                ap_aux_merkle_branch =
                  (if ap_aux_merkle_count p \<noteq> 0 then take (unat (ap_aux_merkle_count p)) (ap_aux_merkle_branch p) else []),
                ap_aux_merkle_index = ap_aux_merkle_index p,
                ap_parent_header = copy_base base_new (ap_parent_header p)\<rparr>)"

definition block_header_copy :: "block_header \<Rightarrow> block_header \<Rightarrow> block_header" where
  "block_header_copy dest src = (copy_base dest src)\<lparr>bh_payload := payload_copy (bh_payload src)\<rparr>"

definition block_header_destroy :: "block_header \<Rightarrow> block_header" where
  "block_header_destroy header = header\<lparr>bh_payload := None\<rparr>"

section \<open>Reading\<close>

text \<open>The six base fields, read for the header and again for the parent header.\<close>

definition deser_base :: "'a block_base_scheme \<Rightarrow> 'a block_base_scheme deser" where
  "deser_base h buf =
     do { (version, buf) \<leftarrow> deser_s32 buf;
          (prev, buf) \<leftarrow> deser_u256 buf;
          (root, buf) \<leftarrow> deser_u256 buf;
          (timestamp, buf) \<leftarrow> deser_u32 buf;
          (bits, buf) \<leftarrow> deser_u32 buf;
          (nonce, buf) \<leftarrow> deser_u32 buf;
          Some (h\<lparr>bh_version := version, bh_prev_block := prev, bh_merkle_root := root,
                  bh_timestamp := timestamp, bh_bits := bits, bh_nonce := nonce\<rparr>, buf) }"

definition DOGECOIN_MAX_P2P_MSG_SIZE :: nat where "DOGECOIN_MAX_P2P_MSG_SIZE = 0x003D0900"

text \<open>A count followed by that many hashes; counts above a byte are refused.\<close>

definition deser_branch :: "(u8 \<times> bytes list) deser" where
  "deser_branch buf =
     do { (count, buf) \<leftarrow> deser_varlen buf;
          if count > 0xff then None
          else do { (hs, buf) \<leftarrow> deser_n deser_u256 (unat (ucast count :: u8)) buf;
                    Some ((ucast count, hs), buf) } }"

definition parse_auxpow_fields :: "auxpow_block \<Rightarrow> auxpow_block deser" where
  "parse_auxpow_fields block buffer =
     (if length buffer > DOGECOIN_MAX_P2P_MSG_SIZE then None
      else do {
        (coinbase, rest) \<leftarrow> tx_deserialize (ap_parent_coinbase block) buffer;
        let consumedlength = length buffer - length rest in
        if consumedlength = 0 then None
        else do {
          buffer \<leftarrow> deser_skip consumedlength buffer;
          let header = (ab_header block)\<lparr>bh_auxpow_is := (bh_version (ab_header block) AND 0x100 = 256)\<rparr> in
          do {
            (parent_hash, buffer) \<leftarrow> deser_u256 buffer;
            ((parent_count, parent_branch), buffer) \<leftarrow> deser_branch buffer;
            (parent_index, buffer) \<leftarrow> deser_u32 buffer;
            ((aux_count, aux_branch), buffer) \<leftarrow> deser_branch buffer;
            (aux_index, buffer) \<leftarrow> deser_u32 buffer;
            (parent_header, buffer) \<leftarrow> deser_base (ap_parent_header block) buffer;
            Some (block\<lparr>ap_parent_coinbase := coinbase, ap_parent_hash := parent_hash,
                    ap_parent_merkle_count := parent_count, ap_parent_coinbase_merkle := parent_branch,
                    ap_parent_merkle_index := parent_index, ap_aux_merkle_count := aux_count,
                    ap_aux_merkle_branch := aux_branch, ap_aux_merkle_index := aux_index,
                    ap_parent_header := parent_header, ab_header := header\<rparr>, buffer) } } })"

text \<open>
  The header after the call and, on success, the unread bytes. When only the proof cannot be parsed,
  the base fields have been copied into the header already.
\<close>

definition block_header_parse :: "block_header \<Rightarrow> bytes \<Rightarrow> block_header \<times> bytes option" where
  "block_header_parse header buf =
     (let block = auxpow_block_new in
      case deser_base (ab_header block) buf of
        None \<Rightarrow> (header, None)
      | Some (h, buf) \<Rightarrow>
          let block = block\<lparr>ab_header := h\<rparr>;
              header = block_header_copy header h in
          if bh_version h AND 0x100 \<noteq> 0 \<and> buf \<noteq> [] then
            case parse_auxpow_fields block buf of
              None \<Rightarrow> (header, None)
            | Some (block, buf) \<Rightarrow>
                let header = block_header_copy header (ab_header block);
                    payload = \<lparr>ap_parent_coinbase = ap_parent_coinbase block, ap_parent_hash = ap_parent_hash block,
                      ap_parent_merkle_count = ap_parent_merkle_count block,
                      ap_parent_coinbase_merkle = ap_parent_coinbase_merkle block,
                      ap_parent_merkle_index = ap_parent_merkle_index block,
                      ap_aux_merkle_count = ap_aux_merkle_count block,
                      ap_aux_merkle_branch = ap_aux_merkle_branch block,
                      ap_aux_merkle_index = ap_aux_merkle_index block,
                      ap_parent_header = ap_parent_header block\<rparr> in
                (header\<lparr>bh_payload := Some payload\<rparr>, Some buf)
          else (header, Some buf))"

section \<open>Writing\<close>

definition block_header_serialize :: "bytes \<Rightarrow> 'a block_base_scheme \<Rightarrow> bytes" where
  "block_header_serialize s header =
     ser_u32 (ser_u32 (ser_u32 (ser_u256 (ser_u256 (ser_s32 s (bh_version header)) (bh_prev_block header))
       (bh_merkle_root header)) (bh_timestamp header)) (bh_bits header)) (bh_nonce header)"

definition payload_serialize :: "bytes \<Rightarrow> 'a auxpow_payload_scheme \<Rightarrow> bytes" where
  "payload_serialize s p =
     (let s = tx_serialize s (ap_parent_coinbase p);
          s = ser_u256 s (ap_parent_hash p);
          s = ser_varlen s (ucast (ap_parent_merkle_count p));
          s = foldl ser_u256 s (take (unat (ap_parent_merkle_count p)) (ap_parent_coinbase_merkle p));
          s = ser_u32 s (ap_parent_merkle_index p);
          s = ser_varlen s (ucast (ap_aux_merkle_count p));
          s = foldl ser_u256 s (take (unat (ap_aux_merkle_count p)) (ap_aux_merkle_branch p));
          s = ser_u32 s (ap_aux_merkle_index p) in
      block_header_serialize s (ap_parent_header p))"

definition block_header_serialize_full :: "bytes \<Rightarrow> block_header \<Rightarrow> bytes" where
  "block_header_serialize_full s header =
     (let s = block_header_serialize s header in
      case bh_payload header of None \<Rightarrow> s | Some p \<Rightarrow> payload_serialize s p)"

text \<open>A hole in the array of transactions ends the output.\<close>

fun serialize_txs :: "bytes \<Rightarrow> dogecoin_tx option list \<Rightarrow> bytes" where
  "serialize_txs s [] = s"
| "serialize_txs s (None # ts) = s"
| "serialize_txs s (Some t # ts) = serialize_txs (tx_serialize s t) ts"

definition block_serialize :: "bytes \<Rightarrow> block_header \<Rightarrow> dogecoin_tx option list \<Rightarrow> bytes" where
  "block_serialize s header txs =
     (let s = block_header_serialize_full s header;
          s = ser_varlen s (of_nat (length txs)) in
      serialize_txs s txs)"

definition block_header_hash :: "'a block_base_scheme \<Rightarrow> bytes" where
  "block_header_hash header = sha256_raw (sha256_raw (block_header_serialize [] header))"

section \<open>The check of a proof\<close>

definition get_chainid :: "u32 \<Rightarrow> u32" where
  "get_chainid version = drop_bit 16 version"

definition is_auxpow :: "u32 \<Rightarrow> bool" where
  "is_auxpow version \<longleftrightarrow> version AND push_bit 8 1 = 256"

definition is_legacy :: "u32 \<Rightarrow> bool" where
  "is_legacy version \<longleftrightarrow> version = 1 \<or> version = 2 \<and> get_chainid version = 0"

definition pch_merged_mining_header :: bytes where
  "pch_merged_mining_header = [0xfa, 0xbe, 0x6d, 0x6d]"

text \<open>The four bytes at a position, read as a little-endian number.\<close>

definition read_le32 :: "bytes \<Rightarrow> nat \<Rightarrow> u32 c_outcome" where
  "read_le32 buf i = (if length buf < i + 4 then Inl OutOfBounds else Inr (of_nat (le_val (take 4 (drop i buf)))))"

text \<open>What is checked behind a merged-mining header at position \<open>idx\<close>.\<close>

definition merged_header_ok ::
  "bytes \<Rightarrow> bytes \<Rightarrow> nat \<Rightarrow> u32 \<Rightarrow> u32 \<Rightarrow> nat \<Rightarrow> bool c_outcome" where
  "merged_header_ok buf vch_roothash merkleHeight aux_index chainid idx =
     seqc (utils_uint8_to_hex (drop (idx + 4) buf) 32) (\<lambda>hexed.
       case hexed of
         None \<Rightarrow> Inl NullDeref
       | Some hexed \<Rightarrow>
           if take 32 vch_roothash \<noteq> take 32 hexed then Inr False
           else seqc (read_le32 buf (idx + 4 + 32)) (\<lambda>nSize.
             if nSize \<noteq> push_bit merkleHeight 1 then Inr False
             else seqc (read_le32 buf (idx + 4 + 32 + 4)) (\<lambda>nNonce.
               Inr (aux_index = get_expected_index nNonce chainid merkleHeight))))"

text \<open>The loop over the script: \<open>None\<close> is the early \<open>return false\<close>, otherwise the number of headers found.\<close>

fun merged_scan ::
  "bytes \<Rightarrow> bytes \<Rightarrow> nat \<Rightarrow> u32 \<Rightarrow> u32 \<Rightarrow> nat \<Rightarrow> nat \<Rightarrow> nat \<Rightarrow> nat option c_outcome" where
  "merged_scan buf root height aux_index chainid idx 0 count = Inr (Some count)"
| "merged_scan buf root height aux_index chainid idx (Suc n) count =
     seqc (needle_at buf idx pch_merged_mining_header) (\<lambda>needle_found.
       if needle_found then
         seqc (merged_header_ok buf root height aux_index chainid idx) (\<lambda>ok.
           if ok then merged_scan buf root height aux_index chainid (idx + 1) n (count + 1) else Inr None)
       else merged_scan buf root height aux_index chainid (idx + 1) n count)"

definition check :: "chainparams \<Rightarrow> 'a auxpow_payload_scheme \<Rightarrow> bytes \<Rightarrow> u32 \<Rightarrow> bool c_outcome" where
  "check params block hash chainid =
     (if ap_parent_merkle_index block \<noteq> 0 then Inr False
      else if cp_strict_id params \<and> get_chainid (bh_version (ap_parent_header block)) = chainid then Inr False
      else if unat (ap_aux_merkle_count block) > 30 then Inr False
      else
        let chain_merkle_root = check_merkle_branch hash
              (take (unat (ap_aux_merkle_count block)) (ap_aux_merkle_branch block)) (ap_aux_merkle_index block) in
        case vlist (tx_vin (ap_parent_coinbase block)) of
          [] \<Rightarrow> Inr False
        | tx_in # _ \<Rightarrow>
            seqc (hash_to_string chain_merkle_root) (\<lambda>vch_roothash.
              let parent_merkle_root = check_merkle_branch (tx_hash dogecoin_hash (ap_parent_coinbase block))
                    (take (unat (ap_parent_merkle_count block)) (ap_parent_coinbase_merkle block))
                    (ap_parent_merkle_index block) in
              if parent_merkle_root \<noteq> bh_merkle_root (ap_parent_header block) then Inr False
              else
                case in_script_sig tx_in of
                  None \<Rightarrow> Inl NullDeref
                | Some script \<Rightarrow>
                    seqc (merged_scan (script @ [0]) vch_roothash (unat (ap_aux_merkle_count block))
                           (ap_aux_merkle_index block) chainid 0 (length script) 0)
                      (\<lambda>r. case r of None \<Rightarrow> Inr False | Some count \<Rightarrow> Inr (\<not> count > 1))))"

section \<open>Validation\<close>

definition block_header_scrypt_hash :: "bytes \<Rightarrow> bytes" where
  "block_header_scrypt_hash s = scrypt_1024_1_1_256_sp_generic s"

text \<open>The return value, and the chain work where \<open>check_pow\<close> stored it.\<close>

definition check_auxpow :: "chainparams \<Rightarrow> auxpow_block \<Rightarrow> (bool \<times> arith option) c_outcome" where
  "check_auxpow params block =
     (let header = ab_header block in
      if \<not> is_legacy (bh_version header) \<and> cp_strict_id params \<and> get_chainid (bh_version header) \<noteq> ucast (cp_auxpow_id params)
      then Inr (False, None)
      else if \<not> bh_auxpow_is header then
        let hash = block_header_scrypt_hash (block_header_serialize [] header);
            (ok, _, chainwork) = check_pow hash (bh_bits header) (cp_pow_limit params) in
        Inr (ok, chainwork)
      else
        let parent_hash = block_header_scrypt_hash (block_header_serialize [] (ap_parent_header block));
            (ok, _, chainwork) = check_pow parent_hash (bh_bits header) (cp_pow_limit params) in
        if \<not> ok then Inr (False, chainwork)
        else
          seqc (check params block (block_header_hash header) (get_chainid (bh_version header)))
            (\<lambda>ok. Inr (ok, chainwork)))"

definition block_header_validate :: "chainparams \<Rightarrow> block_header option \<Rightarrow> (bool \<times> arith option) c_outcome" where
  "block_header_validate params header =
     (case header of
        None \<Rightarrow> Inr (False, None)
      | Some h \<Rightarrow>
          (case bh_payload h of
             None \<Rightarrow> Inr (True, None)
           | Some p \<Rightarrow> check_auxpow params (auxpow_payload.extend p \<lparr>ab_header = h\<rparr>)))"

definition block_header_deserialize ::
  "chainparams \<Rightarrow> block_header \<Rightarrow> bytes \<Rightarrow> (block_header \<times> bool \<times> arith option) c_outcome" where
  "block_header_deserialize params header buf =
     (case block_header_parse header buf of
        (header, None) \<Rightarrow> Inr (header, False, None)
      | (header, Some _) \<Rightarrow>
          seqc (block_header_validate params (Some header)) (\<lambda>(ok, chainwork). Inr (header, ok, chainwork)))"

definition deserialize_auxpow_block :: "chainparams \<Rightarrow> auxpow_block \<Rightarrow> bytes \<Rightarrow> (bool \<times> arith option) c_outcome" where
  "deserialize_auxpow_block params block buffer =
     (case parse_auxpow_fields block buffer of
        None \<Rightarrow> Inr (False, None)
      | Some (block, _) \<Rightarrow> check_auxpow params block)"


section \<open>The wire format\<close>

definition base_ok :: "'a block_base_scheme \<Rightarrow> bool" where
  "base_ok h \<longleftrightarrow> length (bh_prev_block h) = 32 \<and> length (bh_merkle_root h) = 32"

lemma block_header_serialize_eq:
  "block_header_serialize s h = s @ ser_s32 [] (bh_version h) @ ser_u256 [] (bh_prev_block h) @ ser_u256 [] (bh_merkle_root h) @
     ser_u32 [] (bh_timestamp h) @ ser_u32 [] (bh_bits h) @ ser_u32 [] (bh_nonce h)"
  by (simp add: block_header_serialize_def ser_defs)

lemma deser_base_serialize:
  assumes "base_ok h"
  shows "deser_base d (block_header_serialize [] h @ rest) = Some ((copy_base d h)\<lparr>bh_auxpow_is := bh_auxpow_is d\<rparr>, rest)"
  using assms by (simp add: block_header_serialize_eq deser_base_def base_ok_def copy_base_def u256c.dec_enc)

interpretation basec: codec "block_header_serialize []" "deser_base base_new" "\<lambda>h. base_ok h \<and> \<not> bh_auxpow_is h"
proof
  fix h :: block_base and rest
  assume h: "base_ok h \<and> \<not> bh_auxpow_is h"
  then have "(copy_base base_new h)\<lparr>bh_auxpow_is := bh_auxpow_is base_new\<rparr> = h"
    by (cases h) (simp add: copy_base_def base_new_def)
  then show "deser_base base_new (block_header_serialize [] h @ rest) = Some (h, rest)"
    using deser_base_serialize [of h base_new rest] h by simp
qed

text \<open>A branch as the serializer writes it.\<close>

definition ser_branch :: "u8 \<times> bytes list \<Rightarrow> bytes" where
  "ser_branch b = ser_varlen [] (ucast (fst b)) @ concat (map (ser_u256 []) (snd b))"

definition branch_ok :: "u8 \<times> bytes list \<Rightarrow> bool" where
  "branch_ok b \<longleftrightarrow> length (snd b) = unat (fst b) \<and> list_all (\<lambda>h. length h = 32) (snd b)"

lemma u8_count:
  fixes c :: u8
  shows "\<not> (ucast c :: u32) > 0xff" "(ucast (ucast c :: u32) :: u8) = c"
proof -
  have c: "unat (ucast c :: u32) = unat c" by (rule unat_ucast_up) simp
  then show "\<not> (ucast c :: u32) > 0xff" using unat_u8_less [of c] by (simp add: word_less_nat_alt)
  have "unat (ucast (ucast c :: u32) :: u8) = unat c"
    using c unat_u8_less [of c] by (simp add: unat_ucast_down)
  then show "(ucast (ucast c :: u32) :: u8) = c" by (rule unsigned_word_eqI)
qed

interpretation branchc: codec ser_branch deser_branch branch_ok
proof
  fix b :: "u8 \<times> bytes list" and rest
  assume b: "branch_ok b"
  obtain c hs where chs: "b = (c, hs)" by fastforce
  have "deser_n deser_u256 (unat c) (concat (map (ser_u256 []) hs) @ rest) = Some (hs, rest)"
    using b by (intro u256c.deser_n_concat) (auto simp: branch_ok_def chs list_all_iff)
  then show "deser_branch (ser_branch b @ rest) = Some (b, rest)"
    by (simp add: chs ser_branch_def deser_branch_def varlenc.dec_enc u8_count)
qed

lemma foldl_u256: "foldl ser_u256 s hs = s @ concat (map (ser_u256 []) hs)"
  by (rule foldl_append) (simp add: ser_defs)


definition payload_ok :: "'a auxpow_payload_scheme \<Rightarrow> bool" where
  "payload_ok p \<longleftrightarrow> tx_ok (ap_parent_coinbase p) \<and> vlist (tx_vin (ap_parent_coinbase p)) \<noteq> [] \<and>
     length (ap_parent_hash p) = 32 \<and>
     branch_ok (ap_parent_merkle_count p, ap_parent_coinbase_merkle p) \<and>
     branch_ok (ap_aux_merkle_count p, ap_aux_merkle_branch p) \<and>
     base_ok (ap_parent_header p) \<and> \<not> bh_auxpow_is (ap_parent_header p)"

lemma payload_serialize_eq:
  assumes "payload_ok p"
  shows "payload_serialize s p = s @ tx_serialize [] (ap_parent_coinbase p) @ ser_u256 [] (ap_parent_hash p) @
     ser_branch (ap_parent_merkle_count p, ap_parent_coinbase_merkle p) @ ser_u32 [] (ap_parent_merkle_index p) @
     ser_branch (ap_aux_merkle_count p, ap_aux_merkle_branch p) @ ser_u32 [] (ap_aux_merkle_index p) @
     block_header_serialize [] (ap_parent_header p)"
proof -
  have t: "take (unat (ap_parent_merkle_count p)) (ap_parent_coinbase_merkle p) = ap_parent_coinbase_merkle p"
    "take (unat (ap_aux_merkle_count p)) (ap_aux_merkle_branch p) = ap_aux_merkle_branch p"
    using assms by (simp_all add: payload_ok_def branch_ok_def)
  have x: "tx_serialize s tx = s @ tx_serialize [] tx" for tx by (simp add: tx_serialize_eq)
  have b: "block_header_serialize (a @ b) h = a @ b @ block_header_serialize [] h" for a b and h :: block_base
    by (simp add: block_header_serialize_eq)
  show ?thesis unfolding payload_serialize_def Let_def t x foldl_u256 ser_branch_def fst_conv snd_conv
    by (simp only: ser_norm b append_assoc)
qed

lemma deser_skip_append: "deser_skip (length xs) (xs @ r) = Some r"
  by (simp add: deser_skip_def)

lemma length_tx_serialize_pos: "0 < length (tx_serialize [] tx)"
  by (simp add: tx_serialize_eq)

text \<open>The fields that a payload puts into a block.\<close>

definition put_payload :: "auxpow_block \<Rightarrow> auxpow_payload \<Rightarrow> auxpow_block" where
  "put_payload block p =
     block\<lparr>ap_parent_coinbase := ap_parent_coinbase p, ap_parent_hash := ap_parent_hash p,
       ap_parent_merkle_count := ap_parent_merkle_count p, ap_parent_coinbase_merkle := ap_parent_coinbase_merkle p,
       ap_parent_merkle_index := ap_parent_merkle_index p, ap_aux_merkle_count := ap_aux_merkle_count p,
       ap_aux_merkle_branch := ap_aux_merkle_branch p, ap_aux_merkle_index := ap_aux_merkle_index p,
       ap_parent_header := ap_parent_header p\<rparr>"

lemma parse_payload:
  assumes "payload_ok p" "ap_parent_coinbase block = tx_new" "ap_parent_header block = base_new"
    "length (payload_serialize [] p @ rest) \<le> DOGECOIN_MAX_P2P_MSG_SIZE"
  shows "parse_auxpow_fields block (payload_serialize [] p @ rest) =
    Some ((put_payload block p)\<lparr>ab_header := (ab_header block)\<lparr>bh_auxpow_is := (bh_version (ab_header block) AND 0x100 = 256)\<rparr>\<rparr>, rest)"
proof -
  note ok = assms(1) [unfolded payload_ok_def]
  have tx: "tx_deserialize tx_new (tx_serialize [] (ap_parent_coinbase p) @ r) = Some (ap_parent_coinbase p, r)" for r
    using ok by (simp add: tx_deserialize_def txc.dec_enc)
  have b1: "deser_branch (ser_branch (ap_parent_merkle_count p, ap_parent_coinbase_merkle p) @ r) =
      Some ((ap_parent_merkle_count p, ap_parent_coinbase_merkle p), r)" for r
    using ok by (simp add: branchc.dec_enc)
  have b2: "deser_branch (ser_branch (ap_aux_merkle_count p, ap_aux_merkle_branch p) @ r) =
      Some ((ap_aux_merkle_count p, ap_aux_merkle_branch p), r)" for r
    using ok by (simp add: branchc.dec_enc)
  have h: "deser_base base_new (block_header_serialize [] (ap_parent_header p) @ r) = Some (ap_parent_header p, r)" for r
    using ok by (simp add: basec.dec_enc)
  have l: "length (ap_parent_hash p) = 32" using ok by simp
  show ?thesis
    using assms(4) length_tx_serialize_pos [of "ap_parent_coinbase p"] l
    unfolding parse_auxpow_fields_def assms(2,3) payload_serialize_eq [OF assms(1)]
    by (simp add: tx b1 b2 h deser_skip_append put_payload_def Let_def)
qed

section \<open>Copies are equal\<close>

lemma copy_base_id: "copy_base d h = h" for d h :: block_base
  by (cases d; cases h) (simp add: copy_base_def)

lemma payload_copy_id:
  assumes "\<And>q. p = Some q \<Longrightarrow> payload_ok q"
  shows "payload_copy p = p"
proof (cases p)
  case (Some q)
  then have "branch_ok (ap_parent_merkle_count q, ap_parent_coinbase_merkle q)" "branch_ok (ap_aux_merkle_count q, ap_aux_merkle_branch q)"
    using assms by (simp_all add: payload_ok_def)
  then show ?thesis using Some
    by (cases q) (auto simp: payload_copy_def copy_base_id branch_ok_def)
qed (simp add: payload_copy_def)

definition header_ok :: "block_header \<Rightarrow> bool" where
  "header_ok h \<longleftrightarrow> base_ok h \<and>
     (case bh_payload h of
        None \<Rightarrow> \<not> bh_auxpow_is h
      | Some p \<Rightarrow> bh_auxpow_is h \<and> bh_version h AND 0x100 = 256 \<and> payload_ok p)"

lemma block_header_copy_id:
  assumes "header_ok h"
  shows "block_header_copy d h = h"
proof -
  have "payload_copy (bh_payload h) = bh_payload h"
    using assms by (intro payload_copy_id) (simp add: header_ok_def)
  then show ?thesis by (cases d; cases h) (simp add: block_header_copy_def copy_base_def)
qed


section \<open>The header round trip\<close>

lemma serialize_full_eq:
  assumes "header_ok h"
  shows "block_header_serialize_full s h = s @ block_header_serialize [] h @
    (case bh_payload h of None \<Rightarrow> [] | Some p \<Rightarrow> payload_serialize [] p)"
proof (cases "bh_payload h")
  case None
  then show ?thesis
    by (simp add: block_header_serialize_full_def block_header_serialize_eq)
next
  case (Some p)
  then have p: "payload_ok p" using assms by (simp add: header_ok_def)
  show ?thesis using Some
    unfolding block_header_serialize_full_def Let_def payload_serialize_eq [OF p, of "block_header_serialize s h"]
      payload_serialize_eq [OF p, of "[]"]
    by (simp add: block_header_serialize_eq [of s] block_header_serialize_eq [of "[]"] payload_serialize_eq [OF p])
qed

lemma block_header_copy_plain: "bh_payload h = None \<Longrightarrow> block_header_copy d h = h"
  by (cases d; cases h) (simp add: block_header_copy_def copy_base_def payload_copy_def)

lemma deser_header:
  assumes "base_ok h"
  shows "deser_base block_header_new (block_header_serialize [] h @ rest) = Some (h\<lparr>bh_auxpow_is := False, bh_payload := None\<rparr>, rest)"
proof -
  have "(copy_base block_header_new h)\<lparr>bh_auxpow_is := bh_auxpow_is block_header_new\<rparr> = h\<lparr>bh_auxpow_is := False, bh_payload := None\<rparr>"
    by (cases h) (simp add: copy_base_def block_header_new_def base_new_def block_base.defs)
  then show ?thesis using deser_base_serialize [OF assms, of block_header_new rest] by simp
qed

definition fits :: "block_header \<Rightarrow> bytes \<Rightarrow> bool" where
  "fits h rest \<longleftrightarrow>
     (case bh_payload h of
        None \<Rightarrow> bh_version h AND 0x100 = 0 \<or> rest = []
      | Some p \<Rightarrow> length (payload_serialize [] p @ rest) \<le> DOGECOIN_MAX_P2P_MSG_SIZE)"

lemma parse_serialized:
  assumes h: "header_ok h" and fits: "fits h rest"
  shows "block_header_parse d (block_header_serialize_full [] h @ rest) = (h, Some rest)"
proof (cases "bh_payload h")
  case None
  then have "h\<lparr>bh_auxpow_is := False, bh_payload := None\<rparr> = h" using h by (cases h) (simp add: header_ok_def)
  then have "deser_base (ab_header auxpow_block_new) (block_header_serialize [] h @ rest) = Some (h, rest)"
    using deser_header [of h rest] h by (simp add: auxpow_block_new_def header_ok_def)
  moreover have "\<not> (bh_version h AND 0x100 \<noteq> 0 \<and> rest \<noteq> [])" using fits None by (auto simp: fits_def)
  ultimately show ?thesis using None
    by (simp add: block_header_parse_def serialize_full_eq [OF h] block_header_copy_plain if_not_P)
next
  case (Some p)
  let ?h0 = "h\<lparr>bh_auxpow_is := False, bh_payload := None\<rparr>"
  let ?b = "auxpow_block_new\<lparr>ab_header := ?h0\<rparr>"
  have p: "payload_ok p" "bh_auxpow_is h" "bh_version h AND 0x100 = 256" "base_ok h"
    using h Some by (simp_all add: header_ok_def)
  have 1: "deser_base (ab_header auxpow_block_new) (block_header_serialize [] h @ payload_serialize [] p @ rest) =
      Some (?h0, payload_serialize [] p @ rest)"
    using deser_header [OF p(4)] by (simp add: auxpow_block_new_def)
  have 2: "parse_auxpow_fields ?b (payload_serialize [] p @ rest) =
      Some ((put_payload ?b p)\<lparr>ab_header := ?h0\<lparr>bh_auxpow_is := True\<rparr>\<rparr>, rest)"
    using parse_payload [OF p(1), of ?b rest] fits Some p(3) by (simp add: auxpow_block_new_def fits_def)
  have 3: "payload_serialize [] p \<noteq> []" by (simp add: payload_serialize_eq [OF p(1)] ser_defs le_bytes_numeral)
  have 4: "?h0\<lparr>bh_auxpow_is := True, bh_payload := Some p\<rparr> = h"
    using Some p(2) by (cases h) simp
  have 5: "block_header_serialize_full [] h @ rest = block_header_serialize [] h @ payload_serialize [] p @ rest"
    using Some by (simp add: serialize_full_eq [OF h])
  show ?thesis
    unfolding block_header_parse_def Let_def 5 1 option.case prod.case 2
    using p(3) 3 4 by (cases p) (simp add: block_header_copy_plain put_payload_def)
qed


section \<open>The scan of the coinbase script\<close>

lemma needle_at_terminated:
  assumes "i \<le> length s" "0 \<notin> set ns"
  shows "needle_at (s @ [0]) i ns = Inr (take (length ns) (drop i s) = ns)"
  using assms
proof (induction ns arbitrary: i)
  case (Cons n ns)
  show ?case
  proof (cases "i < length s")
    case True
    then have "drop i s = s ! i # drop (Suc i) s" by (simp add: Cons_nth_drop_Suc)
    then show ?thesis using True Cons by (auto simp: nth_append)
  next
    case False
    then show ?thesis using Cons.prems by (auto simp: nth_append)
  qed
qed simp

definition header_at :: "bytes \<Rightarrow> nat \<Rightarrow> bool" where
  "header_at script i \<longleftrightarrow> take 4 (drop i script) = pch_merged_mining_header"

definition header_positions :: "bytes \<Rightarrow> nat list" where
  "header_positions script = filter (header_at script) [0..<length script]"

lemma needle_at_header:
  "i \<le> length s \<Longrightarrow> needle_at (s @ [0]) i pch_merged_mining_header = Inr (header_at s i)"
proof -
  have "length pch_merged_mining_header = 4" "0 \<notin> set pch_merged_mining_header"
    by (simp_all add: pch_merged_mining_header_def)
  then show "i \<le> length s \<Longrightarrow> needle_at (s @ [0]) i pch_merged_mining_header = Inr (header_at s i)"
    using needle_at_terminated [of i s pch_merged_mining_header] by (simp add: header_at_def)
qed

lemma merged_scan_iff:
  assumes "idx + n \<le> length s"
  shows "merged_scan (s @ [0]) root height aux chainid idx n count = Inr (Some c) \<longleftrightarrow>
    list_all (\<lambda>i. merged_header_ok (s @ [0]) root height aux chainid i = Inr True) (filter (header_at s) [idx..<idx + n]) \<and>
    c = count + length (filter (header_at s) [idx..<idx + n])"
  using assms
proof (induction n arbitrary: idx count)
  case (Suc n)
  have u: "[idx..<idx + Suc n] = idx # [Suc idx..<Suc idx + n]" by (simp add: upt_conv_Cons)
  show ?case
  proof (cases "header_at s idx")
    case True
    then show ?thesis using Suc.prems Suc.IH [of "Suc idx" "count + 1"] unfolding u
      by (auto simp: needle_at_header seqc_eq_Inr)
  next
    case False
    then show ?thesis using Suc.prems Suc.IH [of "Suc idx" count] unfolding u by (simp add: needle_at_header)
  qed
qed auto

subsection \<open>What stands behind a header\<close>

lemma take_hex: "take (2 * n) (hex xs) = hex (take n xs)"
proof (induction xs arbitrary: n)
  case (Cons x xs)
  then show ?case by (cases n) (auto simp: hex_byte_def)
qed simp

lemma hex_inject: "hex xs = hex ys \<longleftrightarrow> xs = ys"
proof
  assume e: "hex xs = hex ys"
  have l: "2 * length xs = 2 * length ys" using arg_cong [OF e, of length] by (simp only: length_hex)
  have "Inr xs = utils_hex_to_bin (Some (hex xs)) (2 * length xs)" by (rule hex_to_bin_hex [symmetric])
  also have "\<dots> = Inr ys" unfolding e l by (rule hex_to_bin_hex)
  finally show "xs = ys" by (rule sum.inject(2) [THEN iffD1])
qed simp

definition committed_at :: "bytes \<Rightarrow> bytes \<Rightarrow> nat \<Rightarrow> u32 \<Rightarrow> u32 \<Rightarrow> nat \<Rightarrow> bool" where
  "committed_at buf root height aux_index chainid i \<longleftrightarrow>
     i + 44 \<le> length buf \<and> take 16 (drop (i + 4) buf) = take 16 (rev root) \<and>
     le_val (take 4 (drop (i + 36) buf)) = 2 ^ height \<and>
     aux_index = get_expected_index (of_nat (le_val (take 4 (drop (i + 40) buf)))) chainid height"

lemma le32_eq_power:
  assumes "length bs = 4" "height < 32"
  shows "(of_nat (le_val bs) :: u32) = push_bit height 1 \<longleftrightarrow> le_val bs = 2 ^ height"
proof -
  have "le_val bs < 2 ^ 32" using le_val_less [of bs] assms(1) by simp
  then have "unat (of_nat (le_val bs) :: u32) = le_val bs" by (simp add: unat_of_nat)
  moreover have "unat (push_bit height 1 :: u32) = 2 ^ height" using assms(2) by (simp add: push_bit_eq_mult unat_2p)
  ultimately show ?thesis by (metis unsigned_word_eqI)
qed

lemma merged_header_ok_iff:
  assumes "length root = 32" "height < 32"
  shows "merged_header_ok buf (hex (rev root)) height aux chainid i = Inr True \<longleftrightarrow> committed_at buf root height aux chainid i"
proof (cases "i + 36 \<le> length buf")
  case False
  then show ?thesis
    by (auto simp: merged_header_ok_def committed_at_def utils_uint8_to_hex_def TO_UINT8_HEX_BUF_LEN_def)
next
  case True
  have "take 32 (hex (rev root)) = take 32 (hex (take 32 (drop (i + 4) buf))) \<longleftrightarrow>
      take 16 (rev root) = take 16 (drop (i + 4) buf)"
    using take_hex [of 16 "rev root"] take_hex [of 16 "take 32 (drop (i + 4) buf)"] by (simp add: hex_inject min_def)
  then show ?thesis
    using True le32_eq_power [of "take 4 (drop (i + 36) buf)" height] assms(2)
    by (auto simp: merged_header_ok_def committed_at_def hex_encoders seqc_eq_Inr read_le32_def add.assoc split: if_splits)
qed


subsection \<open>The check\<close>

lemma length_check_merkle_branch:
  assumes "length hash = 32" "list_all (\<lambda>h. length h = 32) branch"
  shows "length (check_merkle_branch hash branch index) = 32"
proof -
  have "length (branch_loop hash branch index) = 32"
    using assms
  proof (induction branch arbitrary: hash index)
    case (Cons b branch)
    then show ?case by (simp add: sha256d_2_input_eq length_dogecoin_hash)
  qed simp
  then show ?thesis by (simp add: check_merkle_branch_def)
qed

definition chain_root :: "'a auxpow_payload_scheme \<Rightarrow> bytes \<Rightarrow> bytes" where
  "chain_root block hash = check_merkle_branch hash
     (take (unat (ap_aux_merkle_count block)) (ap_aux_merkle_branch block)) (ap_aux_merkle_index block)"

definition parent_commits :: "'a auxpow_payload_scheme \<Rightarrow> bool" where
  "parent_commits block \<longleftrightarrow> ap_parent_merkle_index block = 0 \<and>
     check_merkle_branch (tx_hash dogecoin_hash (ap_parent_coinbase block))
       (take (unat (ap_parent_merkle_count block)) (ap_parent_coinbase_merkle block)) 0 =
     bh_merkle_root (ap_parent_header block)"

definition guards_ok :: "chainparams \<Rightarrow> 'a auxpow_payload_scheme \<Rightarrow> u32 \<Rightarrow> bool" where
  "guards_ok params block chainid \<longleftrightarrow>
     (cp_strict_id params \<longrightarrow> get_chainid (bh_version (ap_parent_header block)) \<noteq> chainid) \<and>
     unat (ap_aux_merkle_count block) \<le> 30"

lemma check_iff:
  assumes "length hash = 32" "list_all (\<lambda>h. length h = 32) (ap_aux_merkle_branch block)"
    and "vlist (tx_vin (ap_parent_coinbase block)) = tx_in # ins" "in_script_sig tx_in = Some script"
  shows "check params block hash chainid = Inr True \<longleftrightarrow>
    guards_ok params block chainid \<and> parent_commits block \<and>
    list_all (committed_at (script @ [0]) (chain_root block hash) (unat (ap_aux_merkle_count block)) (ap_aux_merkle_index block) chainid)
      (header_positions script) \<and>
    length (header_positions script) \<le> 1"
proof (cases "guards_ok params block chainid \<and> parent_commits block")
  case False
  then show ?thesis using assms(3,4)
    by (auto simp: check_def guards_ok_def parent_commits_def Let_def seqc_eq_Inr)
next
  case True
  have "list_all (\<lambda>h. length h = 32) (take n (ap_aux_merkle_branch block))" for n
    using assms(2) by (auto simp: list_all_iff dest: in_set_takeD)
  then have l: "length (chain_root block hash) = 32"
    using assms(1) by (simp add: chain_root_def length_check_merkle_branch)
  have h: "unat (ap_aux_merkle_count block) < 32" using True by (simp add: guards_ok_def)
  let ?scan = "merged_scan (script @ [0]) (hex (rev (chain_root block hash))) (unat (ap_aux_merkle_count block))
     (ap_aux_merkle_index block) chainid 0 (length script) 0"
  have c: "check params block hash chainid =
      seqc ?scan (\<lambda>r. case r of None \<Rightarrow> Inr False | Some count \<Rightarrow> Inr (\<not> count > 1))"
    using True assms(3,4) hash_to_string_hex [OF l]
    by (auto simp: check_def guards_ok_def parent_commits_def Let_def chain_root_def simp del: One_nat_def)
  have "check params block hash chainid = Inr True \<longleftrightarrow> (\<exists>k. ?scan = Inr (Some k) \<and> k \<le> 1)"
    unfolding c by (auto simp: seqc_eq_Inr split: option.splits)
  then show ?thesis using True
    by (simp add: merged_scan_iff merged_header_ok_iff [OF l h] header_positions_def)
qed


section \<open>Validation\<close>

lemma length_scrypt_hash [simp]: "length (block_header_scrypt_hash s) = 32"
  unfolding block_header_scrypt_hash_def generic_mixed_block Let_def
  by (simp add: length_pbkdf2_hmac_sha256 del: One_nat_def)

definition pow_ok :: "chainparams \<Rightarrow> u32 \<Rightarrow> bytes \<Rightarrow> bool" where
  "pow_ok params bits hash \<longleftrightarrow>
     0 < compact_value bits \<and> \<not> bit bits 23 \<and> compact_value bits \<le> le_val (cp_pow_limit params) \<and>
     le_val (rev hash) \<le> compact_value bits"

definition chain_id_ok :: "chainparams \<Rightarrow> u32 \<Rightarrow> bool" where
  "chain_id_ok params version \<longleftrightarrow>
     is_legacy version \<or> \<not> cp_strict_id params \<or> get_chainid version = ucast (cp_auxpow_id params)"

lemma check_auxpow_accepts:
  assumes "length (cp_pow_limit params) = 32" "bh_auxpow_is (ab_header block)"
  shows "(\<exists>cw. check_auxpow params block = Inr (True, cw)) \<longleftrightarrow>
    chain_id_ok params (bh_version (ab_header block)) \<and>
    pow_ok params (bh_bits (ab_header block)) (block_header_scrypt_hash (block_header_serialize [] (ap_parent_header block))) \<and>
    check params block (block_header_hash (ab_header block)) (get_chainid (bh_version (ab_header block))) = Inr True"
proof -
  let ?h = "block_header_scrypt_hash (block_header_serialize [] (ap_parent_header block))"
  obtain ok r cw where p: "check_pow ?h (bh_bits (ab_header block)) (cp_pow_limit params) = (ok, r, cw)"
    by (cases "check_pow ?h (bh_bits (ab_header block)) (cp_pow_limit params)")
  have "ok \<longleftrightarrow> pow_ok params (bh_bits (ab_header block)) ?h"
    using check_pow_fst_iff [of ?h "cp_pow_limit params" "bh_bits (ab_header block)"] assms(1) p by (simp add: pow_ok_def)
  then show ?thesis
    using assms(2) p by (auto simp: check_auxpow_def Let_def chain_id_ok_def seqc_eq_Inr)
qed

section \<open>Properties\<close>

text \<open>
  C29. A block header survives the wire: parsing what \<open>dogecoin_block_header_serialize_full\<close> writes gives
  back the header, its AuxPoW proof included, and leaves the bytes behind it, whatever the header
  parsed into held before.
\<close>

theorem block_header_roundtrip:
  assumes "header_ok h" "fits h rest"
  shows "block_header_parse d (block_header_serialize_full [] h @ rest) = (h, Some rest)"
  by (rule parse_serialized [OF assms])

definition demo_coinbase :: dogecoin_tx where
  "demo_coinbase = \<lparr>tx_version = 1,
     tx_vin = Some [\<lparr>in_prevout = \<lparr>po_hash = replicate 32 0, po_n = - 1\<rparr>, in_script_sig = Some [3, 1, 2, 3], in_sequence = - 1\<rparr>],
     tx_vout = Some [], tx_locktime = 0\<rparr>"

definition demo_payload :: auxpow_payload where
  "demo_payload =
     \<lparr>ap_parent_coinbase = demo_coinbase, ap_parent_hash = replicate 32 1, ap_parent_merkle_count = 0,
      ap_parent_coinbase_merkle = [], ap_parent_merkle_index = 0, ap_aux_merkle_count = 1,
      ap_aux_merkle_branch = [replicate 32 5], ap_aux_merkle_index = 1,
      ap_parent_header = base_new\<lparr>bh_version := 2, bh_merkle_root := tx_hash dogecoin_hash demo_coinbase\<rparr>\<rparr>"

definition demo_header :: block_header where
  "demo_header = block_base.extend (base_new\<lparr>bh_version := 0x620104, bh_bits := 0x1e0ffff0, bh_auxpow_is := True\<rparr>) \<lparr>bh_payload = Some demo_payload\<rparr>"

lemma length_tx_hash: "length (tx_hash dogecoin_hash tx) = 32"
  by (simp add: tx_hash_def length_dogecoin_hash)

lemma demo_ok: "payload_ok demo_payload" "header_ok demo_header" "fits demo_header [1, 2, 3]"
proof -
  show p: "payload_ok demo_payload"
    by (simp add: payload_ok_def demo_payload_def demo_coinbase_def tx_ok_def tx_in_ok_def vlist_def branch_ok_def
        base_ok_def base_new_def length_tx_hash)
  then show "header_ok demo_header"
    by (simp add: header_ok_def demo_header_def base_ok_def base_new_def block_base.defs)
  show "fits demo_header [1, 2, 3]"
    using p by (simp add: fits_def demo_header_def block_base.defs payload_serialize_eq DOGECOIN_MAX_P2P_MSG_SIZE_def
        demo_payload_def demo_coinbase_def tx_serialize_eq vlist_def ser_branch_def ser_varlen_cases tx_in_serialize_eq
        ser_varstr_def ser_bytes_def block_header_serialize_eq base_new_def length_tx_hash)
qed

theorem block_header_roundtrip_witness:
  "block_header_parse block_header_new (block_header_serialize_full [] demo_header @ [1, 2, 3]) = (demo_header, Some [1, 2, 3])"
  using block_header_roundtrip [OF demo_ok(2,3)] by simp

text \<open>
  C5. What the AuxPoW check accepts. The coinbase has to be committed by the merkle root of the parent
  header at index 0, the parent must not be of our chain when identifiers are strict, the chain
  branch has at most 30 levels, and there is at most one merged-mining header in the coinbase
  script. Behind that header, if there is one, stand the first 16 bytes of the byte-reversed chain
  merkle root, the size of the chain tree and the nonce that puts our chain at the claimed index.
\<close>

theorem auxpow_check_accepts_iff:
  assumes "length hash = 32" "list_all (\<lambda>h. length h = 32) (ap_aux_merkle_branch block)"
    and "vlist (tx_vin (ap_parent_coinbase block)) = tx_in # ins" "in_script_sig tx_in = Some script"
  shows "check params block hash chainid = Inr True \<longleftrightarrow>
    guards_ok params block chainid \<and> parent_commits block \<and>
    list_all (committed_at (script @ [0]) (chain_root block hash) (unat (ap_aux_merkle_count block)) (ap_aux_merkle_index block) chainid)
      (header_positions script) \<and>
    length (header_positions script) \<le> 1"
  by (rule check_iff [OF assms])

lemma demo_no_header: "header_positions [3, 1, 2, 3] = []"
  by (simp add: header_positions_def header_at_def pch_merged_mining_header_def upt_conv_Cons)

lemma demo_input:
  "vlist (tx_vin (ap_parent_coinbase demo_payload)) =
     [\<lparr>in_prevout = \<lparr>po_hash = replicate 32 0, po_n = - 1\<rparr>, in_script_sig = Some [3, 1, 2, 3], in_sequence = - 1\<rparr>]"
  by (simp add: demo_payload_def demo_coinbase_def vlist_def)

lemma demo_guards:
  "guards_ok \<lparr>cp_strict_id = True, cp_auxpow_id = 0x62, cp_pow_limit = replicate 32 0\<rparr> demo_payload 0x62"
  "parent_commits demo_payload" "list_all (\<lambda>h. length h = 32) (ap_aux_merkle_branch demo_payload)"
  by (simp_all add: guards_ok_def parent_commits_def demo_payload_def base_new_def get_chainid_def check_merkle_branch_def)

theorem auxpow_check_accepts_iff_witness:
  "check \<lparr>cp_strict_id = True, cp_auxpow_id = 0x62, cp_pow_limit = replicate 32 0\<rparr> demo_payload (replicate 32 9) 0x62 = Inr True"
  using auxpow_check_accepts_iff [OF _ demo_guards(3) demo_input, of "replicate 32 9" "[3, 1, 2, 3]"] demo_guards(1,2)
  by (simp add: demo_no_header)

text \<open>
  A proof whose coinbase script has no merged-mining header is not bound to the block: once the
  parent commits to the coinbase and the identifiers are right, it is accepted for every block hash.
\<close>

theorem auxpow_check_unbound:
  assumes "guards_ok params block chainid" "parent_commits block"
    and "list_all (\<lambda>h. length h = 32) (ap_aux_merkle_branch block)"
    and "vlist (tx_vin (ap_parent_coinbase block)) = tx_in # ins" "in_script_sig tx_in = Some script"
    and "header_positions script = []" "length hash = 32"
  shows "check params block hash chainid = Inr True"
  using check_iff [OF assms(7,3-5), of params chainid] assms(1,2,6) by simp

theorem auxpow_check_unbound_witness:
  "check \<lparr>cp_strict_id = True, cp_auxpow_id = 0x62, cp_pow_limit = replicate 32 0\<rparr> demo_payload (replicate 32 77) 0x62 = Inr True"
  using auxpow_check_unbound [OF demo_guards demo_input _ demo_no_header, of "replicate 32 77"] by simp

text \<open>
  C4. Parsing and validation together: a merge-mined header read from the wire is accepted exactly when
  its chain identifier is ours (or it is a legacy version, or identifiers are not strict), the scrypt
  hash of the parent header meets the target in the header's own bits, and the AuxPoW check accepts
  the double SHA-256 of the header.
\<close>

theorem block_header_deserialize_accepts_iff:
  assumes "header_ok h" "fits h rest" "bh_payload h = Some p" "length (cp_pow_limit params) = 32"
  shows "(\<exists>cw. block_header_deserialize params d (block_header_serialize_full [] h @ rest) = Inr (h, True, cw)) \<longleftrightarrow>
    chain_id_ok params (bh_version h) \<and>
    pow_ok params (bh_bits h) (block_header_scrypt_hash (block_header_serialize [] (ap_parent_header p))) \<and>
    check params (auxpow_payload.extend p \<lparr>ab_header = h\<rparr>) (block_header_hash h) (get_chainid (bh_version h)) = Inr True"
proof -
  let ?b = "auxpow_payload.extend p \<lparr>ab_header = h\<rparr>"
  have "bh_auxpow_is h" using assms(1,3) by (simp add: header_ok_def)
  moreover have "ab_header ?b = h" "ap_parent_header ?b = ap_parent_header p" by (simp_all add: auxpow_payload.defs)
  ultimately have "(\<exists>cw. check_auxpow params ?b = Inr (True, cw)) \<longleftrightarrow> chain_id_ok params (bh_version h) \<and>
      pow_ok params (bh_bits h) (block_header_scrypt_hash (block_header_serialize [] (ap_parent_header p))) \<and>
      check params ?b (block_header_hash h) (get_chainid (bh_version h)) = Inr True"
    using check_auxpow_accepts [OF assms(4), of ?b] by simp
  moreover have "(\<exists>cw. block_header_deserialize params d (block_header_serialize_full [] h @ rest) = Inr (h, True, cw)) \<longleftrightarrow>
      (\<exists>cw. check_auxpow params ?b = Inr (True, cw))"
    by (auto simp: block_header_deserialize_def parse_serialized [OF assms(1,2)] block_header_validate_def assms(3)
        seqc_eq_Inr)
  ultimately show ?thesis by simp
qed

theorem block_header_deserialize_accepts_iff_witness:
  "\<not> (\<exists>cw. block_header_deserialize \<lparr>cp_strict_id = True, cp_auxpow_id = 0x62, cp_pow_limit = replicate 32 0\<rparr>
      block_header_new (block_header_serialize_full [] demo_header @ [1, 2, 3]) = Inr (demo_header, True, cw))"
proof -
  have "\<not> pow_ok \<lparr>cp_strict_id = True, cp_auxpow_id = 0x62, cp_pow_limit = replicate 32 0\<rparr> b x" for b x
    by (auto simp: pow_ok_def)
  then show ?thesis
    using block_header_deserialize_accepts_iff [OF demo_ok(2,3), of demo_payload
        "\<lparr>cp_strict_id = True, cp_auxpow_id = 0x62, cp_pow_limit = replicate 32 0\<rparr>"]
    by (simp add: demo_header_def block_base.defs)
qed

end
