(* ===== verification/Btree.thy ===== *)
theory Btree
  imports Prelude "HOL-Library.Tree"
begin

text \<open>
  Model of the unbalanced search tree in \<open>src/include/dogecoin/utils.h\<close> (\<open>dogecoin_btree_tsearch\<close>,
  \<open>dogecoin_btree_tfind\<close>, \<open>dogecoin_btree_tdelete\<close>, \<open>dogecoin_btree_tdestroy\<close>), which the headers
  database uses as its index. A null link is \<open>Leaf\<close>; a comparison function is a parameter, as in the
  code, and negative results lead to the left.

  The locale \<open>comparator\<close> states what the tree needs of the comparison function: it decides
  equality and a strict total order of the keys that the elements carry. Under it the tree is a
  finite map from keys to elements.
\<close>

section \<open>The code\<close>

fun dogecoin_btree_tfind :: "('k \<Rightarrow> 'k \<Rightarrow> int) \<Rightarrow> 'k \<Rightarrow> 'k tree \<Rightarrow> 'k option" where
  "dogecoin_btree_tfind compar vkey Leaf = None"
| "dogecoin_btree_tfind compar vkey (Node l k r) =
     (let c = compar vkey k in
      if c = 0 then Some k
      else if c < 0 then dogecoin_btree_tfind compar vkey l
      else dogecoin_btree_tfind compar vkey r)"

fun dogecoin_btree_tsearch :: "('k \<Rightarrow> 'k \<Rightarrow> int) \<Rightarrow> 'k \<Rightarrow> 'k tree \<Rightarrow> 'k tree" where
  "dogecoin_btree_tsearch compar vkey Leaf = Node Leaf vkey Leaf"
| "dogecoin_btree_tsearch compar vkey (Node l k r) =
     (let c = compar vkey k in
      if c = 0 then Node l k r
      else if c < 0 then Node (dogecoin_btree_tsearch compar vkey l) k r
      else Node l k (dogecoin_btree_tsearch compar vkey r))"

text \<open>
  Unlinking the leftmost node of a subtree: the loop at label D3, with the key of that node and the
  subtree without it.
\<close>

fun unlink_leftmost :: "'k tree \<Rightarrow> 'k \<Rightarrow> 'k tree \<Rightarrow> 'k \<times> 'k tree" where
  "unlink_leftmost Leaf k r = (k, r)"
| "unlink_leftmost (Node l k' r') k r = (case unlink_leftmost l k' r' of (m, t) \<Rightarrow> (m, Node t k r))"

text \<open>What takes the place of a deleted node, by the cases D1, D2 and D3 of the code.\<close>

fun unlink_node :: "'k tree \<Rightarrow> 'k tree \<Rightarrow> 'k tree" where
  "unlink_node Leaf r = r"
| "unlink_node (Node a k b) Leaf = Node a k b"
| "unlink_node (Node a k b) (Node Leaf k' r') = Node (Node a k b) k' r'"
| "unlink_node (Node a k b) (Node (Node l2 k2 r2) k' r') =
     (case unlink_leftmost l2 k2 r2 of (m, t) \<Rightarrow> Node (Node a k b) m (Node t k' r'))"

fun dogecoin_btree_tdelete :: "('k \<Rightarrow> 'k \<Rightarrow> int) \<Rightarrow> 'k \<Rightarrow> 'k tree \<Rightarrow> 'k tree" where
  "dogecoin_btree_tdelete compar vkey Leaf = Leaf"
| "dogecoin_btree_tdelete compar vkey (Node l k r) =
     (let c = compar vkey k in
      if c = 0 then unlink_node l r
      else if c < 0 then Node (dogecoin_btree_tdelete compar vkey l) k r
      else Node l k (dogecoin_btree_tdelete compar vkey r))"

text \<open>The keys in the order in which \<open>freekey\<close> is called.\<close>

fun dogecoin_btree_tdestroy :: "'k tree \<Rightarrow> 'k list" where
  "dogecoin_btree_tdestroy Leaf = []"
| "dogecoin_btree_tdestroy (Node l k r) = dogecoin_btree_tdestroy l @ dogecoin_btree_tdestroy r @ [k]"

section \<open>Unlinking keeps the elements in order\<close>

lemma inorder_unlink_leftmost: "unlink_leftmost l k r = (m, t) \<Longrightarrow> m # inorder t = inorder (Node l k r)"
  by (induction l k r arbitrary: m t rule: unlink_leftmost.induct) (auto split: prod.splits)

lemma inorder_unlink_node: "inorder (unlink_node l r) = inorder l @ inorder r"
proof (cases "(l, r)" rule: unlink_node.cases)
  case (4 a k b l2 k2 r2 k' r')
  obtain m t where "unlink_leftmost l2 k2 r2 = (m, t)" by fastforce
  then show ?thesis using 4 inorder_unlink_leftmost [of l2 k2 r2 m t] by simp
qed auto

lemma bst_wrt_inorder:
  assumes "transp P"
  shows "bst_wrt P t \<longleftrightarrow> sorted_wrt P (inorder t)"
proof (induction t)
  case (Node l a r)
  have "P x y" if "P x a" "P a y" for x y using assms that by (rule transpD)
  then show ?case using Node by (auto simp: sorted_wrt_append)
qed simp

section \<open>The contract of a comparison function\<close>

locale comparator =
  fixes compar :: "'k \<Rightarrow> 'k \<Rightarrow> int" and key :: "'k \<Rightarrow> 'a" and before :: "'a \<Rightarrow> 'a \<Rightarrow> bool"
  assumes compar_zero: "compar x y = 0 \<longleftrightarrow> key x = key y"
    and compar_neg: "compar x y < 0 \<longleftrightarrow> before (key x) (key y)"
    and before_irrefl: "\<not> before a a"
    and before_trans: "before a b \<Longrightarrow> before b c \<Longrightarrow> before a c"
    and before_total: "a \<noteq> b \<Longrightarrow> before a b \<or> before b a"
begin

abbreviation lt :: "'k \<Rightarrow> 'k \<Rightarrow> bool" where
  "lt x y \<equiv> before (key x) (key y)"

lemma transp_lt: "transp lt"
  using before_trans by (blast intro: transpI)

lemma bst_sorted: "bst_wrt lt t \<longleftrightarrow> sorted_wrt lt (inorder t)"
  by (rule bst_wrt_inorder [OF transp_lt])

lemma bst_keys_distinct: "bst_wrt lt t \<Longrightarrow> x \<in> set_tree t \<Longrightarrow> y \<in> set_tree t \<Longrightarrow> key x = key y \<Longrightarrow> x = y"
proof (induction t)
  case (Node l a r)
  have "\<not> before (key x) (key y)" "\<not> before (key y) (key x)" using Node.prems(4) before_irrefl by auto
  then have "\<not> (x \<in> set_tree l \<and> y \<in> insert a (set_tree r))" "\<not> (y \<in> set_tree l \<and> x \<in> insert a (set_tree r))"
    "\<not> (x = a \<and> y \<in> set_tree r)" "\<not> (y = a \<and> x \<in> set_tree r)"
    using Node.prems(1) before_trans by (auto; blast)+
  then show ?case using Node by auto
qed simp

lemma before_neq: "before a b \<Longrightarrow> a \<noteq> b"
  using before_irrefl by blast

lemma skip_right: "bst_wrt lt (Node l a r) \<Longrightarrow> lt v a \<Longrightarrow> x \<in> set_tree r \<Longrightarrow> key x \<noteq> key v"
  using before_trans [of "key v" "key a" "key x"] before_neq [of "key v" "key x"] by auto

lemma skip_left: "bst_wrt lt (Node l a r) \<Longrightarrow> lt a v \<Longrightarrow> x \<in> set_tree l \<Longrightarrow> key x \<noteq> key v"
  using before_trans [of "key x" "key a" "key v"] before_neq [of "key x" "key v"] by auto

lemma compar_pos: "compar v a > 0 \<Longrightarrow> lt a v"
proof -
  assume p: "compar v a > 0"
  then have "key v \<noteq> key a" using compar_zero [of v a] by auto
  moreover have "\<not> lt v a" using p compar_neg [of v a] by auto
  ultimately show "lt a v" using before_total [of "key v" "key a"] by blast
qed

lemma tfind_Some:
  assumes "bst_wrt lt t"
  shows "dogecoin_btree_tfind compar v t = Some x \<longleftrightarrow> x \<in> set_tree t \<and> key x = key v"
  using assms
proof (induction t)
  case (Node l a r)
  consider "compar v a = 0" | "compar v a < 0" | "compar v a > 0" by linarith
  then show ?case
  proof cases
    case 1
    then show ?thesis using Node.prems bst_keys_distinct [OF Node.prems, of x a] by (auto simp: compar_zero)
  next
    case 2
    then have "before (key v) (key a)" by (simp add: compar_neg)
    then have "\<And>y. y \<in> set_tree r \<Longrightarrow> key y \<noteq> key v" "key a \<noteq> key v"
      using skip_right [OF Node.prems] before_irrefl by auto
    then show ?thesis using 2 Node by auto
  next
    case 3
    then have "before (key a) (key v)" by (rule compar_pos)
    then have "\<And>y. y \<in> set_tree l \<Longrightarrow> key y \<noteq> key v" "key a \<noteq> key v"
      using skip_left [OF Node.prems] before_irrefl by auto
    then show ?thesis using 3 Node by auto
  qed
qed simp

lemma tfind_None: "bst_wrt lt t \<Longrightarrow> dogecoin_btree_tfind compar v t = None \<longleftrightarrow> (\<forall>x \<in> set_tree t. key x \<noteq> key v)"
  using tfind_Some [of t v] by (cases "dogecoin_btree_tfind compar v t") auto

lemma tsearch_set:
  assumes "bst_wrt lt t"
  shows "set_tree (dogecoin_btree_tsearch compar v t) =
    (if dogecoin_btree_tfind compar v t = None then insert v (set_tree t) else set_tree t)"
  by (induction t) (auto simp: Let_def)

lemma tsearch_bst: "bst_wrt lt t \<Longrightarrow> bst_wrt lt (dogecoin_btree_tsearch compar v t)"
proof (induction t)
  case (Node l a r)
  have "set_tree (dogecoin_btree_tsearch compar v t) \<subseteq> insert v (set_tree t)" for t
    by (induction t) (auto simp: Let_def)
  moreover have "compar v a < 0 \<Longrightarrow> lt v a" by (simp add: compar_neg)
  moreover have "compar v a > 0 \<Longrightarrow> lt a v" by (rule compar_pos)
  ultimately show ?case using Node by (auto simp: Let_def not_less order_le_less; blast)
qed simp

lemma tdelete_inorder:
  assumes "bst_wrt lt t"
  shows "inorder (dogecoin_btree_tdelete compar v t) = filter (\<lambda>x. key x \<noteq> key v) (inorder t)"
  using assms
proof (induction t)
  case (Node l a r)
  consider "compar v a = 0" | "compar v a < 0" | "compar v a > 0" by linarith
  then show ?case
  proof cases
    case 1
    then have "key v = key a" by (simp add: compar_zero)
    then have "\<forall>x \<in> set_tree l \<union> set_tree r. key x \<noteq> key v" using Node.prems before_irrefl by auto
    then show ?thesis using 1 \<open>key v = key a\<close> by (auto simp: inorder_unlink_node filter_id_conv)
  next
    case 2
    then have "before (key v) (key a)" by (simp add: compar_neg)
    then have "\<forall>x \<in> set_tree r. key x \<noteq> key v" "key a \<noteq> key v"
      using skip_right [OF Node.prems] before_irrefl by auto
    then show ?thesis using 2 Node by (auto simp: filter_id_conv)
  next
    case 3
    then have "before (key a) (key v)" by (rule compar_pos)
    then have "\<forall>x \<in> set_tree l. key x \<noteq> key v" "key a \<noteq> key v"
      using skip_left [OF Node.prems] before_irrefl by auto
    then show ?thesis using 3 Node by (auto simp: filter_id_conv)
  qed
qed simp

lemma tdelete_set: "bst_wrt lt t \<Longrightarrow> set_tree (dogecoin_btree_tdelete compar v t) = {x \<in> set_tree t. key x \<noteq> key v}"
  using tdelete_inorder [of t v] by (metis set_filter set_inorder)

lemma tdelete_bst: "bst_wrt lt t \<Longrightarrow> bst_wrt lt (dogecoin_btree_tdelete compar v t)"
  by (simp add: bst_sorted tdelete_inorder sorted_wrt_filter)

end

lemma set_tdestroy: "set (dogecoin_btree_tdestroy t) = set_tree t" "length (dogecoin_btree_tdestroy t) = size t"
  by (induction t) auto

end
