(* ===== verification/HeadersDb.thy ===== *)
theory HeadersDb
  imports Block Btree
begin

text \<open>
  Model of the headers database in \<open>src/src/headersdb_file.c\<close>: the tree of block headers with its
  chain tip, connecting a header (with the reorganisation), disconnecting the tip, the checkpoint
  start and the block locator.

  The block indexes live in an explicit heap, because the code frees them while others may still
  point to them: a pointer is an address, following one to a freed index is the fault
  \<open>UseAfterFree\<close>. Address 0 is the index \<open>genesis\<close> embedded in the database. The search tree holds the
  hash beside the address of every index in it. A loop of the code that follows pointers is given
  as many turns as there are addresses, twice; running out of them is the fault \<open>OutOfFuel\<close>, and
  \<open>connect_loops_terminate\<close> below shows that no reachable database does.

  An index that is not connected is handed back to the caller, who frees it; it leaves no trace here.
  The database file is the bytes appended to it; allocation does not fail.
\<close>

unbundle bit_operations_syntax

section \<open>Data\<close>

type_synonym addr = nat

record blockindex =
  bi_height :: u32
  bi_hash :: bytes
  bi_chainwork :: arith
  bi_header :: block_header
  bi_prev :: "addr option"

record headers_db =
  db_read_write_file :: bool
  db_tree :: "(bytes \<times> addr) tree"
  db_max_hdr_in_mem :: nat
  db_heap :: "addr \<rightharpoonup> blockindex"
  db_next :: addr
  db_chaintip :: addr
  db_chainbottom :: addr
  db_skip_pow :: bool
  db_file :: bytes

fun compare_hash :: "bytes \<Rightarrow> bytes \<Rightarrow> nat list \<Rightarrow> int" where
  "compare_hash hashA hashB [] = 0"
| "compare_hash hashA hashB (i # is) =
     (if hashA ! i > hashB ! i then - 1 else if hashA ! i < hashB ! i then 1 else compare_hash hashA hashB is)"

definition dogecoin_header_compare :: "bytes \<times> addr \<Rightarrow> bytes \<times> addr \<Rightarrow> int" where
  "dogecoin_header_compare l r = compare_hash (fst l) (fst r) [0..<32]"

definition deref :: "headers_db \<Rightarrow> addr \<Rightarrow> blockindex c_outcome" where
  "deref db a = (case db_heap db a of None \<Rightarrow> Inl UseAfterFree | Some b \<Rightarrow> Inr b)"

definition headers_db_new :: "bytes \<Rightarrow> bytes \<Rightarrow> bool \<Rightarrow> headers_db" where
  "headers_db_new genesisblockhash genesisblockchainwork inmem_only =
     \<lparr>db_read_write_file = (\<not> inmem_only), db_tree = Leaf, db_max_hdr_in_mem = 1440,
      db_heap = [0 \<mapsto> \<lparr>bi_height = 0, bi_hash = genesisblockhash, bi_chainwork = uint_to_arith genesisblockchainwork,
                       bi_header = block_header_new, bi_prev = None\<rparr>],
      db_next = 1, db_chaintip = 0, db_chainbottom = 0, db_skip_pow = False, db_file = []\<rparr>"

section \<open>Queries\<close>

definition headersdb_find :: "headers_db \<Rightarrow> bytes \<Rightarrow> addr option" where
  "headersdb_find db hash = map_option snd (dogecoin_btree_tfind dogecoin_header_compare (hash, 0) (db_tree db))"

definition headersdb_getchaintip :: "headers_db \<Rightarrow> addr" where
  "headersdb_getchaintip db = db_chaintip db"

definition headersdb_has_checkpoint_start :: "headers_db \<Rightarrow> bool c_outcome" where
  "headersdb_has_checkpoint_start db = seqc (deref db (db_chainbottom db)) (\<lambda>b. Inr (bi_height b \<noteq> 0))"

text \<open>The loop of the block locator, with the number of hashes still wanted.\<close>

fun locator_loop :: "nat \<Rightarrow> headers_db \<Rightarrow> addr \<Rightarrow> bytes list c_outcome" where
  "locator_loop 0 db scan_tip = Inr []"
| "locator_loop (Suc n) db scan_tip =
     seqc (deref db scan_tip) (\<lambda>b.
       case bi_prev b of
         None \<Rightarrow> Inr [bi_hash b]
       | Some p \<Rightarrow> seqc (locator_loop n db p) (\<lambda>hs. Inr (bi_hash b # hs)))"

definition headers_db_fill_block_locator :: "headers_db \<Rightarrow> bytes list c_outcome" where
  "headers_db_fill_block_locator db =
     seqc (deref db (db_chaintip db)) (\<lambda>b. if bi_height b > 0 then locator_loop 10 db (db_chaintip db) else Inr [])"

section \<open>Changing the database\<close>

definition headersdb_disconnect_tip :: "headers_db \<Rightarrow> (bool \<times> headers_db) c_outcome" where
  "headersdb_disconnect_tip db =
     seqc (deref db (db_chaintip db)) (\<lambda>oldtip.
       case bi_prev oldtip of
         None \<Rightarrow> Inr (False, db)
       | Some p \<Rightarrow>
           Inr (True, db\<lparr>db_chaintip := p,
                         db_tree := dogecoin_btree_tdelete dogecoin_header_compare (bi_hash oldtip, db_chaintip db) (db_tree db),
                         db_heap := (db_heap db)(db_chaintip db := None)\<rparr>))"

definition headersdb_set_checkpoint_start :: "headers_db \<Rightarrow> bytes \<Rightarrow> u32 \<Rightarrow> arith \<Rightarrow> headers_db" where
  "headersdb_set_checkpoint_start db hash at_height chainwork =
     (let a = db_next db in
      db\<lparr>db_heap := (db_heap db)(a \<mapsto> \<lparr>bi_height = at_height, bi_hash = hash, bi_chainwork = chainwork,
                                       bi_header = block_header_new, bi_prev = None\<rparr>),
         db_next := a + 1, db_chainbottom := a, db_chaintip := a,
         db_tree := dogecoin_btree_tsearch dogecoin_header_compare (hash, a) (db_tree db)\<rparr>)"

definition headers_db_write :: "headers_db \<Rightarrow> blockindex \<Rightarrow> headers_db" where
  "headers_db_write db b =
     db\<lparr>db_file := db_file db @
          block_header_serialize (ser_u256 (ser_u32 (ser_u256 [] (bi_hash b)) (bi_height b)) (arith_to_uint256 (bi_chainwork b)))
            (bi_header b)\<rparr>"

text \<open>The search for the common ancestor: \<open>None\<close> is the return with \<open>Unable to find common ancestor\<close>.\<close>

fun common_ancestor_loop :: "nat \<Rightarrow> headers_db \<Rightarrow> addr \<Rightarrow> addr \<Rightarrow> addr option c_outcome" where
  "common_ancestor_loop 0 db common_ancestor fork_chain = Inl OutOfFuel"
| "common_ancestor_loop (Suc n) db common_ancestor fork_chain =
     seqc (deref db common_ancestor) (\<lambda>a.
     seqc (deref db fork_chain) (\<lambda>f.
       if bi_hash a = bi_hash f then Inr (Some common_ancestor)
       else if bi_height a > bi_height f then
         (case bi_prev a of None \<Rightarrow> Inr None | Some p \<Rightarrow> common_ancestor_loop n db p fork_chain)
       else
         (case bi_prev f of None \<Rightarrow> Inr None | Some p \<Rightarrow> common_ancestor_loop n db common_ancestor p)))"

fun disconnect_loop :: "nat \<Rightarrow> headers_db \<Rightarrow> addr \<Rightarrow> headers_db c_outcome" where
  "disconnect_loop 0 db common_ancestor = Inl OutOfFuel"
| "disconnect_loop (Suc n) db common_ancestor =
     seqc (deref db (db_chaintip db)) (\<lambda>t.
     seqc (deref db common_ancestor) (\<lambda>a.
       if bi_hash t = bi_hash a then Inr db
       else seqc (headersdb_disconnect_tip db) (\<lambda>(_, db). disconnect_loop n db common_ancestor)))"

text \<open>The walk down the new chain; \<open>False\<close> is the return with \<open>Previous block in the chain not found\<close>.\<close>

fun connect_loop :: "nat \<Rightarrow> headers_db \<Rightarrow> addr \<Rightarrow> addr \<Rightarrow> addr \<Rightarrow> (headers_db \<times> bool) c_outcome" where
  "connect_loop 0 db blockindex current_block common_ancestor = Inl OutOfFuel"
| "connect_loop (Suc n) db blockindex current_block common_ancestor =
     seqc (deref db current_block) (\<lambda>c.
     seqc (deref db common_ancestor) (\<lambda>a.
       if bi_hash c = bi_hash a then Inr (db, True)
       else
         case bi_prev c of
           None \<Rightarrow>
             Inr (if current_block \<noteq> blockindex
                  then db\<lparr>db_tree := dogecoin_btree_tsearch dogecoin_header_compare (bi_hash c, current_block) (db_tree db)\<rparr>
                  else db, False)
         | Some prev_block \<Rightarrow>
             connect_loop n (db\<lparr>db_chaintip := prev_block\<rparr>) blockindex prev_block common_ancestor))"

definition loop_fuel :: "headers_db \<Rightarrow> nat" where
  "loop_fuel db = 2 * db_next db + 2"

text \<open>The reorganisation onto the index at address \<open>new\<close>; \<open>False\<close> is an early return.\<close>

definition reorganize :: "headers_db \<Rightarrow> addr \<Rightarrow> (headers_db \<times> bool) c_outcome" where
  "reorganize db new =
     seqc (common_ancestor_loop (loop_fuel db) db (db_chaintip db) new) (\<lambda>ca.
       case ca of
         None \<Rightarrow> Inr (db, False)
       | Some ca \<Rightarrow>
           seqc (disconnect_loop (loop_fuel db) db ca) (\<lambda>db.
           seqc (connect_loop (loop_fuel db) db new new ca) (\<lambda>(db, found).
             Inr (if found then db\<lparr>db_chaintip := new\<rparr> else db, found))))"

definition better_work :: "blockindex \<Rightarrow> blockindex \<Rightarrow> bool" where
  "better_work b tip \<longleftrightarrow>
     arith_uint256_greater_than (bi_chainwork b) (bi_chainwork tip) \<or>
     (arith_uint256_equal (bi_chainwork b) (bi_chainwork tip) \<and> bh_timestamp (bi_header b) > bh_timestamp (bi_header tip))"

definition select_tip :: "headers_db \<Rightarrow> addr \<Rightarrow> blockindex \<Rightarrow> blockindex \<Rightarrow> addr option \<Rightarrow> (headers_db \<times> bool) c_outcome" where
  "select_tip db new b tip fork_from_block =
     (if fork_from_block \<noteq> None \<and> bi_height b > bi_height tip \<and> better_work b tip then reorganize db new
      else if bi_height b > bi_height tip then Inr (db\<lparr>db_chaintip := new\<rparr>, True)
      else Inr (db, True))"

text \<open>The loop that drops headers from memory: \<open>n\<close> turns are left, the next one is turn \<open>i\<close>.\<close>

fun trim_loop :: "nat \<Rightarrow> nat \<Rightarrow> headers_db \<Rightarrow> addr \<Rightarrow> headers_db c_outcome" where
  "trim_loop 0 i db scan_tip = Inr db"
| "trim_loop (Suc n) i db scan_tip =
     seqc (deref db scan_tip) (\<lambda>s.
       case bi_prev s of
         None \<Rightarrow> Inr db
       | Some p \<Rightarrow>
           if i = db_max_hdr_in_mem db \<and> p \<noteq> 0 then
             seqc (deref db p) (\<lambda>ps.
               case bi_prev ps of
                 None \<Rightarrow> trim_loop n (i + 1) db p
               | Some q \<Rightarrow>
                   if q = 0 then trim_loop n (i + 1) db p
                   else seqc (deref db q) (\<lambda>qs.
                     trim_loop n (i + 1)
                       (db\<lparr>db_tree := dogecoin_btree_tdelete dogecoin_header_compare (bi_hash qs, q) (db_tree db),
                           db_heap := (db_heap db)(q := None, p \<mapsto> ps\<lparr>bi_prev := None\<rparr>), db_chainbottom := p\<rparr>) p))
           else trim_loop n (i + 1) db p)"

text \<open>The proof of work of a header without AuxPoW bit; \<open>None\<close> is a failed check.\<close>

definition index_pow :: "chainparams \<Rightarrow> bool \<Rightarrow> blockindex \<Rightarrow> blockindex option" where
  "index_pow params skip_pow b =
     (if \<not> is_auxpow (bh_version (bi_header b)) \<and> \<not> skip_pow then
        let hash = block_header_scrypt_hash (block_header_serialize [] (bi_header b));
            (ok, _, chainwork) = check_pow hash (bh_bits (bi_header b)) (cp_pow_limit params) in
        if \<not> ok then None
        else Some (case chainwork of None \<Rightarrow> b | Some w \<Rightarrow> b\<lparr>bi_chainwork := w\<rparr>)
      else Some b)"

text \<open>After the tip is chosen: the record on disk, the entry in the tree, the memory limit.\<close>

definition finish_connect :: "headers_db \<Rightarrow> addr \<Rightarrow> blockindex \<Rightarrow> bool \<Rightarrow> headers_db c_outcome" where
  "finish_connect db new b load_process =
     (let db = (if \<not> load_process \<and> db_read_write_file db then headers_db_write db b else db);
          db = db\<lparr>db_tree := dogecoin_btree_tsearch dogecoin_header_compare (bi_hash b, new) (db_tree db)\<rparr> in
      if \<not> load_process \<and> db_max_hdr_in_mem db > 0
      then trim_loop (db_max_hdr_in_mem db + 1) 0 db (db_chaintip db)
      else Inr db)"

definition release_index :: "headers_db \<Rightarrow> addr \<Rightarrow> headers_db" where
  "release_index db new = db\<lparr>db_heap := (db_heap db)(new := None)\<rparr>"

text \<open>Connecting an index whose header is parsed and hashed. The flag is \<open>*connected\<close>.\<close>

definition connect_index :: "chainparams \<Rightarrow> headers_db \<Rightarrow> blockindex \<Rightarrow> bool \<Rightarrow> (headers_db \<times> bool) c_outcome" where
  "connect_index params db b load_process =
     (if headersdb_find db (bi_hash b) \<noteq> None then Inr (db, False)
      else
        seqc (deref db (db_chaintip db)) (\<lambda>tip.
          let extends = (bh_prev_block (bi_header b) = bi_hash tip);
              fork_from_block = (if extends then None else headersdb_find db (bh_prev_block (bi_header b)));
              connect_at = (if extends then Some (db_chaintip db) else fork_from_block) in
          case connect_at of
            None \<Rightarrow> Inr (db, False)
          | Some at \<Rightarrow>
              (case index_pow params (db_skip_pow db) b of
                 None \<Rightarrow> Inr (db, False)
               | Some b \<Rightarrow>
                   seqc (deref db at) (\<lambda>c.
                     let b = b\<lparr>bi_prev := Some at, bi_height := bi_height c + 1,
                               bi_chainwork := add_arith_uint256 (bi_chainwork c) (bi_chainwork b)\<rparr>;
                         new = db_next db;
                         db = db\<lparr>db_heap := (db_heap db)(new \<mapsto> b), db_next := new + 1\<rparr> in
                     seqc (select_tip db new b tip fork_from_block) (\<lambda>(db, found).
                       if \<not> found then Inr (release_index db new, False)
                       else seqc (finish_connect db new b load_process) (\<lambda>db. Inr (db, True)))))))"

definition new_index :: "block_header \<Rightarrow> arith option \<Rightarrow> blockindex" where
  "new_index header chainwork =
     \<lparr>bi_height = 0, bi_hash = block_header_hash header,
      bi_chainwork = (case chainwork of None \<Rightarrow> init_arith_uint256 | Some w \<Rightarrow> w), bi_header = header, bi_prev = None\<rparr>"

definition headers_db_connect_hdr :: "chainparams \<Rightarrow> headers_db \<Rightarrow> bytes \<Rightarrow> bool \<Rightarrow> (headers_db \<times> bool) c_outcome" where
  "headers_db_connect_hdr params db buf load_process =
     seqc (block_header_deserialize params block_header_new buf) (\<lambda>(header, ok, chainwork).
       if \<not> ok then Inr (db, False) else connect_index params db (new_index header chainwork) load_process)"



lemma seqc_eq_Inl: "seqc m f = Inl e \<longleftrightarrow> m = Inl e \<or> (\<exists>a. m = Inr a \<and> f a = Inl e)"
  by (cases m) auto

section \<open>The index tree is a map from hashes\<close>

definition window :: "bytes \<times> addr \<Rightarrow> bytes" where
  "window x = map (\<lambda>i. fst x ! i) [0..<32]"

definition hash_before :: "bytes \<Rightarrow> bytes \<Rightarrow> bool" where
  "hash_before a b \<longleftrightarrow> (a, b) \<in> lexord {(x, y). y < x}"

lemma window_hash: "length h = 32 \<Longrightarrow> window (h, a) = h"
  by (simp add: window_def list_eq_iff_nth_eq)

lemma compare_hash_cases:
  "compare_hash a b is = 0 \<longleftrightarrow> map (\<lambda>i. a ! i) is = map (\<lambda>i. b ! i) is"
  "compare_hash a b is < 0 \<longleftrightarrow> hash_before (map (\<lambda>i. a ! i) is) (map (\<lambda>i. b ! i) is)"
  by (induction "is") (auto simp: hash_before_def)

interpretation hc: comparator dogecoin_header_compare window hash_before
proof unfold_locales
  fix x y :: "bytes \<times> addr"
  show "dogecoin_header_compare x y = 0 \<longleftrightarrow> window x = window y"
    unfolding dogecoin_header_compare_def window_def by (rule compare_hash_cases)
  show "dogecoin_header_compare x y < 0 \<longleftrightarrow> hash_before (window x) (window y)"
    unfolding dogecoin_header_compare_def window_def by (rule compare_hash_cases)
next
  fix a b c :: bytes
  show "\<not> hash_before a a" unfolding hash_before_def by (rule lexord_irreflexive) auto
  show "hash_before a b \<Longrightarrow> hash_before b c \<Longrightarrow> hash_before a c"
    unfolding hash_before_def by (rule lexord_trans) (auto intro: transI)
  show "a \<noteq> b \<Longrightarrow> hash_before a b \<or> hash_before b a"
    unfolding hash_before_def using lexord_linear [of "{(x, y). y < x}" a b] by fastforce
qed


section \<open>The invariant: the tree owns the live indexes\<close>

text \<open>
  \<open>N\<close> are the addresses that are not in the tree: the embedded genesis index and, while a header is
  being connected, the new index.
\<close>

definition owned :: "addr set \<Rightarrow> headers_db \<Rightarrow> (bytes \<times> addr) set" where
  "owned N db = {(bi_hash b, a) | a b. db_heap db a = Some b \<and> a \<notin> N}"

definition db_ok :: "addr set \<Rightarrow> headers_db \<Rightarrow> bool" where
  "db_ok N db \<longleftrightarrow> db_heap db 0 \<noteq> None \<and>
     (\<forall>a b. db_heap db a = Some b \<longrightarrow> a < db_next db \<and> length (bi_hash b) = 32 \<and> (\<forall>p. bi_prev b = Some p \<longrightarrow> p < a)) \<and>
     bst_wrt hc.lt (db_tree db) \<and> set_tree (db_tree db) = owned N db"

lemma db_okD:
  assumes "db_ok N db" "db_heap db a = Some b"
  shows "a < db_next db" "length (bi_hash b) = 32" "bi_prev b = Some p \<Longrightarrow> p < a"
  using assms by (auto simp: db_ok_def)

lemma db_ok_bst: "db_ok N db \<Longrightarrow> bst_wrt hc.lt (db_tree db)"
  by (simp add: db_ok_def)

lemma db_ok_set: "db_ok N db \<Longrightarrow> set_tree (db_tree db) = owned N db"
  by (simp add: db_ok_def)

lemma db_ok_update [simp]:
  "db_ok N (db\<lparr>db_chaintip := a\<rparr>) = db_ok N db" "db_ok N (db\<lparr>db_chainbottom := a\<rparr>) = db_ok N db"
  "db_ok N (db\<lparr>db_file := f\<rparr>) = db_ok N db"
  by (simp_all add: db_ok_def owned_def)

lemma deref_Inr [simp]: "deref db a = Inr b \<longleftrightarrow> db_heap db a = Some b"
  by (simp add: deref_def split: option.splits)

lemma deref_Inl [simp]: "deref db a = Inl e \<longleftrightarrow> db_heap db a = None \<and> e = UseAfterFree"
  by (auto simp: deref_def split: option.splits)

lemma deref_update [simp]:
  "deref (db\<lparr>db_chaintip := x\<rparr>) a = deref db a" "deref (db\<lparr>db_tree := t\<rparr>) a = deref db a"
  by (simp_all add: deref_def)

lemma owned_window: "db_ok N db \<Longrightarrow> x \<in> owned N db \<Longrightarrow> window x = fst x"
  by (auto simp: owned_def db_ok_def intro!: window_hash)

lemma hash_unique:
  assumes "db_ok N db" "db_heap db a = Some b" "db_heap db a' = Some b'" "a \<notin> N" "a' \<notin> N" "bi_hash b = bi_hash b'"
  shows "a = a'"
proof -
  have "(bi_hash b, a) \<in> owned N db" "(bi_hash b', a') \<in> owned N db" using assms by (auto simp: owned_def)
  then show ?thesis
    using hc.bst_keys_distinct [OF db_ok_bst [OF assms(1)], of "(bi_hash b, a)" "(bi_hash b', a')"]
      db_ok_set [OF assms(1)] owned_window [OF assms(1)] assms(6) by auto
qed

text \<open>Freeing an index and dropping it from the tree.\<close>

lemma owned_without:
  assumes "db_ok N db" "db_heap db a = Some b" "a \<notin> N" "x \<in> owned N db"
  shows "window x = window (bi_hash b, c) \<longleftrightarrow> snd x = a"
proof -
  obtain a' b' where x: "x = (bi_hash b', a')" "db_heap db a' = Some b'" "a' \<notin> N" using assms(4) by (auto simp: owned_def)
  have "window (bi_hash b, c) = bi_hash b" using db_okD(2) [OF assms(1,2)] by (rule window_hash)
  moreover have "window x = bi_hash b'" using owned_window [OF assms(1,4)] x(1) by simp
  ultimately show ?thesis
    using hash_unique [OF assms(1) x(2) assms(2) x(3) assms(3)] x(1,2) assms(2) by auto
qed

lemma db_ok_release:
  assumes "db_ok N db" "db_heap db a = Some b" "a \<notin> N" "0 \<in> N"
    and "db_tree db' = dogecoin_btree_tdelete dogecoin_header_compare (bi_hash b, c) (db_tree db)"
    and "db_heap db' = (db_heap db)(a := None)" "db_next db' = db_next db"
  shows "db_ok N db'"
proof -
  have z: "a \<noteq> 0" using assms(3,4) by metis
  have "set_tree (db_tree db') = {x \<in> owned N db. window x \<noteq> window (bi_hash b, c)}"
    using db_ok_set [OF assms(1)] by (simp add: assms(5) hc.tdelete_set [OF db_ok_bst [OF assms(1)]])
  also have "\<dots> = {x \<in> owned N db. snd x \<noteq> a}" using owned_without [OF assms(1-3)] by blast
  also have "\<dots> = owned N db'" by (auto simp: owned_def assms(6))
  finally have "set_tree (db_tree db') = owned N db'" .
  moreover have "bst_wrt hc.lt (db_tree db')" using db_ok_bst [OF assms(1)] by (simp add: assms(5) hc.tdelete_bst)
  ultimately show ?thesis using assms(1) z by (auto simp: db_ok_def assms(6,7))
qed

lemma disconnect_tip_cases:
  assumes "headersdb_disconnect_tip db = Inr (r, db')"
  obtains t where "db_heap db (db_chaintip db) = Some t" "bi_prev t = None" "db' = db" "\<not> r"
  | t p where "db_heap db (db_chaintip db) = Some t" "bi_prev t = Some p" "r"
      "db' = db\<lparr>db_chaintip := p,
         db_tree := dogecoin_btree_tdelete dogecoin_header_compare (bi_hash t, db_chaintip db) (db_tree db),
         db_heap := (db_heap db)(db_chaintip db := None)\<rparr>"
  using assms by (auto simp: headersdb_disconnect_tip_def seqc_eq_Inr split: option.splits)

lemma disconnect_tip_ok:
  assumes "headersdb_disconnect_tip db = Inr (r, db')" "db_ok N db" "0 \<in> N" "db_chaintip db \<in> N \<longrightarrow> db_chaintip db = 0"
  shows "db_ok N db'"
  using assms(1)
proof (cases rule: disconnect_tip_cases)
  case (1 t)
  then show ?thesis using assms(2) by simp
next
  case (2 t p)
  then have "db_chaintip db \<notin> N" using db_okD(3) [OF assms(2) 2(1,2)] assms(4) by auto
  then show ?thesis by (rule db_ok_release [OF assms(2) 2(1) _ assms(3)]) (simp_all add: 2)
qed


section \<open>Following the pointers\<close>

inductive fpath :: "(addr \<rightharpoonup> blockindex) \<Rightarrow> addr \<Rightarrow> addr \<Rightarrow> bool" for h where
  here: "h a = Some b \<Longrightarrow> fpath h a a"
| down: "h a = Some b \<Longrightarrow> bi_prev b = Some p \<Longrightarrow> fpath h p f \<Longrightarrow> fpath h a f"

inductive_cases fpathE: "fpath h a f"

text \<open>The ancestor is on the old chain, and an index with its hash is on the new chain.\<close>

lemma common_ancestor_paths:
  assumes "common_ancestor_loop n db c f = Inr (Some ca)"
  shows "fpath (db_heap db) c ca \<and>
    (\<exists>g a b. fpath (db_heap db) f g \<and> db_heap db ca = Some a \<and> db_heap db g = Some b \<and> bi_hash b = bi_hash a)"
  using assms
proof (induction n arbitrary: c f)
  case (Suc n)
  then obtain a b where ab: "db_heap db c = Some a" "db_heap db f = Some b" by (auto simp: seqc_eq_Inr)
  consider "bi_hash a = bi_hash b" | "bi_hash a \<noteq> bi_hash b" "bi_height a > bi_height b"
    | "bi_hash a \<noteq> bi_hash b" "\<not> bi_height a > bi_height b" by blast
  then show ?case
  proof cases
    case 1
    then have "ca = c" using Suc.prems ab by (simp add: deref_def)
    then show ?thesis using ab 1 fpath.here [of "db_heap db"] by metis
  next
    case 2
    then obtain p where p: "bi_prev a = Some p" "common_ancestor_loop n db p f = Inr (Some ca)"
      using Suc.prems ab by (auto simp: deref_def split: option.splits)
    then show ?thesis using Suc.IH [OF p(2)] fpath.down [of "db_heap db", OF ab(1) p(1)] by blast
  next
    case 3
    then obtain p where p: "bi_prev b = Some p" "common_ancestor_loop n db c p = Inr (Some ca)"
      using Suc.prems ab by (auto simp: deref_def split: option.splits)
    then show ?thesis using Suc.IH [OF p(2)] fpath.down [of "db_heap db", OF ab(2) p(1)] by blast
  qed
qed simp

lemma common_ancestor_fuel:
  assumes "db_ok N db" "c + f < n"
  shows "common_ancestor_loop n db c f \<noteq> Inl OutOfFuel"
  using assms(2)
proof (induction n arbitrary: c f)
  case (Suc n)
  show ?case
  proof
    assume l: "common_ancestor_loop (Suc n) db c f = Inl OutOfFuel"
    then obtain a b where ab: "db_heap db c = Some a" "db_heap db f = Some b"
      by (auto simp: deref_def split: option.splits)
    then have "(\<exists>p. bi_prev a = Some p \<and> common_ancestor_loop n db p f = Inl OutOfFuel) \<or>
        (\<exists>p. bi_prev b = Some p \<and> common_ancestor_loop n db c p = Inl OutOfFuel)"
      using l by (auto simp: deref_def split: option.splits if_splits)
    then show False
      using Suc.IH Suc.prems db_okD(3) [OF assms(1) ab(1)] db_okD(3) [OF assms(1) ab(2)] by fastforce
  qed
qed simp

subsection \<open>Disconnecting\<close>

lemma disconnect_loop_ok:
  assumes "disconnect_loop n db ca = Inr db'" "db_ok {0, new} db" "db_chaintip db < new"
  shows "db_ok {0, new} db' \<and> db_heap db' \<subseteq>\<^sub>m db_heap db \<and> db_heap db' new = db_heap db new \<and>
    db_next db' = db_next db \<and> db_max_hdr_in_mem db' = db_max_hdr_in_mem db \<and>
    db_read_write_file db' = db_read_write_file db \<and> db_chaintip db' < new \<and> db_heap db' (db_chaintip db') \<noteq> None"
  using assms
proof (induction n arbitrary: db)
  case (Suc n)
  obtain t a where ta: "db_heap db (db_chaintip db) = Some t" "db_heap db ca = Some a"
    using Suc.prems(1) by (auto simp: seqc_eq_Inr)
  show ?case
  proof (cases "bi_hash t = bi_hash a")
    case True
    then show ?thesis using Suc.prems ta by (simp add: deref_def)
  next
    case False
    then obtain r db1 where d: "headersdb_disconnect_tip db = Inr (r, db1)" "disconnect_loop n db1 ca = Inr db'"
      using Suc.prems(1) ta by (auto simp: deref_def seqc_eq_Inr)
    have ok: "db_ok {0, new} db1"
      by (rule disconnect_tip_ok [OF d(1) Suc.prems(2)]) (use Suc.prems(3) in auto)
    have f: "db_chaintip db1 < new \<and> db_heap db1 \<subseteq>\<^sub>m db_heap db \<and> db_heap db1 new = db_heap db new \<and>
      db_next db1 = db_next db \<and> db_max_hdr_in_mem db1 = db_max_hdr_in_mem db \<and> db_read_write_file db1 = db_read_write_file db"
      using d(1)
    proof (cases rule: disconnect_tip_cases)
      case (2 t' p)
      then show ?thesis using db_okD(3) [OF Suc.prems(2) 2(1,2)] Suc.prems(3) by (auto simp: map_le_def)
    qed (use Suc.prems(3) in auto)
    show ?thesis using Suc.IH [OF d(2) ok] f by (auto intro: map_le_trans)
  qed
qed simp

lemma disconnect_loop_fuel:
  assumes "fpath (db_heap db) (db_chaintip db) ca" "db_ok {0, new} db" "db_chaintip db < new" "db_chaintip db < n"
  shows "disconnect_loop n db ca \<noteq> Inl OutOfFuel"
  using assms
proof (induction n arbitrary: db)
  case (Suc n)
  show ?case
  proof
    assume l: "disconnect_loop (Suc n) db ca = Inl OutOfFuel"
    then obtain t a where ta: "db_heap db (db_chaintip db) = Some t" "db_heap db ca = Some a" "bi_hash t \<noteq> bi_hash a"
      by (auto simp: deref_def split: option.splits if_splits)
    obtain p where p: "bi_prev t = Some p" "fpath (db_heap db) p ca"
      using Suc.prems(1) ta by (auto elim: fpathE)
    let ?db = "db\<lparr>db_chaintip := p,
         db_tree := dogecoin_btree_tdelete dogecoin_header_compare (bi_hash t, db_chaintip db) (db_tree db),
         db_heap := (db_heap db)(db_chaintip db := None)\<rparr>"
    have d: "headersdb_disconnect_tip db = Inr (True, ?db)"
      using ta p by (simp add: headersdb_disconnect_tip_def deref_def)
    have "disconnect_loop n ?db ca = Inl OutOfFuel" using l ta d by (simp add: deref_def)
    moreover have "db_ok {0, new} ?db" by (rule disconnect_tip_ok [OF d Suc.prems(2)]) (use Suc.prems(3) in auto)
    moreover have "p < db_chaintip db" using db_okD(3) [OF Suc.prems(2) ta(1) p(1)] .
    moreover have "fpath (db_heap ?db) p ca"
      using p(2) \<open>p < db_chaintip db\<close>
    proof (induction rule: fpath.induct)
      case (here a b)
      then show ?case by (auto intro: fpath.here)
    next
      case (down a b q f)
      then have "q < a" using db_okD(3) [OF Suc.prems(2) down(1,2)] by simp
      then show ?case using down by (auto intro: fpath.down)
    qed
    ultimately show False using Suc.IH [of ?db] Suc.prems by (auto simp del: fun_upd_apply)
  qed
qed simp

subsection \<open>Connecting\<close>

lemma connect_loop_found:
  assumes "connect_loop n db new c ca = Inr (db', found)" "fpath h c g" "db_heap db \<subseteq>\<^sub>m h"
    and "h g = Some b" "db_heap db ca = Some a" "bi_hash b = bi_hash a"
  shows "found \<and> (\<exists>t. db' = db\<lparr>db_chaintip := t\<rparr>)"
  using assms
proof (induction n arbitrary: db c)
  case (Suc n)
  obtain x where x: "db_heap db c = Some x" using Suc.prems(1) by (auto simp: seqc_eq_Inr)
  then have hx: "h c = Some x" using Suc.prems(3) by (metis domI map_le_def)
  show ?case
  proof (cases "bi_hash x = bi_hash a")
    case True
    then have "db' = db \<and> found" using Suc.prems(1,5) x by (simp add: deref_def)
    then show ?thesis by (metis headers_db.surjective headers_db.update_convs(6))
  next
    case False
    then obtain p where p: "bi_prev x = Some p" "fpath h p g"
      using Suc.prems(2,4,6) hx by (auto elim: fpathE)
    then have "connect_loop n (db\<lparr>db_chaintip := p\<rparr>) new p ca = Inr (db', found)"
      using Suc.prems(1,5) x False by (simp add: deref_def)
    from Suc.IH [OF this p(2)] show ?thesis using Suc.prems by auto
  qed
qed simp

lemma connect_loop_fuel:
  assumes "db_ok N db" "c < n"
  shows "connect_loop n db new c ca \<noteq> Inl OutOfFuel"
  using assms
proof (induction n arbitrary: db c)
  case (Suc n)
  show ?case
  proof
    assume l: "connect_loop (Suc n) db new c ca = Inl OutOfFuel"
    then obtain x p where x: "db_heap db c = Some x" "bi_prev x = Some p"
      "connect_loop n (db\<lparr>db_chaintip := p\<rparr>) new p ca = Inl OutOfFuel"
      by (auto simp: deref_def split: option.splits if_splits)
    then show False using Suc.IH [of "db\<lparr>db_chaintip := p\<rparr>" p] db_okD(3) [OF Suc.prems(1) x(1,2)] Suc.prems by simp
  qed
qed simp


subsection \<open>The reorganisation\<close>

definition step_ok :: "addr \<Rightarrow> headers_db \<Rightarrow> headers_db \<Rightarrow> bool" where
  "step_ok new db db' \<longleftrightarrow> db_ok {0, new} db' \<and> db_heap db' \<subseteq>\<^sub>m db_heap db \<and> db_heap db' new = db_heap db new \<and>
     db_next db' = db_next db \<and> db_heap db' (db_chaintip db') \<noteq> None"

lemma reorganize_ok:
  assumes "reorganize db new = Inr (db', found)" "db_ok {0, new} db" "db_chaintip db < new"
    "db_heap db new \<noteq> None" "db_heap db (db_chaintip db) \<noteq> None"
  shows "step_ok new db db' \<and> (\<not> found \<longrightarrow> db' = db) \<and> (found \<longrightarrow> db_chaintip db' = new)"
proof -
  obtain ca where c: "common_ancestor_loop (loop_fuel db) db (db_chaintip db) new = Inr ca"
    using assms(1) by (auto simp: reorganize_def seqc_eq_Inr)
  show ?thesis
  proof (cases ca)
    case None
    then show ?thesis using assms c by (auto simp: reorganize_def step_ok_def)
  next
    case (Some a)
    then obtain db1 db2 f where l: "disconnect_loop (loop_fuel db) db a = Inr db1"
      "connect_loop (loop_fuel db1) db1 new new a = Inr (db2, f)"
      "db' = (if f then db2\<lparr>db_chaintip := new\<rparr> else db2)" "found = f"
      using assms(1) c by (auto simp: reorganize_def seqc_eq_Inr)
    note d = disconnect_loop_ok [OF l(1) assms(2,3)]
    obtain g x y where p: "fpath (db_heap db) new g" "db_heap db a = Some x" "db_heap db g = Some y" "bi_hash y = bi_hash x"
      using common_ancestor_paths [OF c [unfolded Some]] by blast
    obtain z where z: "db_heap db1 a = Some z" using l(2) by (cases "loop_fuel db1") (auto simp: seqc_eq_Inr)
    then have "z = x" using d p(2) by (metis domI map_le_def option.inject)
    then have "f \<and> (\<exists>t. db2 = db1\<lparr>db_chaintip := t\<rparr>)"
      using connect_loop_found [OF l(2) p(1) _ p(3) z] d p(4) by blast
    then show ?thesis using d l(3,4) assms(4) by (auto simp: step_ok_def)
  qed
qed

lemma reorganize_fuel:
  assumes "db_ok {0, new} db" "db_chaintip db < new" "new < db_next db"
  shows "reorganize db new \<noteq> Inl OutOfFuel"
proof
  assume r: "reorganize db new = Inl OutOfFuel"
  have "common_ancestor_loop (loop_fuel db) db (db_chaintip db) new \<noteq> Inl OutOfFuel"
    by (rule common_ancestor_fuel [OF assms(1)]) (use assms in \<open>simp add: loop_fuel_def\<close>)
  then obtain a where c: "common_ancestor_loop (loop_fuel db) db (db_chaintip db) new = Inr (Some a)"
    using r by (cases "common_ancestor_loop (loop_fuel db) db (db_chaintip db) new")
      (auto simp: reorganize_def split: option.splits)
  have "disconnect_loop (loop_fuel db) db a \<noteq> Inl OutOfFuel"
    using common_ancestor_paths [OF c] assms
    by (intro disconnect_loop_fuel [of db a new]) (auto simp: loop_fuel_def)
  then obtain db1 where l: "disconnect_loop (loop_fuel db) db a = Inr db1" "connect_loop (loop_fuel db1) db1 new new a = Inl OutOfFuel"
    using r c by (auto simp: reorganize_def seqc_eq_Inl)
  have "connect_loop (loop_fuel db1) db1 new new a \<noteq> Inl OutOfFuel"
    using disconnect_loop_ok [OF l(1) assms(1,2)] assms(3)
    by (intro connect_loop_fuel [of "{0, new}"]) (auto simp: loop_fuel_def)
  then show False using l(2) by simp
qed

subsection \<open>The memory limit\<close>

lemma trim_loop_ok:
  assumes "trim_loop n i db s = Inr db'" "db_ok {0} db" "s \<le> db_chaintip db" "db_heap db (db_chaintip db) \<noteq> None"
  shows "db_ok {0} db' \<and> db_chaintip db' = db_chaintip db \<and> db_heap db' (db_chaintip db') \<noteq> None \<and>
    map_option bi_height (db_heap db' (db_chaintip db')) = map_option bi_height (db_heap db (db_chaintip db))"
  using assms
proof (induction n arbitrary: i db s)
  case (Suc n)
  obtain x where x: "db_heap db s = Some x" using Suc.prems(1) by (auto simp: seqc_eq_Inr)
  show ?case
  proof (cases "bi_prev x")
    case None
    then show ?thesis using Suc.prems x by (simp add: deref_def)
  next
    case (Some p)
    have p: "p < s" by (rule db_okD(3) [OF Suc.prems(2) x Some])
    show ?thesis
    proof (cases "\<exists>y q z. i = db_max_hdr_in_mem db \<and> p \<noteq> 0 \<and> db_heap db p = Some y \<and> bi_prev y = Some q \<and> q \<noteq> 0 \<and> db_heap db q = Some z")
      case False
      then have "trim_loop n (i + 1) db p = Inr db'"
        using Suc.prems(1) x Some by (auto simp: deref_def split: option.splits if_splits)
      from Suc.IH [OF this Suc.prems(2)] show ?thesis using p Suc.prems(3,4) by auto
    next
      case True
      then obtain y q z where q: "i = db_max_hdr_in_mem db" "p \<noteq> 0" "db_heap db p = Some y" "bi_prev y = Some q" "q \<noteq> 0"
        "db_heap db q = Some z" by blast
      let ?db = "db\<lparr>db_tree := dogecoin_btree_tdelete dogecoin_header_compare (bi_hash z, q) (db_tree db),
                   db_heap := (db_heap db)(q := None, p \<mapsto> y\<lparr>bi_prev := None\<rparr>), db_chainbottom := p\<rparr>"
      have t: "trim_loop n (i + 1) ?db p = Inr db'" using Suc.prems(1) x Some q by (simp add: deref_def)
      have qp: "q < p" by (rule db_okD(3) [OF Suc.prems(2) q(3,4)])
      let ?mid = "db\<lparr>db_tree := dogecoin_btree_tdelete dogecoin_header_compare (bi_hash z, q) (db_tree db), db_heap := (db_heap db)(q := None)\<rparr>"
      have "db_ok {0} ?mid" by (rule db_ok_release [OF Suc.prems(2) q(6)]) (use q(5) in auto)
      moreover have "owned {0} ?db = owned {0} ?mid"
      proof -
        have "(\<exists>c. db_heap ?db a = Some c \<and> bi_hash c = x) \<longleftrightarrow> (\<exists>c. db_heap ?mid a = Some c \<and> bi_hash c = x)" for a x
          using q(3) qp by (cases "a = p") auto
        then show ?thesis by (auto simp: owned_def simp del: fun_upd_apply) (metis surj_pair)+
      qed
      ultimately have ok: "db_ok {0} ?db" using q(3) qp db_okD(1,2) [OF Suc.prems(2) q(3)] by (auto simp: db_ok_def)
      have e: "db_heap ?db (db_chaintip db) = db_heap db (db_chaintip db)" "db_chaintip ?db = db_chaintip db"
        using p qp Suc.prems(3) by auto
      have "p \<le> db_chaintip ?db" using p Suc.prems(3) by simp
      then show ?thesis using Suc.IH [OF t ok] Suc.prems(4) unfolding e by blast
    qed
  qed
qed auto


lemma trim_loop_fuel: "trim_loop n i db s \<noteq> Inl OutOfFuel"
  by (induction n i db s rule: trim_loop.induct) (auto simp: seqc_eq_Inl split: option.splits if_splits)

subsection \<open>Entering the new index into the tree\<close>

lemma db_ok_insert:
  assumes "db_ok {0, new} db" "db_heap db new = Some b" "new \<noteq> 0" "db_heap db = db_heap db'" "db_next db' = db_next db"
    and "db_tree db' = dogecoin_btree_tsearch dogecoin_header_compare (bi_hash b, new) (db_tree db)"
    and "\<And>a c. db_heap db a = Some c \<Longrightarrow> a \<notin> {0, new} \<Longrightarrow> bi_hash c \<noteq> bi_hash b"
  shows "db_ok {0} db'"
proof -
  have "window (bi_hash b, new) = bi_hash b" using db_okD(2) [OF assms(1,2)] by (rule window_hash)
  then have "dogecoin_btree_tfind dogecoin_header_compare (bi_hash b, new) (db_tree db) = None"
    using hc.tfind_None [OF db_ok_bst [OF assms(1)], of "(bi_hash b, new)"] db_ok_set [OF assms(1)]
      owned_window [OF assms(1)] assms(7) by (auto simp: owned_def)
  then have "set_tree (db_tree db') = insert (bi_hash b, new) (owned {0, new} db)"
    using hc.tsearch_set [OF db_ok_bst [OF assms(1)], of "(bi_hash b, new)"] db_ok_set [OF assms(1)] assms(6) by simp
  also have "\<dots> = owned {0} db'" using assms(2,3,4) by (auto simp: owned_def)
  finally show ?thesis
    using assms(1) hc.tsearch_bst [OF db_ok_bst [OF assms(1)]] assms(4,5,6) by (auto simp: db_ok_def)
qed

lemma finish_connect_ok:
  assumes "finish_connect db new b load_process = Inr db'" "db_ok {0, new} db" "db_heap db new = Some b" "new \<noteq> 0"
    and "\<And>a c. db_heap db a = Some c \<Longrightarrow> a \<notin> {0, new} \<Longrightarrow> bi_hash c \<noteq> bi_hash b"
    and "db_heap db (db_chaintip db) \<noteq> None"
  shows "db_ok {0} db' \<and> db_heap db' (db_chaintip db') \<noteq> None \<and> db_chaintip db' = db_chaintip db \<and>
    map_option bi_height (db_heap db' (db_chaintip db')) = map_option bi_height (db_heap db (db_chaintip db))"
proof -
  define w where "w = (if \<not> load_process \<and> db_read_write_file db then headers_db_write db b else db)"
  define db1 where "db1 = w\<lparr>db_tree := dogecoin_btree_tsearch dogecoin_header_compare (bi_hash b, new) (db_tree w)\<rparr>"
  have w: "db_heap w = db_heap db" "db_tree w = db_tree db" "db_next w = db_next db" "db_chaintip w = db_chaintip db"
    by (simp_all add: w_def headers_db_write_def)
  have ok: "db_ok {0} db1"
    by (rule db_ok_insert [OF assms(2-4) _ _ _ assms(5)]) (simp_all add: db1_def w)
  have "db' = db1 \<or> trim_loop (db_max_hdr_in_mem db1 + 1) 0 db1 (db_chaintip db1) = Inr db'"
    using assms(1) by (auto simp: finish_connect_def Let_def w_def [symmetric] db1_def split: if_splits)
  then show ?thesis
    using ok trim_loop_ok [OF _ ok, of "db_max_hdr_in_mem db1 + 1" 0 "db_chaintip db1" db'] assms(6)
    by (auto simp: db1_def w)
qed


subsection \<open>Connecting a header\<close>

lemma find_alive:
  assumes "db_ok {0} db" "headersdb_find db h = Some a"
  shows "db_heap db a \<noteq> None"
proof -
  obtain x where "x \<in> owned {0} db" "snd x = a"
    using assms hc.tfind_Some [OF db_ok_bst [OF assms(1)], of "(h, 0)"] db_ok_set [OF assms(1)]
    by (auto simp: headersdb_find_def)
  then show ?thesis by (auto simp: owned_def)
qed

lemma find_None:
  assumes "db_ok {0} db" "headersdb_find db h = None" "length h = 32" "db_heap db a = Some c" "a \<noteq> 0"
  shows "bi_hash c \<noteq> h"
proof -
  have "(bi_hash c, a) \<in> owned {0} db" using assms(4,5) by (auto simp: owned_def)
  moreover have "dogecoin_btree_tfind dogecoin_header_compare (h, 0) (db_tree db) = None"
    using assms(2) by (simp add: headersdb_find_def)
  ultimately have "window (bi_hash c, a) \<noteq> window (h, 0)"
    using hc.tfind_None [OF db_ok_bst [OF assms(1)], of "(h, 0)"] db_ok_set [OF assms(1)] by auto
  then show ?thesis using window_hash [OF assms(3)] window_hash [OF db_okD(2) [OF assms(1,4)]] by auto
qed

lemma index_pow_fields:
  "index_pow params skip b = Some b' \<Longrightarrow> bi_hash b' = bi_hash b \<and> bi_header b' = bi_header b"
  by (auto simp: index_pow_def Let_def split: if_splits prod.splits option.splits)

text \<open>The database with the new index in the heap, before the tip is chosen.\<close>

definition with_new :: "headers_db \<Rightarrow> blockindex \<Rightarrow> headers_db" where
  "with_new db b = db\<lparr>db_heap := (db_heap db)(db_next db \<mapsto> b), db_next := db_next db + 1\<rparr>"

lemma with_new_ok:
  assumes "db_ok {0} db" "bi_prev b = Some p" "db_heap db p \<noteq> None" "length (bi_hash b) = 32"
  shows "db_ok {0, db_next db} (with_new db b)" "db_next db \<noteq> 0"
proof -
  have n: "db_heap db (db_next db) = None" using db_okD(1) [OF assms(1)] by (metis less_irrefl not_None_eq)
  show "db_next db \<noteq> 0" using assms(1) n by (metis db_ok_def)
  have "db_heap (with_new db b) a = Some c \<and> a \<notin> {0, db_next db} \<longleftrightarrow> db_heap db a = Some c \<and> a \<notin> {0}" for a c
    using n by (auto simp: with_new_def)
  then have "owned {0, db_next db} (with_new db b) = owned {0} db" by (simp only: owned_def)
  moreover have "p < db_next db" using assms(3) db_okD(1) [OF assms(1)] by blast
  ultimately show "db_ok {0, db_next db} (with_new db b)"
    using assms(1,2,4) \<open>db_next db \<noteq> 0\<close> by (auto simp: db_ok_def with_new_def less_Suc_eq)
qed

lemma select_tip_ok:
  assumes "select_tip db new b tip fork = Inr (db', found)" "db_ok {0, new} db" "db_chaintip db < new"
    "db_heap db new = Some b" "db_heap db (db_chaintip db) = Some tip"
  shows "step_ok new db db' \<and> (found \<longrightarrow> db_chaintip db' = (if bi_height b > bi_height tip then new else db_chaintip db)) \<and>
    (\<not> found \<longrightarrow> db' = db)"
proof (cases "fork \<noteq> None \<and> bi_height b > bi_height tip \<and> better_work b tip")
  case True
  then have "reorganize db new = Inr (db', found)" using assms(1) by (simp add: select_tip_def)
  from reorganize_ok [OF this assms(2,3)] show ?thesis using assms(4,5) True by simp
next
  case False
  then show ?thesis using assms by (auto simp: select_tip_def step_ok_def split: if_splits)
qed

lemma release_new_ok:
  assumes "step_ok new db db'" "db_chaintip db' \<noteq> new" "new \<noteq> 0"
  shows "db_ok {0} (release_index db' new) \<and>
    db_heap (release_index db' new) (db_chaintip (release_index db' new)) = db_heap db' (db_chaintip db')"
proof -
  have "owned {0} (release_index db' new) = owned {0, new} db'" by (auto simp: owned_def release_index_def)
  then show ?thesis using assms by (auto simp: step_ok_def db_ok_def release_index_def)
qed

lemma connect_index_cases:
  assumes "connect_index params db b load_process = Inr (db', connected)"
  obtains "db' = db" "\<not> connected"
  | tip at c b1 db1 found fork where
      "headersdb_find db (bi_hash b) = None" "db_heap db (db_chaintip db) = Some tip" "db_heap db at = Some c"
      "bi_hash b1 = bi_hash b" "bi_prev b1 = Some at" "bi_height b1 = bi_height c + 1"
      "select_tip (with_new db b1) (db_next db) b1 tip fork = Inr (db1, found)"
      "if found then finish_connect db1 (db_next db) b1 load_process = Inr db' \<and> connected
       else db' = release_index db1 (db_next db) \<and> \<not> connected"
proof (cases "db' = db \<and> \<not> connected")
  case False
  then have f: "headersdb_find db (bi_hash b) = None"
    using assms by (auto simp: connect_index_def split: if_splits)
  then obtain tip where tip: "db_heap db (db_chaintip db) = Some tip"
    using assms by (auto simp: connect_index_def seqc_eq_Inr)
  define fork where "fork = (if bh_prev_block (bi_header b) = bi_hash tip then None else headersdb_find db (bh_prev_block (bi_header b)))"
  obtain at b0 c where a: "(if bh_prev_block (bi_header b) = bi_hash tip then Some (db_chaintip db) else fork) = Some at"
    "index_pow params (db_skip_pow db) b = Some b0" "db_heap db at = Some c"
    using assms f tip False
    by (auto simp: connect_index_def deref_def fork_def Let_def seqc_eq_Inr split: option.splits if_splits)
  define b1 where "b1 = b0\<lparr>bi_prev := Some at, bi_height := bi_height c + 1,
                               bi_chainwork := add_arith_uint256 (bi_chainwork c) (bi_chainwork b0)\<rparr>"
  have "seqc (select_tip (with_new db b1) (db_next db) b1 tip fork) (\<lambda>(db1, found).
      if \<not> found then Inr (release_index db1 (db_next db), False)
      else seqc (finish_connect db1 (db_next db) b1 load_process) (\<lambda>db1. Inr (db1, True))) = Inr (db', connected)"
    using assms f tip a unfolding b1_def with_new_def fork_def connect_index_def Let_def
    by (cases "bh_prev_block (bi_header b) = bi_hash tip") (auto simp: deref_def cong: if_cong)
  then obtain db1 found where s: "select_tip (with_new db b1) (db_next db) b1 tip fork = Inr (db1, found)"
    "if found then finish_connect db1 (db_next db) b1 load_process = Inr db' \<and> connected
       else db' = release_index db1 (db_next db) \<and> \<not> connected"
    by (auto simp: seqc_eq_Inr split: if_splits)
  have "bi_hash b1 = bi_hash b" using index_pow_fields [OF a(2)] by (simp add: b1_def)
  then show thesis using that(2) [OF f tip a(3) _ _ _ s] by (simp add: b1_def)
qed (use that in blast)


lemma chaintip_below_next: "db_ok N db \<Longrightarrow> db_heap db (db_chaintip db) = Some tip \<Longrightarrow> db_chaintip db < db_next db"
  by (rule db_okD(1))

text \<open>What connecting does to the invariant and to the tip.\<close>

lemma connect_index_ok:
  assumes "connect_index params db b load_process = Inr (db', connected)" "db_ok {0} db" "length (bi_hash b) = 32"
  shows "db_ok {0} db' \<and> (db' = db \<or> (\<exists>tip tip'. db_heap db (db_chaintip db) = Some tip \<and>
    db_heap db' (db_chaintip db') = Some tip' \<and> bi_height tip \<le> bi_height tip'))"
  using assms(1)
proof (cases rule: connect_index_cases)
  case 1
  then show ?thesis using assms(2) by simp
next
  case (2 tip at c b1 db1 found fork)
  let ?n = "db_next db"
  have ok: "db_ok {0, ?n} (with_new db b1)" "?n \<noteq> 0"
    using with_new_ok [OF assms(2) 2(5), of ] 2(3,4) assms(3) by auto
  have tn: "db_chaintip db < ?n" by (rule chaintip_below_next [OF assms(2) 2(2)])
  then have w: "db_heap (with_new db b1) ?n = Some b1" "db_chaintip (with_new db b1) < ?n"
    "db_heap (with_new db b1) (db_chaintip (with_new db b1)) = Some tip"
    using 2(2) by (auto simp: with_new_def)
  note s = select_tip_ok [OF 2(7) ok(1) w(2,1,3)]
  show ?thesis
  proof (cases found)
    case False
    then have d: "db1 = with_new db b1" "db' = release_index (with_new db b1) ?n" using s 2(8) by auto
    have "step_ok ?n (with_new db b1) (with_new db b1)" using s d by simp
    from release_new_ok [OF this _ ok(2)] show ?thesis using d(2) w(2,3) 2(2) tn
      by (auto simp: release_index_def with_new_def)
  next
    case True
    then have f: "finish_connect db1 ?n b1 load_process = Inr db'" using 2(8) by simp
    have st: "step_ok ?n (with_new db b1) db1" using s by simp
    have sub: "db_heap db1 a = Some x \<Longrightarrow> db_heap (with_new db b1) a = Some x" for a x
      using st by (metis step_ok_def domI map_le_def)
    have fresh: "bi_hash x \<noteq> bi_hash b1" if "db_heap db1 a = Some x" "a \<notin> {0, ?n}" for a x
    proof -
      have "db_heap db a = Some x" using sub [OF that(1)] that(2) by (simp add: with_new_def)
      then show ?thesis using find_None [OF assms(2) 2(1) assms(3)] that(2) 2(4) by simp
    qed
    have f1: "db_ok {0, ?n} db1" "db_heap db1 ?n = Some b1" "db_heap db1 (db_chaintip db1) \<noteq> None"
      using st w(1) by (simp_all add: step_ok_def)
    have fin: "db_ok {0} db' \<and> db_heap db' (db_chaintip db') \<noteq> None \<and> db_chaintip db' = db_chaintip db1 \<and>
        map_option bi_height (db_heap db' (db_chaintip db')) = map_option bi_height (db_heap db1 (db_chaintip db1))"
      by (rule finish_connect_ok [OF f f1(1,2) ok(2) _ f1(3)]) (rule fresh)
    obtain x where x: "db_heap db1 (db_chaintip db1) = Some x" using f1(3) by blast
    have "bi_height tip \<le> bi_height x"
      using s True sub [OF x] x f1(2) w(3) by (auto simp: with_new_def split: if_splits)
    then show ?thesis using fin x 2(2) by auto
  qed
qed

lemma finish_connect_fuel: "finish_connect db new b load_process \<noteq> Inl OutOfFuel"
  by (simp add: finish_connect_def Let_def trim_loop_fuel del: trim_loop.simps)

lemma connect_index_fuel:
  assumes "db_ok {0} db" "length (bi_hash b) = 32"
  shows "connect_index params db b load_process \<noteq> Inl OutOfFuel"
proof
  assume c: "connect_index params db b load_process = Inl OutOfFuel"
  then have f: "headersdb_find db (bi_hash b) = None" by (auto simp: connect_index_def split: if_splits)
  then obtain tip where tip: "db_heap db (db_chaintip db) = Some tip" using c by (auto simp: connect_index_def seqc_eq_Inl)
  define fork where "fork = (if bh_prev_block (bi_header b) = bi_hash tip then None else headersdb_find db (bh_prev_block (bi_header b)))"
  obtain at b0 d where t: "index_pow params (db_skip_pow db) b = Some b0" "db_heap db at = Some d"
    "let b1 = b0\<lparr>bi_prev := Some at, bi_height := bi_height d + 1,
               bi_chainwork := add_arith_uint256 (bi_chainwork d) (bi_chainwork b0)\<rparr> in
     select_tip (with_new db b1) (db_next db) b1 tip fork = Inl OutOfFuel"
  proof (cases "if bh_prev_block (bi_header b) = bi_hash tip then Some (db_chaintip db) else fork")
    case None
    then show ?thesis using c f tip by (auto simp: connect_index_def deref_def fork_def split: if_splits)
  next
    case (Some at)
    then show ?thesis
    proof (cases "index_pow params (db_skip_pow db) b")
      case None
      then show ?thesis using c f tip Some by (auto simp: connect_index_def deref_def fork_def split: if_splits)
    next
      case (Some b0)
      have "seqc (deref db at) (\<lambda>d. let b1 = b0\<lparr>bi_prev := Some at, bi_height := bi_height d + 1,
               bi_chainwork := add_arith_uint256 (bi_chainwork d) (bi_chainwork b0)\<rparr> in
          seqc (select_tip (with_new db b1) (db_next db) b1 tip fork) (\<lambda>(db1, found).
            if \<not> found then Inr (release_index db1 (db_next db), False)
            else seqc (finish_connect db1 (db_next db) b1 load_process) (\<lambda>db1. Inr (db1, True)))) = Inl OutOfFuel"
        using c f tip Some \<open>(if bh_prev_block (bi_header b) = bi_hash tip then Some (db_chaintip db) else fork) = Some at\<close>
        unfolding connect_index_def Let_def fork_def with_new_def
        by (cases "bh_prev_block (bi_header b) = bi_hash tip") (auto simp: deref_def cong: if_cong)
      then show ?thesis using that [OF Some] by (auto simp: seqc_eq_Inl Let_def finish_connect_fuel split: if_splits)
    qed
  qed
  define b1 where "b1 = b0\<lparr>bi_prev := Some at, bi_height := bi_height d + 1,
               bi_chainwork := add_arith_uint256 (bi_chainwork d) (bi_chainwork b0)\<rparr>"
  have "length (bi_hash b1) = 32" using index_pow_fields [OF t(1)] assms(2) by (simp add: b1_def)
  then have "db_ok {0, db_next db} (with_new db b1)"
    by (intro with_new_ok(1) [OF assms(1), of b1 at]) (use t(2) in \<open>auto simp: b1_def\<close>)
  moreover have "db_chaintip (with_new db b1) < db_next db"
    using chaintip_below_next [OF assms(1) tip] by (simp add: with_new_def)
  moreover have "db_next db < db_next (with_new db b1)" by (simp add: with_new_def)
  ultimately have "reorganize (with_new db b1) (db_next db) \<noteq> Inl OutOfFuel" by (rule reorganize_fuel)
  moreover have "select_tip (with_new db b1) (db_next db) b1 tip fork = Inl OutOfFuel" using t(3) by (simp add: b1_def Let_def)
  ultimately show False by (auto simp: select_tip_def split: if_splits)
qed


section \<open>The database as a state machine\<close>

inductive db_step :: "chainparams \<Rightarrow> headers_db \<Rightarrow> headers_db \<Rightarrow> bool" for params where
  connect: "headers_db_connect_hdr params db buf load_process = Inr (db', connected) \<Longrightarrow> db_step params db db'"
| disconnect: "headersdb_disconnect_tip db = Inr (r, db') \<Longrightarrow> db_step params db db'"
| checkpoint: "length hash = 32 \<Longrightarrow> headersdb_find db hash = None \<Longrightarrow>
    db_step params db (headersdb_set_checkpoint_start db hash at_height work)"
| skip_pow: "db_step params db (db\<lparr>db_skip_pow := s\<rparr>)"

inductive db_reach :: "chainparams \<Rightarrow> headers_db \<Rightarrow> bool" for params where
  new: "length genesis = 32 \<Longrightarrow> db_reach params (headers_db_new genesis work inmem_only)"
| step: "db_reach params db \<Longrightarrow> db_step params db db' \<Longrightarrow> db_reach params db'"

lemma headers_db_new_ok: "length genesis = 32 \<Longrightarrow> db_ok {0} (headers_db_new genesis work inmem_only)"
  by (auto simp: db_ok_def headers_db_new_def owned_def)

lemma length_block_header_hash: "length (block_header_hash h) = 32"
  by (simp add: block_header_hash_def sha256_raw_spec)

lemma checkpoint_ok:
  assumes "db_ok {0} db" "length hash = 32" "headersdb_find db hash = None"
  shows "db_ok {0} (headersdb_set_checkpoint_start db hash at_height work)"
proof -
  define b where "b = \<lparr>bi_height = at_height, bi_hash = hash, bi_chainwork = work, bi_header = block_header_new, bi_prev = None\<rparr>"
  have n: "db_heap db (db_next db) = None" using db_okD(1) [OF assms(1)] by (metis less_irrefl not_None_eq)
  then have z: "db_next db \<noteq> 0" using assms(1) by (metis db_ok_def)
  have "db_heap (with_new db b) a = Some c \<and> a \<notin> {0, db_next db} \<longleftrightarrow> db_heap db a = Some c \<and> a \<notin> {0}" for a c
    using n by (auto simp: with_new_def)
  then have o: "owned {0, db_next db} (with_new db b) = owned {0} db" by (simp only: owned_def)
  then have w: "db_ok {0, db_next db} (with_new db b)"
    using assms(1,2) z by (auto simp: db_ok_def with_new_def less_Suc_eq b_def)
  show ?thesis
  proof (rule db_ok_insert [OF w _ z])
    show "db_heap (with_new db b) (db_next db) = Some b" by (simp add: with_new_def)
    fix a c assume "db_heap (with_new db b) a = Some c" "a \<notin> {0, db_next db}"
    then show "bi_hash c \<noteq> bi_hash b"
      using find_None [OF assms(1,3,2), of a c] by (simp add: with_new_def b_def)
  qed (simp_all add: headersdb_set_checkpoint_start_def with_new_def b_def Let_def)
qed

lemma connect_hdr_ok:
  assumes "headers_db_connect_hdr params db buf load_process = Inr (db', connected)" "db_ok {0} db"
  shows "db_ok {0} db' \<and> (db' = db \<or> (\<exists>tip tip'. db_heap db (db_chaintip db) = Some tip \<and>
    db_heap db' (db_chaintip db') = Some tip' \<and> bi_height tip \<le> bi_height tip'))"
proof -
  obtain header ok cw where d: "block_header_deserialize params block_header_new buf = Inr (header, ok, cw)"
    using assms(1) by (auto simp: headers_db_connect_hdr_def seqc_eq_Inr)
  show ?thesis
  proof (cases ok)
    case True
    then have "connect_index params db (new_index header cw) load_process = Inr (db', connected)"
      using assms(1) d by (simp add: headers_db_connect_hdr_def)
    from connect_index_ok [OF this assms(2)] show ?thesis by (simp add: new_index_def length_block_header_hash)
  next
    case False
    then show ?thesis using assms d by (simp add: headers_db_connect_hdr_def)
  qed
qed

lemma db_step_ok:
  assumes "db_step params db db'" "db_ok {0} db"
  shows "db_ok {0} db'"
  using assms(1)
proof (cases rule: db_step.cases)
  case connect
  then show ?thesis using connect_hdr_ok [OF _ assms(2)] by blast
next
  case disconnect
  then show ?thesis by (rule disconnect_tip_ok [OF _ assms(2)]) auto
next
  case checkpoint
  then show ?thesis using checkpoint_ok [OF assms(2)] by simp
next
  case skip_pow
  then show ?thesis using assms(2) by (simp add: db_ok_def owned_def)
qed

lemma db_reach_ok: "db_reach params db \<Longrightarrow> db_ok {0} db"
  by (induction rule: db_reach.induct) (auto intro: headers_db_new_ok db_step_ok)



section \<open>Heaps without dangling pointers\<close>

definition closed :: "headers_db \<Rightarrow> bool" where
  "closed db \<longleftrightarrow> (\<forall>a b p. db_heap db a = Some b \<and> bi_prev b = Some p \<longrightarrow> db_heap db p \<noteq> None)"

lemma trim_loop_total:
  assumes "db_ok {0} db" "closed db" "db_heap db s \<noteq> None"
  shows "\<exists>db'. trim_loop n i db s = Inr db' \<and> db_chaintip db' = db_chaintip db"
  using assms(3)
proof (induction n arbitrary: i s)
  case (Suc n)
  then obtain x where x: "db_heap db s = Some x" by blast
  show ?case
  proof (cases "bi_prev x")
    case None
    then show ?thesis using x by (simp add: deref_def)
  next
    case (Some p)
    then obtain y where y: "db_heap db p = Some y" using assms(2) x unfolding closed_def by blast
    show ?thesis
    proof (cases "i = db_max_hdr_in_mem db \<and> p \<noteq> 0 \<and> (\<exists>q. bi_prev y = Some q \<and> q \<noteq> 0)")
      case False
      then have "trim_loop (Suc n) i db s = trim_loop n (i + 1) db p"
        using x y Some by (auto simp: deref_def split: option.splits)
      then show ?thesis using Suc.IH [of p "i + 1"] y by simp
    next
      case True
      then obtain q where q: "bi_prev y = Some q" "q \<noteq> 0" by blast
      moreover obtain z where "db_heap db q = Some z" using assms(2) y q unfolding closed_def by blast
      moreover have "q < p" by (rule db_okD(3) [OF assms(1) y q(1)])
      ultimately show ?thesis using x y Some True by (cases n) (simp_all add: deref_def)
    qed
  qed
qed simp

lemma finish_connect_total:
  assumes "db_ok {0, new} db" "db_heap db new = Some b" "new \<noteq> 0" "closed db" "db_heap db (db_chaintip db) \<noteq> None"
    and "\<And>a c. db_heap db a = Some c \<Longrightarrow> a \<notin> {0, new} \<Longrightarrow> bi_hash c \<noteq> bi_hash b"
  shows "\<exists>db'. finish_connect db new b load_process = Inr db' \<and> db_chaintip db' = db_chaintip db"
proof -
  define w where "w = (if \<not> load_process \<and> db_read_write_file db then headers_db_write db b else db)"
  define db1 where "db1 = w\<lparr>db_tree := dogecoin_btree_tsearch dogecoin_header_compare (bi_hash b, new) (db_tree w)\<rparr>"
  have w: "db_heap w = db_heap db" "db_tree w = db_tree db" "db_next w = db_next db" "db_chaintip w = db_chaintip db"
    by (simp_all add: w_def headers_db_write_def)
  have "db_ok {0} db1" by (rule db_ok_insert [OF assms(1-3) _ _ _ assms(6)]) (simp_all add: db1_def w)
  moreover have "closed db1" "db_heap db1 (db_chaintip db1) \<noteq> None" using assms(4,5) by (simp_all add: closed_def db1_def w)
  ultimately have "\<exists>db'. trim_loop n 0 db1 (db_chaintip db1) = Inr db' \<and> db_chaintip db' = db_chaintip db1" for n
    by (rule trim_loop_total)
  moreover have "finish_connect db new b load_process =
      (if \<not> load_process \<and> db_max_hdr_in_mem db1 > 0
       then trim_loop (db_max_hdr_in_mem db1 + 1) 0 db1 (db_chaintip db1) else Inr db1)"
    by (simp only: finish_connect_def Let_def w_def db1_def)
  moreover have "db_chaintip db1 = db_chaintip db" by (simp add: db1_def w)
  ultimately show ?thesis by (cases "\<not> load_process \<and> db_max_hdr_in_mem db1 > 0") (simp_all del: trim_loop.simps)
qed

text \<open>The index that is linked behind \<open>at\<close>.\<close>

definition linked :: "blockindex \<Rightarrow> addr \<Rightarrow> blockindex \<Rightarrow> blockindex" where
  "linked c at b = b\<lparr>bi_prev := Some at, bi_height := bi_height c + 1,
     bi_chainwork := add_arith_uint256 (bi_chainwork c) (bi_chainwork b)\<rparr>"

text \<open>A header without proof-of-work check that is higher than the tip and does not reorganise becomes the tip.\<close>

lemma connect_becomes_tip:
  assumes "db_ok {0} db" "closed db" "length (bi_hash b) = 32" "headersdb_find db (bi_hash b) = None"
    and tip: "db_heap db (db_chaintip db) = Some tip"
    and at: "(if bh_prev_block (bi_header b) = bi_hash tip then Some (db_chaintip db)
              else headersdb_find db (bh_prev_block (bi_header b))) = Some at" "db_heap db at = Some c"
    and pow: "is_auxpow (bh_version (bi_header b)) \<or> db_skip_pow db"
    and high: "bi_height c + 1 > bi_height tip"
    and "bh_prev_block (bi_header b) = bi_hash tip \<or> \<not> better_work (linked c at b) tip"
  shows "\<exists>db'. connect_index params db b load_process = Inr (db', True) \<and> db_chaintip db' = db_next db"
proof -
  let ?b = "linked c at b" and ?n = "db_next db"
  have ok: "db_ok {0, ?n} (with_new db ?b)" "?n \<noteq> 0"
    using with_new_ok [OF assms(1), of ?b at] at(2) assms(3) by (auto simp: linked_def)
  have nf: "db_heap db ?n = None" using db_okD(1) [OF assms(1)] by (metis less_irrefl not_None_eq)
  let ?db = "(with_new db ?b)\<lparr>db_chaintip := ?n\<rparr>"
  have "closed ?db" using assms(2) at(2) nf by (auto simp: closed_def with_new_def linked_def)
  moreover have "bi_hash x \<noteq> bi_hash ?b" if "db_heap ?db a = Some x" "a \<notin> {0, ?n}" for a x
    using find_None [OF assms(1,4,3), of a x] that by (simp add: with_new_def linked_def)
  ultimately obtain db' where f: "finish_connect ?db ?n ?b load_process = Inr db'" "db_chaintip db' = ?n"
    using finish_connect_total [of ?n ?db ?b load_process] ok by (auto simp: with_new_def)
  have p: "index_pow params (db_skip_pow db) b = Some b" using pow by (auto simp: index_pow_def)
  have "select_tip (with_new db ?b) ?n ?b tip (if bh_prev_block (bi_header b) = bi_hash tip then None
      else headersdb_find db (bh_prev_block (bi_header b))) = Inr (?db, True)"
    using assms(10) high by (auto simp: select_tip_def linked_def)
  then have "connect_index params db b load_process = Inr (db', True)"
    using assms(4) tip at p f(1) unfolding connect_index_def Let_def with_new_def linked_def
    by (cases "bh_prev_block (bi_header b) = bi_hash tip") (auto simp: deref_def cong: if_cong)
  then show ?thesis using f(2) by blast
qed

section \<open>Properties\<close>



text \<open>
  C7. Connecting a header never lowers the chain: when the call returns, the tip is a live index whose
  height is at least that of the tip before, whatever the bytes were.
\<close>

theorem connect_never_lowers_tip:
  assumes "db_reach params db" "headers_db_connect_hdr params db buf load_process = Inr (db', connected)"
    and "db_heap db (db_chaintip db) = Some tip"
  shows "\<exists>tip'. db_heap db' (db_chaintip db') = Some tip' \<and> bi_height tip \<le> bi_height tip'"
  using connect_hdr_ok [OF assms(2) db_reach_ok [OF assms(1)]] assms(3) by auto

definition demo_chain :: chainparams where
  "demo_chain = \<lparr>cp_strict_id = True, cp_auxpow_id = 0x62, cp_pow_limit = replicate 32 0\<rparr>"

definition demo_db :: headers_db where
  "demo_db = headers_db_new (replicate 32 1) (replicate 32 0) True"

definition demo_child :: block_header where
  "demo_child = block_header_new\<lparr>bh_version := 0x620104, bh_prev_block := replicate 32 1\<rparr>"

lemma demo_db_facts:
  "db_reach params demo_db" "db_ok {0} demo_db" "closed demo_db"
  "db_heap demo_db (db_chaintip demo_db) = Some \<lparr>bi_height = 0, bi_hash = replicate 32 1,
     bi_chainwork = uint_to_arith (replicate 32 0), bi_header = block_header_new, bi_prev = None\<rparr>"
  "headersdb_find demo_db h = None"
proof -
  show "db_reach params demo_db" unfolding demo_db_def by (rule db_reach.new) simp
  show "db_ok {0} demo_db" unfolding demo_db_def by (rule headers_db_new_ok) simp
qed (auto simp: demo_db_def closed_def headers_db_new_def headersdb_find_def)

lemma demo_child_facts:
  "header_ok demo_child" "fits demo_child []" "bh_payload demo_child = None"
  "is_auxpow (bh_version demo_child)" "bh_prev_block demo_child = replicate 32 1"
  by (simp_all add: demo_child_def header_ok_def fits_def base_ok_def block_header_new_def base_new_def block_base.defs
      is_auxpow_def push_bit_eq_mult)

lemma connect_plain_header:
  assumes "header_ok h" "fits h []" "bh_payload h = None"
  shows "headers_db_connect_hdr params db (block_header_serialize_full [] h) load_process =
    connect_index params db (new_index h None) load_process"
  using parse_serialized [OF assms(1,2)] assms(3)
  by (simp add: headers_db_connect_hdr_def block_header_deserialize_def block_header_validate_def)

lemma demo_connects:
  "\<exists>db'. headers_db_connect_hdr demo_chain demo_db (block_header_serialize_full [] demo_child) False = Inr (db', True) \<and>
     db_chaintip db' = 1"
proof -
  have "\<exists>db'. connect_index demo_chain demo_db (new_index demo_child None) False = Inr (db', True) \<and> db_chaintip db' = db_next demo_db"
    by (rule connect_becomes_tip [OF demo_db_facts(2,3) _ demo_db_facts(5,4) _ demo_db_facts(4)])
       (simp_all add: new_index_def length_block_header_hash demo_child_facts)
  then show ?thesis by (simp add: connect_plain_header demo_child_facts demo_db_def headers_db_new_def)
qed

theorem connect_never_lowers_tip_witness:
  "\<exists>db' tip'. headers_db_connect_hdr demo_chain demo_db (block_header_serialize_full [] demo_child) False = Inr (db', True) \<and>
     db_heap db' (db_chaintip db') = Some tip' \<and> 0 \<le> bi_height tip'"
proof -
  obtain db' where c: "headers_db_connect_hdr demo_chain demo_db (block_header_serialize_full [] demo_child) False = Inr (db', True)"
    using demo_connects by blast
  then show ?thesis using connect_never_lowers_tip [OF demo_db_facts(1) c demo_db_facts(4)] by auto
qed

text \<open>
  C8. The pointer-chasing loops end: connecting a hashed index to a reachable database never runs out
  of the turns the model allows, two for every address.
\<close>

theorem connect_loops_terminate:
  assumes "db_reach params db" "length (bi_hash b) = 32"
  shows "connect_index params db b load_process \<noteq> Inl OutOfFuel"
  by (rule connect_index_fuel [OF db_reach_ok [OF assms(1)] assms(2)])

theorem connect_loops_terminate_witness:
  "connect_index demo_chain demo_db (new_index demo_child None) True \<noteq> Inl OutOfFuel"
  by (rule connect_loops_terminate [OF demo_db_facts(1)]) (simp add: new_index_def length_block_header_hash)

text \<open>
  C25. Proof of work can be skipped: an 80-byte header whose version has the AuxPoW bit but that is
  followed by no proof is connected as the new tip without any proof-of-work check, whatever its
  hash, bits and the chain's limit are. It only has to name the tip as its predecessor.
\<close>

theorem auxpow_bit_skips_pow:
  assumes "db_reach params db" "closed db" "db_heap db (db_chaintip db) = Some tip" "bi_height tip < bi_height tip + 1"
    and "header_ok h" "bh_payload h = None" "is_auxpow (bh_version h)" "bh_prev_block h = bi_hash tip"
    and "headersdb_find db (block_header_hash h) = None"
  shows "\<exists>db'. headers_db_connect_hdr params db (block_header_serialize [] h) load_process = Inr (db', True) \<and>
    db_chaintip db' = db_next db"
proof -
  have "fits h []" using assms(6) by (simp add: fits_def)
  moreover have "block_header_serialize_full [] h = block_header_serialize [] h"
    using assms(6) by (simp add: block_header_serialize_full_def)
  moreover have "\<exists>db'. connect_index params db (new_index h None) load_process = Inr (db', True) \<and> db_chaintip db' = db_next db"
    by (rule connect_becomes_tip [OF db_reach_ok [OF assms(1)] assms(2) _ _ assms(3) _ assms(3)])
       (use assms in \<open>simp_all add: new_index_def length_block_header_hash\<close>)
  ultimately show ?thesis using connect_plain_header [OF assms(5) _ assms(6), of params db load_process] by simp
qed

theorem auxpow_bit_skips_pow_witness:
  "\<exists>db'. headers_db_connect_hdr demo_chain demo_db (block_header_serialize [] demo_child) False = Inr (db', True) \<and>
     db_chaintip db' = db_next demo_db"
  by (rule auxpow_bit_skips_pow [OF demo_db_facts(1,3,4) _ demo_child_facts(1,3,4) _ demo_db_facts(5)])
     (simp_all add: demo_child_facts)














end
