(* ===== verification/Base58.thy ===== *)
theory Base58
  imports Sha2
begin

text \<open>
  Model of \<open>src/src/base58.c\<close>: Base58 and Base58Check coding and the two kinds of addresses.

  Buffers are byte lists of the size the caller passes. The decoder works on the array \<open>outi\<close> of
  32-bit words, the encoder on the array \<open>buf\<close> of base-58 digits, both most significant first and
  both with the index loops of the code. Sizes are natural numbers; they stay below the range of
  \<open>size_t\<close> for every buffer that fits into memory. The hash is the double SHA-256 of \<open>Sha2\<close>.

  The proofs relate both arrays to the number they stand for (\<open>horner\<close>). The locale \<open>numeral_base\<close>
  holds what both sides need of a positional system; it is interpreted for the bases 256, 58 and
  $2^{32}$ of the code.
\<close>

unbundle bit_operations_syntax

section \<open>The code\<close>

definition b58digits_map :: "int list" where
  "b58digits_map =
    [-1, -1, -1, -1, -1, -1, -1, -1, -1, -1, -1, -1, -1, -1, -1, -1,
     -1, -1, -1, -1, -1, -1, -1, -1, -1, -1, -1, -1, -1, -1, -1, -1,
     -1, -1, -1, -1, -1, -1, -1, -1, -1, -1, -1, -1, -1, -1, -1, -1,
     -1, 0, 1, 2, 3, 4, 5, 6, 7, 8, -1, -1, -1, -1, -1, -1,
     -1, 9, 10, 11, 12, 13, 14, 15, 16, -1, 17, 18, 19, 20, 21, -1,
     22, 23, 24, 25, 26, 27, 28, 29, 30, 31, 32, -1, -1, -1, -1, -1,
     -1, 33, 34, 35, 36, 37, 38, 39, 40, 41, 42, 43, -1, 44, 45, 46,
     47, 48, 49, 50, 51, 52, 53, 54, 55, 56, 57, -1, -1, -1, -1, -1]"

text \<open>The inner loop \<open>for (j = outisz; --j;)\<close>: it handles the words \<open>j\<close> down to 1 and never word 0.\<close>

fun mul_loop :: "u32 list \<Rightarrow> u32 \<Rightarrow> nat \<Rightarrow> u32 list \<times> u32" where
  "mul_loop outi c 0 = (outi, c)"
| "mul_loop outi c (Suc j) =
     (let t = ucast (outi ! Suc j) * 58 + ucast c :: u64 in
      mul_loop (outi[Suc j := ucast (t AND 0xffffffff)]) (ucast (drop_bit 32 t)) j)"

fun decode_digits :: "u32 \<Rightarrow> u32 list \<Rightarrow> bytes \<Rightarrow> u32 list option" where
  "decode_digits zeromask outi [] = Some outi"
| "decode_digits zeromask outi (ch # b58u) =
     (if ch AND 0x80 \<noteq> 0 then None
      else if b58digits_map ! unat ch = - 1 then None
      else
        let (outi, c) = mul_loop outi (of_int (b58digits_map ! unat ch)) (length outi - 1) in
        if c \<noteq> 0 then None
        else if (outi ! 0) AND zeromask \<noteq> 0 then None
        else decode_digits zeromask outi b58u)"

text \<open>The low \<open>n\<close> bytes of a word, most significant first.\<close>

definition word_be :: "nat \<Rightarrow> u32 \<Rightarrow> bytes" where
  "word_be n w = map (\<lambda>i. ucast (drop_bit (8 * (i - 1)) w AND 0xff)) (rev [1..<Suc n])"

text \<open>The success flag, the buffer \<open>bin\<close> and \<open>*binszp\<close> afterwards.\<close>

definition base58_decode :: "bytes \<Rightarrow> nat \<Rightarrow> bytes \<Rightarrow> bool \<times> bytes \<times> nat" where
  "base58_decode bin binsz b58 =
     (if binsz = 0 then (False, bin, binsz)
      else
        let outisz = (binsz + 3) div 4;
            bytesleft = binsz mod 4;
            zeromask = (if bytesleft \<noteq> 0 then push_bit (bytesleft * 8) 0xffffffff else 0);
            zerocount = length (takeWhile (\<lambda>c. c = 0x31) b58) in
        case decode_digits zeromask (replicate outisz 0) (drop zerocount b58) of
          None \<Rightarrow> (False, bin, binsz)
        | Some outi \<Rightarrow>
            let bin = blit bin 0 ((if bytesleft \<noteq> 0 then word_be bytesleft (outi ! 0) else []) @
                                  concat (map (word_be 4) (drop (if bytesleft \<noteq> 0 then 1 else 0) outi)));
                i = length (takeWhile (\<lambda>b. b = 0) (take binsz bin)) in
            if zerocount > i then (False, bin, binsz - i)
            else (True, bin, binsz - i + zerocount))"

definition dogecoin_dblhash :: "bytes \<Rightarrow> bytes" where
  "dogecoin_dblhash datain = sha256_raw (sha256_raw datain)"

text \<open>The comparison of the zeros, on the rest of both buffers: whether it returns -3.\<close>

fun zeros_differ :: "bytes \<Rightarrow> bytes \<Rightarrow> bool c_outcome" where
  "zeros_differ [] s = Inl OutOfBounds"
| "zeros_differ (b # binc) [] = Inl OutOfBounds"
| "zeros_differ (b # binc) (c # base58str) =
     (if b = 0 \<and> c = 0x31 then zeros_differ binc base58str else Inr (b = 0 \<or> c = 0x31))"

definition b58check :: "bytes \<Rightarrow> nat \<Rightarrow> bytes \<Rightarrow> int c_outcome" where
  "b58check bin binsz base58str =
     (if binsz < 4 then Inr (- 4)
      else if length bin < binsz then Inl OutOfBounds
      else if take 4 (drop (binsz - 4) bin) \<noteq> take 4 (dogecoin_dblhash (take (binsz - 4) bin)) then Inr (- 1)
      else seqc (zeros_differ bin base58str) (\<lambda>d. Inr (if d then - 3 else int (unat (bin ! 0)))))"

text \<open>The characters of \<open>VALID_BASE58_CHARS\<close>.\<close>

definition b58digits_ordered :: bytes where
  "b58digits_ordered =
    [0x31, 0x32, 0x33, 0x34, 0x35, 0x36, 0x37, 0x38, 0x39, 0x41, 0x42, 0x43, 0x44, 0x45, 0x46, 0x47,
     0x48, 0x4a, 0x4b, 0x4c, 0x4d, 0x4e, 0x50, 0x51, 0x52, 0x53, 0x54, 0x55, 0x56, 0x57, 0x58, 0x59,
     0x5a, 0x61, 0x62, 0x63, 0x64, 0x65, 0x66, 0x67, 0x68, 0x69, 0x6a, 0x6b, 0x6d, 0x6e, 0x6f, 0x70,
     0x71, 0x72, 0x73, 0x74, 0x75, 0x76, 0x77, 0x78, 0x79, 0x7a]"

text \<open>The inner loop of the encoder from index \<open>j\<close> on, with the index at which it stops.\<close>

fun enc_inner :: "bytes \<Rightarrow> nat \<Rightarrow> nat \<Rightarrow> nat \<Rightarrow> bytes \<times> nat" where
  "enc_inner buf high carry 0 =
     (if 0 > high \<or> carry \<noteq> 0 then (buf[0 := of_nat ((carry + 256 * unat (buf ! 0)) mod 58)], 0) else (buf, 0))"
| "enc_inner buf high carry (Suc j) =
     (if Suc j > high \<or> carry \<noteq> 0
      then let carry = carry + 256 * unat (buf ! Suc j) in
           enc_inner (buf[Suc j := of_nat (carry mod 58)]) high (carry div 58) j
      else (buf, Suc j))"

fun enc_loop :: "bytes \<Rightarrow> nat \<Rightarrow> bytes \<Rightarrow> bytes" where
  "enc_loop buf high [] = buf"
| "enc_loop buf high (b # bin) = (let (buf, j) = enc_inner buf high (unat b) (length buf - 1) in enc_loop buf j bin)"

text \<open>The success flag, the buffer \<open>b58\<close> and \<open>*b58sz\<close> afterwards.\<close>

definition base58_encode :: "bytes \<Rightarrow> nat \<Rightarrow> bytes \<Rightarrow> bool \<times> bytes \<times> nat" where
  "base58_encode b58 b58sz bin =
     (let zcount = length (takeWhile (\<lambda>b. b = 0) bin);
          size = (length bin - zcount) * 138 div 100 + 1;
          buf = enc_loop (replicate size 0) (size - 1) (drop zcount bin);
          j = length (takeWhile (\<lambda>b. b = 0) buf) in
      if b58sz \<le> zcount + size - j then (False, b58, zcount + size - j + 1)
      else
        let text = replicate zcount 0x31 @ map (\<lambda>d. b58digits_ordered ! unat d) (drop j buf) in
        (True, blit b58 0 (text @ [0]), length text + 1))"

text \<open>The returned size (0 on failure) and the string buffer.\<close>

definition base58_encode_check :: "bytes \<Rightarrow> bytes \<Rightarrow> nat \<Rightarrow> nat \<times> bytes" where
  "base58_encode_check data str strsize =
     (if length data > 128 then (0, str)
      else
        let (ok, str, res) = base58_encode str strsize (data @ take 4 (dogecoin_dblhash data)) in
        (if \<not> ok then 0 else res, str))"

text \<open>The returned size (0 on failure) and the buffer \<open>data\<close>, whose length is \<open>datalen\<close>.\<close>

definition base58_decode_check :: "bytes \<Rightarrow> bytes \<Rightarrow> (nat \<times> bytes) c_outcome" where
  "base58_decode_check str data =
     (if 0 \<notin> set str \<and> length str \<le> 1024 then Inl OutOfBounds
      else
        let strl = length (takeWhile (\<lambda>c. c \<noteq> 0) (take 1024 str)) in
        if strl > 128 \<or> length data < strl then Inr (0, data)
        else
          let binhint = min (strl + 4) (length data);
              (ok, data, binsize) = base58_decode data binhint (take strl str) in
          if \<not> ok then Inr (0, data)
          else
            let data = take binsize (drop (binhint - binsize) data) @ replicate (length data - binsize) 0 in
            seqc (b58check data binsize str) (\<lambda>r. Inr (if r < 0 then 0 else binsize, data)))"

text \<open>The two addresses of a 20-byte hash; the argument is the prefix byte of the chain.\<close>

definition p2pkh_addr_from_hash160 :: "bytes \<Rightarrow> u8 \<Rightarrow> bytes \<Rightarrow> nat \<Rightarrow> bool \<times> bytes" where
  "p2pkh_addr_from_hash160 hashin b58prefix_pubkey_address addrout len =
     (let (n, addrout) = base58_encode_check (b58prefix_pubkey_address # take 20 hashin) addrout len in (n > 0, addrout))"

definition p2sh_addr_from_hash160 :: "bytes \<Rightarrow> u8 \<Rightarrow> bytes \<Rightarrow> nat \<Rightarrow> bool \<times> bytes" where
  "p2sh_addr_from_hash160 hashin b58prefix_script_address addrout len =
     (let (n, addrout) = base58_encode_check (b58prefix_script_address # take 20 hashin) addrout len in (n > 0, addrout))"

section \<open>Positional systems\<close>

fun horner :: "nat \<Rightarrow> nat \<Rightarrow> nat list \<Rightarrow> nat" where
  "horner B a [] = a"
| "horner B a (d # ds) = horner B (B * a + d) ds"

text \<open>A digit list without leading zero.\<close>

definition canonical :: "nat list \<Rightarrow> bool" where
  "canonical ds \<longleftrightarrow> ds = [] \<or> hd ds \<noteq> 0"

lemma horner_append [simp]: "horner B a (xs @ ys) = horner B (horner B a xs) ys"
  by (induction xs arbitrary: a) auto

lemma horner_shift: "horner B a ds = a * B ^ length ds + horner B 0 ds"
proof (induction ds arbitrary: a)
  case (Cons d ds)
  show ?case using Cons.IH [of "B * a + d"] Cons.IH [of d] by (simp add: algebra_simps)
qed simp

lemma horner_zeros [simp]: "horner B 0 (replicate n 0) = 0"
  by (induction n) auto

lemma horner_drop_zeros: "horner B 0 (dropWhile (\<lambda>d. d = 0) ds) = horner B 0 ds"
  by (induction ds) auto

lemma horner_mono: "a \<le> horner B a ds" if "B > 0"
proof -
  have "1 \<le> B ^ length ds" using that by simp
  then have "a \<le> a * B ^ length ds" by (metis mult.right_neutral mult_le_mono2)
  then have "a \<le> a * B ^ length ds + horner B 0 ds" by (rule trans_le_add1)
  then show ?thesis using horner_shift [of B a ds] by metis
qed

lemma canonical_dropWhile [simp]: "canonical (dropWhile (\<lambda>d. d = 0) ds)"
  by (induction ds) (auto simp: canonical_def)

locale numeral_base =
  fixes B :: nat
  assumes base_ge: "B \<ge> 2"
begin

lemma value_less: "\<forall>d \<in> set ds. d < B \<Longrightarrow> horner B 0 ds < B ^ length ds"
proof (induction ds rule: rev_induct)
  case (snoc d ds)
  then have "B * horner B 0 ds + d < B * Suc (horner B 0 ds)" by simp
  also have "\<dots> \<le> B * B ^ length ds" using snoc by (intro mult_le_mono2) simp
  finally show ?case by simp
qed simp

lemma value_ge: "canonical ds \<Longrightarrow> ds \<noteq> [] \<Longrightarrow> B ^ (length ds - 1) \<le> horner B 0 ds"
proof (cases ds)
  case (Cons d es)
  assume "canonical ds"
  then have "1 \<le> d" using Cons by (simp add: canonical_def)
  then have "1 * B ^ length es \<le> d * B ^ length es" by (rule mult_le_mono1)
  moreover have "horner B 0 ds = d * B ^ length es + horner B 0 es" using Cons horner_shift [of B d es] by simp
  ultimately have "B ^ length es \<le> horner B 0 ds" by (metis nat_mult_1 trans_le_add1)
  then show ?thesis using Cons by simp
qed simp

lemma value_inject_length:
  assumes "length xs = length ys" "\<forall>d \<in> set xs. d < B" "\<forall>d \<in> set ys. d < B" "horner B 0 xs = horner B 0 ys"
  shows "xs = ys"
  using assms
proof (induction xs arbitrary: ys rule: rev_induct)
  case (snoc x xs)
  then obtain y zs where ys: "ys = zs @ [y]" by (cases ys rule: rev_cases) auto
  have e: "B * horner B 0 xs + x = B * horner B 0 zs + y" "x < B" "y < B" using snoc.prems ys by auto
  have "(B * horner B 0 xs + x) mod B = x" "(B * horner B 0 zs + y) mod B = y" using e(2,3) by simp_all
  then have "x = y" unfolding e(1) by (rule trans [OF sym])
  moreover have "xs = zs" by (rule snoc.IH) (use snoc.prems ys e \<open>x = y\<close> base_ge in auto)
  ultimately show ?case using ys by simp
qed simp

lemma canonical_length:
  assumes "canonical xs" "\<forall>d \<in> set xs. d < B" "horner B 0 xs < B ^ n"
  shows "length xs \<le> n"
proof (rule ccontr)
  assume "\<not> length xs \<le> n"
  then have "n \<le> length xs - 1" "xs \<noteq> []" by auto
  then have "B ^ n \<le> B ^ (length xs - 1)" using base_ge by (intro power_increasing) auto
  also have "\<dots> \<le> horner B 0 xs" by (rule value_ge [OF assms(1) \<open>xs \<noteq> []\<close>])
  finally show False using assms(3) by simp
qed

lemma canonical_inject:
  assumes "canonical xs" "canonical ys" "\<forall>d \<in> set xs. d < B" "\<forall>d \<in> set ys. d < B" "horner B 0 xs = horner B 0 ys"
  shows "xs = ys"
proof -
  have "length xs \<le> length ys" using canonical_length [OF assms(1,3)] value_less [OF assms(4)] assms(5) by simp
  moreover have "length ys \<le> length xs" using canonical_length [OF assms(2,4)] value_less [OF assms(3)] assms(5) by simp
  ultimately show ?thesis using value_inject_length assms by (metis le_antisym)
qed

end

interpretation b58: numeral_base 58 by unfold_locales simp
interpretation b256: numeral_base 256 by unfold_locales simp
interpretation b32: numeral_base "2 ^ 32" by unfold_locales simp

section \<open>The decoder computes the number\<close>

abbreviation words_val :: "u32 list \<Rightarrow> nat" where
  "words_val ws \<equiv> horner (2 ^ 32) 0 (map unat ws)"

abbreviation bytes_val :: "bytes \<Rightarrow> nat" where
  "bytes_val bs \<equiv> horner 256 0 (map unat bs)"

lemma mul_word:
  fixes w c :: u32
  assumes "unat c < 58"
  defines "t \<equiv> ucast w * 58 + ucast c :: u64"
  shows "unat (ucast (t AND 0xffffffff) :: u32) = (unat w * 58 + unat c) mod 2 ^ 32"
    and "unat (ucast (drop_bit 32 t) :: u32) = (unat w * 58 + unat c) div 2 ^ 32"
proof -
  have w: "unat w < 2 ^ 32" using unat_u32_less [of w] by simp
  have u: "unat (ucast w :: u64) = unat w" "unat (ucast c :: u64) = unat c" by (simp_all add: unat_ucast_up)
  have "unat (ucast w * 58 :: u64) = unat w * 58" using w by (simp add: unat_word_ariths u)
  then have t: "unat t = unat w * 58 + unat c" using w assms(1) unfolding t_def by (simp add: unat_word_ariths u)
  have m: "(0xffffffff :: u64) = mask 32" by (simp add: mask_eq_exp_minus_1)
  have "unat (t AND 0xffffffff) = unat t mod 2 ^ 32" unfolding m take_bit_eq_mask [symmetric] by (simp add: unsigned_take_bit_eq take_bit_eq_mod [of _ "unat t"] del: take_bit_eq_mod)
  then show "unat (ucast (t AND 0xffffffff) :: u32) = (unat w * 58 + unat c) mod 2 ^ 32"
    by (subst unat_ucast_down) (simp_all add: t)
  have d: "unat (drop_bit 32 t) = unat t div 2 ^ 32" unfolding unat_drop_bit_eq by (rule drop_bit_eq_div)
  have "unat t div 2 ^ 32 < 2 ^ 32" using w assms(1) t by simp
  then show "unat (ucast (drop_bit 32 t) :: u32) = (unat w * 58 + unat c) div 2 ^ 32"
    by (subst unat_ucast_down) (simp_all add: d t)
qed

lemma mul_loop_value:
  assumes "unat c < 58" "length xs = j"
  shows "\<exists>xs' c'. mul_loop (w # xs @ ys) c j = (w # xs' @ ys, c') \<and> length xs' = j \<and> unat c' < 58 \<and>
    words_val xs' + unat c' * 2 ^ (32 * j) = 58 * words_val xs + unat c"
  using assms
proof (induction j arbitrary: xs ys c)
  case (Suc j)
  then obtain x zs where xs: "xs = zs @ [x]" and l: "length zs = j" by (cases xs rule: rev_cases) auto
  let ?t = "ucast x * 58 + ucast c :: u64"
  let ?x = "ucast (?t AND 0xffffffff) :: u32" and ?c = "ucast (drop_bit 32 ?t) :: u32"
  note v = mul_word [OF Suc.prems(1), of x]
  have "unat ?c < 58" using v(2) unat_u32_less [of x] Suc.prems(1) by simp
  from Suc.IH [OF this l, of "?x # ys"] obtain xs' c' where
    r: "mul_loop (w # zs @ ?x # ys) ?c j = (w # xs' @ ?x # ys, c')" "length xs' = j" "unat c' < 58"
    and e: "words_val xs' + unat c' * 2 ^ (32 * j) = 58 * words_val zs + unat ?c" by auto
  have "mul_loop (w # xs @ ys) c (Suc j) = (w # (xs' @ [?x]) @ ys, c')"
    using r(1) l by (simp add: xs Let_def nth_append list_update_append)
  moreover have "words_val (xs' @ [?x]) + unat c' * 2 ^ (32 * Suc j) = 58 * words_val xs + unat c"
  proof -
    have "words_val (xs' @ [?x]) + unat c' * 2 ^ (32 * Suc j) =
        2 ^ 32 * (words_val xs' + unat c' * 2 ^ (32 * j)) + unat ?x" by (simp add: algebra_simps power_add)
    also have "\<dots> = 58 * (2 ^ 32 * words_val zs) + (2 ^ 32 * unat ?c + unat ?x)" unfolding e by (simp add: algebra_simps)
    also have "2 ^ 32 * unat ?c + unat ?x = unat x * 58 + unat c" unfolding v by (rule mult_div_mod_eq)
    finally show ?thesis by (simp add: xs)
  qed
  ultimately show ?case using r by (intro exI [of _ "xs' @ [?x]"] exI [of _ c']) simp
qed simp

text \<open>Valid digits and the number a string of them stands for.\<close>

definition valid_digit :: "u8 \<Rightarrow> bool" where
  "valid_digit ch \<longleftrightarrow> ch AND 0x80 = 0 \<and> b58digits_map ! unat ch \<noteq> - 1"

definition digit_of :: "u8 \<Rightarrow> nat" where
  "digit_of ch = nat (b58digits_map ! unat ch)"

definition table_ok :: "nat \<Rightarrow> bool" where
  "table_ok k \<longleftrightarrow> - 1 \<le> b58digits_map ! k \<and> b58digits_map ! k < 58 \<and>
     (b58digits_map ! k \<noteq> - 1 \<longrightarrow> b58digits_ordered ! nat (b58digits_map ! k) = of_nat k)"

definition ordered_ok :: "nat \<Rightarrow> bool" where
  "ordered_ok d \<longleftrightarrow> valid_digit (b58digits_ordered ! d) \<and> digit_of (b58digits_ordered ! d) = d \<and>
     b58digits_ordered ! d \<noteq> 0 \<and> (b58digits_ordered ! d = 0x31 \<longleftrightarrow> d = 0)"

lemma b58_tables: "list_all table_ok [0..<128]" "list_all ordered_ok [0..<58]"
  by code_simp+

lemma valid_less: "ch AND 0x80 = 0 \<Longrightarrow> unat (ch :: u8) < 128"
proof (rule ccontr)
  assume a: "ch AND 0x80 = 0" and "\<not> unat ch < 128"
  then have "unat ch div 2 ^ 7 = 1" using unat_u8_less [of ch] by simp
  then have "bit (unat ch) 7" by (simp add: bit_iff_odd)
  then have "bit (ch AND 0x80) 7" by (simp add: bit_unsigned_iff bit_and_iff bit_numeral_rec)
  then show False using a by simp
qed

lemma digit_of_less: "valid_digit ch \<Longrightarrow> digit_of ch < 58"
  using b58_tables(1) valid_less [of ch] by (auto simp: valid_digit_def digit_of_def list_all_iff table_ok_def)

lemma ordered_digit_of: "valid_digit ch \<Longrightarrow> b58digits_ordered ! digit_of ch = ch"
  using b58_tables(1) valid_less [of ch] by (auto simp: valid_digit_def digit_of_def list_all_iff table_ok_def)

lemma digit_word: "valid_digit ch \<Longrightarrow> unat (of_int (b58digits_map ! unat ch) :: u32) = digit_of ch"
proof -
  assume v: "valid_digit ch"
  have "b58digits_map ! unat ch \<ge> 0"
    using b58_tables(1) valid_less [of ch] v by (auto simp: valid_digit_def list_all_iff table_ok_def)
  then have "(of_int (b58digits_map ! unat ch) :: u32) = of_nat (digit_of ch)" by (simp add: digit_of_def)
  then show ?thesis using digit_of_less [OF v] by (simp add: unat_of_nat)
qed

lemma decode_digits_Some:
  assumes "decode_digits m (0 # xs) cs = Some outi"
  shows "(\<forall>ch \<in> set cs. valid_digit ch) \<and>
    (\<exists>ws. outi = 0 # ws \<and> length ws = length xs \<and> words_val ws = horner 58 (words_val xs) (map digit_of cs))"
  using assms
proof (induction cs arbitrary: xs)
  case (Cons ch cs)
  then have v: "valid_digit ch" by (auto simp: valid_digit_def split: if_splits)
  have c: "unat (of_int (b58digits_map ! unat ch) :: u32) < 58" using digit_word [OF v] digit_of_less [OF v] by simp
  obtain ws c' where "mul_loop (0 # xs) (of_int (b58digits_map ! unat ch)) (length xs) = (0 # ws, c')" "length ws = length xs"
    and e: "words_val ws + unat c' * 2 ^ (32 * length xs) = 58 * words_val xs + digit_of ch"
    using mul_loop_value [OF c refl, where xs = xs and w = 0 and ys = "[]"] digit_word [OF v] by auto
  moreover from this Cons.prems v have "c' = 0" and "decode_digits m (0 # ws) cs = Some outi"
    by (auto simp: valid_digit_def split: if_splits)
  ultimately show ?case using Cons.IH [of ws] v by auto
qed auto

lemma decode_digits_total:
  assumes "\<forall>ch \<in> set cs. valid_digit ch" "horner 58 (words_val xs) (map digit_of cs) < 2 ^ (32 * length xs)"
  shows "\<exists>outi. decode_digits m (0 # xs) cs = Some outi"
  using assms
proof (induction cs arbitrary: xs)
  case (Cons ch cs)
  then have v: "valid_digit ch" by simp
  have c: "unat (of_int (b58digits_map ! unat ch) :: u32) < 58" using digit_word [OF v] digit_of_less [OF v] by simp
  obtain ws c' where m: "mul_loop (0 # xs) (of_int (b58digits_map ! unat ch)) (length xs) = (0 # ws, c')" "length ws = length xs"
    and e: "words_val ws + unat c' * 2 ^ (32 * length xs) = 58 * words_val xs + digit_of ch"
    using mul_loop_value [OF c refl, where xs = xs and w = 0 and ys = "[]"] digit_word [OF v] by auto
  have "58 * words_val xs + digit_of ch < 2 ^ (32 * length xs)"
    using le_less_trans [OF horner_mono Cons.prems(2) [unfolded list.map horner.simps]] by simp
  then have "unat c' * 2 ^ (32 * length xs) < 1 * 2 ^ (32 * length xs)" using e by linarith
  then have "c' = 0" by (simp only: mult_less_cancel2) (simp add: unat_eq_zero)
  moreover have "\<exists>outi. decode_digits m (0 # ws) cs = Some outi"
    by (rule Cons.IH) (use Cons.prems e m \<open>c' = 0\<close> in auto)
  ultimately show ?case using v m by (auto simp: valid_digit_def)
qed simp

lemma length_word_be [simp]: "length (word_be n w) = n"
  by (simp add: word_be_def)

lemma word_be_Suc: "word_be (Suc n) w = ucast (drop_bit (8 * n) w AND 0xff) # word_be n w"
  by (simp add: word_be_def)

lemma unat_be_byte: "unat (ucast (drop_bit k w AND 0xff) :: u8) = unat w div 2 ^ k mod 256" for w :: u32
proof -
  have m: "(0xff :: u32) = mask 8" by (simp add: mask_eq_exp_minus_1)
  have "unat (drop_bit k w AND 0xff) = unat w div 2 ^ k mod 256"
    unfolding m take_bit_eq_mask [symmetric] unsigned_take_bit_eq unat_drop_bit_eq by (simp add: take_bit_eq_mod drop_bit_eq_div)
  then show ?thesis by (subst unat_ucast_down) simp_all
qed

lemma word_be_mod: "bytes_val (word_be n w) = unat w mod 256 ^ n"
proof (induction n)
  case (Suc n)
  have p: "(2 :: nat) ^ (8 * n) = 256 ^ n" by (simp add: power_mult)
  have "bytes_val (word_be (Suc n) w) = unat w div 256 ^ n mod 256 * 256 ^ n + unat w mod 256 ^ n"
    using Suc by (simp add: word_be_Suc unat_be_byte p) (subst horner_shift, simp)
  also have "\<dots> = unat w mod (256 ^ n * 256)" by (simp add: mod_mult2_eq)
  finally show ?case by (simp add: mult.commute)
qed (simp add: word_be_def)

lemma word_be_val: "unat w < 256 ^ n \<Longrightarrow> bytes_val (word_be n w) = unat w"
  by (subst word_be_mod) simp

lemma word_be_0: "word_be n 0 = replicate n 0"
  by (simp add: word_be_def map_replicate_const)

lemma words_bytes_val: "bytes_val (concat (map (word_be 4) ws)) = words_val ws"
proof (induction ws rule: rev_induct)
  case (snoc w ws)
  have "bytes_val (word_be 4 w) = unat w" using unat_u32_less [of w] by (intro word_be_val) simp
  then have "horner 256 (words_val ws) (map unat (word_be 4 w)) = 2 ^ 32 * words_val ws + unat w"
    by (subst horner_shift) simp
  then show ?case using snoc.IH by simp
qed simp

lemma length_words_bytes [simp]: "length (concat (map (word_be 4) ws)) = 4 * length ws"
  by (induction ws) auto

lemma decode_bytes:
  assumes "binsz > 0" "length ws = (binsz + 3) div 4 - 1"
  shows "(if binsz mod 4 \<noteq> 0 then word_be (binsz mod 4) ((0 # ws) ! 0) else []) @
      concat (map (word_be 4) (drop (if binsz mod 4 \<noteq> 0 then 1 else 0) (0 # ws))) =
    replicate (binsz - 4 * length ws) 0 @ concat (map (word_be 4) ws)"
    and "4 * length ws \<le> binsz"
proof -
  have "binsz = 4 * (binsz div 4) + binsz mod 4" by simp
  then show "4 * length ws \<le> binsz" using assms by (cases "binsz mod 4 = 0") auto
  define q m where "q = binsz div 4" and "m = binsz mod 4"
  have b: "binsz = 4 * q + m" "m < 4" by (simp_all add: q_def m_def)
  have "m = 0 \<Longrightarrow> (binsz + 3) div 4 = q" "m \<noteq> 0 \<Longrightarrow> (binsz + 3) div 4 = Suc q"
    using b by (auto intro!: div_nat_eqI)
  then have "m = 0 \<Longrightarrow> binsz - 4 * length ws = 4" "m \<noteq> 0 \<Longrightarrow> binsz - 4 * length ws = m"
    unfolding assms(2) using assms(1) b by (simp_all add: right_diff_distrib')
  then have "binsz mod 4 = 0 \<Longrightarrow> binsz - 4 * length ws = 4" "binsz mod 4 \<noteq> 0 \<Longrightarrow> binsz - 4 * length ws = binsz mod 4"
    by (simp_all add: m_def)
  then show "(if binsz mod 4 \<noteq> 0 then word_be (binsz mod 4) ((0 # ws) ! 0) else []) @
      concat (map (word_be 4) (drop (if binsz mod 4 \<noteq> 0 then 1 else 0) (0 # ws))) =
    replicate (binsz - 4 * length ws) 0 @ concat (map (word_be 4) ws)"
    by (auto simp: word_be_0)
qed

text \<open>The bytes of a buffer behind its leading zeros, and the positions of both parts.\<close>

abbreviation significant :: "bytes \<Rightarrow> bytes" where
  "significant bs \<equiv> dropWhile (\<lambda>b. b = 0) bs"

lemma map_unat_significant: "map unat (significant bs) = dropWhile (\<lambda>d. d = 0) (map unat bs)"
  by (simp add: dropWhile_map comp_def unat_eq_zero)

lemma canonical_significant: "canonical (map unat (significant bs))"
  unfolding map_unat_significant by simp

lemma significant_val: "bytes_val (significant bs) = bytes_val bs"
  unfolding map_unat_significant by (rule horner_drop_zeros)

lemma zeros_significant: "replicate (length bs - length (significant bs)) 0 @ significant bs = bs"
  by (induction bs) (auto simp: Suc_diff_le length_dropWhile_le)

lemma length_zeros: "length (takeWhile (\<lambda>b. b = 0) bs) = length bs - length (significant bs)"
  by (metis (no_types, lifting) add_diff_cancel_right' length_append takeWhile_dropWhile_id)

lemma significant_unique:
  assumes "canonical (map unat bs)" "bytes_val bs = bytes_val cs"
  shows "bs = significant cs"
proof -
  have "map unat bs = map unat (significant cs)"
    by (rule b256.canonical_inject [OF assms(1) canonical_significant])
       (auto simp: unat_u8_less assms(2) significant_val)
  then show ?thesis by (rule map_injective) (auto intro!: injI simp: word_unat_eq_iff)
qed

text \<open>The two parts of a string: how many leading digits 1, and the digits after them.\<close>

abbreviation ones :: "bytes \<Rightarrow> nat" where
  "ones s \<equiv> length (takeWhile (\<lambda>c. c = 0x31) s)"

abbreviation rest_digits :: "bytes \<Rightarrow> bytes" where
  "rest_digits s \<equiv> dropWhile (\<lambda>c. c = 0x31) s"

lemma drop_ones: "drop (ones s) s = rest_digits s"
  by (simp add: dropWhile_eq_drop)

lemma base58_decode_words:
  assumes "0 < binsz" "binsz \<le> length bin" and "words = (binsz + 3) div 4 - 1"
    and ds: "decode_digits (if binsz mod 4 \<noteq> 0 then push_bit (binsz mod 4 * 8) 0xffffffff else 0)
      (0 # replicate words 0) (rest_digits s) = Some (0 # ws)" and l: "length ws = words"
  defines "sig \<equiv> significant (concat (map (word_be 4) ws))"
  shows "base58_decode bin binsz s =
    (let bin' = replicate (binsz - length sig) 0 @ sig @ drop binsz bin in
     if ones s + length sig \<le> binsz then (True, bin', ones s + length sig) else (False, bin', length sig))"
proof -
  let ?out = "replicate (binsz - 4 * length ws) 0 @ concat (map (word_be 4) ws)"
  note b = decode_bytes [OF assms(1), of ws, unfolded l assms(3), OF refl]
  have n: "replicate ((binsz + 3) div 4) (0 :: u32) = 0 # replicate words 0"
    unfolding assms(3) replicate_Suc [symmetric] using assms(1) by simp
  have "significant ?out = sig"
    unfolding sig_def by (simp add: dropWhile_append)
  then have out: "?out = replicate (binsz - length sig) 0 @ sig" "length (takeWhile (\<lambda>b. b = 0) ?out) = binsz - length sig"
    using zeros_significant [of ?out] length_zeros [of ?out] b(2) assms(3) l by simp_all
  have "length sig \<le> binsz" using b(2) assms(3) l length_dropWhile_le [of "\<lambda>b. b = 0" "concat (map (word_be 4) ws)"] by (simp add: sig_def)
  moreover have "take binsz (blit bin 0 ?out) = ?out" "blit bin 0 ?out = ?out @ drop binsz bin"
    using b(2) assms(3) l by (simp_all add: blit_def)
  ultimately show ?thesis
    using out ds b(1) assms(1,3) l
    by (auto simp: base58_decode_def Let_def drop_ones n)
qed

lemma base58_decode_accepts:
  assumes "base58_decode bin binsz s = (True, bin', sz)" "binsz \<le> length bin"
  shows "(\<forall>ch \<in> set (rest_digits s). valid_digit ch) \<and>
    (\<exists>sig. canonical (map unat sig) \<and> bytes_val sig = horner 58 0 (map digit_of (rest_digits s)) \<and>
       sz = ones s + length sig \<and> sz \<le> binsz \<and> bin' = replicate (binsz - length sig) 0 @ sig @ drop binsz bin)"
proof -
  have pos: "0 < binsz" using assms(1) by (auto simp: base58_decode_def split: if_splits)
  define words where "words = (binsz + 3) div 4 - 1"
  have n: "replicate ((binsz + 3) div 4) (0 :: u32) = 0 # replicate words 0"
    unfolding words_def replicate_Suc [symmetric] using pos by simp
  obtain outi where "decode_digits (if binsz mod 4 \<noteq> 0 then push_bit (binsz mod 4 * 8) 0xffffffff else 0)
      (0 # replicate words 0) (rest_digits s) = Some outi"
    using assms(1) pos by (auto simp: base58_decode_def Let_def drop_ones n split: option.splits if_splits)
  moreover from decode_digits_Some [OF this] obtain ws where "outi = 0 # ws" "length ws = words"
    and v: "words_val ws = horner 58 0 (map digit_of (rest_digits s))" "\<forall>ch \<in> set (rest_digits s). valid_digit ch" by auto
  ultimately have "base58_decode bin binsz s =
    (let sig = significant (concat (map (word_be 4) ws)); bin' = replicate (binsz - length sig) 0 @ sig @ drop binsz bin in
     if ones s + length sig \<le> binsz then (True, bin', ones s + length sig) else (False, bin', length sig))"
    using base58_decode_words [OF pos assms(2) words_def] by (simp add: Let_def)
  moreover have "bytes_val (significant (concat (map (word_be 4) ws))) = words_val ws"
    by (simp only: significant_val words_bytes_val)
  ultimately show ?thesis
    using assms(1) v canonical_significant [of "concat (map (word_be 4) ws)"] by (auto simp: Let_def split: if_splits)
qed

lemma base58_decode_total:
  assumes "0 < binsz" "binsz \<le> length bin" "\<forall>ch \<in> set (rest_digits s). valid_digit ch"
    and "canonical (map unat sig)" "bytes_val sig = horner 58 0 (map digit_of (rest_digits s))"
    and "ones s + length sig \<le> binsz" "length sig \<le> 4 * ((binsz + 3) div 4 - 1)"
  shows "base58_decode bin binsz s =
    (True, replicate (binsz - length sig) 0 @ sig @ drop binsz bin, ones s + length sig)"
proof -
  define words where "words = (binsz + 3) div 4 - 1"
  have "bytes_val sig < 256 ^ length sig" using b256.value_less [of "map unat sig"] by (auto simp: unat_u8_less)
  also have "(256 :: nat) ^ length sig \<le> 256 ^ (4 * words)" using assms(7) by (intro power_increasing) (auto simp: words_def)
  also have "\<dots> = 2 ^ (32 * words)" by (simp add: power_mult)
  finally have "horner 58 0 (map digit_of (rest_digits s)) < 2 ^ (32 * words)" using assms(5) by simp
  then obtain outi where ds: "decode_digits (if binsz mod 4 \<noteq> 0 then push_bit (binsz mod 4 * 8) 0xffffffff else 0)
      (0 # replicate words 0) (rest_digits s) = Some outi"
    using decode_digits_total [OF assms(3), of "replicate words 0"] by fastforce
  from decode_digits_Some [OF this] obtain ws where w: "outi = 0 # ws" "length ws = words"
    "words_val ws = horner 58 0 (map digit_of (rest_digits s))" by auto
  have "sig = significant (concat (map (word_be 4) ws))"
    by (rule significant_unique [OF assms(4)]) (simp only: words_bytes_val assms(5) w(3))
  then show ?thesis
    using base58_decode_words [OF assms(1,2) words_def ds [unfolded w(1)] w(2)] assms(6) by (simp add: Let_def)
qed

section \<open>The encoder writes the digits of the number\<close>

abbreviation digits_val :: "bytes \<Rightarrow> nat" where
  "digits_val ds \<equiv> horner 58 0 (map unat ds)"

abbreviation all_digits :: "bytes \<Rightarrow> bool" where
  "all_digits ds \<equiv> \<forall>d \<in> set ds. unat d < 58"

lemma enc_inner_value:
  assumes "length xs = Suc j" "all_digits xs" "\<forall>k < length xs. k \<le> high \<longrightarrow> xs ! k = 0"
    and "carry + 256 * digits_val xs < 58 ^ Suc j"
  shows "\<exists>xs' j'. enc_inner (xs @ ys) high carry j = (xs' @ ys, j') \<and> length xs' = length xs \<and> all_digits xs' \<and>
    digits_val xs' = carry + 256 * digits_val xs \<and> j' \<le> j \<and> (j' = 0 \<or> (\<forall>k \<le> j'. xs' ! k = 0))"
  using assms
proof (induction j arbitrary: xs ys carry)
  case 0
  then obtain x where "xs = [x]" by (cases xs) auto
  then show ?case using 0 by (auto simp: unat_eq_zero)
next
  case (Suc j)
  then obtain x zs where xs: "xs = zs @ [x]" and l: "length zs = Suc j" by (cases xs rule: rev_cases) auto
  show ?case
  proof (cases "Suc j > high \<or> carry \<noteq> 0")
    case True
    let ?c = "carry + 256 * unat x"
    have e: "carry + 256 * digits_val xs = 58 * (?c div 58 + 256 * digits_val zs) + ?c mod 58"
      by (simp add: xs algebra_simps)
    then have "?c div 58 + 256 * digits_val zs < 58 ^ Suc j" using Suc.prems(4) by simp
    moreover have "\<forall>k < length zs. k \<le> high \<longrightarrow> zs ! k = 0"
      using Suc.prems(3) by (simp add: xs nth_append) (metis less_SucI)
    ultimately obtain zs' j' where r: "enc_inner (zs @ of_nat (?c mod 58) # ys) high (?c div 58) j = (zs' @ of_nat (?c mod 58) # ys, j')"
      "length zs' = length zs" "all_digits zs'" "digits_val zs' = ?c div 58 + 256 * digits_val zs" "j' \<le> j"
      "j' = 0 \<or> (\<forall>k \<le> j'. zs' ! k = 0)"
      using Suc.IH [OF l, of "?c div 58" "of_nat (?c mod 58) # ys"] Suc.prems(2) by (auto simp: xs)
    have "enc_inner (xs @ ys) high carry (Suc j) = ((zs' @ [of_nat (?c mod 58)]) @ ys, j')"
      using True r(1) l by (simp add: xs Let_def nth_append list_update_append)
    moreover have "unat (of_nat (?c mod 58) :: u8) = ?c mod 58" by simp
    ultimately show ?thesis
      using r l e by (intro exI [of _ "zs' @ [of_nat (?c mod 58)]"] exI [of _ j']) (auto simp: xs nth_append)
  next
    case False
    then have z: "\<forall>k < length xs. xs ! k = 0" using Suc.prems(1,3) by auto
    then have "xs = replicate (length xs) 0" by (simp add: list_eq_iff_nth_eq)
    then have "digits_val xs = 0" by (metis horner_zeros map_replicate unat_0)
    then show ?thesis using False z Suc.prems(1,2) by (intro exI [of _ xs] exI [of _ "Suc j"]) auto
  qed
qed

lemma enc_loop_value:
  assumes "high < length buf" "all_digits buf" "high = 0 \<or> (\<forall>k \<le> high. buf ! k = 0)"
    and "horner 256 (digits_val buf) (map unat bin) < 58 ^ length buf"
  shows "length (enc_loop buf high bin) = length buf \<and> all_digits (enc_loop buf high bin) \<and>
    digits_val (enc_loop buf high bin) = horner 256 (digits_val buf) (map unat bin)"
  using assms
proof (induction bin arbitrary: buf high)
  case (Cons b bin)
  obtain j where l: "length buf = Suc j" using Cons.prems(1) by (cases buf) auto
  have "256 * digits_val buf + unat b \<le> horner 256 (256 * digits_val buf + unat b) (map unat bin)"
    by (rule horner_mono) simp
  then have less: "unat b + 256 * digits_val buf < 58 ^ Suc j" using Cons.prems(4) l by simp
  have "buf ! 0 = 0"
  proof (rule ccontr)
    assume "buf ! 0 \<noteq> 0"
    then have "canonical (map unat buf)" using l by (cases buf) (auto simp: canonical_def unat_eq_zero)
    moreover have "buf \<noteq> []" using l by auto
    ultimately have "58 ^ j \<le> digits_val buf" using b58.value_ge [of "map unat buf"] l by simp
    then show False using less by simp
  qed
  then have "\<forall>k < length buf. k \<le> high \<longrightarrow> buf ! k = 0" using Cons.prems(3) by auto
  from enc_inner_value [OF l Cons.prems(2) this less, of "[]"] obtain buf' j' where
    r: "enc_inner buf high (unat b) j = (buf', j')" "length buf' = length buf" "all_digits buf'"
      "digits_val buf' = unat b + 256 * digits_val buf" "j' \<le> j" "j' = 0 \<or> (\<forall>k \<le> j'. buf' ! k = 0)" by auto
  have v: "horner 256 (digits_val buf') (map unat bin) = horner 256 (digits_val buf) (map unat (b # bin))"
    unfolding r(4) by (simp add: add.commute)
  have "enc_loop buf high (b # bin) = enc_loop buf' j' bin" using r(1) l by simp
  then show ?case using Cons.IH [of j' buf'] r l Cons.prems(4) v by simp
qed simp

lemma size_bound: "bytes_val bin < 58 ^ (length bin * 138 div 100 + 1)"
proof -
  let ?n = "length bin" and ?s = "length bin * 138 div 100 + 1"
  have "bytes_val bin < 256 ^ ?n" using b256.value_less [of "map unat bin"] by (auto simp: unat_u8_less)
  also have "(256 :: nat) ^ ?n \<le> 58 ^ ?s"
  proof (rule power_le_imp_le_base)
    have "((256 :: nat) ^ ?n) ^ Suc 99 = (256 ^ 100) ^ ?n" by (simp only: power_mult [symmetric] mult.commute) simp
    also have "\<dots> \<le> (58 ^ 138) ^ ?n" by (rule power_mono) simp_all
    also have "\<dots> = 58 ^ (?n * 138)" by (simp only: power_mult [symmetric] mult.commute)
    also have "\<dots> \<le> 58 ^ (?s * 100)" by (rule power_increasing) auto
    also have "\<dots> = (58 ^ ?s) ^ Suc 99" by (simp only: power_mult [symmetric]) simp
    finally show "((256 :: nat) ^ ?n) ^ Suc 99 \<le> (58 ^ ?s) ^ Suc 99" .
  qed simp
  finally show ?thesis .
qed

text \<open>The text of a byte string: a digit 1 for every leading zero, then the digits of the rest.\<close>

definition is_text :: "bytes \<Rightarrow> bytes \<Rightarrow> bool" where
  "is_text bin text \<longleftrightarrow>
     (\<exists>ds. all_digits ds \<and> canonical (map unat ds) \<and> digits_val ds = bytes_val bin \<and>
       text = replicate (length bin - length (significant bin)) 0x31 @ map (\<lambda>d. b58digits_ordered ! unat d) ds)"

lemma base58_encode_text:
  "\<exists>text. is_text bin text \<and> length text \<le> length bin * 138 div 100 + 1 \<and>
    base58_encode b58 b58sz bin =
      (if b58sz \<le> length text then (False, b58, length text + 1) else (True, blit b58 0 (text @ [0]), length text + 1))"
proof -
  let ?z = "length bin - length (significant bin)"
  define size where "size = length (significant bin) * 138 div 100 + 1"
  define buf where "buf = enc_loop (replicate size 0) (size - 1) (significant bin)"
  let ?text = "replicate ?z 0x31 @ map (\<lambda>d. b58digits_ordered ! unat d) (significant buf)"
  have le: "length (significant bin) \<le> length bin" by (rule length_dropWhile_le)
  have z: "length (takeWhile (\<lambda>b. b = 0) bin) = ?z" "drop ?z bin = significant bin" "length bin - ?z = length (significant bin)"
    using length_zeros [of bin] le dropWhile_eq_drop [of "\<lambda>b. b = 0" bin] by simp_all
  have b: "length buf = size \<and> all_digits buf \<and> digits_val buf = bytes_val (significant bin)"
    unfolding buf_def
  proof -
    have "digits_val (replicate size 0) = 0" by simp
    moreover have "\<forall>k \<le> size - 1. replicate size (0 :: u8) ! k = 0" by (simp add: size_def del: replicate_Suc)
    ultimately show "length (enc_loop (replicate size 0) (size - 1) (significant bin)) = size \<and>
        all_digits (enc_loop (replicate size 0) (size - 1) (significant bin)) \<and>
        digits_val (enc_loop (replicate size 0) (size - 1) (significant bin)) = bytes_val (significant bin)"
      using enc_loop_value [of "size - 1" "replicate size 0" "significant bin"] size_bound [of "significant bin", folded size_def]
      by (simp add: size_def del: replicate_Suc)
  qed
  have "all_digits (significant buf)" using b by (metis set_dropWhileD)
  moreover have "digits_val (significant buf) = bytes_val bin"
    unfolding map_unat_significant horner_drop_zeros using b significant_val by simp
  ultimately have "is_text bin ?text"
    using canonical_significant [of buf] unfolding is_text_def by blast
  moreover have lt: "length ?text = ?z + size - length (takeWhile (\<lambda>b. b = 0) buf)"
    using b length_zeros [of buf] length_dropWhile_le [of "\<lambda>b. b = 0" buf] by simp
  moreover have "?z + size \<le> length bin * 138 div 100 + 1" using le unfolding size_def by linarith
  moreover have "base58_encode b58 b58sz bin =
      (if b58sz \<le> length ?text then (False, b58, length ?text + 1) else (True, blit b58 0 (?text @ [0]), length ?text + 1))"
    unfolding base58_encode_def Let_def z size_def [symmetric] buf_def [symmetric] lt [symmetric]
    by (simp add: dropWhile_eq_drop)
  ultimately show ?thesis by (intro exI [of _ ?text]) simp
qed

section \<open>The text of a byte string\<close>

lemma ordered_facts:
  assumes "unat d < 58"
  shows "valid_digit (b58digits_ordered ! unat d)" "digit_of (b58digits_ordered ! unat d) = unat d"
    "b58digits_ordered ! unat d \<noteq> 0" "b58digits_ordered ! unat d = 0x31 \<longleftrightarrow> d = 0"
  using b58_tables(2) assms by (auto simp: list_all_iff ordered_ok_def unat_eq_zero)

lemma ordered_0: "b58digits_ordered ! 0 = 0x31"
  by (simp add: b58digits_ordered_def)

lemma text_parts:
  fixes z :: nat
  assumes "all_digits ds" "canonical (map unat ds)"
  defines "t \<equiv> replicate z 0x31 @ map (\<lambda>d. b58digits_ordered ! unat d) ds"
  shows "ones t = z" "rest_digits t = map (\<lambda>d. b58digits_ordered ! unat d) ds"
proof -
  have h: "ds \<noteq> [] \<Longrightarrow> b58digits_ordered ! unat (hd ds) \<noteq> 0x31"
    using assms(1,2) ordered_facts(4) [of "hd ds"] by (auto simp: canonical_def hd_map unat_eq_zero)
  then have "takeWhile (\<lambda>c. c = 0x31) (map (\<lambda>d. b58digits_ordered ! unat d) ds) = []"
    "dropWhile (\<lambda>c. c = 0x31) (map (\<lambda>d. b58digits_ordered ! unat d) ds) = map (\<lambda>d. b58digits_ordered ! unat d) ds"
    by (cases ds; auto)+
  then show "ones t = z" "rest_digits t = map (\<lambda>d. b58digits_ordered ! unat d) ds"
    unfolding t_def by (simp_all add: takeWhile_append dropWhile_append)
qed

lemma text_nonzero: "is_text bin t \<Longrightarrow> 0 \<notin> set t"
  using ordered_facts(3) by (fastforce simp: is_text_def)

lemma is_text_unique: "is_text bin s \<Longrightarrow> is_text bin t \<Longrightarrow> s = t"
proof -
  assume "is_text bin s" "is_text bin t"
  then obtain ds es where d: "all_digits ds" "canonical (map unat ds)" "digits_val ds = bytes_val bin"
    "s = replicate (length bin - length (significant bin)) 0x31 @ map (\<lambda>d. b58digits_ordered ! unat d) ds"
    and e: "all_digits es" "canonical (map unat es)" "digits_val es = bytes_val bin"
    "t = replicate (length bin - length (significant bin)) 0x31 @ map (\<lambda>d. b58digits_ordered ! unat d) es"
    unfolding is_text_def by blast
  have "map unat ds = map unat es" by (rule b58.canonical_inject [OF d(2) e(2)]) (use d e in auto)
  then have "ds = es" by (rule map_injective) (auto intro!: injI simp: word_unat_eq_iff)
  then show ?thesis using d(4) e(4) by simp
qed

text \<open>How long the text of bytes without a leading zero is, and its first character.\<close>

lemma is_text_length:
  assumes "is_text bin t" "bin \<noteq> []" "hd bin \<noteq> 0"
  shows "t \<noteq> []" "bytes_val bin < 58 ^ length t" "58 ^ (length t - 1) \<le> bytes_val bin"
    "hd t = b58digits_ordered ! (bytes_val bin div 58 ^ (length t - 1))"
proof -
  obtain ds where d: "all_digits ds" "canonical (map unat ds)" "digits_val ds = bytes_val bin"
    "t = replicate (length bin - length (significant bin)) 0x31 @ map (\<lambda>d. b58digits_ordered ! unat d) ds"
    using assms(1) unfolding is_text_def by blast
  have s: "significant bin = bin" using assms(2,3) by (cases bin) auto
  have t: "t = map (\<lambda>d. b58digits_ordered ! unat d) ds" using d(4) s by simp
  have "0 < bytes_val bin" using b256.value_ge [of "map unat bin"] canonical_significant [of bin] assms(2) s
    by (simp add: unat_u8_less) (metis less_le_trans zero_less_numeral zero_less_power)
  then have ne: "ds \<noteq> []" using d(3) by auto
  then show "t \<noteq> []" by (simp add: t)
  show "bytes_val bin < 58 ^ length t" using b58.value_less [of "map unat ds"] d(1,3) by (simp add: t)
  show "58 ^ (length t - 1) \<le> bytes_val bin" using b58.value_ge [of "map unat ds"] d(1,2,3) ne by (simp add: t)
  obtain e es where e: "ds = e # es" using ne by (cases ds) auto
  have "digits_val ds = unat e * 58 ^ length es + digits_val es"
    unfolding e using horner_shift [of 58 "unat e" "map unat es"] by simp
  moreover have "digits_val es < 58 ^ length es" using b58.value_less [of "map unat es"] d(1) by (simp add: e)
  ultimately have "bytes_val bin div 58 ^ length es = unat e" using d(3) by (simp add: div_nat_eqI)
  then show "hd t = b58digits_ordered ! (bytes_val bin div 58 ^ (length t - 1))" by (simp add: t e)
qed

text \<open>What the decoder needs to know of a text, and that decoding finds the bytes again.\<close>

lemma is_text_decodable:
  assumes "is_text bin t"
  shows "ones t = length bin - length (significant bin)" "\<forall>ch \<in> set (rest_digits t). valid_digit ch"
    "horner 58 0 (map digit_of (rest_digits t)) = bytes_val (significant bin)"
    "length bin \<le> length t" "length (significant bin) \<le> length (rest_digits t)"
proof -
  obtain ds where d: "all_digits ds" "canonical (map unat ds)" "digits_val ds = bytes_val bin"
    "t = replicate (length bin - length (significant bin)) 0x31 @ map (\<lambda>d. b58digits_ordered ! unat d) ds"
    using assms unfolding is_text_def by blast
  note p = text_parts [OF d(1,2), of "length bin - length (significant bin)", folded d(4)]
  show "ones t = length bin - length (significant bin)" by (rule p)
  show "\<forall>ch \<in> set (rest_digits t). valid_digit ch" unfolding p using d(1) ordered_facts(1) by auto
  have "map digit_of (rest_digits t) = map unat ds" unfolding p using d(1) ordered_facts(2) by auto
  then show "horner 58 0 (map digit_of (rest_digits t)) = bytes_val (significant bin)"
    by (simp only: significant_val d(3))
  have "digits_val ds < 58 ^ length ds" using b58.value_less [of "map unat ds"] d(1) by simp
  also have "(58 :: nat) ^ length ds \<le> 256 ^ length ds" by (rule power_mono) auto
  finally have "length (map unat (significant bin)) \<le> length ds"
    using b256.canonical_length [OF canonical_significant, of bin "length ds"] d(3) significant_val [of bin] unat_u8_less by simp
  then show "length (significant bin) \<le> length (rest_digits t)" "length bin \<le> length t"
    using p(2) d(4) by simp_all
qed

lemma take_drop_buffer:
  "length xs = n \<Longrightarrow> k \<le> n \<Longrightarrow> k \<ge> length sig \<Longrightarrow> xs = replicate (n - length sig) 0 @ sig \<Longrightarrow>
    take k (drop (n - k) (xs @ ys)) = replicate (k - length sig) 0 @ sig"
  by (simp add: drop_append)

lemma zeros_differ_skip:
  "zeros_differ (replicate z 0 @ bs) (replicate z 0x31 @ cs) = zeros_differ bs cs"
  by (induction z) auto

lemma length_dblhash [simp]: "length (dogecoin_dblhash m) = 32"
  by (simp add: dogecoin_dblhash_def sha256_raw_spec)

lemma b58check_text:
  assumes "is_text (data @ take 4 (dogecoin_dblhash data)) t" "\<exists>b \<in> set (data @ take 4 (dogecoin_dblhash data)). b \<noteq> 0"
  shows "b58check ((data @ take 4 (dogecoin_dblhash data)) @ ys) (length data + 4) (t @ 0 # zs) =
    Inr (int (unat (((data @ take 4 (dogecoin_dblhash data)) @ ys) ! 0)))"
proof -
  let ?bin = "data @ take 4 (dogecoin_dblhash data)"
  obtain ds where d: "all_digits ds" "canonical (map unat ds)" "digits_val ds = bytes_val ?bin"
    "t = replicate (length ?bin - length (significant ?bin)) 0x31 @ map (\<lambda>d. b58digits_ordered ! unat d) ds"
    using assms(1) unfolding is_text_def by blast
  have "significant ?bin \<noteq> []" using assms(2) by (simp only: dropWhile_eq_Nil_conv) blast
  then obtain b bs where b: "significant ?bin = b # bs" by (cases "significant ?bin") auto
  then have b0: "b \<noteq> 0" using canonical_significant [of ?bin] by (simp add: canonical_def unat_eq_zero)
  have b: "significant ?bin = b # bs" "b \<noteq> 0" using b b0 by auto
  then have "digits_val ds \<noteq> 0"
    using b256.value_ge [OF canonical_significant, of ?bin] d(3) significant_val [of ?bin]
    by (simp only: b(1) list.map) (metis list.distinct(1) not_less_zero le_zero_eq power_eq_0_iff zero_neq_numeral)
  then obtain e es where e: "ds = e # es" by (cases ds) auto
  then have "b58digits_ordered ! unat e \<noteq> 0x31" using d(1,2) ordered_facts(4) [of e] by (auto simp: canonical_def unat_eq_zero)
  moreover have "?bin @ ys = replicate (length ?bin - length (significant ?bin)) 0 @ b # bs @ ys"
    using zeros_significant [of ?bin] b(1) by (metis append_Cons append_assoc)
  ultimately have "zeros_differ (?bin @ ys) (t @ 0 # zs) = Inr False"
    unfolding d(4) e using b(2) by (simp only: append_assoc list.map append_Cons zeros_differ_skip) simp
  then show ?thesis by (simp add: b58check_def)
qed

section \<open>Base58Check\<close>

lemma c_string_length:
  assumes "0 \<notin> set t" "length t < 1024"
  shows "takeWhile (\<lambda>c. c \<noteq> 0) (take 1024 (t @ 0 # zs)) = t"
proof -
  have "take 1024 (t @ 0 # zs) = t @ 0 # take (1023 - length t) zs" using assms(2) by (simp add: take_Cons')
  then show ?thesis using assms(1) by (simp add: takeWhile_append)
qed

lemma decode_check_text:
  assumes "is_text (data @ take 4 (dogecoin_dblhash data)) t" "length t \<le> 128"
    and "length t \<le> length buf" "length data + 8 \<le> length buf"
    and "\<exists>b \<in> set (data @ take 4 (dogecoin_dblhash data)). b \<noteq> 0"
  shows "base58_decode_check (t @ 0 # zs) buf =
    Inr (length data + 4, (data @ take 4 (dogecoin_dblhash data)) @ replicate (length buf - (length data + 4)) 0)"
proof -
  let ?bin = "data @ take 4 (dogecoin_dblhash data)" and ?h = "min (length t + 4) (length buf)"
  let ?sig = "significant ?bin"
  let ?raw = "replicate (?h - length ?sig) 0 @ ?sig"
  note t = is_text_decodable [OF assms(1)]
  have sig: "length ?sig \<le> length ?bin" by (rule length_dropWhile_le)
  have k: "length ?bin = length data + 4" by simp
  have h: "length ?bin \<le> ?h" "?h \<le> length buf" "0 < length buf" using t(4) k assms(3,4) by auto
  have "length ?sig + 4 \<le> ?h" using sig t(4) k assms(4) by simp
  then have "length ?sig \<le> 4 * ((?h + 3) div 4 - 1)" by linarith
  moreover have "ones t + length ?sig = length ?bin" using t(1) sig by simp
  ultimately have dec: "base58_decode buf ?h t = (True, ?raw @ drop ?h buf, length ?bin)"
    using base58_decode_total [of ?h buf t ?sig] t canonical_significant [of ?bin] h by simp
  have b: "take (length ?bin) (drop (?h - length ?bin) (?raw @ drop ?h buf)) = ?bin"
    using take_drop_buffer [of ?raw ?h "length ?bin" ?sig "drop ?h buf"] h(1) sig zeros_significant [of ?bin] by simp
  have l: "length (?raw @ drop ?h buf) = length buf" using h sig by simp
  have str: "takeWhile (\<lambda>c. c \<noteq> 0) (take 1024 (t @ 0 # zs)) = t"
    using c_string_length [OF text_nonzero [OF assms(1)]] assms(2) by simp
  have step: "base58_decode_check (t @ 0 # zs) buf =
      seqc (b58check (take N (drop (?h - N) R) @ replicate (length R - N) 0) N (t @ 0 # zs))
        (\<lambda>r. Inr (if r < 0 then 0 else N, take N (drop (?h - N) R) @ replicate (length R - N) 0))"
    if "base58_decode buf ?h t = (True, R, N)" for R N
    unfolding base58_decode_check_def Let_def str using that assms(2,3) by simp
  show ?thesis
    unfolding step [OF dec] b l unfolding k b58check_text [OF assms(1,5)] by simp
qed

lemma takeWhile_of_take: "takeWhile P (take n xs) = take n (takeWhile P xs)"
proof (induction xs arbitrary: n)
  case (Cons x xs)
  then show ?case by (cases n) auto
qed simp

lemma decode_check_accepts:
  assumes "base58_decode_check str buf = Inr (n, out)" "0 < n"
  defines "s \<equiv> takeWhile (\<lambda>c. c \<noteq> 0) str"
  shows "\<exists>data. n = length data + 4 \<and> take n out = data @ take 4 (dogecoin_dblhash data) \<and> is_text (take n out) s"
proof -
  let ?s = "takeWhile (\<lambda>c. c \<noteq> 0) (take 1024 str)"
  let ?h = "min (length ?s + 4) (length buf)"
  have nz: "\<not> (0 \<notin> set str \<and> length str \<le> 1024)" and g: "\<not> (length ?s > 128 \<or> length buf < length ?s)"
    using assms(1,2) unfolding base58_decode_check_def Let_def by (auto split: if_splits)
  obtain ok raw sz where dec': "base58_decode buf ?h (take (length ?s) str) = (ok, raw, sz)" by (metis prod_cases3)
  let ?data = "take sz (drop (?h - sz) raw) @ replicate (length raw - sz) 0"
  have e: "(if \<not> ok then Inr (0, raw) else seqc (b58check ?data sz str) (\<lambda>r. Inr (if r < 0 then 0 else sz, ?data))) = Inr (n, out)"
    using assms(1) unfolding base58_decode_check_def Let_def dec' if_not_P [OF nz] if_not_P [OF g] prod.case .
  then have "ok" using assms(2) by (auto split: if_splits)
  with e obtain r where r: "b58check ?data sz str = Inr r" "(if r < 0 then 0 else sz) = n" "?data = out"
    by (auto simp: seqc_eq_Inr)
  then have "\<not> r < 0" "sz = n" using assms(2) by (auto split: if_splits)
  note eqs = \<open>sz = n\<close> and okT = eqTrueI [OF \<open>ok\<close>]
  have dec: "base58_decode buf ?h (take (length ?s) str) = (True, raw, n)" by (rule dec' [unfolded eqs okT])
  have out: "out = take n (drop (?h - n) raw) @ replicate (length raw - n) 0" by (rule r(3) [unfolded eqs, symmetric])
  have chk: "\<not> r < 0" "b58check out n str = Inr r" by (rule \<open>\<not> r < 0\<close>) (rule r(1) [unfolded r(3), unfolded eqs])
  have "length ?s \<le> 128" using g by (simp only: not_less de_Morgan_disj)
  then have "length s \<le> 1024" unfolding takeWhile_of_take length_take s_def [symmetric] by linarith
  then have s: "?s = s" unfolding takeWhile_of_take s_def [symmetric] by (rule take_all)
  have "take (length ?s) str = s" unfolding s unfolding s_def by (rule takeWhile_eq_take [symmetric])
  from base58_decode_accepts [OF dec [unfolded this]] obtain sig where v: "\<forall>ch \<in> set (rest_digits s). valid_digit ch"
    and sig: "canonical (map unat sig)" "bytes_val sig = horner 58 0 (map digit_of (rest_digits s))"
      "n = ones s + length sig" "n \<le> ?h" "raw = replicate (?h - length sig) 0 @ sig @ drop ?h buf" by auto
  have "take n (drop (?h - n) raw) = replicate (ones s) 0 @ sig"
    using take_drop_buffer [of "replicate (?h - length sig) 0 @ sig" ?h n sig "drop ?h buf"] sig(3,4)
    by (simp add: sig(5))
  then have bin: "take n out = replicate (ones s) 0 @ sig" using out sig(3) by simp
  have "significant sig = sig" using sig(1) by (cases sig) (auto simp: canonical_def unat_eq_zero)
  then have sg: "significant (take n out) = sig" unfolding bin by (simp add: dropWhile_append)
  have "is_text (take n out) s"
    unfolding is_text_def
  proof (intro exI conjI)
    let ?ds = "map (\<lambda>ch. of_nat (digit_of ch)) (rest_digits s) :: bytes"
    have dg: "map unat ?ds = map digit_of (rest_digits s)"
      using v digit_of_less by (fastforce simp: unat_of_nat)
    show "all_digits ?ds" using v digit_of_less by (fastforce simp: unat_of_nat)
    show "digits_val ?ds = bytes_val (take n out)" unfolding dg using sig(2) significant_val [of "take n out"] sg by simp
    show "canonical (map unat ?ds)" unfolding dg
    proof (cases "rest_digits s")
      case (Cons c cs)
      then have "c \<noteq> 0x31" unfolding dropWhile_eq_Cons_conv by (rule conjunct2)
      moreover have "valid_digit c" using v Cons by simp
      ultimately have "digit_of c \<noteq> 0" by (metis ordered_digit_of ordered_0)
      then show "canonical (map digit_of (rest_digits s))" using Cons by (simp add: canonical_def)
    qed (simp add: canonical_def)
    have o: "length (take n out) - length (significant (take n out)) = ones s" unfolding sg by (simp add: bin)
    have "map (\<lambda>d. b58digits_ordered ! unat d) ?ds = map (\<lambda>d. b58digits_ordered ! d) (map unat ?ds)" by simp
    also have "\<dots> = rest_digits s" unfolding dg using v ordered_digit_of by (simp add: map_idI)
    finally show "s = replicate (length (take n out) - length (significant (take n out))) 0x31 @
        map (\<lambda>d. b58digits_ordered ! unat d) ?ds"
      unfolding o by (metis (mono_tags, lifting) replicate_length_same set_takeWhileD takeWhile_dropWhile_id)
  qed
  moreover have "4 \<le> n" "n \<le> length out" "take 4 (drop (n - 4) out) = take 4 (dogecoin_dblhash (take (n - 4) out))"
    using chk by (auto simp: b58check_def split: if_splits)
  moreover have "take n out = take (n - 4) out @ take 4 (drop (n - 4) out)"
    using take_add [of "n - 4" 4 out] \<open>4 \<le> n\<close> by simp
  ultimately show ?thesis by (intro exI [of _ "take (n - 4) out"]) simp
qed

section \<open>Properties\<close>



text \<open>
  What Base58Check decoding accepts: when it returns a size, the buffer starts with a payload and the
  first four bytes of its double hash, and the string is the one that the encoder writes for these
  bytes. So a decoded string has exactly one spelling.
\<close>

theorem base58check_accepts_encodings:
  assumes "base58_decode_check str buf = Inr (n, out)" "0 < n" "length (takeWhile (\<lambda>c. c \<noteq> 0) str) < b58sz"
  shows "\<exists>data. n = length data + 4 \<and> take n out = data @ take 4 (dogecoin_dblhash data) \<and>
    base58_encode b58 b58sz (take n out) =
      (True, blit b58 0 (takeWhile (\<lambda>c. c \<noteq> 0) str @ [0]), length (takeWhile (\<lambda>c. c \<noteq> 0) str) + 1)"
proof -
  obtain data where d: "n = length data + 4" "take n out = data @ take 4 (dogecoin_dblhash data)"
    "is_text (take n out) (takeWhile (\<lambda>c. c \<noteq> 0) str)"
    using decode_check_accepts [OF assms(1,2)] by blast
  obtain t where t: "is_text (take n out) t" "base58_encode b58 b58sz (take n out) =
      (if b58sz \<le> length t then (False, b58, length t + 1) else (True, blit b58 0 (t @ [0]), length t + 1))"
    using base58_encode_text [of "take n out" b58 b58sz] by blast
  have "t = takeWhile (\<lambda>c. c \<noteq> 0) str" by (rule is_text_unique [OF t(1) d(3)])
  then show ?thesis using d(1,2) t(2) assms(3) by (intro exI [of _ data]) simp
qed

theorem base58check_accepts_encodings_witness:
  "\<exists>str out. base58_decode_check str (replicate 132 0) = Inr (25, out) \<and>
     (\<exists>data. 25 = length data + 4 \<and> take 25 out = data @ take 4 (dogecoin_dblhash data) \<and>
       base58_encode (replicate 200 0) 200 (take 25 out) =
         (True, blit (replicate 200 0) 0 (takeWhile (\<lambda>c. c \<noteq> 0) str @ [0]), length (takeWhile (\<lambda>c. c \<noteq> 0) str) + 1))"
proof -
  let ?data = "replicate 21 30 :: bytes"
  let ?bin = "?data @ take 4 (dogecoin_dblhash ?data)"
  obtain t where t: "is_text ?bin t" "length t \<le> length ?bin * 138 div 100 + 1"
    using base58_encode_text [of ?bin] by blast
  then have l: "length t \<le> 128" "length t \<le> length (replicate 132 (0 :: u8))"
    "length ?data + 8 \<le> length (replicate 132 (0 :: u8))" "length t < 200" by simp_all
  have "(30 :: u8) \<in> set ?bin" by simp
  then have "\<exists>b \<in> set ?bin. b \<noteq> 0" by (intro bexI [of _ 30]) simp_all
  from decode_check_text [OF t(1) l(1-3) this, of "[]"] obtain out where
    d: "base58_decode_check (t @ [0]) (replicate 132 0) = Inr (25, out)" by simp
  have "takeWhile (\<lambda>c. c \<noteq> 0) (t @ [0]) = t" using text_nonzero [OF t(1)] by (simp add: takeWhile_append)
  then have "length (takeWhile (\<lambda>c. c \<noteq> 0) (t @ [0])) < 200" using l by simp
  note accepted = base58check_accepts_encodings [OF d zero_less_numeral this, of "replicate 200 0"]
  show ?thesis by (rule exI [where x = "t @ [0]"], rule exI [where x = out], rule conjI [OF d accepted])
qed

end
