(* ===== verification/SipHash.thy ===== *)
theory SipHash
  imports Serialize
begin

text \<open>
  Model of the SipHash-2-4 part of \<open>src/include/dogecoin/hash.h\<close>: the streaming hasher and the variant
  unrolled for 256-bit values that short transaction identifiers use.

  The specification \<open>siphash24\<close> pads the message to 8-byte words and folds the compression over
  them. The streaming hasher computes it for every way to cut the message into pieces, and the
  unrolled variant is its instance for 32 bytes. The counter is the C type \<open>int\<close>; it stays in range
  for messages below $2^{31}$ bytes and is a natural number here.
\<close>

unbundle bit_operations_syntax

section \<open>The code\<close>

type_synonym sipstate = "u64 \<times> u64 \<times> u64 \<times> u64"

record siphasher =
  sip_v :: sipstate
  sip_tmp :: u64
  sip_count :: nat

definition ROTL64 :: "u64 \<Rightarrow> nat \<Rightarrow> u64" where
  "ROTL64 x b = push_bit b x OR drop_bit (64 - b) x"

fun SIPROUND :: "sipstate \<Rightarrow> sipstate" where
  "SIPROUND (v0, v1, v2, v3) =
     (let v0 = v0 + v1; v1 = ROTL64 v1 13; v1 = v1 XOR v0;
          v0 = ROTL64 v0 32;
          v2 = v2 + v3; v3 = ROTL64 v3 16; v3 = v3 XOR v2;
          v0 = v0 + v3; v3 = ROTL64 v3 21; v3 = v3 XOR v0;
          v2 = v2 + v1; v1 = ROTL64 v1 17; v1 = v1 XOR v2;
          v2 = ROTL64 v2 32 in
      (v0, v1, v2, v3))"

text \<open>One word into the state: \<open>v3 ^= t; SIPROUND; SIPROUND; v0 ^= t\<close>.\<close>

fun sip_absorb :: "u64 \<Rightarrow> sipstate \<Rightarrow> sipstate" where
  "sip_absorb t (v0, v1, v2, v3) =
     (case SIPROUND (SIPROUND (v0, v1, v2, v3 XOR t)) of (v0, v1, v2, v3) \<Rightarrow> (v0 XOR t, v1, v2, v3))"

definition siphasher_set :: "siphasher \<Rightarrow> u64 \<Rightarrow> u64 \<Rightarrow> siphasher" where
  "siphasher_set sh k0 k1 =
     sh\<lparr>sip_v := (0x736f6d6570736575 XOR k0, 0x646f72616e646f6d XOR k1,
                 0x6c7967656e657261 XOR k0, 0x7465646279746573 XOR k1),
        sip_count := 0, sip_tmp := 0\<rparr>"

definition siphasher_write :: "siphasher \<Rightarrow> u64 \<Rightarrow> siphasher c_outcome" where
  "siphasher_write sh data =
     (if sip_count sh mod 8 \<noteq> 0 then Inl AssertFailed
      else Inr (sh\<lparr>sip_v := sip_absorb data (sip_v sh), sip_count := sip_count sh + 8\<rparr>))"

fun sip_step :: "sipstate \<times> u64 \<times> nat \<Rightarrow> u8 \<Rightarrow> sipstate \<times> u64 \<times> nat" where
  "sip_step (v, t, c) b =
     (let t = t OR push_bit (8 * (c mod 8)) (ucast b); c = c + 1 in
      if c mod 8 = 0 then (sip_absorb t v, 0, c) else (v, t, c))"

definition siphasher_hash :: "siphasher \<Rightarrow> bytes \<Rightarrow> siphasher" where
  "siphasher_hash sh data =
     (case foldl sip_step (sip_v sh, sip_tmp sh, sip_count sh) data of
        (v, t, c) \<Rightarrow> sh\<lparr>sip_v := v, sip_count := c, sip_tmp := t\<rparr>)"

text \<open>The last word and the four final rounds.\<close>

definition sip_final :: "u64 \<Rightarrow> sipstate \<Rightarrow> u64" where
  "sip_final t v =
     (case sip_absorb t v of (v0, v1, v2, v3) \<Rightarrow>
        case SIPROUND (SIPROUND (SIPROUND (SIPROUND (v0, v1, v2 XOR 0xFF, v3)))) of
          (v0, v1, v2, v3) \<Rightarrow> v0 XOR v1 XOR v2 XOR v3)"

definition siphasher_finalize :: "siphasher \<Rightarrow> u64" where
  "siphasher_finalize sh = sip_final (sip_tmp sh OR push_bit 56 (of_nat (sip_count sh))) (sip_v sh)"

definition get_uint64 :: "bytes \<Rightarrow> nat \<Rightarrow> u64" where
  "get_uint64 data pos =
     (let ptr = drop (pos * 8) data in
      ucast (ptr ! 0) OR push_bit 8 (ucast (ptr ! 1)) OR push_bit 16 (ucast (ptr ! 2)) OR push_bit 24 (ucast (ptr ! 3)) OR
      push_bit 32 (ucast (ptr ! 4)) OR push_bit 40 (ucast (ptr ! 5)) OR push_bit 48 (ucast (ptr ! 6)) OR
      push_bit 56 (ucast (ptr ! 7)))"

text \<open>The unrolled hash: the first word enters \<open>v3\<close> together with the key.\<close>

definition siphash_u256 :: "u64 \<Rightarrow> u64 \<Rightarrow> bytes \<Rightarrow> u64" where
  "siphash_u256 k0 k1 val =
     (let d = get_uint64 val 0;
          v = SIPROUND (SIPROUND (0x736f6d6570736575 XOR k0, 0x646f72616e646f6d XOR k1,
                                  0x6c7967656e657261 XOR k0, (0x7465646279746573 XOR k1) XOR d));
          v = (case v of (v0, v1, v2, v3) \<Rightarrow> (v0 XOR d, v1, v2, v3));
          v = sip_absorb (get_uint64 val 1) v;
          v = sip_absorb (get_uint64 val 2) v;
          v = sip_absorb (get_uint64 val 3) v in
      sip_final (push_bit 59 4) v)"

section \<open>Specification\<close>

definition sip_init :: "u64 \<Rightarrow> u64 \<Rightarrow> sipstate" where
  "sip_init k0 k1 = (0x736f6d6570736575 XOR k0, 0x646f72616e646f6d XOR k1, 0x6c7967656e657261 XOR k0, 0x7465646279746573 XOR k1)"

text \<open>Little-endian words; a last incomplete group does not occur after padding.\<close>

fun le_words :: "bytes \<Rightarrow> u64 list" where
  "le_words (a # b # c # d # e # f # g # h # bs) = of_nat (le_val [a, b, c, d, e, f, g, h]) # le_words bs"
| "le_words bs = []"

text \<open>Zeros up to 7 bytes modulo 8, then the length modulo 256.\<close>

definition sip_pad :: "bytes \<Rightarrow> bytes" where
  "sip_pad m = m @ replicate (7 - length m mod 8) 0 @ [of_nat (length m)]"

definition siphash24 :: "u64 \<Rightarrow> u64 \<Rightarrow> bytes \<Rightarrow> u64" where
  "siphash24 k0 k1 m =
     (let ws = le_words (sip_pad m) in sip_final (last ws) (foldl (\<lambda>v w. sip_absorb w v) (sip_init k0 k1) (butlast ws)))"

section \<open>The streaming hasher\<close>

text \<open>The hasher has seen the message \<open>m\<close>.\<close>

definition sip_repr :: "sipstate \<Rightarrow> bytes \<Rightarrow> sipstate \<times> u64 \<times> nat \<Rightarrow> bool" where
  "sip_repr v0 m s \<longleftrightarrow>
     (let k = 8 * (length m div 8) in
      s = (foldl (\<lambda>v w. sip_absorb w v) v0 (le_words (take k m)), of_nat (le_val (drop k m)), length m))"

lemma list8E:
  assumes "length x = 8"
  obtains a b c d e f g h where "x = [a, b, c, d, e, f, g, h]"
proof -
  have "length x = Suc (Suc (Suc (Suc (Suc (Suc (Suc (Suc 0)))))))" using assms by simp
  then show ?thesis using that by (auto simp only: length_Suc_conv length_0_conv)
qed

lemma le_words_8: "length xs = 8 \<Longrightarrow> le_words (xs @ ys) = of_nat (le_val xs) # le_words ys"
proof -
  assume "length xs = 8"
  then obtain a b c d e f g h where "xs = [a, b, c, d, e, f, g, h]"
    using list8E by blast
  then show ?thesis by (simp only: append_Cons append_Nil le_words.simps)
qed

lemma le_words_append: "length xs = 8 * n \<Longrightarrow> le_words (xs @ ys) = le_words xs @ le_words ys"
proof (induction n arbitrary: xs)
  case (Suc n)
  then have "length (take 8 xs) = 8" "length (drop 8 xs) = 8 * n" "xs = take 8 xs @ drop 8 xs" by auto
  then show ?case using Suc.IH [of "drop 8 xs"] le_words_8 [of "take 8 xs"] by (metis append_Cons append_assoc)
qed simp

lemma bit_word_nat: "bit (of_nat x :: 'a :: len word) n \<longleftrightarrow> n < LENGTH('a) \<and> bit x n"
proof -
  have "bit (of_nat x :: 'a word) n \<longleftrightarrow> n < LENGTH('a) \<and> bit (unat (of_nat x :: 'a word)) n"
    by (auto simp: bit_unsigned_iff dest: bit_imp_le_length)
  then show ?thesis by (auto simp: unsigned_of_nat bit_take_bit_iff)
qed

lemma or_disjoint:
  assumes "x < 2 ^ k"
  shows "(of_nat x :: u64) OR push_bit k (of_nat y) = of_nat (x + 2 ^ k * y)"
proof -
  have "\<not> bit (of_nat x :: u64) n \<or> \<not> bit (push_bit k (of_nat y) :: u64) n" for n
  proof (cases "n < k")
    case False
    then have "x < 2 ^ n" using assms by (meson le_less_trans not_less one_le_numeral order_less_le_trans power_increasing)
    then have "\<not> bit x n" by (simp add: bit_iff_odd)
    then show ?thesis by (simp add: bit_word_nat)
  qed (simp add: bit_simps)
  then have "(of_nat x :: u64) AND push_bit k (of_nat y) = 0" by (intro bit_eqI) (auto simp: bit_and_iff)
  then have "(of_nat x :: u64) OR push_bit k (of_nat y) = of_nat x + push_bit k (of_nat y)"
    using word_plus_and_or [of "of_nat x :: u64" "push_bit k (of_nat y)"] by simp
  then show ?thesis by (simp add: push_bit_eq_mult mult.commute)
qed

lemma sip_repr_step:
  assumes "sip_repr v0 m s"
  shows "sip_repr v0 (m @ [b]) (sip_step s b)"
proof -
  define q r where "q = length m div 8" and "r = length m mod 8"
  have l: "length m = 8 * q + r" "r < 8" by (simp_all add: q_def r_def)
  let ?rest = "drop (8 * q) m"
  have "le_val ?rest < 256 ^ r" using le_val_less [of ?rest] l by simp
  then have "le_val ?rest < 2 ^ (8 * r)" by (simp add: power_mult)
  then have t: "of_nat (le_val ?rest) OR push_bit (8 * r) (ucast b) = (of_nat (le_val (?rest @ [b])) :: u64)"
    using or_disjoint [of "le_val ?rest" "8 * r" "unat b"] l by (simp add: le_val_append power_mult)
  show ?thesis
  proof (cases "r = 7")
    case True
    then have q: "(length m + 1) div 8 = Suc q" "(length m + 1) mod 8 = 0" using l by simp_all
    have "m @ [b] = take (8 * q) m @ ?rest @ [b]" "length (?rest @ [b]) = 8" "length (take (8 * q) m) = 8 * q"
      using l True by simp_all
    then have "le_words (m @ [b]) = le_words (take (8 * q) m) @ [of_nat (le_val (?rest @ [b]))]"
      by (metis append_Nil2 le_words.simps(2) le_words_8 le_words_append)
    then show ?thesis
      using assms q l t True by (simp add: sip_repr_def Let_def q_def [symmetric] r_def [symmetric] le_val_append)
  next
    case False
    then have q: "(length m + 1) div 8 = q" "(length m + 1) mod 8 \<noteq> 0" using l by presburger+
    then show ?thesis
      using assms l t by (simp add: sip_repr_def Let_def q_def [symmetric] r_def [symmetric])
  qed
qed

lemma sip_repr_hash: "sip_repr v0 m s \<Longrightarrow> sip_repr v0 (m @ data) (foldl sip_step s data)"
proof (induction data arbitrary: m s)
  case (Cons b data)
  from Cons.IH [OF sip_repr_step [OF Cons.prems]] show ?case by simp
qed simp

definition sip_ok :: "u64 \<Rightarrow> u64 \<Rightarrow> bytes \<Rightarrow> siphasher \<Rightarrow> bool" where
  "sip_ok k0 k1 m sh \<longleftrightarrow> sip_repr (sip_init k0 k1) m (sip_v sh, sip_tmp sh, sip_count sh)"

lemma sip_ok_set: "sip_ok k0 k1 [] (siphasher_set sh k0 k1)"
  by (simp add: sip_ok_def sip_repr_def siphasher_set_def sip_init_def)

lemma sip_ok_hash: "sip_ok k0 k1 m sh \<Longrightarrow> sip_ok k0 k1 (m @ data) (siphasher_hash sh data)"
  using sip_repr_hash [of "sip_init k0 k1" m "(sip_v sh, sip_tmp sh, sip_count sh)" data]
  by (cases "foldl sip_step (sip_v sh, sip_tmp sh, sip_count sh) data") (simp add: sip_ok_def siphasher_hash_def)

lemma last_word:
  assumes "length rest < 8"
  shows "le_words (rest @ replicate (7 - length rest) 0 @ [of_nat n]) = [of_nat (le_val rest) OR push_bit 56 (of_nat n)]"
proof -
  let ?w = "rest @ replicate (7 - length rest) 0 @ [of_nat n]"
  have "le_val rest < 256 ^ length rest" by (rule le_val_less)
  also have "(256 :: nat) ^ length rest \<le> 256 ^ 7" using assms by (intro power_increasing) auto
  finally have l: "le_val rest < 2 ^ 56" by simp
  have p: "length rest + (7 - length rest) = 7" using assms by simp
  have "le_val ?w = le_val rest + 256 ^ (length rest + (7 - length rest)) * (n mod 256)"
    by (simp add: le_val_append power_add)
  moreover have "2 ^ 56 * n = 256 ^ 7 * (n mod 256) + 2 ^ 64 * (n div 256)"
  proof -
    have "2 ^ 56 * n = 2 ^ 56 * (n mod 256 + 256 * (n div 256))" by (simp only: mod_mult_div_eq)
    also have "\<dots> = 2 ^ 56 * (n mod 256) + 2 ^ 56 * 256 * (n div 256)" by (simp only: distrib_left mult.assoc)
    finally show ?thesis by simp
  qed
  ultimately have "le_val rest + 2 ^ 56 * n = le_val ?w + 2 ^ 64 * (n div 256)" unfolding p by simp
  moreover have "(of_nat (2 ^ 64 * (n div 256)) :: u64) = 0"
  proof -
    have "unat (of_nat (2 ^ 64 * (n div 256)) :: u64) = 0" unfolding unat_of_nat by simp
    then show ?thesis by (simp only: unat_eq_zero)
  qed
  ultimately have "(of_nat (le_val rest + 2 ^ 56 * n) :: u64) = of_nat (le_val ?w)"
    by (simp only: of_nat_add [of "le_val ?w"] add_0_right)
  then have "of_nat (le_val ?w) = (of_nat (le_val rest) OR push_bit 56 (of_nat n) :: u64)"
    unfolding or_disjoint [OF l] by (rule sym)
  moreover have "length ?w = 8" using p by simp
  ultimately show ?thesis using le_words_8 [of ?w "[]"] by simp
qed

lemma sip_ok_finalize:
  assumes "sip_ok k0 k1 m sh"
  shows "siphasher_finalize sh = siphash24 k0 k1 m"
proof -
  define k where "k = 8 * (length m div 8)"
  let ?rest = "drop k m"
  have l: "length ?rest = length m mod 8" by (simp add: k_def minus_mult_div_eq_mod)
  have "sip_pad m = take k m @ ?rest @ replicate (7 - length ?rest) 0 @ [of_nat (length m)]"
    unfolding sip_pad_def l by simp
  moreover have "length (take k m) = 8 * (length m div 8)" by (simp add: k_def)
  ultimately have "le_words (sip_pad m) = le_words (take k m) @ [of_nat (le_val ?rest) OR push_bit 56 (of_nat (length m))]"
    using le_words_append last_word [of ?rest "length m"] l by simp
  then show ?thesis
    using assms by (simp add: siphash24_def siphasher_finalize_def sip_ok_def sip_repr_def k_def Let_def)
qed

section \<open>The unrolled variant\<close>

lemma sip_absorb_SIPROUND:
  "(case SIPROUND (SIPROUND (v0, v1, v2, v3 XOR d)) of (v0, v1, v2, v3) \<Rightarrow> (v0 XOR d, v1, v2, v3)) = sip_absorb d (v0, v1, v2, v3)"
  by simp

lemma get_uint64_val:
  assumes "length m = 8 * Suc pos + k"
  shows "get_uint64 m pos = of_nat (le_val (take 8 (drop (8 * pos) m)))"
proof -
  have "length (take 8 (drop (8 * pos) m)) = 8" using assms by simp
  then obtain a b c d e f g h where w: "take 8 (drop (8 * pos) m) = [a, b, c, d, e, f, g, h]" by (rule list8E)
  have n: "drop (pos * 8) m ! i = [a, b, c, d, e, f, g, h] ! i" if "i < 8" for i
    using that w [symmetric] by (simp add: mult.commute)
  have o: "(of_nat (le_val xs) :: u64) OR push_bit (8 * length xs) (ucast y) = of_nat (le_val (xs @ [y]))" for xs y
  proof -
    have "le_val xs < 2 ^ (8 * length xs)" using le_val_less [of xs] by (simp add: power_mult)
    from or_disjoint [OF this, of "unat y"] show ?thesis by (simp add: le_val_append power_mult)
  qed
  have "get_uint64 m pos = of_nat (le_val [a]) OR push_bit 8 (ucast b) OR push_bit 16 (ucast c) OR push_bit 24 (ucast d) OR
      push_bit 32 (ucast e) OR push_bit 40 (ucast f) OR push_bit 48 (ucast g) OR push_bit 56 (ucast h)"
    by (simp add: get_uint64_def Let_def n)
  also have "\<dots> = of_nat (le_val [a, b, c, d, e, f, g, h])"
    using o [of "[a]" b] o [of "[a, b]" c] o [of "[a, b, c]" d] o [of "[a, b, c, d]" e] o [of "[a, b, c, d, e]" f]
      o [of "[a, b, c, d, e, f]" g] o [of "[a, b, c, d, e, f, g]" h]
    by (simp only: or.assoc [symmetric] append.simps list.size) simp
  finally show ?thesis by (simp only: w)
qed

lemma siphash_u256_spec:
  assumes "length m = 32"
  shows "siphash_u256 k0 k1 m = siphash24 k0 k1 m"
proof -
  let ?w = "\<lambda>i. of_nat (le_val (take 8 (drop (8 * i) m))) :: u64"
  have g: "get_uint64 m 0 = ?w 0" "get_uint64 m 1 = ?w 1" "get_uint64 m 2 = ?w 2" "get_uint64 m 3 = ?w 3"
    using assms by (intro get_uint64_val; simp)+
  have m: "sip_pad m = take 8 (drop 0 m) @ take 8 (drop 8 m) @ take 8 (drop 16 m) @ take 8 (drop 24 m) @
      [] @ replicate (7 - length ([] :: bytes)) 0 @ [of_nat 32]"
  proof -
    have "m = take 8 m @ take 8 (drop 8 m) @ take 8 (drop 16 m) @ take 8 (drop 24 m)"
    proof -
      have "m = take 8 m @ drop 8 m" "drop 8 m = take 8 (drop 8 m) @ drop 16 m"
        "drop 16 m = take 8 (drop 16 m) @ drop 24 m" "drop 24 m = take 8 (drop 24 m)"
        using assms append_take_drop_id [of 8 "drop 8 m"] append_take_drop_id [of 8 "drop 16 m"] by simp_all
      then show ?thesis by metis
    qed
    then show ?thesis by (simp add: sip_pad_def assms)
  qed
  have "le_words (sip_pad m) = [?w 0, ?w 1, ?w 2, ?w 3, of_nat (le_val []) OR push_bit 56 (of_nat 32)]"
    unfolding m using assms last_word [of "[]" 32]
    by (simp only: le_words_8 length_take length_drop) simp
  moreover have "(of_nat (le_val []) OR push_bit 56 (of_nat 32) :: u64) = push_bit 59 4"
    by (simp add: push_bit_eq_mult)
  ultimately show ?thesis
    by (simp add: siphash24_def siphash_u256_def sip_init_def g [unfolded One_nat_def] g sip_absorb_SIPROUND Let_def del: SIPROUND.simps)
qed

section \<open>Properties\<close>

text \<open>
  The streaming hasher is SipHash-2-4: cutting the message into any pieces, whatever hasher object
  is reset, gives the hash of the whole message, zero-padded to words with its length in the last byte.
\<close>

theorem siphash_streaming:
  "siphasher_finalize (foldl siphasher_hash (siphasher_set sh k0 k1) chunks) = siphash24 k0 k1 (concat chunks)"
proof -
  have "sip_ok k0 k1 m h \<Longrightarrow> sip_ok k0 k1 (m @ concat chunks) (foldl siphasher_hash h chunks)" for m h
  proof (induction chunks arbitrary: m h)
    case (Cons c chunks)
    from Cons.IH [OF sip_ok_hash [OF Cons.prems]] show ?case by simp
  qed simp
  from sip_ok_finalize [OF this [OF sip_ok_set]] show ?thesis by simp
qed

text \<open>
  The hash unrolled for 256-bit values, which computes the short transaction identifiers of compact
  blocks, is SipHash-2-4 of the 32 bytes.
\<close>

theorem siphash_u256_is_siphash:
  assumes "length val = 32"
  shows "siphash_u256 k0 k1 val = siphash24 k0 k1 val"
  by (rule siphash_u256_spec [OF assms])

theorem siphash_u256_is_siphash_witness:
  "siphash_u256 1 2 (replicate 32 7) = siphash24 1 2 (replicate 32 7)"
  by (rule siphash_u256_is_siphash) simp

end
