(* ===== verification/Golomb.thy ===== *)
theory Golomb
  imports SipHash Sha2 Tx
begin

text \<open>
  Model of \<open>src/src/golomb.c\<close>, the compact block filters of BIP 158: bit writer and reader,
  Golomb-Rice coding, hashing into the range of a filter, building a filter, the two membership tests,
  and the wire format.

  A string of the code is its bytes, a vector of strings a list. Pointers are present: the null checks
  of the callers' arguments are left out, a filter without encoded data is \<open>None\<close>. The library function
  \<open>qsort\<close> is an insertion sort by the comparison function; on the total orders it is used with here,
  every sorting function returns the same list.

  The bit writer and reader refine lists of bits (\<open>written\<close>, \<open>unread\<close>). Under that view
  encoding and decoding are inverse, which gives the absence of false negatives of a filter.
\<close>

unbundle bit_operations_syntax

section \<open>Helpers\<close>

definition map_to_range :: "u64 \<Rightarrow> u64 \<Rightarrow> u64" where
  "map_to_range x F =
     (let x_hi = drop_bit 32 x; x_lo = x AND 0xFFFFFFFF;
          F_hi = drop_bit 32 F; F_lo = F AND 0xFFFFFFFF;
          lo_lo = x_lo * F_lo; lo_hi = x_lo * F_hi; hi_lo = x_hi * F_lo; hi_hi = x_hi * F_hi;
          carry = drop_bit 32 (drop_bit 32 lo_lo + (lo_hi AND 0xFFFFFFFF) + (hi_lo AND 0xFFFFFFFF)) in
      hi_hi + drop_bit 32 lo_hi + drop_bit 32 hi_lo + carry)"

definition compare_uint64 :: "u64 \<Rightarrow> u64 \<Rightarrow> int" where
  "compare_uint64 va vb = (if va < vb then - 1 else if va > vb then 1 else 0)"

definition compare_element :: "bytes \<Rightarrow> bytes \<Rightarrow> int" where
  "compare_element x y =
     (if length x \<noteq> length y then if length x < length y then - 1 else 1 else memcmp x y)"

fun qsort_insert :: "('a \<Rightarrow> 'a \<Rightarrow> int) \<Rightarrow> 'a \<Rightarrow> 'a list \<Rightarrow> 'a list" where
  "qsort_insert compar a [] = [a]"
| "qsort_insert compar a (b # bs) = (if compar a b \<le> 0 then a # b # bs else b # qsort_insert compar a bs)"

definition qsort :: "('a \<Rightarrow> 'a \<Rightarrow> int) \<Rightarrow> 'a list \<Rightarrow> 'a list" where
  "qsort compar xs = foldr (qsort_insert compar) xs []"

section \<open>Bit writer and reader\<close>

record gcs_bitwriter =
  bw_data :: bytes
  bw_accumulator :: u8
  bw_n_bits :: nat

record gcs_bitreader =
  br_data :: bytes
  br_accumulator :: u8
  br_n_bits :: nat

definition gcs_bitwriter_init :: gcs_bitwriter where
  "gcs_bitwriter_init = \<lparr>bw_data = [], bw_accumulator = 0, bw_n_bits = 0\<rparr>"

definition gcs_bitwriter_write_bit :: "gcs_bitwriter \<Rightarrow> u8 \<Rightarrow> gcs_bitwriter" where
  "gcs_bitwriter_write_bit writer b =
     (let writer = writer\<lparr>bw_accumulator := bw_accumulator writer OR push_bit (7 - bw_n_bits writer) (b AND 1),
                          bw_n_bits := bw_n_bits writer + 1\<rparr> in
      if bw_n_bits writer = 8
      then \<lparr>bw_data = bw_data writer @ [bw_accumulator writer], bw_accumulator = 0, bw_n_bits = 0\<rparr>
      else writer)"

text \<open>The bits from \<open>n_bits - 1\<close> down to 0.\<close>

fun gcs_bitwriter_write_bits_be :: "gcs_bitwriter \<Rightarrow> u64 \<Rightarrow> nat \<Rightarrow> gcs_bitwriter" where
  "gcs_bitwriter_write_bits_be writer val 0 = writer"
| "gcs_bitwriter_write_bits_be writer val (Suc i) =
     gcs_bitwriter_write_bits_be (gcs_bitwriter_write_bit writer (ucast (drop_bit i val AND 1))) val i"

definition gcs_bitwriter_flush :: "gcs_bitwriter \<Rightarrow> gcs_bitwriter" where
  "gcs_bitwriter_flush writer =
     (if bw_n_bits writer > 0
      then \<lparr>bw_data = bw_data writer @ [bw_accumulator writer], bw_accumulator = 0, bw_n_bits = 0\<rparr>
      else writer)"

definition gcs_bitreader_init :: "bytes \<Rightarrow> gcs_bitreader" where
  "gcs_bitreader_init data = \<lparr>br_data = data, br_accumulator = 0, br_n_bits = 0\<rparr>"

text \<open>\<open>None\<close> is the result -1 at the end of the data; otherwise the bit and the reader after it.\<close>

definition gcs_bitreader_read_bit :: "gcs_bitreader \<Rightarrow> (bool \<times> gcs_bitreader) option" where
  "gcs_bitreader_read_bit reader =
     (case (if br_n_bits reader = 0
            then (case br_data reader of
                    [] \<Rightarrow> None
                  | b # bs \<Rightarrow> Some \<lparr>br_data = bs, br_accumulator = b, br_n_bits = 8\<rparr>)
            else Some reader) of
        None \<Rightarrow> None
      | Some reader \<Rightarrow>
          let n = br_n_bits reader - 1 in
          Some (drop_bit n (br_accumulator reader) AND 1 \<noteq> 0, reader\<lparr>br_n_bits := n\<rparr>))"

fun read_bits_loop :: "nat \<Rightarrow> gcs_bitreader \<Rightarrow> u64 \<Rightarrow> (u64 \<times> gcs_bitreader) option" where
  "read_bits_loop 0 reader result = Some (result, reader)"
| "read_bits_loop (Suc i) reader result =
     (case gcs_bitreader_read_bit reader of
        None \<Rightarrow> None
      | Some (b, reader) \<Rightarrow> read_bits_loop i reader (push_bit 1 result OR of_bool b))"

definition gcs_bitreader_read_bits_be :: "gcs_bitreader \<Rightarrow> nat \<Rightarrow> (u64 \<times> gcs_bitreader) option" where
  "gcs_bitreader_read_bits_be reader n_bits = read_bits_loop n_bits reader 0"

section \<open>Golomb-Rice coding\<close>

fun write_ones :: "nat \<Rightarrow> gcs_bitwriter \<Rightarrow> gcs_bitwriter" where
  "write_ones 0 writer = writer"
| "write_ones (Suc n) writer = write_ones n (gcs_bitwriter_write_bit writer 1)"

definition golomb_rice_encode :: "gcs_bitwriter \<Rightarrow> u64 \<Rightarrow> nat \<Rightarrow> gcs_bitwriter" where
  "golomb_rice_encode writer val P =
     (let quot = drop_bit P val;
          remainder = val AND (push_bit P 1 - 1);
          writer = write_ones (unat quot) writer;
          writer = gcs_bitwriter_write_bit writer 0 in
      gcs_bitwriter_write_bits_be writer remainder P)"

text \<open>The unary part. Every turn takes a bit away, so the loop ends with the data at the latest.\<close>

function read_unary :: "gcs_bitreader \<Rightarrow> u64 \<Rightarrow> (u64 \<times> gcs_bitreader) option" where
  "read_unary reader quot =
     (case gcs_bitreader_read_bit reader of
        None \<Rightarrow> None
      | Some (b, reader) \<Rightarrow> if b then read_unary reader (quot + 1) else Some (quot, reader))"
  by pat_completeness auto

termination
  by (relation "measure (\<lambda>(r, _). 8 * length (br_data r) + br_n_bits r)")
     (auto simp: gcs_bitreader_read_bit_def Let_def split: if_splits list.splits)

definition golomb_rice_decode :: "gcs_bitreader \<Rightarrow> nat \<Rightarrow> (u64 \<times> gcs_bitreader) option" where
  "golomb_rice_decode reader P =
     (case read_unary reader 0 of
        None \<Rightarrow> None
      | Some (quot, reader) \<Rightarrow>
          (case gcs_bitreader_read_bits_be reader P of
             None \<Rightarrow> None
           | Some (remainder, reader) \<Rightarrow> Some (push_bit P quot OR remainder, reader)))"

section \<open>Filters\<close>

abbreviation GCS_BASIC_FILTER_TYPE :: u8 where "GCS_BASIC_FILTER_TYPE \<equiv> 0"
abbreviation GCS_BASIC_FILTER_P :: nat where "GCS_BASIC_FILTER_P \<equiv> 19"
abbreviation GCS_BASIC_FILTER_M :: u64 where "GCS_BASIC_FILTER_M \<equiv> 784931"

record gcs_filter =
  gf_filter_type :: u8
  gf_N :: u32
  gf_F :: u64
  gf_P :: nat
  gf_M :: u64
  gf_key :: bytes
  gf_encoded :: "bytes option"

definition gcs_derive_key :: "bytes \<Rightarrow> bytes" where
  "gcs_derive_key blockhash = take 16 blockhash"

definition gcs_hash_element :: "bytes \<Rightarrow> u64 \<Rightarrow> bytes \<Rightarrow> u64" where
  "gcs_hash_element key F data =
     (let k0 = of_nat (le_val (take 8 key)); k1 = of_nat (le_val (take 8 (drop 8 key)));
          sh = siphasher_set \<lparr>sip_v = (0, 0, 0, 0), sip_tmp = 0, sip_count = 0\<rparr> k0 k1 in
      map_to_range (siphasher_finalize (siphasher_hash sh data)) F)"

definition gcs_filter_new :: gcs_filter where
  "gcs_filter_new = \<lparr>gf_filter_type = GCS_BASIC_FILTER_TYPE, gf_N = 0, gf_F = 0, gf_P = GCS_BASIC_FILTER_P,
     gf_M = GCS_BASIC_FILTER_M, gf_key = replicate 16 0, gf_encoded = None\<rparr>"

text \<open>The loop that keeps one of each run of equal elements; \<open>kept\<close> is \<open>distinct[0..n_distinct]\<close> reversed.\<close>

fun collapse :: "bytes list \<Rightarrow> bytes list \<Rightarrow> bytes list" where
  "collapse kept [] = rev kept"
| "collapse [] (e # es) = collapse [e] es"
| "collapse (k # kept) (e # es) =
     (if compare_element k e \<noteq> 0 then collapse (e # k # kept) es else collapse (k # kept) es)"

fun encode_deltas :: "nat \<Rightarrow> gcs_bitwriter \<Rightarrow> u64 \<Rightarrow> u64 list \<Rightarrow> gcs_bitwriter" where
  "encode_deltas P writer prev [] = writer"
| "encode_deltas P writer prev (h # hashes) = encode_deltas P (golomb_rice_encode writer (h - prev) P) h hashes"

definition gcs_filter_build :: "gcs_filter \<Rightarrow> u8 \<Rightarrow> bytes \<Rightarrow> bytes list \<Rightarrow> gcs_filter" where
  "gcs_filter_build gf filter_type blockhash elements =
     (let gf = gf\<lparr>gf_filter_type := filter_type, gf_P := GCS_BASIC_FILTER_P, gf_M := GCS_BASIC_FILTER_M,
                          gf_key := gcs_derive_key blockhash\<rparr> in
      if elements = [] then gf\<lparr>gf_N := 0, gf_F := 0, gf_encoded := Some []\<rparr>
      else
        let distinct_elements = collapse [] (qsort compare_element elements);
            N = of_nat (length distinct_elements) :: u32;
            F = ucast N * gf_M gf :: u64;
            hashes = map (gcs_hash_element (gf_key gf) F) (take (unat N) distinct_elements);
            hashes = qsort compare_uint64 hashes;
            writer = encode_deltas (gf_P gf) gcs_bitwriter_init 0 hashes;
            writer = gcs_bitwriter_flush writer in
        gf\<lparr>gf_N := N, gf_F := F, gf_encoded := Some (bw_data writer)\<rparr>)"

text \<open>The loop of \<open>gcs_filter_match\<close> with the number of values still to decode.\<close>

fun match_loop :: "nat \<Rightarrow> nat \<Rightarrow> u64 \<Rightarrow> gcs_bitreader \<Rightarrow> u64 \<Rightarrow> bool" where
  "match_loop 0 P target reader val = False"
| "match_loop (Suc i) P target reader val =
     (case golomb_rice_decode reader P of
        None \<Rightarrow> False
      | Some (delta, reader) \<Rightarrow>
          let val = val + delta in
          if val = target then True
          else if val > target then False
          else match_loop i P target reader val)"

definition gcs_filter_match :: "gcs_filter \<Rightarrow> bytes \<Rightarrow> bool" where
  "gcs_filter_match gf data =
     (case gf_encoded gf of
        None \<Rightarrow> False
      | Some encoded \<Rightarrow>
          if gf_N gf = 0 then False
          else match_loop (unat (gf_N gf)) (gf_P gf) (gcs_hash_element (gf_key gf) (gf_F gf) data)
                 (gcs_bitreader_init encoded) 0)"

text \<open>
  The walk of \<open>gcs_filter_match_any\<close> over the filter and the sorted queries: \<open>left\<close> filter values are
  not decoded yet, \<open>filter_value\<close> is the last one decoded.
\<close>

function walk :: "nat \<Rightarrow> nat \<Rightarrow> gcs_bitreader \<Rightarrow> u64 \<Rightarrow> u64 list \<Rightarrow> bool" where
  "walk P left reader filter_value [] = False"
| "walk P left reader filter_value (q # qs) =
     (if filter_value = q then True
      else if filter_value < q then
        (case left of
           0 \<Rightarrow> False
         | Suc left' \<Rightarrow>
             (case golomb_rice_decode reader P of
                None \<Rightarrow> False
              | Some (delta, reader) \<Rightarrow> walk P left' reader (filter_value + delta) (q # qs)))
      else walk P left reader filter_value qs)"
  by pat_completeness auto

termination
  by (relation "measure (\<lambda>(P, left, r, v, qs). left + length qs)") auto

definition gcs_filter_match_any :: "gcs_filter \<Rightarrow> bytes list \<Rightarrow> bool" where
  "gcs_filter_match_any gf elements =
     (case gf_encoded gf of
        None \<Rightarrow> False
      | Some encoded \<Rightarrow>
          if gf_N gf = 0 \<or> elements = [] then False
          else
            let query_hashes = qsort compare_uint64 (map (gcs_hash_element (gf_key gf) (gf_F gf)) elements) in
            case golomb_rice_decode (gcs_bitreader_init encoded) (gf_P gf) of
              None \<Rightarrow> False
            | Some (delta, reader) \<Rightarrow> walk (gf_P gf) (unat (gf_N gf) - 1) reader (0 + delta) query_hashes)"

section \<open>Basic filters, headers, wire format\<close>

definition output_elements :: "tx_out \<Rightarrow> bytes list" where
  "output_elements txout =
     (case out_script_pubkey txout of
        Some (c # s) \<Rightarrow> if c = 0x6a then [] else [c # s]
      | _ \<Rightarrow> [])"

definition gcs_build_basic_filter :: "gcs_filter \<Rightarrow> bytes \<Rightarrow> dogecoin_tx list \<Rightarrow> bytes option list option \<Rightarrow> gcs_filter" where
  "gcs_build_basic_filter gf blockhash txs prev_output_scripts =
     (let elements = concat (map (\<lambda>tx. concat (map output_elements (vlist (tx_vout tx)))) txs);
          elements = elements @
            (case prev_output_scripts of
               None \<Rightarrow> []
             | Some scripts \<Rightarrow> concat (map (\<lambda>s. case s of Some (c # s) \<Rightarrow> [c # s] | _ \<Rightarrow> []) scripts)) in
      gcs_filter_build gf GCS_BASIC_FILTER_TYPE blockhash elements)"

definition gcs_filter_serialize :: "gcs_filter \<Rightarrow> bytes \<Rightarrow> bytes" where
  "gcs_filter_serialize gf out =
     (let out = ser_varlen out (gf_N gf) in
      case gf_encoded gf of Some e \<Rightarrow> out @ e | None \<Rightarrow> out)"

definition gcs_filter_compute_header :: "gcs_filter \<Rightarrow> bytes \<Rightarrow> bytes" where
  "gcs_filter_compute_header gf prev_header =
     (let serialized = ser_varlen [] (gf_N gf);
          serialized = (case gf_encoded gf of Some e \<Rightarrow> serialized @ e | None \<Rightarrow> serialized);
          filter_hash = dogecoin_hash serialized in
      dogecoin_hash (filter_hash @ take 32 prev_header))"

text \<open>\<open>None\<close> is a refused buffer.\<close>

definition gcs_filter_deserialize :: "gcs_filter \<Rightarrow> u8 \<Rightarrow> bytes \<Rightarrow> bytes \<Rightarrow> (gcs_filter \<times> bytes) option" where
  "gcs_filter_deserialize gf filter_type blockhash buf =
     (let gf = gf\<lparr>gf_filter_type := filter_type, gf_P := GCS_BASIC_FILTER_P, gf_M := GCS_BASIC_FILTER_M,
                          gf_key := gcs_derive_key blockhash\<rparr> in
      case deser_varlen buf of
        None \<Rightarrow> None
      | Some (N, buf) \<Rightarrow>
          let max_n = of_nat (length buf) * 8 div of_nat (GCS_BASIC_FILTER_P + 1) :: u64 in
          if ucast N > max_n then None
          else Some (gf\<lparr>gf_N := N, gf_F := ucast N * gf_M gf, gf_encoded := Some buf\<rparr>, []))"

section \<open>The bits behind writer and reader\<close>

definition byte_bits :: "u8 \<Rightarrow> bool list" where
  "byte_bits b = map (bit b) (rev [0..<8])"

definition bits_be :: "'a :: len word \<Rightarrow> nat \<Rightarrow> bool list" where
  "bits_be v n = map (bit v) (rev [0..<n])"

definition written :: "gcs_bitwriter \<Rightarrow> bool list" where
  "written w = concat (map byte_bits (bw_data w)) @ take (bw_n_bits w) (byte_bits (bw_accumulator w))"

definition writer_ok :: "gcs_bitwriter \<Rightarrow> bool" where
  "writer_ok w \<longleftrightarrow> bw_n_bits w < 8 \<and> (\<forall>i < 8 - bw_n_bits w. \<not> bit (bw_accumulator w) i)"

definition unread :: "gcs_bitreader \<Rightarrow> bool list" where
  "unread r = bits_be (br_accumulator r) (br_n_bits r) @ concat (map byte_bits (br_data r))"

lemma bits_be_simps [simp]: "bits_be v 0 = []" "bits_be v (Suc n) = bit v n # bits_be v n"
  by (simp_all add: bits_be_def)

lemma length_bits [simp]: "length (bits_be v n) = n" "length (byte_bits b) = 8"
  by (simp_all add: bits_be_def byte_bits_def)

lemma byte_bits_nth: "i < 8 \<Longrightarrow> byte_bits b ! i = bit b (7 - i)"
  by (simp add: byte_bits_def rev_nth)

lemma byte_bits_be: "byte_bits b = bits_be b 8"
  by (simp add: byte_bits_def bits_be_def)

lemma length_concat_bytes [simp]: "length (concat (map byte_bits bs)) = 8 * length bs"
  by (induction bs) auto

lemma bit_and_1: "bit (b AND 1 :: 'a :: len word) i \<longleftrightarrow> i = 0 \<and> bit b 0"
  by (auto simp: bit_simps)

lemma write_bit_written:
  assumes "writer_ok w"
  shows "writer_ok (gcs_bitwriter_write_bit w b) \<and> written (gcs_bitwriter_write_bit w b) = written w @ [bit b 0]"
proof -
  define n where "n = bw_n_bits w"
  define a where "a = bw_accumulator w OR push_bit (7 - n) (b AND 1)"
  have n: "n < 8" and z: "\<And>i. i < 8 - n \<Longrightarrow> \<not> bit (bw_accumulator w) i" using assms by (simp_all add: writer_ok_def n_def)
  have a: "bit a i \<longleftrightarrow> bit (bw_accumulator w) i \<or> (i = 7 - n \<and> bit b 0)" for i
    unfolding a_def bit_or_iff bit_push_bit_iff bit_and_1 using n by (auto simp: possible_bit_def)
  have t: "take (Suc n) (byte_bits a) = take n (byte_bits (bw_accumulator w)) @ [bit b 0]"
  proof (rule nth_equalityI)
    fix i assume i: "i < length (take (Suc n) (byte_bits a))"
    show "take (Suc n) (byte_bits a) ! i = (take n (byte_bits (bw_accumulator w)) @ [bit b 0]) ! i"
      using i n z [of "7 - n"] by (cases "i = n") (auto simp: nth_append byte_bits_nth a)
  qed (use n in simp)
  have w: "gcs_bitwriter_write_bit w b =
      (if n = 7 then \<lparr>bw_data = bw_data w @ [a], bw_accumulator = 0, bw_n_bits = 0\<rparr>
       else w\<lparr>bw_accumulator := a, bw_n_bits := Suc n\<rparr>)"
    by (simp add: gcs_bitwriter_write_bit_def Let_def n_def a_def)
  show ?thesis
  proof (cases "n = 7")
    case True
    then have "byte_bits a = take n (byte_bits (bw_accumulator w)) @ [bit b 0]" using t by simp
    then show ?thesis using True by (simp add: w writer_ok_def written_def n_def)
  next
    case False
    then show ?thesis using n z t by (simp add: w writer_ok_def written_def n_def a)
  qed
qed

lemma write_bits_be_written:
  "writer_ok w \<Longrightarrow> writer_ok (gcs_bitwriter_write_bits_be w v n) \<and> written (gcs_bitwriter_write_bits_be w v n) = written w @ bits_be v n"
proof (induction w v n rule: gcs_bitwriter_write_bits_be.induct)
  case (2 w v i)
  have "bit (ucast (drop_bit i v AND 1) :: u8) 0 = bit v i" by (simp add: bit_simps)
  then show ?case using 2 write_bit_written [of w "ucast (drop_bit i v AND 1)"] by simp
qed simp

lemma write_ones_written:
  "writer_ok w \<Longrightarrow> writer_ok (write_ones n w) \<and> written (write_ones n w) = written w @ replicate n True"
proof (induction n arbitrary: w)
  case (Suc n)
  then show ?case using write_bit_written [of w 1] by (simp add: replicate_append_same)
qed simp

text \<open>The code word of a value.\<close>

definition rice_code :: "nat \<Rightarrow> u64 \<Rightarrow> bool list" where
  "rice_code P v = replicate (unat v div 2 ^ P) True @ False # bits_be v P"

lemma rice_remainder: "P \<le> 64 \<Longrightarrow> bits_be (v AND (push_bit P 1 - 1) :: u64) P = bits_be v P"
proof -
  have "push_bit P 1 - 1 = (mask P :: u64)" by (simp add: mask_eq_exp_minus_1 push_bit_of_1)
  then show "P \<le> 64 \<Longrightarrow> bits_be (v AND (push_bit P 1 - 1) :: u64) P = bits_be v P"
    by (auto simp: bits_be_def bit_and_iff bit_mask_iff possible_bit_def)
qed

lemma encode_written:
  assumes "writer_ok w" "P \<le> 64"
  shows "writer_ok (golomb_rice_encode w v P) \<and> written (golomb_rice_encode w v P) = written w @ rice_code P v"
proof -
  let ?w = "write_ones (unat (drop_bit P v)) w"
  have "unat (drop_bit P v) = unat v div 2 ^ P" unfolding unat_drop_bit_eq by (rule drop_bit_eq_div)
  moreover note write_ones_written [OF assms(1), of "unat (drop_bit P v)"]
  moreover note write_bit_written [of ?w 0]
  moreover note write_bits_be_written [of "gcs_bitwriter_write_bit ?w 0" "v AND (push_bit P 1 - 1)" P]
  ultimately show ?thesis using rice_remainder [OF assms(2)] by (simp add: golomb_rice_encode_def Let_def rice_code_def)
qed

lemma flush_written:
  assumes "writer_ok w"
  shows "\<exists>k < 8. concat (map byte_bits (bw_data (gcs_bitwriter_flush w))) = written w @ replicate k False"
proof (cases "bw_n_bits w = 0")
  case False
  let ?n = "bw_n_bits w"
  have n: "?n < 8" and z: "\<And>i. i < 8 - ?n \<Longrightarrow> \<not> bit (bw_accumulator w) i" using assms by (simp_all add: writer_ok_def)
  have "byte_bits (bw_accumulator w) = take ?n (byte_bits (bw_accumulator w)) @ replicate (8 - ?n) False"
    by (rule nth_equalityI) (use n z in \<open>auto simp: nth_append byte_bits_nth\<close>)
  then show ?thesis using False n by (intro exI [of _ "8 - ?n"]) (simp add: gcs_bitwriter_flush_def written_def)
qed (auto simp: gcs_bitwriter_flush_def written_def intro: exI [of _ 0])

lemma read_bit_unread:
  assumes "br_n_bits r \<le> 8"
  shows "gcs_bitreader_read_bit r = None \<and> unread r = [] \<or>
    (\<exists>b r'. gcs_bitreader_read_bit r = Some (b, r') \<and> unread r = b # unread r' \<and> br_n_bits r' \<le> 8)"
proof -
  have "drop_bit n a AND 1 \<noteq> 0 \<longleftrightarrow> bit a n" for a :: u8 and n
    by (simp add: bit_iff_odd_drop_bit odd_iff_mod_2_eq_one and_one_eq)
  then show ?thesis using assms
    by (cases "br_n_bits r"; cases "br_data r")
       (auto simp: gcs_bitreader_read_bit_def unread_def Let_def byte_bits_be eval_nat_numeral)
qed

lemma read_bit_Cons:
  assumes "br_n_bits r \<le> 8" "unread r = b # bs"
  obtains r' where "gcs_bitreader_read_bit r = Some (b, r')" "unread r' = bs" "br_n_bits r' \<le> 8"
  using read_bit_unread [OF assms(1)] assms(2) by auto

text \<open>The value of bits, most significant first.\<close>

definition bits_val :: "nat \<Rightarrow> bool list \<Rightarrow> nat" where
  "bits_val a bs = foldl (\<lambda>v b. 2 * v + of_bool b) a bs"

lemma bits_val_simps [simp]: "bits_val a [] = a" "bits_val a (b # bs) = bits_val (2 * a + of_bool b) bs"
  by (simp_all add: bits_val_def)

lemma bits_val_less: "bits_val a bs < (a + 1) * 2 ^ length bs"
proof (induction bs arbitrary: a)
  case (Cons b bs)
  have "bits_val (2 * a + of_bool b) bs < (2 * a + of_bool b + 1) * 2 ^ length bs" by (rule Cons.IH)
  also have "\<dots> \<le> (2 * a + 2) * 2 ^ length bs" by (intro mult_le_mono1) simp
  finally show ?case by (simp add: algebra_simps)
qed simp

lemma bits_val_bits_be: "bits_val a (bits_be v n) = a * 2 ^ n + unat v mod 2 ^ n"
proof (induction n arbitrary: a)
  case (Suc n)
  have "unat v mod 2 ^ Suc n = of_bool (bit v n) * 2 ^ n + unat v mod 2 ^ n"
  proof -
    have "bit v n \<longleftrightarrow> bit (unat v) n" by (auto simp: bit_unsigned_iff possible_bit_def dest: bit_imp_le_length)
    then have "of_bool (bit v n) = unat v div 2 ^ n mod 2" by (simp add: bit_iff_odd mod_2_eq_odd)
    moreover have "unat v mod (2 ^ n * 2) = 2 ^ n * (unat v div 2 ^ n mod 2) + unat v mod 2 ^ n" by (rule mod_mult2_eq)
    ultimately show ?thesis by (simp only: power_Suc2 mult.commute)
  qed
  then show ?case by (simp add: Suc.IH algebra_simps)
qed simp

lemma shift_or: "push_bit 1 (of_nat v :: u64) OR of_bool b = of_nat (2 * v + of_bool b)"
  using or_disjoint [of "of_bool b" 1 v] by (simp add: or.commute add.commute)

lemma read_bits_unread:
  assumes "br_n_bits r \<le> 8"
  shows "if n \<le> length (unread r)
    then \<exists>r'. read_bits_loop n r (of_nat a) = Some (of_nat (bits_val a (take n (unread r))), r') \<and>
           unread r' = drop n (unread r) \<and> br_n_bits r' \<le> 8
    else read_bits_loop n r (of_nat a) = None"
  using assms
proof (induction n arbitrary: r a)
  case (Suc n)
  show ?case
  proof (cases "unread r")
    case Nil
    then show ?thesis using read_bit_unread [OF Suc.prems] by auto
  next
    case (Cons b bs)
    then obtain r' where r: "gcs_bitreader_read_bit r = Some (b, r')" "unread r' = bs" "br_n_bits r' \<le> 8"
      using read_bit_Cons [OF Suc.prems] by metis
    have s: "read_bits_loop (Suc n) r (of_nat a) = read_bits_loop n r' (of_nat (2 * a + of_bool b))"
      by (simp only: read_bits_loop.simps r option.case prod.case shift_or)
    show ?thesis using Suc.IH [OF r(3), of "2 * a + of_bool b"] unfolding Cons s r(2)
      by (simp del: of_nat_add of_nat_mult of_nat_of_bool read_bits_loop.simps)
  qed
qed auto

lemma read_unary_unread:
  assumes "br_n_bits r \<le> 8"
  shows "(\<exists>k rest r'. unread r = replicate k True @ False # rest \<and>
      read_unary r (of_nat q) = Some (of_nat (q + k), r') \<and> unread r' = rest \<and> br_n_bits r' \<le> 8) \<or>
    (unread r = replicate (length (unread r)) True \<and> read_unary r (of_nat q) = None)"
proof -
  have "\<And>bs r q. unread r = bs \<Longrightarrow> br_n_bits r \<le> 8 \<Longrightarrow>
    (\<exists>k rest r'. bs = replicate k True @ False # rest \<and>
      read_unary r (of_nat q) = Some (of_nat (q + k), r') \<and> unread r' = rest \<and> br_n_bits r' \<le> 8) \<or>
    (bs = replicate (length bs) True \<and> read_unary r (of_nat q) = None)"
  proof -
    fix bs r q assume "unread r = bs" "br_n_bits r \<le> 8"
    then show "(\<exists>k rest r'. bs = replicate k True @ False # rest \<and>
      read_unary r (of_nat q) = Some (of_nat (q + k), r') \<and> unread r' = rest \<and> br_n_bits r' \<le> 8) \<or>
      (bs = replicate (length bs) True \<and> read_unary r (of_nat q) = None)"
    proof (induction bs arbitrary: r q)
      case Nil
      then show ?case using read_bit_unread [of r] by auto
    next
      case (Cons b bs)
      then obtain r' where r: "gcs_bitreader_read_bit r = Some (b, r')" "unread r' = bs" "br_n_bits r' \<le> 8"
        using read_bit_Cons by metis
      show ?case
      proof (cases b)
        case True
        have s: "read_unary r (of_nat q) = read_unary r' (of_nat (Suc q))" using r(1) True by (simp add: add.commute)
        from Cons.IH [OF r(2,3), of "Suc q"] show ?thesis
        proof (elim disjE exE conjE)
          fix k rest r2 assume "bs = replicate k True @ False # rest" "read_unary r' (of_nat (Suc q)) = Some (of_nat (Suc q + k), r2)"
            "unread r2 = rest" "br_n_bits r2 \<le> 8"
          then show ?thesis unfolding s using True
            by (intro disjI1 exI [of _ "Suc k"] exI [of _ rest] exI [of _ r2]) simp
        qed (simp add: s True del: read_unary.simps)
      next
        case False
        then show ?thesis using r by (intro disjI1 exI [of _ 0] exI [of _ bs] exI [of _ r']) simp
      qed
    qed
  qed
  from this [OF refl assms] show ?thesis by simp
qed

lemma ones_split: "replicate k True @ False # xs = replicate j True @ False # ys \<Longrightarrow> k = j \<and> xs = ys"
proof (induction k arbitrary: j)
  case 0
  then show ?case by (cases j) auto
next
  case (Suc k)
  then show ?case by (cases j) auto
qed

lemma ones_all: "replicate n True \<noteq> replicate k True @ False # rest"
  by (metis in_set_conv_decomp in_set_replicate)

lemma decode_cases:
  assumes "br_n_bits r \<le> 8"
  shows "(\<exists>k rest r'. unread r = replicate k True @ False # rest \<and> P \<le> length rest \<and>
      golomb_rice_decode r P = Some (of_nat (2 ^ P * k + bits_val 0 (take P rest)), r') \<and>
      unread r' = drop P rest \<and> br_n_bits r' \<le> 8) \<or>
    (golomb_rice_decode r P = None \<and> (\<forall>k rest. unread r = replicate k True @ False # rest \<longrightarrow> length rest < P))"
proof -
  from read_unary_unread [OF assms, of 0] show ?thesis
  proof (elim disjE exE conjE)
    fix k rest r1
    assume u: "unread r = replicate k True @ False # rest" "read_unary r (of_nat 0) = Some (of_nat (0 + k), r1)"
      "unread r1 = rest" "br_n_bits r1 \<le> 8"
    have b: "bits_val 0 (take P rest) < 2 ^ P" if "P \<le> length rest"
      using bits_val_less [of 0 "take P rest"] that by simp
    show ?thesis
    proof (cases "P \<le> length rest")
      case True
      then obtain r' where r': "read_bits_loop P r1 (of_nat 0) = Some (of_nat (bits_val 0 (take P rest)), r')"
        "unread r' = drop P rest" "br_n_bits r' \<le> 8"
        using read_bits_unread [OF u(4), of P 0] u(3) by auto
      have "push_bit P (of_nat k) OR of_nat (bits_val 0 (take P rest)) = (of_nat (2 ^ P * k + bits_val 0 (take P rest)) :: u64)"
        using or_disjoint [OF b [OF True], of k] by (simp only: or.commute add.commute)
      then have "golomb_rice_decode r P = Some (of_nat (2 ^ P * k + bits_val 0 (take P rest)), r')"
        using u(2) r'(1) by (simp add: golomb_rice_decode_def gcs_bitreader_read_bits_be_def del: read_unary.simps of_nat_add of_nat_mult)
      then show ?thesis using u(1) True r'(2,3) by blast
    next
      case False
      then have "read_bits_loop P r1 (of_nat 0) = None" using read_bits_unread [OF u(4), of P 0] u(3) by simp
      then have "golomb_rice_decode r P = None"
        using u(2) by (simp add: golomb_rice_decode_def gcs_bitreader_read_bits_be_def del: read_unary.simps)
      moreover have "length rest' < P" if "unread r = replicate k' True @ False # rest'" for k' rest'
        using ones_split [of k rest k' rest'] that u(1) False by simp
      ultimately show ?thesis by blast
    qed
  next
    assume u: "unread r = replicate (length (unread r)) True" "read_unary r (of_nat 0) = None"
    have "golomb_rice_decode r P = None" using u(2) by (simp add: golomb_rice_decode_def del: read_unary.simps)
    moreover have "unread r \<noteq> replicate k True @ False # rest" for k rest by (subst u(1)) (rule ones_all)
    ultimately show ?thesis by blast
  qed
qed

text \<open>Decoding inverts encoding, whatever bits follow.\<close>

lemma decode_code:
  assumes "br_n_bits r \<le> 8" "unread r = rice_code P v @ bs"
  shows "\<exists>r'. golomb_rice_decode r P = Some (v, r') \<and> unread r' = bs \<and> br_n_bits r' \<le> 8"
proof -
  let ?k = "unat v div 2 ^ P"
  have u: "unread r = replicate ?k True @ False # bits_be v P @ bs" using assms(2) by (simp add: rice_code_def)
  from decode_cases [OF assms(1), of P] show ?thesis
  proof (elim disjE exE conjE)
    fix k rest r'
    assume d: "unread r = replicate k True @ False # rest" "golomb_rice_decode r P = Some (of_nat (2 ^ P * k + bits_val 0 (take P rest)), r')"
      "unread r' = drop P rest" "br_n_bits r' \<le> 8"
    then have k: "k = ?k" "rest = bits_be v P @ bs" using ones_split [OF trans [OF d(1) [symmetric] u]] by auto
    then have "2 ^ P * k + bits_val 0 (take P rest) = unat v" by (simp add: bits_val_bits_be mult.commute)
    then show ?thesis using d k by simp
  next
    assume "\<forall>k rest. unread r = replicate k True @ False # rest \<longrightarrow> length rest < P"
    then show ?thesis using u by (metis length_append length_bits(1) not_add_less1)
  qed
qed

text \<open>Each value costs more bits than its quotient, so the sum of all values is bounded by the data.\<close>

lemma decode_bound:
  assumes "br_n_bits r \<le> 8" "golomb_rice_decode r P = Some (d, r')"
  shows "unat d + 2 ^ P * length (unread r') < 2 ^ P * length (unread r) \<and> br_n_bits r' \<le> 8"
proof -
  obtain k rest where u: "unread r = replicate k True @ False # rest" "P \<le> length rest"
    "d = of_nat (2 ^ P * k + bits_val 0 (take P rest))" "unread r' = drop P rest" "br_n_bits r' \<le> 8"
    using decode_cases [OF assms(1), of P] assms(2) by auto
  have "unat d \<le> 2 ^ P * k + bits_val 0 (take P rest)"
    unfolding u(3) unat_of_nat by (rule mod_less_eq_dividend)
  also have "\<dots> < 2 ^ P * (k + 1)" using bits_val_less [of 0 "take P rest"] u(2) by simp
  finally have "unat d + 2 ^ P * length (unread r') < 2 ^ P * (k + 1) + 2 ^ P * length rest"
    using u(4) by (intro add_less_le_mono) auto
  then show ?thesis using u(1,5) by (simp add: algebra_simps)
qed

section \<open>The values of a filter\<close>

fun decoded :: "nat \<Rightarrow> nat \<Rightarrow> gcs_bitreader \<Rightarrow> u64 \<Rightarrow> u64 list" where
  "decoded 0 P r v = []"
| "decoded (Suc i) P r v = (case golomb_rice_decode r P of None \<Rightarrow> [] | Some (d, r) \<Rightarrow> (v + d) # decoded i P r (v + d))"

lemma decoded_sorted:
  assumes "br_n_bits r \<le> 8" "unat v + 2 ^ P * length (unread r) < 2 ^ 64"
  shows "sorted (v # decoded n P r v)"
  using assms
proof (induction n P r v rule: decoded.induct)
  case (2 i P r v)
  show ?case
  proof (cases "golomb_rice_decode r P")
    case (Some dr)
    obtain d r' where d: "golomb_rice_decode r P = Some (d, r')" using Some by (cases dr) auto
    note b = decode_bound [OF 2(2) d]
    then have v: "unat (v + d) = unat v + unat d" using 2(3) by (simp add: unat_word_ariths)
    then have "sorted ((v + d) # decoded i P r' (v + d))" using 2(1) [OF d refl] b 2(3) by simp
    moreover have "v \<le> v + d" using v by (simp add: word_le_nat_alt)
    ultimately show ?thesis using d by auto
  qed simp
qed simp

lemma match_loop_iff: "sorted (v # decoded n P r v) \<Longrightarrow> match_loop n P t r v \<longleftrightarrow> t \<in> set (decoded n P r v)"
proof (induction n P r v rule: decoded.induct)
  case (2 i P r v)
  show ?case
  proof (cases "golomb_rice_decode r P")
    case (Some dr)
    obtain d r' where d: "golomb_rice_decode r P = Some (d, r')" using Some by (cases dr) auto
    have "t \<notin> set (decoded i P r' (v + d))" if "t < v + d" using "2.prems" that d by (auto simp: not_less [symmetric])
    then show ?thesis using d "2.IH" [OF d refl] "2.prems" by (auto simp: Let_def)
  qed simp
qed simp

lemma walk_iff:
  "sorted (v # decoded n P r v) \<Longrightarrow> sorted qs \<Longrightarrow> walk P n r v qs \<longleftrightarrow> (\<exists>q \<in> set qs. q \<in> set (v # decoded n P r v))"
proof (induction P n r v qs rule: walk.induct)
  case (2 P left r v q qs)
  consider (eq) "v = q" | (less) "v < q" | (greater) "v > q" by fastforce
  then show ?case
  proof cases
    case less
    then have above: "\<forall>q' \<in> set (q # qs). q' \<noteq> v" using "2.prems"(2) by auto
    show ?thesis
    proof (cases "\<exists>n d r'. left = Suc n \<and> golomb_rice_decode r P = Some (d, r')")
      case True
      then obtain n d r' where d: "left = Suc n" "golomb_rice_decode r P = Some (d, r')" by blast
      have w: "walk P left r v (q # qs) = walk P n r' (v + d) (q # qs)"
        using less d unfolding walk.simps(2) [of P left r v q qs] by (auto simp del: walk.simps)
      have "sorted ((v + d) # decoded n P r' (v + d))" using "2.prems"(1) d by simp
      from "2.IH"(1) [OF _ less d(1) d(2) refl this "2.prems"(2)] less above show ?thesis
        unfolding w by (simp only: d decoded.simps option.case prod.case set_simps insert_iff) blast
    next
      case False
      then have "\<not> walk P left r v (q # qs)" "decoded left P r v = []" using less
        by (cases left; cases "golomb_rice_decode r P"; auto)+
      then show ?thesis using above by auto
    qed
  next
    case greater
    then have q: "q \<notin> set (v # decoded left P r v)" using "2.prems"(1) by auto
    have w: "walk P left r v (q # qs) = walk P left r v qs"
      using greater unfolding walk.simps(2) [of P left r v q qs] by (auto simp del: walk.simps)
    have "sorted qs" using "2.prems"(2) by simp
    moreover have "v \<noteq> q" "\<not> v < q" using greater by auto
    ultimately show ?thesis using "2.IH"(2) [OF _ _ "2.prems"(1)] q unfolding w by auto
  qed simp
qed simp

fun deltas :: "u64 \<Rightarrow> u64 list \<Rightarrow> u64 list" where
  "deltas prev [] = []"
| "deltas prev (h # hs) = (h - prev) # deltas h hs"

lemma encode_deltas_written:
  "writer_ok w \<Longrightarrow> P \<le> 64 \<Longrightarrow> writer_ok (encode_deltas P w prev hs) \<and>
    written (encode_deltas P w prev hs) = written w @ concat (map (rice_code P) (deltas prev hs))"
proof (induction hs arbitrary: w prev)
  case (Cons h hs)
  then show ?case using encode_written [of w P "h - prev"] by simp
qed simp

lemma decoded_codes:
  "br_n_bits r \<le> 8 \<Longrightarrow> unread r = concat (map (rice_code P) (deltas v hs)) @ bs \<Longrightarrow> decoded (length hs) P r v = hs"
proof (induction hs arbitrary: r v)
  case (Cons h hs)
  then have "unread r = rice_code P (h - v) @ concat (map (rice_code P) (deltas h hs)) @ bs" by simp
  from decode_code [OF Cons.prems(1) this] Cons.IH [of _ h] show ?case by auto
qed simp

section \<open>Sorting by a comparison function\<close>

text \<open>What \<open>qsort\<close> needs of a comparison function for its result to be determined.\<close>

locale c_compare =
  fixes compar :: "'a \<Rightarrow> 'a \<Rightarrow> int"
  assumes zero: "compar a b = 0 \<longleftrightarrow> a = b"
    and flip: "compar a b < 0 \<longleftrightarrow> compar b a > 0"
    and trans: "compar a b < 0 \<Longrightarrow> compar b c < 0 \<Longrightarrow> compar a c < 0"
begin

lemma le_cases: "compar a b \<le> 0 \<longleftrightarrow> compar a b < 0 \<or> a = b"
  using zero [of a b] by auto

lemma le_trans: "compar a b \<le> 0 \<Longrightarrow> compar b c \<le> 0 \<Longrightarrow> compar a c \<le> 0"
  unfolding le_cases using trans by blast

lemma set_insert [simp]: "set (qsort_insert compar a xs) = insert a (set xs)"
  by (induction xs) auto

lemma sorted_insert:
  "sorted_wrt (\<lambda>a b. compar a b \<le> 0) xs \<Longrightarrow> sorted_wrt (\<lambda>a b. compar a b \<le> 0) (qsort_insert compar a xs)"
proof (induction xs)
  case (Cons b bs)
  have "compar b a \<le> 0" if "\<not> compar a b \<le> 0" using that flip [of b a] by simp
  then show ?case using Cons le_trans [of a b] by auto
qed simp

lemma set_qsort [simp]: "set (qsort compar xs) = set xs"
  by (induction xs) (simp_all add: qsort_def)

lemma sorted_qsort: "sorted_wrt (\<lambda>a b. compar a b \<le> 0) (qsort compar xs)"
  by (induction xs) (simp_all add: qsort_def sorted_insert)

lemma strict_unique:
  "sorted_wrt (\<lambda>a b. compar a b < 0) xs \<Longrightarrow> sorted_wrt (\<lambda>a b. compar a b < 0) ys \<Longrightarrow> set xs = set ys \<Longrightarrow> xs = ys"
proof (induction xs arbitrary: ys)
  case (Cons x xs)
  then obtain y zs where ys: "ys = y # zs" by (cases ys) auto
  have irrefl: "\<not> compar a a < 0" for a using zero [of a a] by simp
  have "x = y"
  proof (rule ccontr)
    assume "x \<noteq> y"
    then have "y \<in> set xs" "x \<in> set zs" using Cons.prems(3) ys by auto
    then have "compar x y < 0" "compar y x < 0" using Cons.prems ys by auto
    then show False using trans irrefl by blast
  qed
  moreover have "x \<notin> set xs" "y \<notin> set zs" using Cons.prems ys irrefl by auto
  ultimately have "set xs = set zs" using Cons.prems(3) ys by auto
  then show ?case using Cons ys \<open>x = y\<close> by auto
qed simp

end

interpretation elements: c_compare compare_element
proof unfold_locales
  fix a b c :: bytes
  show "compare_element a b = 0 \<longleftrightarrow> a = b" by (auto simp: compare_element_def memcmp_eq)
  show "compare_element a b < 0 \<longleftrightarrow> compare_element b a > 0" using memcmp_flip [of a b] by (auto simp: compare_element_def)
  show "compare_element a b < 0 \<Longrightarrow> compare_element b c < 0 \<Longrightarrow> compare_element a c < 0"
    using memcmp_trans [of a b c] by (auto simp: compare_element_def split: if_splits)
qed

interpretation uint64s: c_compare compare_uint64
  by unfold_locales (auto simp: compare_uint64_def split: if_splits)

lemma sorted_qsort_uint64: "sorted (qsort compare_uint64 xs)"
proof -
  have "sorted_wrt (\<lambda>a b. compare_uint64 a b \<le> 0) (qsort compare_uint64 xs)" by (rule uint64s.sorted_qsort)
  then show ?thesis by (rule sorted_wrt_mono_rel [rotated]) (auto simp: compare_uint64_def split: if_splits)
qed

lemma length_qsort [simp]: "length (qsort c xs) = length xs"
proof -
  have "length (qsort_insert c a ys) = Suc (length ys)" for a ys by (induction ys) auto
  then show ?thesis by (induction xs) (simp_all add: qsort_def)
qed

lemma collapse_spec:
  assumes "sorted_wrt (\<lambda>a b. compare_element a b \<le> 0) (rev kept @ es)"
    and "sorted_wrt (\<lambda>a b. compare_element a b < 0) (rev kept)"
  shows "sorted_wrt (\<lambda>a b. compare_element a b < 0) (collapse kept es) \<and> set (collapse kept es) = set kept \<union> set es"
  using assms
proof (induction kept es rule: collapse.induct)
  case (3 k kept e es)
  show ?case
  proof (cases "compare_element k e = 0")
    case True
    then show ?thesis using 3 by (auto simp: elements.zero sorted_wrt_append)
  next
    case False
    then have "compare_element k e < 0" using 3(3) by (simp add: sorted_wrt_append)
    moreover from this have "\<forall>x \<in> set kept. compare_element x e < 0"
      using 3(4) elements.trans by (fastforce simp: sorted_wrt_append)
    ultimately show ?thesis using 3 False by (auto simp: sorted_wrt_append)
  qed
qed auto

text \<open>The elements of a filter: sorted, without repetition.\<close>

definition filter_elements :: "bytes list \<Rightarrow> bytes list" where
  "filter_elements elements = collapse [] (qsort compare_element elements)"

lemma filter_elements_spec:
  "sorted_wrt (\<lambda>a b. compare_element a b < 0) (filter_elements elements)" "set (filter_elements elements) = set elements"
  using collapse_spec [of "[]" "qsort compare_element elements"] elements.sorted_qsort by (simp_all add: filter_elements_def)

lemma filter_elements_set: "set xs = set ys \<Longrightarrow> filter_elements xs = filter_elements ys"
  by (rule elements.strict_unique) (simp_all add: filter_elements_spec)

lemma length_filter_elements: "length (filter_elements xs) \<le> length xs"
proof -
  have "length (collapse kept es) \<le> length kept + length es" for kept es
    by (induction kept es rule: collapse.induct) (auto split: if_splits)
  from this [of "[]" "qsort compare_element xs"] show ?thesis by (simp add: filter_elements_def)
qed

section \<open>Building and matching\<close>

text \<open>The hashes of a filter over distinct elements, and the filter that building gives.\<close>

definition filter_hashes :: "bytes \<Rightarrow> bytes list \<Rightarrow> u64 list" where
  "filter_hashes key es =
     qsort compare_uint64 (map (gcs_hash_element key (ucast (of_nat (length es) :: u32) * GCS_BASIC_FILTER_M)) es)"

definition filter_data :: "u64 list \<Rightarrow> bytes" where
  "filter_data hs = bw_data (gcs_bitwriter_flush (encode_deltas GCS_BASIC_FILTER_P gcs_bitwriter_init 0 hs))"

lemma build_filter:
  assumes "length elements < 2 ^ 32"
  defines "es \<equiv> filter_elements elements"
  shows "gcs_filter_build gf filter_type blockhash elements =
    \<lparr>gf_filter_type = filter_type, gf_N = of_nat (length es), gf_F = ucast (of_nat (length es) :: u32) * GCS_BASIC_FILTER_M,
     gf_P = GCS_BASIC_FILTER_P, gf_M = GCS_BASIC_FILTER_M, gf_key = gcs_derive_key blockhash,
     gf_encoded = Some (filter_data (filter_hashes (gcs_derive_key blockhash) es))\<rparr>"
    and "unat (of_nat (length es) :: u32) = length es"
proof -
  have l: "length es < 2 ^ 32" using length_filter_elements [of elements] assms(1) by (simp add: es_def)
  then show u: "unat (of_nat (length es) :: u32) = length es" by (simp add: unat_of_nat)
  show "gcs_filter_build gf filter_type blockhash elements =
    \<lparr>gf_filter_type = filter_type, gf_N = of_nat (length es), gf_F = ucast (of_nat (length es) :: u32) * GCS_BASIC_FILTER_M,
     gf_P = GCS_BASIC_FILTER_P, gf_M = GCS_BASIC_FILTER_M, gf_key = gcs_derive_key blockhash,
     gf_encoded = Some (filter_data (filter_hashes (gcs_derive_key blockhash) es))\<rparr>"
  proof (cases "elements = []")
    case True
    then have "es = []" by (simp add: es_def filter_elements_def qsort_def)
    then show ?thesis using True
      by (simp add: gcs_filter_build_def Let_def filter_hashes_def qsort_def filter_data_def gcs_bitwriter_flush_def gcs_bitwriter_init_def)
  next
    case False
    then show ?thesis
      by (simp add: gcs_filter_build_def Let_def filter_hashes_def filter_data_def es_def [unfolded filter_elements_def, symmetric] u)
  qed
qed

lemma init_unread: "br_n_bits (gcs_bitreader_init data) \<le> 8" "unread (gcs_bitreader_init data) = concat (map byte_bits data)"
  by (simp_all add: gcs_bitreader_init_def unread_def)

lemma init_written: "writer_ok gcs_bitwriter_init" "written gcs_bitwriter_init = []"
  by (simp_all add: gcs_bitwriter_init_def writer_ok_def written_def)

lemma filter_data_bits:
  "\<exists>k < 8. concat (map byte_bits (filter_data hs)) = concat (map (rice_code GCS_BASIC_FILTER_P) (deltas 0 hs)) @ replicate k False"
  using encode_deltas_written [OF init_written(1), of GCS_BASIC_FILTER_P 0 hs]
    flush_written [of "encode_deltas GCS_BASIC_FILTER_P gcs_bitwriter_init 0 hs"]
  by (simp add: filter_data_def init_written(2))

lemma decoded_data: "decoded (length hs) GCS_BASIC_FILTER_P (gcs_bitreader_init (filter_data hs)) 0 = hs"
  using filter_data_bits [of hs] decoded_codes [OF init_unread(1)] by (auto simp: init_unread(2))

text \<open>The values that a filter with encoded data stands for.\<close>

definition filter_values :: "gcs_filter \<Rightarrow> bytes \<Rightarrow> u64 list" where
  "filter_values gf encoded = decoded (unat (gf_N gf)) (gf_P gf) (gcs_bitreader_init encoded) 0"

lemma filter_match_iff:
  assumes "gf_encoded gf = Some encoded" "sorted (0 # filter_values gf encoded)"
  shows "gcs_filter_match gf data \<longleftrightarrow> gcs_hash_element (gf_key gf) (gf_F gf) data \<in> set (filter_values gf encoded)"
  using match_loop_iff [OF assms(2) [unfolded filter_values_def]] assms(1)
  by (simp add: gcs_filter_match_def filter_values_def)

lemma small_filter_sorted:
  assumes "gf_P gf = GCS_BASIC_FILTER_P" "length encoded < 2 ^ 42"
  shows "sorted (0 # filter_values gf encoded)"
  unfolding filter_values_def
  by (rule decoded_sorted [OF init_unread(1)]) (use assms in \<open>simp add: init_unread\<close>)

lemma filter_match_any_iff:
  assumes "gf_encoded gf = Some encoded" "sorted (0 # filter_values gf encoded)"
  shows "gcs_filter_match_any gf elements \<longleftrightarrow> (\<exists>e \<in> set elements. gcs_filter_match gf e)"
proof (cases "gf_N gf = 0 \<or> elements = []")
  case True
  then show ?thesis using assms(1) by (auto simp: gcs_filter_match_any_def gcs_filter_match_def)
next
  case False
  let ?r = "gcs_bitreader_init encoded" and ?h = "gcs_hash_element (gf_key gf) (gf_F gf)"
  obtain n where n: "unat (gf_N gf) = Suc n" using False by (metis not0_implies_Suc unat_eq_zero)
  show ?thesis
  proof (cases "golomb_rice_decode ?r (gf_P gf)")
    case None
    then show ?thesis using assms False n by (auto simp: gcs_filter_match_any_def gcs_filter_match_def)
  next
    case (Some dr)
    obtain d r where d: "golomb_rice_decode ?r (gf_P gf) = Some (d, r)" using Some by (cases dr) auto
    have v: "filter_values gf encoded = d # decoded n (gf_P gf) r d" by (simp add: filter_values_def n d)
    then have "sorted (d # decoded n (gf_P gf) r d)" using assms(2) by simp
    from walk_iff [OF this sorted_qsort_uint64, of "map ?h elements"]
    have "gcs_filter_match_any gf elements \<longleftrightarrow> (\<exists>q \<in> set (map ?h elements). q \<in> set (filter_values gf encoded))"
      using False assms(1) d n by (simp add: gcs_filter_match_any_def Let_def v del: walk.simps)
    then show ?thesis using filter_match_iff [OF assms] by auto
  qed
qed

lemma length_rice_code: "length (rice_code P v) = unat v div 2 ^ P + 1 + P"
  by (simp add: rice_code_def)

lemma codes_length:
  "sorted (prev # hs) \<Longrightarrow> length (concat (map (rice_code P) (deltas prev hs))) * 2 ^ P + unat prev \<le>
     2 ^ P * (P + 1) * length hs + unat (last (prev # hs))"
proof (induction hs arbitrary: prev)
  case (Cons h hs)
  have "unat (h - prev) = unat h - unat prev" "unat prev \<le> unat h"
    using Cons.prems by (simp_all add: unat_sub word_le_nat_alt)
  moreover have "unat (h - prev) div 2 ^ P * 2 ^ P \<le> unat (h - prev)" by (rule div_times_less_eq_dividend)
  ultimately have "unat (h - prev) div 2 ^ P * 2 ^ P + unat prev \<le> unat h" by linarith
  moreover note Cons.IH [of h]
  ultimately show ?case using Cons.prems by (simp add: length_rice_code algebra_simps)
qed simp

lemma codes_length_ge: "(P + 1) * length hs \<le> length (concat (map (rice_code P) (deltas prev hs)))"
proof (induction hs arbitrary: prev)
  case (Cons h hs)
  from Cons.IH [of h] show ?case by (simp add: length_rice_code)
qed simp

lemma filter_data_length:
  assumes "sorted hs" "length hs < 2 ^ 32"
  shows "20 * length hs \<le> 8 * length (filter_data hs)" "8 * length (filter_data hs) < 2 ^ 60"
proof -
  let ?codes = "concat (map (rice_code GCS_BASIC_FILTER_P) (deltas 0 hs))"
  obtain k where k: "k < 8" "concat (map byte_bits (filter_data hs)) = ?codes @ replicate k False"
    using filter_data_bits [of hs] by blast
  then have l: "8 * length (filter_data hs) = length ?codes + k" by (metis length_append length_concat_bytes length_replicate)
  show "20 * length hs \<le> 8 * length (filter_data hs)" using codes_length_ge [of GCS_BASIC_FILTER_P hs 0] l by simp
  have "length ?codes * 2 ^ 19 + unat (0 :: u64) \<le> 2 ^ 19 * (19 + 1) * length hs + unat (last (0 # hs))"
    by (rule codes_length) (use assms(1) in simp)
  then show "8 * length (filter_data hs) < 2 ^ 60"
    using unat_u64_less [of "last (0 # hs)"] assms(2) l k(1) by simp
qed

section \<open>The range reduction\<close>

lemma unat_mult_32:
  assumes "a < 2 ^ 32" "b < 2 ^ 32"
  shows "a * b \<le> (2 ^ 32 - 1) * (2 ^ 32 - 1)" "a * b < (2 :: nat) ^ 64"
proof -
  show "a * b \<le> (2 ^ 32 - 1) * (2 ^ 32 - 1)" using assms by (intro mult_le_mono) auto
  then show "a * b < (2 :: nat) ^ 64" by simp
qed

lemma range_arith:
  fixes a b c d B :: nat
  assumes "B > 0"
  shows "(a * B + b) * (c * B + d) div (B * B) =
    a * c + b * c div B + a * d div B + (b * d div B + b * c mod B + a * d mod B) div B"
proof -
  have "(a * B + b) * (c * B + d) = b * d + B * (b * c + a * d + B * (a * c))" by (simp add: algebra_simps)
  then have "(a * B + b) * (c * B + d) div (B * B) = (b * d div B + (b * c + a * d + B * (a * c))) div B"
    using assms by (simp add: div_mult2_eq add.commute)
  also have "b * d div B + (b * c + a * d + B * (a * c)) =
      (b * d div B + b * c mod B + a * d mod B) + B * (a * c + b * c div B + a * d div B)"
    using mult_div_mod_eq [of B "b * c"] mult_div_mod_eq [of B "a * d"] by (simp add: algebra_simps)
  finally show ?thesis using assms by simp
qed

lemma map_to_range_value: "unat (map_to_range x F) = unat x * unat F div 2 ^ 64"
proof -
  let ?B = "2 ^ 32 :: nat"
  define a b c d where "a = unat x div ?B" and "b = unat x mod ?B" and "c = unat F div ?B" and "d = unat F mod ?B"
  have m: "(0xFFFFFFFF :: u64) = mask 32" by (simp add: mask_eq_exp_minus_1)
  have lo: "unat (w AND 0xFFFFFFFF) = unat w mod ?B" and hi: "unat (drop_bit 32 w) = unat w div ?B" for w :: u64
    unfolding m take_bit_eq_mask [symmetric] unsigned_take_bit_eq unat_drop_bit_eq by (rule take_bit_eq_mod, rule drop_bit_eq_div)
  have less: "a < ?B" "b < ?B" "c < ?B" "d < ?B"
    using unat_u64_less [of x] unat_u64_less [of F] by (simp_all add: a_def b_def c_def d_def)
  have prod: "unat (v * w) = unat v * unat w" if "unat v < ?B" "unat w < ?B" for v w :: u64
    using unat_mult_32 [OF that] by (simp add: unat_word_ariths)
  note parts = lo hi a_def [symmetric] b_def [symmetric] c_def [symmetric] d_def [symmetric]
  let ?lo_lo = "(x AND 0xFFFFFFFF) * (F AND 0xFFFFFFFF)" and ?lo_hi = "(x AND 0xFFFFFFFF) * drop_bit 32 F"
  let ?hi_lo = "drop_bit 32 x * (F AND 0xFFFFFFFF)" and ?hi_hi = "drop_bit 32 x * drop_bit 32 F"
  have p: "unat ?lo_lo = b * d" "unat ?lo_hi = b * c" "unat ?hi_lo = a * d" "unat ?hi_hi = a * c"
    using less by (simp_all only: prod parts)
  have q: "b * d div ?B < ?B" "b * c mod ?B < ?B" "a * d mod ?B < ?B" "b * c div ?B < ?B" "a * d div ?B < ?B"
    using unat_mult_32 [OF less(2,4)] unat_mult_32 [OF less(2,3)] unat_mult_32 [OF less(1,4)] by (simp_all add: div_less_iff_less_mult)
  have sum: "unat (v + w) = unat v + unat w" if "unat v + unat w < 2 ^ 64" for v w :: u64
    using that by (simp add: unat_word_ariths)
  let ?s = "drop_bit 32 ?lo_lo + (?lo_hi AND 0xFFFFFFFF) + (?hi_lo AND 0xFFFFFFFF)"
  have s: "unat ?s = b * d div ?B + b * c mod ?B + a * d mod ?B"
    using q by (simp add: sum lo hi p)
  have total: "a * c + b * c div ?B + a * d div ?B + (b * d div ?B + b * c mod ?B + a * d mod ?B) div ?B =
      unat x * unat F div 2 ^ 64"
    using range_arith [of ?B a b c d] by (simp add: a_def b_def c_def d_def)
  have "unat x * unat F div 2 ^ 64 < 2 ^ 64"
  proof -
    have "unat x * unat F < 2 ^ 64 * 2 ^ 64" using unat_u64_less [of x] unat_u64_less [of F] by (intro mult_strict_mono) auto
    then show ?thesis by (simp add: div_less_iff_less_mult)
  qed
  then have "a * c + b * c div ?B + a * d div ?B + (b * d div ?B + b * c mod ?B + a * d mod ?B) div ?B < 2 ^ 64" by (simp only: total)
  then have "unat (map_to_range x F) = a * c + b * c div ?B + a * d div ?B + (b * d div ?B + b * c mod ?B + a * d mod ?B) div ?B"
    by (simp add: map_to_range_def Let_def sum hi p s)
  then show ?thesis by (simp only: total)
qed

section \<open>Properties\<close>

text \<open>
  C19. No false negatives: a filter built over any list of fewer than $2^{32}$ elements matches every one
  of them, whatever filter object was used, for every block hash.
\<close>

theorem gcs_no_false_negatives:
  assumes "length elements < 2 ^ 32" "e \<in> set elements"
  shows "gcs_filter_match (gcs_filter_build gf filter_type blockhash elements) e"
proof -
  let ?gf = "gcs_filter_build gf filter_type blockhash elements"
  define es where "es = filter_elements elements"
  define hs where "hs = filter_hashes (gcs_derive_key blockhash) es"
  note b = build_filter(1) [OF assms(1), where gf = gf and filter_type = filter_type and blockhash = blockhash, folded es_def, folded hs_def]
    and n = build_filter(2) [OF assms(1), folded es_def]
  have "length hs = length es" by (simp add: hs_def filter_hashes_def)
  then have v: "filter_values ?gf (filter_data hs) = hs" using decoded_data [of hs] by (simp add: filter_values_def b n)
  have "sorted hs" unfolding hs_def filter_hashes_def by (rule sorted_qsort_uint64)
  then have "sorted (0 # filter_values ?gf (filter_data hs))" unfolding v by simp
  moreover have "gf_encoded ?gf = Some (filter_data hs)" by (simp add: b)
  moreover have "gcs_hash_element (gf_key ?gf) (gf_F ?gf) e \<in> set hs"
    using assms(2) filter_elements_spec(2) [of elements] by (simp add: b hs_def filter_hashes_def es_def)
  ultimately show ?thesis by (simp add: filter_match_iff v)
qed

theorem gcs_no_false_negatives_witness:
  "gcs_filter_match (gcs_filter_build gcs_filter_new 0 (replicate 32 1) [[1, 2], [3], [1, 2]]) [3]"
  by (rule gcs_no_false_negatives) simp_all

text \<open>
  Testing a whole list in one pass agrees with testing one element after the other, for every
  filter below $2^{42}$ bytes, also one whose data came from a peer and is no encoding at all.
\<close>

theorem gcs_match_any_agrees:
  assumes "gf_encoded gf = Some encoded" "gf_P gf = GCS_BASIC_FILTER_P" "length encoded < 2 ^ 42"
  shows "gcs_filter_match_any gf elements \<longleftrightarrow> (\<exists>e \<in> set elements. gcs_filter_match gf e)"
  by (rule filter_match_any_iff [OF assms(1) small_filter_sorted [OF assms(2,3)]])

theorem gcs_match_any_agrees_witness:
  "gcs_filter_match_any (gcs_filter_new\<lparr>gf_N := 5, gf_F := 99, gf_encoded := Some [7, 7, 7, 7, 255, 3]\<rparr>) [[1], [2]] \<longleftrightarrow>
     (\<exists>e \<in> set [[1], [2]]. gcs_filter_match (gcs_filter_new\<lparr>gf_N := 5, gf_F := 99, gf_encoded := Some [7, 7, 7, 7, 255, 3]\<rparr>) e)"
  by (rule gcs_match_any_agrees [where encoded = "[7, 7, 7, 7, 255, 3]"]) (simp_all add: gcs_filter_new_def)

text \<open>
  Wire format: a built filter, serialized and read back with the same type and block hash, is the
  same filter; in particular the reader's bound on the number of elements never refuses it.
\<close>

theorem gcs_filter_roundtrip:
  assumes "length elements < 2 ^ 32"
  shows "gcs_filter_deserialize gf' filter_type blockhash
      (gcs_filter_serialize (gcs_filter_build gf filter_type blockhash elements) []) =
    Some (gcs_filter_build gf filter_type blockhash elements, [])"
proof -
  define es where "es = filter_elements elements"
  define hs where "hs = filter_hashes (gcs_derive_key blockhash) es"
  note b = build_filter(1) [OF assms, where gf = gf and filter_type = filter_type and blockhash = blockhash, folded es_def, folded hs_def]
    and n = build_filter(2) [OF assms, folded es_def]
  have l: "length hs = length es" "length es < 2 ^ 32"
    using length_filter_elements [of elements] assms by (simp_all add: hs_def filter_hashes_def es_def)
  have "sorted hs" unfolding hs_def filter_hashes_def by (rule sorted_qsort_uint64)
  note d = filter_data_length [OF this, unfolded l(1), OF l(2)]
  let ?len = "length (filter_data hs)"
  have "unat (of_nat ?len * 8 :: u64) = ?len * 8" using d(2) by (simp add: unat_word_ariths unat_of_nat)
  then have "unat (of_nat ?len * 8 div 20 :: u64) = ?len * 8 div 20" by (simp add: unat_div)
  moreover have "unat (ucast (of_nat (length es) :: u32) :: u64) = length es" using n by (simp add: unat_ucast_up)
  ultimately have "\<not> (ucast (of_nat (length es) :: u32) > (of_nat ?len * 8 div 20 :: u64))"
    using d(1) unfolding word_less_nat_alt by (simp add: less_eq_div_iff_mult_less_eq)
  then show ?thesis
    by (simp add: gcs_filter_deserialize_def gcs_filter_serialize_def Let_def b varlenc.dec_enc)
qed

theorem gcs_filter_roundtrip_witness:
  "gcs_filter_deserialize gcs_filter_new 0 (replicate 32 1)
      (gcs_filter_serialize (gcs_filter_build gcs_filter_new 0 (replicate 32 1) [[1, 2], [3]]) []) =
    Some (gcs_filter_build gcs_filter_new 0 (replicate 32 1) [[1, 2], [3]], [])"
  by (rule gcs_filter_roundtrip) simp

text \<open>
  A filter depends on the set of its elements alone: neither their order nor repetitions change a
  byte of it, so the filter of a block is canonical.
\<close>

theorem gcs_filter_is_of_a_set:
  assumes "length xs < 2 ^ 32" "length ys < 2 ^ 32" "set xs = set ys"
  shows "gcs_filter_build gf filter_type blockhash xs = gcs_filter_build gf filter_type blockhash ys"
  by (simp add: build_filter(1) [OF assms(1)] build_filter(1) [OF assms(2)] filter_elements_set [OF assms(3)])

theorem gcs_filter_is_of_a_set_witness:
  "gcs_filter_build gcs_filter_new 0 [] [[1], [2, 3], [1]] = gcs_filter_build gcs_filter_new 0 [] [[2, 3], [1]]"
  by (rule gcs_filter_is_of_a_set) auto

text \<open>
  The range reduction made of four 32-bit products is the exact high half of the 128-bit product, so
  an element's hash is below the range of the filter whenever that range is not empty.
\<close>

theorem gcs_hash_range:
  "unat (map_to_range x F) = unat x * unat F div 2 ^ 64 \<and> (F = 0 \<or> gcs_hash_element key F data < F)"
proof -
  have less: "map_to_range y F < F" if "F \<noteq> 0" for y
  proof -
    have "unat y * unat F < 2 ^ 64 * unat F"
      using unat_u64_less [of y] that by (intro mult_strict_right_mono) (auto simp: unat_gt_0)
    then show ?thesis by (simp add: word_less_nat_alt map_to_range_value div_less_iff_less_mult mult.commute)
  qed
  then have "F = 0 \<or> gcs_hash_element key F data < F" by (auto simp: gcs_hash_element_def Let_def)
  then show ?thesis by (simp add: map_to_range_value)
qed

end
