(* ===== verification/Bip37.thy ===== *)
theory Bip37
  imports Merkle Btree
begin

text \<open>
  Model of \<open>src/src/bip37.c\<close>: partial merkle trees and the table of their matches, bloom filters, and the
  rewriting of getdata requests.

  The walk over a partial tree is the stack machine of the code, one turn of its loop after the other,
  with the frames of \<open>st[]\<close> as a list whose head is the frame at \<open>sp\<close>. The callback is a function on a
  context of its own. \<open>extract_node\<close> is the recursive definition of the same walk; the lemmas show that the
  machine computes it, that every reported match has a merkle branch to the root, and that the
  encoding of BIP 37 of any set of matches is accepted with exactly these matches.

  Null pointers and failed allocations are left out, as are the log callback and the random tweak of a
  new filter, which enters as an argument.
\<close>

unbundle bit_operations_syntax

section \<open>Bloom filters\<close>

definition rotl32 :: "u32 \<Rightarrow> nat \<Rightarrow> u32" where
  "rotl32 k n = push_bit n k OR drop_bit (32 - n) k"

definition murmur_mix :: "u32 \<Rightarrow> u32" where
  "murmur_mix k = rotl32 (k * 0xcc9e2d51) 15 * 0x1b873593"

text \<open>The loop over 4-byte blocks; what is left is the tail.\<close>

fun murmur_blocks :: "u32 \<Rightarrow> bytes \<Rightarrow> u32 \<times> bytes" where
  "murmur_blocks h (a # b # c # d # key) =
     (let k = ucast a OR push_bit 8 (ucast b) OR push_bit 16 (ucast c) OR push_bit 24 (ucast d) :: u32;
          h = h XOR murmur_mix k;
          h = rotl32 h 13 in
      murmur_blocks (h * 5 + 0xe6546b64) key)"
| "murmur_blocks h tail = (h, tail)"

definition bip37_murmur3 :: "bytes \<Rightarrow> u32 \<Rightarrow> u32" where
  "bip37_murmur3 key seed =
     (let (h, tail) = murmur_blocks seed key;
          k = (0 :: u32);
          k = (if length tail \<ge> 3 then k XOR push_bit 16 (ucast (tail ! 2)) else k);
          k = (if length tail \<ge> 2 then k XOR push_bit 8 (ucast (tail ! 1)) else k);
          k = (if length tail \<ge> 1 then k XOR ucast (tail ! 0) else k);
          h = (if tail \<noteq> [] then h XOR murmur_mix k else h);
          h = h XOR of_nat (length key);
          h = h XOR drop_bit 16 h;
          h = h * 0x85ebca6b;
          h = h XOR drop_bit 13 h;
          h = h * 0xc2b2ae35;
          h = h XOR drop_bit 16 h in
      h)"

record bip37_filter =
  bf_data :: bytes
  bf_n_hash_funcs :: u32
  bf_n_tweak :: u32
  bf_n_flags :: u8

text \<open>The random tweak that replaces 0 is an argument.\<close>

definition bip37_filter_new :: "u32 \<Rightarrow> u8 \<Rightarrow> u32 \<Rightarrow> bip37_filter" where
  "bip37_filter_new tweak flags random_tweak =
     \<lparr>bf_data = replicate 36000 0, bf_n_hash_funcs = 50, bf_n_tweak = (if tweak \<noteq> 0 then tweak else random_tweak),
      bf_n_flags = flags\<rparr>"

definition bip37_index :: "bip37_filter \<Rightarrow> bytes \<Rightarrow> nat \<Rightarrow> nat" where
  "bip37_index filt data i =
     unat (bip37_murmur3 data (of_nat i * 0xfba4c795 + bf_n_tweak filt) mod of_nat (length (bf_data filt) * 8))"

definition set_filter_bit :: "bytes \<Rightarrow> nat \<Rightarrow> bytes" where
  "set_filter_bit data idx = data[idx div 8 := data ! (idx div 8) OR push_bit (idx mod 8) 1]"

definition bip37_filter_add :: "bip37_filter \<Rightarrow> bytes \<Rightarrow> bool \<times> bip37_filter" where
  "bip37_filter_add filt data =
     (if data = [] \<or> bf_data filt = [] then (False, filt)
      else (True, filt\<lparr>bf_data := foldl (\<lambda>d i. set_filter_bit d (bip37_index filt data i)) (bf_data filt)
                                    [0..<unat (bf_n_hash_funcs filt)]\<rparr>))"

section \<open>Partial merkle trees\<close>

record traverse_frame =
  tf_height :: nat
  tf_pos :: u32
  tf_stage :: nat
  tf_parentMatch :: bool
  tf_left :: bytes

definition new_frame :: "nat \<Rightarrow> u32 \<Rightarrow> traverse_frame" where
  "new_frame h pos = \<lparr>tf_height = h, tf_pos = pos, tf_stage = 0, tf_parentMatch = False, tf_left = replicate 32 0\<rparr>"

text \<open>The arguments of the walk that do not change.\<close>

record 's traverse_env =
  tv_nTx :: u32
  tv_hashes :: bytes
  tv_hashCount :: u32
  tv_flags :: bytes
  tv_flags_len :: u32
  tv_on_match :: "(bytes \<Rightarrow> u32 \<Rightarrow> 's \<Rightarrow> bool \<times> 's) option"

record 's traverse_state =
  ts_bitsUsed :: nat
  ts_hashesUsed :: nat
  ts_st :: "traverse_frame list"
  ts_ret :: "bytes option"
  ts_ctx :: 's

definition tree_width :: "u32 \<Rightarrow> nat \<Rightarrow> u64" where
  "tree_width nTx ht = drop_bit ht (ucast nTx + (push_bit ht 1 - 1))"

fun height_loop :: "nat \<Rightarrow> u32 \<Rightarrow> nat \<Rightarrow> nat option" where
  "height_loop 0 nTx ht = None"
| "height_loop (Suc n) nTx ht =
     (if tree_width nTx ht \<le> 1 then Some ht
      else if ht + 1 > 32 then None
      else height_loop n nTx (ht + 1))"

definition flag_limit :: "'s traverse_env \<Rightarrow> nat" where
  "flag_limit env = unat (tv_flags_len env * 8)"

definition flag_bit :: "'s traverse_env \<Rightarrow> nat \<Rightarrow> bool" where
  "flag_bit env n = bit (tv_flags env ! (n div 8)) (n mod 8)"

definition hash_at :: "'s traverse_env \<Rightarrow> nat \<Rightarrow> bytes" where
  "hash_at env n = take 32 (drop (unat (of_nat n * 32 :: u32)) (tv_hashes env))"

text \<open>The call of \<open>on_match\<close> when a hash is consumed.\<close>

definition report :: "'s traverse_env \<Rightarrow> nat \<Rightarrow> bool \<Rightarrow> bytes \<Rightarrow> u32 \<Rightarrow> 's \<Rightarrow> bool \<times> 's" where
  "report env h m hash pos ctx =
     (case tv_on_match env of
        None \<Rightarrow> (True, ctx)
      | Some on_match \<Rightarrow> if h = 0 \<and> m then on_match hash pos ctx else (True, ctx))"

fun frame_weight :: "nat \<Rightarrow> nat" where
  "frame_weight 0 = 0"
| "frame_weight (Suc 0) = 2"
| "frame_weight (Suc (Suc n)) = 1"

text \<open>The loop: \<open>ok_extract\<close>, \<open>ret\<close> (with \<open>have_ret\<close>) and the context when it ends.\<close>

function (domintros) traverse_loop :: "'s traverse_env \<Rightarrow> 's traverse_state \<Rightarrow> bool \<times> bytes option \<times> 's" where
  "traverse_loop env s =
     (case ts_st s of
        [] \<Rightarrow> (True, ts_ret s, ts_ctx s)
      | cur # rest \<Rightarrow>
          if tf_stage cur = 0 then
            if ts_bitsUsed s \<ge> flag_limit env then (False, ts_ret s, ts_ctx s)
            else
              let m = flag_bit env (ts_bitsUsed s) in
              if tf_height cur = 0 \<or> \<not> m then
                if ts_hashesUsed s \<ge> unat (tv_hashCount env) then (False, ts_ret s, ts_ctx s)
                else
                  let ret = hash_at env (ts_hashesUsed s);
                      (ok, ctx) = report env (tf_height cur) m ret (tf_pos cur) (ts_ctx s) in
                  if \<not> ok then (False, Some ret, ctx)
                  else traverse_loop env \<lparr>ts_bitsUsed = ts_bitsUsed s + 1, ts_hashesUsed = ts_hashesUsed s + 1,
                                         ts_st = rest, ts_ret = Some ret, ts_ctx = ctx\<rparr>
              else if length (ts_st s) \<ge> 64 then (False, ts_ret s, ts_ctx s)
              else traverse_loop env (s\<lparr>ts_bitsUsed := ts_bitsUsed s + 1,
                ts_st := new_frame (tf_height cur - 1) (tf_pos cur * 2) # cur\<lparr>tf_stage := 1, tf_parentMatch := m\<rparr> # rest\<rparr>)
          else if tf_stage cur = 1 then
            (case ts_ret s of
               None \<Rightarrow> (False, None, ts_ctx s)
             | Some ret \<Rightarrow>
                 let rightPos = tf_pos cur * 2 + 1 in
                 if ucast rightPos < tree_width (tv_nTx env) (tf_height cur - 1) then
                   if length (ts_st s) \<ge> 64 then (False, Some ret, ts_ctx s)
                   else traverse_loop env (s\<lparr>ts_ret := None,
                     ts_st := new_frame (tf_height cur - 1) rightPos # cur\<lparr>tf_left := ret, tf_stage := 2\<rparr> # rest\<rparr>)
                 else traverse_loop env (s\<lparr>ts_ret := Some (dogecoin_hash (ret @ ret)), ts_st := rest\<rparr>))
          else if tf_stage cur = 2 then
            (case ts_ret s of
               None \<Rightarrow> (False, None, ts_ctx s)
             | Some ret \<Rightarrow>
                 traverse_loop env (s\<lparr>ts_ret := Some (dogecoin_hash (tf_left cur @ ret)), ts_st := rest\<rparr>))
          else (False, ts_ret s, ts_ctx s))"
  by pat_completeness auto

termination
  by (relation "measure (\<lambda>(env, s). 3 * (flag_limit env - ts_bitsUsed s) + sum_list (map (frame_weight \<circ> tf_stage) (ts_st s)))")
     (auto simp: new_frame_def eval_nat_numeral)

text \<open>The result and the context after the callbacks.\<close>

definition traverse_merkle_matches ::
  "u32 \<Rightarrow> bytes \<Rightarrow> u32 \<Rightarrow> bytes \<Rightarrow> u32 \<Rightarrow> bytes \<Rightarrow> (bytes \<Rightarrow> u32 \<Rightarrow> 's \<Rightarrow> bool \<times> 's) option \<Rightarrow> 's \<Rightarrow> bool \<times> 's" where
  "traverse_merkle_matches nTx hashes hashCount flags flags_len header_merkle on_match match_ctx =
     (if hashCount = 0 \<or> flags_len = 0 then (False, match_ctx)
      else
        case height_loop 34 nTx 0 of
          None \<Rightarrow> (False, match_ctx)
        | Some h \<Rightarrow>
            let env = \<lparr>tv_nTx = nTx, tv_hashes = hashes, tv_hashCount = hashCount, tv_flags = flags, tv_flags_len = flags_len,
                       tv_on_match = on_match\<rparr>;
                (ok_extract, ret, ctx) = traverse_loop env
                  \<lparr>ts_bitsUsed = 0, ts_hashesUsed = 0, ts_st = [new_frame h 0], ts_ret = None, ts_ctx = match_ctx\<rparr> in
            (ok_extract \<and> ret = Some header_merkle, ctx))"

section \<open>The table of matches\<close>

record merkle_match =
  mm_txid :: bytes
  mm_pos :: u32
  mm_consumed :: bool

text \<open>\<open>memcmp\<close> over the 32 bytes of the two identifiers.\<close>

definition bytes32 :: "bytes \<Rightarrow> bytes" where
  "bytes32 p = map (\<lambda>i. p ! i) [0..<32]"

definition bip37_merkle_match_cmp :: "merkle_match \<Rightarrow> merkle_match \<Rightarrow> int" where
  "bip37_merkle_match_cmp a b = memcmp (bytes32 (mm_txid a)) (bytes32 (mm_txid b))"

text \<open>
  The context is the tree and the number of pending matches. The node that \<open>tsearch\<close> returns holds the new
  entry exactly when no entry with this identifier was there.
\<close>

definition bip37_merkle_collect_match :: "bytes \<Rightarrow> u32 \<Rightarrow> merkle_match tree \<times> u32 \<Rightarrow> bool \<times> merkle_match tree \<times> u32" where
  "bip37_merkle_collect_match txid pos c =
     (case c of (match_tree, match_pending) \<Rightarrow>
        let m = \<lparr>mm_txid = txid, mm_pos = pos, mm_consumed = False\<rparr> in
        (True, dogecoin_btree_tsearch bip37_merkle_match_cmp m match_tree,
         if dogecoin_btree_tfind bip37_merkle_match_cmp m match_tree = None then match_pending + 1 else match_pending))"

definition merkle_extract_match_tree ::
  "u32 \<Rightarrow> bytes \<Rightarrow> u32 \<Rightarrow> bytes \<Rightarrow> u32 \<Rightarrow> bytes \<Rightarrow> merkle_match tree \<Rightarrow> bool \<times> merkle_match tree \<times> u32" where
  "merkle_extract_match_tree nTx hashes hashCount flags flags_len header_merkle match_tree =
     traverse_merkle_matches nTx hashes hashCount flags flags_len header_merkle (Some bip37_merkle_collect_match) (match_tree, 0)"

text \<open>Marking the entry that \<open>tfind\<close> points to, in place.\<close>

fun mark_consumed :: "merkle_match \<Rightarrow> merkle_match tree \<Rightarrow> merkle_match tree" where
  "mark_consumed key Leaf = Leaf"
| "mark_consumed key (Node l m r) =
     (let c = bip37_merkle_match_cmp key m in
      if c = 0 then Node l (m\<lparr>mm_consumed := True\<rparr>) r
      else if c < 0 then Node (mark_consumed key l) m r
      else Node l m (mark_consumed key r))"

text \<open>The position (the output argument), the tree and the counter; \<open>None\<close> is the result false.\<close>

definition merkle_match_consume :: "merkle_match tree \<Rightarrow> u32 \<Rightarrow> bytes \<Rightarrow> u32 option \<times> merkle_match tree \<times> u32" where
  "merkle_match_consume match_tree match_pending txid =
     (let key = \<lparr>mm_txid = txid, mm_pos = 0, mm_consumed = False\<rparr> in
      case dogecoin_btree_tfind bip37_merkle_match_cmp key match_tree of
        None \<Rightarrow> (None, match_tree, match_pending)
      | Some m \<Rightarrow>
          if mm_consumed m then (None, match_tree, match_pending)
          else (Some (mm_pos m), mark_consumed key match_tree, if match_pending > 0 then match_pending - 1 else match_pending))"

fun walk_merkle_matches :: "(bytes \<Rightarrow> u32 \<Rightarrow> bool \<Rightarrow> 's \<Rightarrow> bool \<times> 's) \<Rightarrow> merkle_match tree \<Rightarrow> 's \<Rightarrow> bool \<times> 's" where
  "walk_merkle_matches cb Leaf ctx = (True, ctx)"
| "walk_merkle_matches cb (Node l m r) ctx =
     (let (ok, ctx) = walk_merkle_matches cb l ctx in
      if \<not> ok then (False, ctx)
      else
        let (ok, ctx) = cb (mm_txid m) (mm_pos m) (mm_consumed m) ctx in
        if \<not> ok then (False, ctx) else walk_merkle_matches cb r ctx)"

definition merkle_for_each_match :: "merkle_match tree \<Rightarrow> (bytes \<Rightarrow> u32 \<Rightarrow> bool \<Rightarrow> 's \<Rightarrow> bool \<times> 's) \<Rightarrow> 's \<Rightarrow> bool \<times> 's" where
  "merkle_for_each_match match_tree cb ctx = (if match_tree = Leaf then (False, ctx) else walk_merkle_matches cb match_tree ctx)"

section \<open>Filtered getdata\<close>

abbreviation DOGECOIN_INV_TYPE_BLOCK :: u32 where "DOGECOIN_INV_TYPE_BLOCK \<equiv> 2"
abbreviation DOGECOIN_INV_TYPE_FILTERED_BLOCK :: u32 where "DOGECOIN_INV_TYPE_FILTERED_BLOCK \<equiv> 3"

fun rewrite_items :: "nat \<Rightarrow> bytes \<Rightarrow> bytes \<Rightarrow> bytes option" where
  "rewrite_items 0 inv_buf out = Some out"
| "rewrite_items (Suc n) inv_buf out =
     do { (typ, inv_buf) \<leftarrow> deser_u32 inv_buf;
          (h, inv_buf) \<leftarrow> deser_u256 inv_buf;
          rewrite_items n inv_buf
            (ser_u256 (ser_u32 out (if typ = DOGECOIN_INV_TYPE_BLOCK then DOGECOIN_INV_TYPE_FILTERED_BLOCK else typ)) h) }"

text \<open>The payload with \<open>*out_len\<close> as its length, and \<open>*item_count\<close>.\<close>

definition build_filtered_getdata_payload :: "bytes \<Rightarrow> (bytes \<times> u32) option" where
  "build_filtered_getdata_payload inv_buf =
     do { (n, inv_buf) \<leftarrow> deser_varlen inv_buf;
          out \<leftarrow> rewrite_items (unat n) inv_buf (ser_varlen [] n);
          Some (out, n) }"

section \<open>The recursive walk\<close>

text \<open>
  The same walk by recursion on the height: the hash of the node (\<open>None\<close> when the walk fails), the flag
  bits and the hashes used so far, and the context.
\<close>

fun extract_node :: "'s traverse_env \<Rightarrow> nat \<Rightarrow> u32 \<Rightarrow> nat \<times> nat \<times> 's \<Rightarrow> bytes option \<times> nat \<times> nat \<times> 's" where
  "extract_node env h pos (b, k, ctx) =
     (if b \<ge> flag_limit env then (None, b, k, ctx)
      else
        let m = flag_bit env b in
        if h = 0 \<or> \<not> m then
          if k \<ge> unat (tv_hashCount env) then (None, b + 1, k, ctx)
          else let (ok, ctx) = report env h m (hash_at env k) pos ctx in
               (if ok then Some (hash_at env k) else None, b + 1, k + 1, ctx)
        else
          case h of
            0 \<Rightarrow> (None, b, k, ctx)
          | Suc h \<Rightarrow>
              (case extract_node env h (pos * 2) (b + 1, k, ctx) of
                 (None, s) \<Rightarrow> (None, s)
               | (Some l, s) \<Rightarrow>
                   if ucast (pos * 2 + 1) < tree_width (tv_nTx env) h then
                     (case extract_node env h (pos * 2 + 1) s of
                        (None, s) \<Rightarrow> (None, s)
                      | (Some r, s) \<Rightarrow> (Some (dogecoin_hash (l @ r)), s))
                   else (Some (dogecoin_hash (l @ l)), s)))"

declare traverse_loop.simps [simp del] extract_node.simps [simp del]

abbreviation at_node :: "'s \<Rightarrow> nat \<Rightarrow> nat \<Rightarrow> bytes option \<Rightarrow> traverse_frame list \<Rightarrow> 's traverse_state" where
  "at_node ctx b k ret st \<equiv> \<lparr>ts_bitsUsed = b, ts_hashesUsed = k, ts_st = st, ts_ret = ret, ts_ctx = ctx\<rparr>"

text \<open>What the machine does with a frame that has just been pushed, in terms of the recursion.\<close>

definition machine_agrees :: "'s traverse_env \<Rightarrow> traverse_frame list \<Rightarrow> 's traverse_state \<Rightarrow> bytes option \<times> nat \<times> nat \<times> 's \<Rightarrow> bool" where
  "machine_agrees env rest s res =
     (case res of
        (Some r, b, k, ctx) \<Rightarrow> traverse_loop env s = traverse_loop env (at_node ctx b k (Some r) rest)
      | (None, b, k, ctx) \<Rightarrow> \<exists>ret. traverse_loop env s = (False, ret, ctx))"

lemma machine_agrees_step: "traverse_loop env s = traverse_loop env s' \<Longrightarrow> machine_agrees env rest s' res \<Longrightarrow> machine_agrees env rest s res"
  by (auto simp: machine_agrees_def split: option.splits prod.splits)

lemma loop_leaf:
  assumes "b \<ge> flag_limit env \<or> h = 0 \<or> \<not> flag_bit env b"
  shows "traverse_loop env (at_node ctx b k ret (new_frame h pos # rest)) =
    (if b \<ge> flag_limit env \<or> k \<ge> unat (tv_hashCount env) then (False, ret, ctx)
     else case report env h (flag_bit env b) (hash_at env k) pos ctx of (ok, ctx) \<Rightarrow>
       if ok then traverse_loop env (at_node ctx (b + 1) (k + 1) (Some (hash_at env k)) rest)
       else (False, Some (hash_at env k), ctx))"
  using assms by (subst traverse_loop.simps) (auto simp: new_frame_def Let_def split: prod.splits)

lemma leaf_agrees:
  assumes "b \<ge> flag_limit env \<or> h = 0 \<or> \<not> flag_bit env b"
  shows "machine_agrees env rest (at_node ctx b k ret (new_frame h pos # rest)) (extract_node env h pos (b, k, ctx))"
proof (cases "report env h (flag_bit env b) (hash_at env k) pos ctx")
  case (Pair ok ctx')
  then show ?thesis
    using assms unfolding machine_agrees_def loop_leaf [OF assms] by (subst extract_node.simps) (auto simp: Let_def)
qed

lemma traverse_extract:
  assumes "length rest + h < 64"
  shows "machine_agrees env rest (at_node ctx b k ret (new_frame h pos # rest)) (extract_node env h pos (b, k, ctx))"
  using assms
proof (induction h arbitrary: pos b k ctx ret rest)
  case 0
  show ?case by (rule leaf_agrees) simp
next
  case (Suc h)
  let ?s = "at_node ctx b k ret (new_frame (Suc h) pos # rest)"
  show ?case
  proof (cases "b < flag_limit env \<and> flag_bit env b")
    case False
    then show ?thesis by (intro leaf_agrees) auto
  next
    case True
    let ?f1 = "(new_frame (Suc h) pos)\<lparr>tf_stage := 1, tf_parentMatch := True\<rparr>"
    have s1: "traverse_loop env ?s = traverse_loop env (at_node ctx (b + 1) k ret (new_frame h (pos * 2) # ?f1 # rest))"
      using True Suc.prems by (subst traverse_loop.simps) (simp add: new_frame_def)
    have l: "length (?f1 # rest) + h < 64" using Suc.prems by simp
    note L = Suc.IH [OF l, where ctx = ctx and b = "b + 1" and k = k and ret = ret and pos = "pos * 2"]
    obtain rl b1 k1 ctx1 where e1: "extract_node env h (pos * 2) (b + 1, k, ctx) = (rl, b1, k1, ctx1)" by (metis prod_cases4)
    show ?thesis
    proof (cases rl)
      case None
      then have "extract_node env (Suc h) pos (b, k, ctx) = (None, b1, k1, ctx1)"
        using True e1 by (subst extract_node.simps) simp
      then show ?thesis using L s1 e1 None by (auto simp: machine_agrees_def)
    next
      case (Some left)
      have s2: "traverse_loop env ?s = traverse_loop env (at_node ctx1 b1 k1 (Some left) (?f1 # rest))"
        using L s1 e1 Some by (simp add: machine_agrees_def)
      show ?thesis
      proof (cases "ucast (pos * 2 + 1) < tree_width (tv_nTx env) h")
        case False
        then have "extract_node env (Suc h) pos (b, k, ctx) = (Some (dogecoin_hash (left @ left)), b1, k1, ctx1)"
          using True e1 Some by (subst extract_node.simps) simp
        moreover have "traverse_loop env (at_node ctx1 b1 k1 (Some left) (?f1 # rest)) =
            traverse_loop env (at_node ctx1 b1 k1 (Some (dogecoin_hash (left @ left))) rest)"
          using False by (subst traverse_loop.simps) (simp add: new_frame_def Let_def)
        ultimately show ?thesis using s2 by (simp add: machine_agrees_def)
      next
        case right: True
        let ?f2 = "?f1\<lparr>tf_left := left, tf_stage := 2\<rparr>"
        have s3: "traverse_loop env ?s = traverse_loop env (at_node ctx1 b1 k1 None (new_frame h (pos * 2 + 1) # ?f2 # rest))"
          unfolding s2 using right Suc.prems by (subst traverse_loop.simps) (simp add: new_frame_def Let_def)
        have l: "length (?f2 # rest) + h < 64" using Suc.prems by simp
        note R = Suc.IH [OF l, where ctx = ctx1 and b = b1 and k = k1 and ret = None and pos = "pos * 2 + 1"]
        obtain rr b2 k2 ctx2 where e2: "extract_node env h (pos * 2 + 1) (b1, k1, ctx1) = (rr, b2, k2, ctx2)" by (metis prod_cases4)
        show ?thesis
        proof (cases rr)
          case None
          then have "extract_node env (Suc h) pos (b, k, ctx) = (None, b2, k2, ctx2)"
            using True e1 e2 Some right by (subst extract_node.simps) simp
          then show ?thesis using R s3 e2 None by (auto simp: machine_agrees_def)
        next
          case r: (Some rgt)
          then have "extract_node env (Suc h) pos (b, k, ctx) = (Some (dogecoin_hash (left @ rgt)), b2, k2, ctx2)"
            using True e1 e2 Some right by (subst extract_node.simps) simp
          moreover have "traverse_loop env (at_node ctx2 b2 k2 (Some rgt) (?f2 # rest)) =
              traverse_loop env (at_node ctx2 b2 k2 (Some (dogecoin_hash (left @ rgt))) rest)"
            by (subst traverse_loop.simps) (simp add: new_frame_def)
          ultimately show ?thesis using R s3 e2 r by (simp add: machine_agrees_def)
        qed
      qed
    qed
  qed
qed

section \<open>Every reported match has a merkle branch\<close>

definition collect :: "bytes \<Rightarrow> u32 \<Rightarrow> (bytes \<times> u32) list \<Rightarrow> bool \<times> (bytes \<times> u32) list" where
  "collect txid pos ms = (True, ms @ [(txid, pos)])"


lemma tree_width_value: "h \<le> 33 \<Longrightarrow> unat (tree_width nTx h) = (unat nTx + 2 ^ h - 1) div 2 ^ h"
proof -
  assume h: "h \<le> 33"
  then have p: "(2 :: nat) ^ h \<le> 2 ^ 33" by (intro power_increasing) auto
  have "unat (push_bit h 1 :: u64) = 2 ^ h" using h unat_2p [of h, where 'a = 64] by (simp add: push_bit_eq_mult)
  moreover have "1 \<le> (push_bit h 1 :: u64)" using calculation by (simp add: word_le_nat_alt)
  ultimately have "unat (push_bit h 1 - 1 :: u64) = 2 ^ h - 1" by (simp add: unat_sub)
  moreover have "unat (ucast nTx :: u64) = unat nTx" by (simp add: unat_ucast_up)
  ultimately have "unat (ucast nTx + (push_bit h 1 - 1) :: u64) = unat nTx + 2 ^ h - 1"
    using p unat_u32_less [of nTx] by (simp add: unat_word_ariths)
  then show ?thesis unfolding tree_width_def unat_drop_bit_eq by (simp add: drop_bit_eq_div)
qed

lemma right_child_iff:
  assumes "h \<le> 33" "j < 2 ^ 32"
  shows "ucast (of_nat j :: u32) < tree_width nTx h \<longleftrightarrow> j * 2 ^ h < unat nTx"
proof -
  have "unat (ucast (of_nat j :: u32) :: u64) = j" using assms(2) by (simp add: unat_ucast_up unat_of_nat)
  moreover have "j < (unat nTx + 2 ^ h - 1) div 2 ^ h \<longleftrightarrow> j * 2 ^ h < unat nTx"
  proof -
    have "j < (unat nTx + 2 ^ h - 1) div 2 ^ h \<longleftrightarrow> Suc j * 2 ^ h \<le> unat nTx + 2 ^ h - 1"
      by (simp add: less_eq_div_iff_mult_less_eq flip: Suc_le_eq)
    then show ?thesis using zero_less_power [of "2 :: nat" h] by (simp only: mult_Suc) linarith
  qed
  ultimately show ?thesis using tree_width_value [OF assms(1)] by (simp add: word_less_nat_alt)
qed

lemma child_words: "(of_nat p * 2 :: u32) = of_nat (2 * p)" "(of_nat p * 2 + 1 :: u32) = of_nat (2 * p + 1)"
  by simp_all





lemma height_loop_SomeD:
  assumes "height_loop n nTx h0 = Some H" "h0 \<le> 32"
  shows "h0 \<le> H \<and> H \<le> 32 \<and> tree_width nTx H \<le> 1 \<and> (\<forall>j. h0 \<le> j \<and> j < H \<longrightarrow> \<not> tree_width nTx j \<le> 1)"
  using assms
proof (induction n nTx h0 rule: height_loop.induct)
  case (2 n nTx ht)
  then show ?case
    by (cases "tree_width nTx ht \<le> 1") (auto split: if_splits simp: Suc_le_eq order_less_le)
qed simp

lemma height_loop_SomeI:
  assumes "h0 \<le> H" "H \<le> 32" "\<forall>j. h0 \<le> j \<and> j < H \<longrightarrow> \<not> tree_width nTx j \<le> 1" "tree_width nTx H \<le> 1" "H - h0 < n"
  shows "height_loop n nTx h0 = Some H"
  using assms
proof (induction n nTx h0 rule: height_loop.induct)
  case (2 n nTx ht)
  show ?case
  proof (cases "ht = H")
    case True
    then show ?thesis using "2.prems"(4) by simp
  next
    case False
    then have "ht < H" using "2.prems"(1) by simp
    then have w: "\<not> tree_width nTx ht \<le> 1" "\<not> ht + 1 > 32" using "2.prems"(2,3) by auto
    have "height_loop n nTx (ht + 1) = Some H"
      using "2.IH" [OF w] "2.prems" \<open>ht < H\<close> by simp
    then show ?thesis using w by simp
  qed
qed simp



text \<open>The whole walk is the recursion from the root.\<close>

lemma traverse_eq_extract:
  assumes "hashCount \<noteq> 0" "flags_len \<noteq> 0" "height_loop 34 nTx 0 = Some H"
    and "env = \<lparr>tv_nTx = nTx, tv_hashes = hashes, tv_hashCount = hashCount, tv_flags = flags, tv_flags_len = flags_len,
                tv_on_match = on_match\<rparr>"
  shows "traverse_merkle_matches nTx hashes hashCount flags flags_len root on_match ctx =
    (case extract_node env H 0 (0, 0, ctx) of (r, b, k, ctx) \<Rightarrow> (r = Some root, ctx))"
proof -
  have "H < 64" using height_loop_SomeD [OF assms(3)] by simp
  then have "machine_agrees env [] (at_node ctx 0 0 None [new_frame H 0]) (extract_node env H 0 (0, 0, ctx))"
    using traverse_extract [where rest = "[]" and h = H and env = env] by simp
  moreover have "traverse_loop env (at_node c b k r []) = (True, r, c)" for c :: 'a and b k r
    by (subst traverse_loop.simps) simp
  ultimately show ?thesis
    using assms unfolding traverse_merkle_matches_def machine_agrees_def
    by (auto simp: Let_def split: option.splits prod.splits)
qed

lemma length_hash_at:
  assumes "32 * N \<le> length (tv_hashes env)" "N < 2 ^ 27" "k < N"
  shows "length (hash_at env k) = 32" "hash_at env k = take 32 (drop (32 * k) (tv_hashes env))"
proof -
  have "unat (of_nat k * 32 :: u32) = 32 * k"
    using assms(2,3) by (simp add: unat_word_ariths unat_of_nat)
  then show "hash_at env k = take 32 (drop (32 * k) (tv_hashes env))" by (simp add: hash_at_def)
  then show "length (hash_at env k) = 32" using assms(1,3) by simp
qed

section \<open>The encoding of a set of matches\<close>

text \<open>
  BIP 37: depth first, one bit per visited node that tells whether a match lies below it; the children of a
  node with a match follow, and the hash of a node without one or of a leaf is given.
\<close>

definition node_leaves :: "nat \<Rightarrow> nat \<Rightarrow> nat \<Rightarrow> nat list" where
  "node_leaves n h p = [p * 2 ^ h ..< min n (Suc p * 2 ^ h)]"

definition has_match :: "(nat \<Rightarrow> bool) \<Rightarrow> nat \<Rightarrow> nat \<Rightarrow> nat \<Rightarrow> bool" where
  "has_match M n h p = list_ex M (node_leaves n h p)"

definition right_exists :: "nat \<Rightarrow> nat \<Rightarrow> nat \<Rightarrow> bool" where
  "right_exists n h p \<longleftrightarrow> (2 * p + 1) * 2 ^ h < n"

fun pmt_bits :: "(nat \<Rightarrow> bool) \<Rightarrow> nat \<Rightarrow> nat \<Rightarrow> nat \<Rightarrow> bool list" where
  "pmt_bits M n 0 p = [has_match M n 0 p]"
| "pmt_bits M n (Suc h) p =
     (if has_match M n (Suc h) p
      then True # pmt_bits M n h (2 * p) @ (if right_exists n h p then pmt_bits M n h (2 * p + 1) else [])
      else [False])"

fun pmt_hashes :: "(nat \<Rightarrow> bool) \<Rightarrow> bytes list \<Rightarrow> nat \<Rightarrow> nat \<Rightarrow> bytes list" where
  "pmt_hashes M xs 0 p = [xs ! p]"
| "pmt_hashes M xs (Suc h) p =
     (if has_match M (length xs) (Suc h) p
      then pmt_hashes M xs h (2 * p) @ (if right_exists (length xs) h p then pmt_hashes M xs h (2 * p + 1) else [])
      else [tree_level xs (Suc h) ! p])"

definition pmt_matches :: "(nat \<Rightarrow> bool) \<Rightarrow> bytes list \<Rightarrow> nat \<Rightarrow> nat \<Rightarrow> (bytes \<times> u32) list" where
  "pmt_matches M xs h p = map (\<lambda>j. (xs ! j, of_nat j)) (filter M (node_leaves (length xs) h p))"

function pmt_height :: "nat \<Rightarrow> nat" where
  "pmt_height n = (if n \<le> 1 then 0 else Suc (pmt_height ((n + 1) div 2)))"
  by pat_completeness auto
termination by (relation "measure id") auto

declare pmt_height.simps [simp del]

text \<open>Eight bits to a byte, the first in the lowest position.\<close>

function pack_bits :: "bool list \<Rightarrow> bytes" where
  "pack_bits [] = []"
| "pack_bits (b # bs) = horner_sum of_bool 2 (take 8 (b # bs)) # pack_bits (drop 8 (b # bs))"
  by pat_completeness auto
termination by (relation "measure length") auto

lemma node_leaves_split:
  "node_leaves n (Suc h) p = node_leaves n h (2 * p) @ (if right_exists n h p then node_leaves n h (2 * p + 1) else [])"
proof (cases "right_exists n h p")
  case True
  then have a: "min n (Suc (2 * p) * 2 ^ h) = (2 * p + 1) * 2 ^ h" by (simp add: right_exists_def)
  have "p * 2 ^ Suc h \<le> (2 * p + 1) * 2 ^ h" "(2 * p + 1) * 2 ^ h \<le> min n (Suc p * 2 ^ Suc h)"
    using True by (simp_all add: right_exists_def algebra_simps)
  then have "node_leaves n (Suc h) p =
      [p * 2 ^ Suc h ..< (2 * p + 1) * 2 ^ h] @ [(2 * p + 1) * 2 ^ h ..< min n (Suc p * 2 ^ Suc h)]"
    unfolding node_leaves_def by (metis le_iff_add upt_add_eq_append)
  moreover have "p * 2 ^ Suc h = 2 * p * 2 ^ h" "Suc p * 2 ^ Suc h = Suc (2 * p + 1) * 2 ^ h"
    by (simp_all add: algebra_simps)
  ultimately show ?thesis using True a by (simp only: node_leaves_def if_True)
next
  case False
  then have "min n (Suc (2 * p) * 2 ^ h) = n" "min n (Suc p * 2 ^ Suc h) = n"
    by (auto simp: right_exists_def algebra_simps min_def)
  moreover have "p * 2 ^ Suc h = 2 * p * 2 ^ h" by simp
  ultimately show ?thesis using False by (simp only: node_leaves_def if_False append_Nil2)
qed

lemma pmt_matches_split:
  "pmt_matches M xs (Suc h) p = pmt_matches M xs h (2 * p) @
    (if right_exists (length xs) h p then pmt_matches M xs h (2 * p + 1) else [])"
  by (simp add: pmt_matches_def node_leaves_split)

lemma pmt_matches_none: "\<not> has_match M (length xs) h p \<Longrightarrow> pmt_matches M xs h p = []"
  by (auto simp: pmt_matches_def has_match_def list_ex_iff filter_empty_conv)

lemma length_tree_level: "length (tree_level xs h) = (length xs + 2 ^ h - 1) div 2 ^ h"
proof (induction h)
  case (Suc h)
  let ?x = "length xs + 2 ^ h - 1"
  have "length (tree_level xs (Suc h)) = (?x div 2 ^ h + 1) div 2" by (simp add: length_pair_up Suc)
  also have "?x div 2 ^ h + 1 = (?x + 2 ^ h) div 2 ^ h" by (rule div_add_self2 [symmetric]) simp
  also have "(?x + 2 ^ h) div 2 ^ h div 2 = (?x + 2 ^ h) div 2 ^ Suc h"
    by (simp only: div_mult2_eq [symmetric] power_Suc2)
  also have "?x + 2 ^ h = length xs + 2 ^ Suc h - 1" using one_le_power [of "2 :: nat" h] by simp
  finally show ?case .
qed simp

lemma in_level_iff: "p < length (tree_level xs h) \<longleftrightarrow> p * 2 ^ h < length xs"
proof -
  have "p < (length xs + 2 ^ h - 1) div 2 ^ h \<longleftrightarrow> Suc p * 2 ^ h \<le> length xs + 2 ^ h - 1"
    by (simp add: less_eq_div_iff_mult_less_eq flip: Suc_le_eq)
  then show ?thesis using zero_less_power [of "2 :: nat" h] unfolding length_tree_level by (simp only: mult_Suc) linarith
qed

lemma tree_level_node:
  assumes "p < length (tree_level xs (Suc h))"
  shows "tree_level xs (Suc h) ! p = dogecoin_hash (tree_level xs h ! (2 * p) @
    (if right_exists (length xs) h p then tree_level xs h ! (2 * p + 1) else tree_level xs h ! (2 * p)))"
proof -
  have "p < (length (tree_level xs h) + 1) div 2" using assms by (simp add: length_pair_up)
  from nth_pair_up [OF this] show ?thesis
    using in_level_iff [of "2 * p + 1" xs h] by (simp add: right_exists_def)
qed

lemma tree_level_32: "list_all (\<lambda>x. length x = 32) xs \<Longrightarrow> list_all (\<lambda>x. length x = 32) (tree_level xs h)"
  using pair_up_lengths by (cases h) auto

text \<open>The flag bits from \<open>b\<close> on, and the hashes from \<open>k\<close> on.\<close>

definition bits_at :: "'s traverse_env \<Rightarrow> nat \<Rightarrow> bool list \<Rightarrow> bool" where
  "bits_at env b bs \<longleftrightarrow> b + length bs \<le> flag_limit env \<and> (\<forall>i < length bs. flag_bit env (b + i) = bs ! i)"

definition hashes_at :: "'s traverse_env \<Rightarrow> nat \<Rightarrow> bytes list \<Rightarrow> bool" where
  "hashes_at env k hs \<longleftrightarrow> k + length hs \<le> unat (tv_hashCount env) \<and> (\<forall>i < length hs. hash_at env (k + i) = hs ! i)"

lemma all_less_append:
  "(\<forall>i < length (xs @ ys). P i ((xs @ ys) ! i)) \<longleftrightarrow>
    (\<forall>i < length xs. P i (xs ! i)) \<and> (\<forall>i < length ys. P (length xs + i) (ys ! i))"
proof (intro iffI conjI allI impI)
  assume l: "\<forall>i < length (xs @ ys). P i ((xs @ ys) ! i)"
  show "P i (xs ! i)" if "i < length xs" for i using l [rule_format, of i] that by (simp add: nth_append)
  show "P (length xs + i) (ys ! i)" if "i < length ys" for i using l [rule_format, of "length xs + i"] that by simp
next
  fix i
  assume "(\<forall>i < length xs. P i (xs ! i)) \<and> (\<forall>i < length ys. P (length xs + i) (ys ! i))" "i < length (xs @ ys)"
  then show "P i ((xs @ ys) ! i)"
    by (cases "i < length xs") (auto simp: nth_append dest: spec [of _ "i - length xs"])
qed

lemma bits_at_append: "bits_at env b (xs @ ys) \<longleftrightarrow> bits_at env b xs \<and> bits_at env (b + length xs) ys"
  using all_less_append [of xs ys "\<lambda>i x. flag_bit env (b + i) = x"] by (auto simp: bits_at_def add.assoc)

lemma hashes_at_append: "hashes_at env k (xs @ ys) \<longleftrightarrow> hashes_at env k xs \<and> hashes_at env (k + length xs) ys"
  using all_less_append [of xs ys "\<lambda>i x. hash_at env (k + i) = x"] by (auto simp: hashes_at_def add.assoc)

lemma bits_at_Cons: "bits_at env b (x # xs) \<longleftrightarrow> b < flag_limit env \<and> flag_bit env b = x \<and> bits_at env (Suc b) xs"
  using bits_at_append [of env b "[x]" xs] by (auto simp: bits_at_def)

lemma hashes_at_single: "hashes_at env k [x] \<longleftrightarrow> k < unat (tv_hashCount env) \<and> hash_at env k = x"
  by (auto simp: hashes_at_def)

lemma pmt_hashes_none: "\<not> has_match M (length xs) h p \<Longrightarrow> pmt_hashes M xs h p = [tree_level xs h ! p]"
  by (cases h) auto

lemma pmt_bits_none: "\<not> has_match M n h p \<Longrightarrow> pmt_bits M n h p = [False]"
  by (cases h) auto

lemma extract_encoded:
  assumes "tv_on_match env = Some collect" "tv_nTx env = of_nat (length xs)" "length xs \<le> 2 ^ 31" "h \<le> 31"
    and "p * 2 ^ h < length xs"
    and "bits_at env b (pmt_bits M (length xs) h p)" "hashes_at env k (pmt_hashes M xs h p)"
  shows "extract_node env h (of_nat p) (b, k, ms) =
    (Some (tree_level xs h ! p), b + length (pmt_bits M (length xs) h p), k + length (pmt_hashes M xs h p),
     ms @ pmt_matches M xs h p)"
  using assms(4-7)
proof (induction h arbitrary: p b k ms)
  case 0
  have "node_leaves (length xs) 0 p = [p]" using 0(2) by (simp add: node_leaves_def)
  then show ?case using 0 by (subst extract_node.simps)
      (simp add: bits_at_Cons hashes_at_single report_def assms(1) collect_def pmt_matches_def has_match_def)
next
  case (Suc h)
  let ?n = "length xs"
  show ?case
  proof (cases "has_match M ?n (Suc h) p")
    case False
    then show ?thesis using Suc.prems
      by (subst extract_node.simps)
        (simp add: bits_at_Cons hashes_at_single report_def assms(1) pmt_matches_none)
  next
    case True
    have nx: "unat (of_nat ?n :: u32) = ?n" using assms(3) by (simp add: unat_of_nat)
    have small: "2 * p + 1 < 2 ^ 32"
    proof -
      have "p * 2 \<le> p * 2 ^ Suc h" by (intro mult_le_mono2) simp
      also have "\<dots> < length xs" by (rule Suc.prems(2))
      finally show ?thesis using assms(3) by simp
    qed
    have right: "ucast (of_nat (2 * p + 1) :: u32) < tree_width (tv_nTx env) h \<longleftrightarrow> right_exists ?n h p"
      using right_child_iff [OF _ small, of h "tv_nTx env"] Suc.prems(1) nx by (simp add: assms(2) right_exists_def)
    have node: "tree_level xs (Suc h) ! p = dogecoin_hash (tree_level xs h ! (2 * p) @
        (if right_exists ?n h p then tree_level xs h ! (2 * p + 1) else tree_level xs h ! (2 * p)))"
      using tree_level_node in_level_iff Suc.prems(2) by blast
    have "2 * p * 2 ^ h < ?n" using Suc.prems(2) by (simp add: mult.assoc mult.left_commute)
    from Suc.IH [OF _ this, of "b + 1" k ms] have L: "extract_node env h (of_nat (2 * p)) (b + 1, k, ms) =
        (Some (tree_level xs h ! (2 * p)), b + 1 + length (pmt_bits M ?n h (2 * p)),
         k + length (pmt_hashes M xs h (2 * p)), ms @ pmt_matches M xs h (2 * p))"
      using Suc.prems True by (simp add: bits_at_Cons bits_at_append hashes_at_append)
    have step: "extract_node env (Suc h) (of_nat p) (b, k, ms) =
        (case extract_node env h (of_nat (2 * p)) (b + 1, k, ms) of
           (None, s) \<Rightarrow> (None, s)
         | (Some l, s) \<Rightarrow>
             if right_exists ?n h p then
               (case extract_node env h (of_nat (2 * p + 1)) s of
                  (None, s) \<Rightarrow> (None, s)
                | (Some r, s) \<Rightarrow> (Some (dogecoin_hash (l @ r)), s))
             else (Some (dogecoin_hash (l @ l)), s))"
      using Suc.prems(3) True unfolding right [symmetric] child_words [symmetric]
      by (subst extract_node.simps) (simp add: bits_at_Cons)
    show ?thesis
    proof (cases "right_exists ?n h p")
      case False
      then show ?thesis unfolding step L node using True by (simp add: pmt_matches_split)
    next
      case r: True
      then have "(2 * p + 1) * 2 ^ h < ?n" by (simp add: right_exists_def)
      from Suc.IH [OF _ this, of "b + 1 + length (pmt_bits M ?n h (2 * p))" "k + length (pmt_hashes M xs h (2 * p))"
          "ms @ pmt_matches M xs h (2 * p)"]
      show ?thesis unfolding step L node using True r Suc.prems
        by (simp add: pmt_matches_split bits_at_Cons bits_at_append hashes_at_append)
    qed
  qed
qed

subsection \<open>The encoded tree as the arguments of the walk\<close>

lemma pmt_height_level:
  "length (tree_level xs k) = n \<Longrightarrow> 0 < n \<Longrightarrow>
    length (tree_level xs (k + pmt_height n)) = 1 \<and> (\<forall>j. k \<le> j \<and> j < k + pmt_height n \<longrightarrow> 1 < length (tree_level xs j))"
proof (induction n arbitrary: k rule: pmt_height.induct)
  case (1 n)
  show ?case
  proof (cases "n \<le> 1")
    case True
    then show ?thesis using "1.prems" by (simp add: pmt_height.simps [of n])
  next
    case False
    have "length (tree_level xs (Suc k)) = (n + 1) div 2" using "1.prems"(1) by (simp add: length_pair_up)
    note ih = "1.IH" [OF False this]
    have pos: "0 < (n + 1) div 2" using False by simp
    have h: "k + pmt_height n = Suc k + pmt_height ((n + 1) div 2)" using False by (simp add: pmt_height.simps [of n])
    have "1 < length (tree_level xs j)" if "k \<le> j" "j < Suc k + pmt_height ((n + 1) div 2)" for j
    proof (cases "j = k")
      case True
      then show ?thesis using False "1.prems"(1) by simp
    next
      case k: False
      then have "Suc k \<le> j" using that(1) by simp
      then show ?thesis using ih pos that(2) by blast
    qed
    then show ?thesis unfolding h using ih [OF pos] by simp
  qed
qed

lemma pmt_height_bound:
  fixes xs :: "bytes list"
  assumes "xs \<noteq> []" "length xs \<le> 2 ^ m"
  shows "pmt_height (length xs) \<le> m"
proof (rule ccontr)
  assume "\<not> pmt_height (length xs) \<le> m"
  then have "1 < length (tree_level xs m)" using pmt_height_level [of xs 0 "length xs"] assms(1) by simp
  moreover have "length (tree_level xs m) \<le> (2 ^ m + 2 ^ m - 1) div 2 ^ m"
    unfolding length_tree_level using assms(2) by (intro div_le_mono) simp
  moreover have "0 < a \<Longrightarrow> (a + a - 1) div a < 2" for a :: nat by (simp add: div_less_iff_less_mult)
  then have "(2 ^ m + 2 ^ m - 1) div 2 ^ m < (2 :: nat)" by (metis zero_less_power zero_less_numeral)
  ultimately show False by simp
qed

lemma height_loop_encoded:
  fixes xs :: "bytes list"
  assumes "xs \<noteq> []" "length xs \<le> 2 ^ 31"
  shows "height_loop 34 (of_nat (length xs)) 0 = Some (pmt_height (length xs))"
proof -
  let ?H = "pmt_height (length xs)"
  have H: "?H \<le> 31" using pmt_height_bound [OF assms] .
  have w: "unat (tree_width (of_nat (length xs)) j) = length (tree_level xs j)" if "j \<le> ?H" for j
    using tree_width_value [of j "of_nat (length xs)"] H that assms(2) by (simp add: length_tree_level unat_of_nat)
  have lv: "length (tree_level xs ?H) = 1" "\<forall>j < ?H. 1 < length (tree_level xs j)"
    using pmt_height_level [of xs 0 "length xs"] assms(1) by auto
  show ?thesis
  proof (rule height_loop_SomeI)
    show "\<forall>j. 0 \<le> j \<and> j < ?H \<longrightarrow> \<not> tree_width (of_nat (length xs)) j \<le> 1"
      using w lv(2) by (auto simp: word_le_nat_alt not_le)
    show "tree_width (of_nat (length xs)) ?H \<le> 1" using w lv(1) by (simp add: word_le_nat_alt)
  qed (use H in simp_all)
qed

lemma length_pmt_bits: "0 < length (pmt_bits M n h p) \<and> length (pmt_bits M n h p) < 2 ^ Suc h"
proof (induction h arbitrary: p)
  case (Suc h)
  have l: "length (pmt_bits M n h (2 * p)) < 2 ^ Suc h" and r: "length (pmt_bits M n h (2 * p + 1)) < 2 ^ Suc h"
    using Suc by blast+
  have "length (pmt_bits M n (Suc h) p) \<le> 1 + length (pmt_bits M n h (2 * p)) + length (pmt_bits M n h (2 * p + 1))" by simp
  also have "\<dots> < 2 ^ Suc h + 2 ^ Suc h" using l r by linarith
  finally show ?case by simp
qed simp

lemma length_pmt_hashes: "0 < length (pmt_hashes M xs h p) \<and> length (pmt_hashes M xs h p) \<le> 2 ^ h"
proof (induction h arbitrary: p)
  case (Suc h)
  have l: "0 < length (pmt_hashes M xs h (2 * p))" "length (pmt_hashes M xs h (2 * p)) \<le> 2 ^ h"
    and r: "length (pmt_hashes M xs h (2 * p + 1)) \<le> 2 ^ h"
    using Suc by blast+
  have "length (pmt_hashes M xs (Suc h) p) \<le> 1 \<or>
      length (pmt_hashes M xs (Suc h) p) \<le> length (pmt_hashes M xs h (2 * p)) + length (pmt_hashes M xs h (2 * p + 1))" by simp
  then have "length (pmt_hashes M xs (Suc h) p) \<le> 2 ^ h + 2 ^ h"
    using l r one_le_power [of "2 :: nat" h] by linarith
  moreover have "0 < length (pmt_hashes M xs (Suc h) p)" using l by simp
  ultimately show ?case by simp
qed simp

lemma pmt_hashes_32:
  assumes "list_all (\<lambda>x. length x = 32) xs"
  shows "p * 2 ^ h < length xs \<Longrightarrow> \<forall>x \<in> set (pmt_hashes M xs h p). length x = 32"
proof (induction h arbitrary: p)
  case 0
  then show ?case using assms by (simp add: list_all_length)
next
  case (Suc h)
  have "length (tree_level xs (Suc h) ! p) = 32"
    using tree_level_32 [OF assms, of "Suc h"] in_level_iff [of p xs "Suc h"] Suc.prems by (simp only: list_all_length)
  moreover have "2 * p * 2 ^ h < length xs" using Suc.prems by (simp add: mult.assoc mult.left_commute)
  ultimately show ?case using Suc.IH [of "2 * p"] Suc.IH [of "2 * p + 1"]
    by (auto simp: right_exists_def simp del: tree_level.simps)
qed

lemma nth_concat_32: "\<forall>x \<in> set hs. length x = 32 \<Longrightarrow> k < length hs \<Longrightarrow> take 32 (drop (32 * k) (concat hs)) = hs ! k"
proof (induction hs arbitrary: k)
  case (Cons h hs)
  then show ?case by (cases k) auto
qed simp

lemma length_concat_32: "\<forall>x \<in> set hs. length x = 32 \<Longrightarrow> length (concat hs) = 32 * length hs"
  by (induction hs) auto

lemma length_pack_bits: "length (pack_bits bs) = (length bs + 7) div 8"
proof (induction bs rule: pack_bits.induct)
  case (2 b bs)
  then show ?case by (cases "length bs \<le> 7") (auto simp: not_le div_if [of "length bs + 8"])
qed simp

lemma pack_bits_bit: "n < length bs \<Longrightarrow> bit (pack_bits bs ! (n div 8)) (n mod 8) = bs ! n"
proof (induction bs arbitrary: n rule: pack_bits.induct)
  case (2 b bs)
  show ?case
  proof (cases "n < 8")
    case True
    then have "take 8 (b # bs) ! n = (b # bs) ! n" by (rule nth_take)
    moreover have "n < length (take 8 (b # bs))" using True "2.prems" by simp
    moreover have "pack_bits (b # bs) ! 0 = horner_sum of_bool 2 (take 8 (b # bs))" by (simp only: pack_bits.simps nth_Cons_0)
    ultimately show ?thesis using True by (simp only: bit_horner_sum_bit_word_iff div_less mod_less) simp
  next
    case False
    then have "n div 8 = Suc ((n - 8) div 8)" "n mod 8 = (n - 8) mod 8" by (simp_all add: div_if mod_if)
    then show ?thesis using "2.IH" [of "n - 8"] "2.prems" False by simp
  qed
qed simp


text \<open>The two arguments of the walk for a set of matches.\<close>

definition pmt_flags :: "(nat \<Rightarrow> bool) \<Rightarrow> bytes list \<Rightarrow> bytes" where
  "pmt_flags M xs = pack_bits (pmt_bits M (length xs) (pmt_height (length xs)) 0)"

definition pmt_tree :: "(nat \<Rightarrow> bool) \<Rightarrow> bytes list \<Rightarrow> bytes list" where
  "pmt_tree M xs = pmt_hashes M xs (pmt_height (length xs)) 0"

lemma encoded_accepted:
  assumes "xs \<noteq> []" "length xs \<le> 2 ^ 26" "list_all (\<lambda>x. length x = 32) xs"
  shows "traverse_merkle_matches (of_nat (length xs)) (concat (pmt_tree M xs)) (of_nat (length (pmt_tree M xs)))
      (pmt_flags M xs) (of_nat (length (pmt_flags M xs))) (merkle_root xs) (Some collect) [] =
    (True, map (\<lambda>j. (xs ! j, of_nat j)) (filter M [0..<length xs]))"
proof -
  let ?H = "pmt_height (length xs)" and ?n = "length xs"
  let ?bs = "pmt_bits M ?n ?H 0" and ?hs = "pmt_hashes M xs ?H 0"
  have H: "?H \<le> 26" by (rule pmt_height_bound [OF assms(1,2)])
  have n31: "?n \<le> 2 ^ 31" using assms(2) by (rule order_trans) simp
  have lb: "0 < length ?bs" "length ?bs < 2 ^ 27"
    using length_pmt_bits [of M ?n ?H 0] power_increasing [of "Suc ?H" 27 "2 :: nat"] H by auto
  have lh: "0 < length ?hs" "length ?hs \<le> 2 ^ 26"
    using length_pmt_hashes [of M xs ?H 0] power_increasing [of ?H 26 "2 :: nat"] H by auto
  have h32: "\<forall>x \<in> set ?hs. length x = 32" using pmt_hashes_32 [OF assms(3), of 0] assms(1) by simp
  define env where "env = \<lparr>tv_nTx = of_nat ?n, tv_hashes = concat ?hs, tv_hashCount = of_nat (length ?hs),
      tv_flags = pack_bits ?bs, tv_flags_len = of_nat (length (pack_bits ?bs)), tv_on_match = Some collect\<rparr>"
  have fl: "length ?bs \<le> flag_limit env" "of_nat (length (pack_bits ?bs)) \<noteq> (0 :: u32)"
  proof -
    let ?L = "length (pack_bits ?bs)"
    have "0 < ?L" using lb(1) unfolding length_pack_bits by linarith
    moreover have "?L \<le> 2 ^ 24" "length ?bs \<le> 8 * ?L" using lb unfolding length_pack_bits by simp_all
    ultimately have L: "0 < ?L" "?L \<le> 2 ^ 24" "length ?bs \<le> 8 * ?L" .
    then have u: "unat (of_nat ?L :: u32) = ?L" by (simp add: unat_of_nat)
    then show "of_nat ?L \<noteq> (0 :: u32)" using L(1) by (metis unat_0 less_irrefl)
    have "unat (of_nat ?L * 8 :: u32) = ?L * 8" using u L(2) by (simp add: unat_word_ariths)
    then show "length ?bs \<le> flag_limit env" using L(3) by (simp only: env_def flag_limit_def) simp
  qed
  have hc: "unat (of_nat (length ?hs) :: u32) = length ?hs" using lh by (simp add: unat_of_nat)
  have "bits_at env 0 ?bs" using fl(1) pack_bits_bit by (simp add: bits_at_def env_def flag_bit_def)
  moreover have "hashes_at env 0 ?hs"
  proof -
    have "hash_at env k = ?hs ! k" if "k < length ?hs" for k
      using length_hash_at(2) [of "length ?hs" env k] that lh(2) nth_concat_32 [OF h32 that] length_concat_32 [OF h32]
      by (simp only: env_def traverse_env.simps) simp
    then show ?thesis using hc by (simp add: hashes_at_def env_def)
  qed
  ultimately have "extract_node env ?H 0 (0, 0, []) =
      (Some (tree_level xs ?H ! 0), length ?bs, length ?hs, pmt_matches M xs ?H 0)"
    using extract_encoded [of env xs ?H 0 0 M 0 "[]"] n31 H assms(1) by (simp add: env_def)
  moreover have "tree_level xs ?H ! 0 = merkle_root xs"
  proof -
    have "length (tree_level xs ?H) = 1" "\<forall>j < ?H. 1 < length (tree_level xs j)"
      using pmt_height_level [of xs 0 ?n] assms(1) by auto
    then show ?thesis using merkle_root_level [of ?H xs] by (cases "tree_level xs ?H") (auto simp: merkle_root.simps [of "[_]"])
  qed
  moreover have "node_leaves ?n ?H 0 = [0..<?n]"
  proof -
    have "\<not> 1 * 2 ^ ?H < ?n"
      using in_level_iff [of 1 xs ?H] pmt_height_level [of xs 0 ?n] assms(1) by simp
    then show ?thesis by (simp add: node_leaves_def min_def)
  qed
  moreover have "of_nat (length ?hs) \<noteq> (0 :: u32)" using hc lh(1) by (metis unat_0 less_irrefl)
  ultimately show ?thesis
    using traverse_eq_extract [OF _ fl(2) height_loop_encoded [OF assms(1) n31] env_def, of "merkle_root xs" "[]"]
    by (simp add: pmt_flags_def pmt_tree_def pmt_matches_def)
qed

section \<open>The bits of a filter\<close>

definition filter_bit :: "bytes \<Rightarrow> nat \<Rightarrow> bool" where
  "filter_bit data j = bit (data ! (j div 8)) (j mod 8)"

lemma set_filter_bit_bit:
  "idx < 8 * length d \<Longrightarrow> j < 8 * length d \<Longrightarrow> filter_bit (set_filter_bit d idx) j \<longleftrightarrow> filter_bit d j \<or> j = idx"
proof -
  assume "idx < 8 * length d" "j < 8 * length d"
  then have i: "idx div 8 < length d" by simp
  have b: "bit (push_bit k 1 :: u8) n \<longleftrightarrow> n = k" if "k < 8" for k n
  proof -
    have "bit (push_bit k 1 :: u8) n \<longleftrightarrow> n < 8 \<and> k \<le> n \<and> n - k = 0"
      by (auto simp: bit_push_bit_iff bit_1_iff simp del: push_bit_of_1)
    then show ?thesis using that by auto
  qed
  have "j = idx \<longleftrightarrow> j div 8 = idx div 8 \<and> j mod 8 = idx mod 8" by (metis div_mult_mod_eq)
  then show ?thesis using i b [of "idx mod 8" "j mod 8"]
    by (cases "j div 8 = idx div 8") (auto simp: filter_bit_def set_filter_bit_def bit_or_iff)
qed

lemma length_set_filter_bit [simp]: "length (set_filter_bit d i) = length d"
  by (simp add: set_filter_bit_def)

lemma foldl_set_filter_bit:
  assumes "j < 8 * length d" "\<forall>i \<in> set is. f i < 8 * length d"
  shows "filter_bit (foldl (\<lambda>d i. set_filter_bit d (f i)) d is) j \<longleftrightarrow> filter_bit d j \<or> (\<exists>i \<in> set is. f i = j)"
  using assms by (induction "is" arbitrary: d) (auto simp: set_filter_bit_bit)

lemma bip37_index_less:
  assumes "bf_data filt \<noteq> []" "8 * length (bf_data filt) < 2 ^ 32"
  shows "bip37_index filt data i < 8 * length (bf_data filt)"
proof -
  have "unat (of_nat (length (bf_data filt) * 8) :: u32) = 8 * length (bf_data filt)"
    using assms(2) by (simp only: unat_of_nat) simp
  then show ?thesis using assms(1) unfolding bip37_index_def unat_mod by simp
qed

section \<open>Rewriting getdata\<close>

definition inv_item :: "u32 \<times> bytes \<Rightarrow> bytes" where
  "inv_item it = ser_u256 (ser_u32 [] (fst it)) (snd it)"

definition to_filtered :: "u32 \<times> bytes \<Rightarrow> u32 \<times> bytes" where
  "to_filtered it = ((if fst it = DOGECOIN_INV_TYPE_BLOCK then DOGECOIN_INV_TYPE_FILTERED_BLOCK else fst it), snd it)"

lemma inv_item_append: "inv_item it = ser_u32 [] (fst it) @ ser_u256 [] (snd it)"
  unfolding inv_item_def by (rule ser_append)

lemma rewrite_items_encoded:
  assumes "\<forall>it \<in> set its. length (snd it) = 32"
  shows "rewrite_items (length its) (concat (map inv_item its) @ rest) out =
    Some (out @ concat (map (inv_item \<circ> to_filtered) its))"
  using assms
proof (induction its arbitrary: out)
  case (Cons it its)
  have "ser_u256 (ser_u32 out v) h = out @ ser_u32 [] v @ ser_u256 [] h" for v h
    by (simp add: ser_append [of out] ser_append [of "out @ _"])
  then show ?case using Cons
    by (simp add: inv_item_append to_filtered_def u256c.dec_enc u32c.dec_enc del: u32_dec_iff)
qed simp

section \<open>Consuming matches\<close>

definition txid_before :: "bytes \<Rightarrow> bytes \<Rightarrow> bool" where
  "txid_before a b \<longleftrightarrow> (a, b) \<in> lexord {(x, y). x < y}"

lemma memcmp_before: "length a = length b \<Longrightarrow> memcmp a b < 0 \<longleftrightarrow> txid_before a b"
  by (induction a b rule: memcmp.induct) (auto simp: txid_before_def)

lemma length_bytes32 [simp]: "length (bytes32 p) = 32"
  by (simp add: bytes32_def)

lemma bytes32_id: "length p = 32 \<Longrightarrow> bytes32 p = p"
  by (simp add: bytes32_def list_eq_iff_nth_eq)

interpretation mm: comparator bip37_merkle_match_cmp "\<lambda>m. bytes32 (mm_txid m)" txid_before
proof unfold_locales
  fix x y :: merkle_match
  show "bip37_merkle_match_cmp x y = 0 \<longleftrightarrow> bytes32 (mm_txid x) = bytes32 (mm_txid y)"
    unfolding bip37_merkle_match_cmp_def by (rule memcmp_eq) simp
  show "bip37_merkle_match_cmp x y < 0 \<longleftrightarrow> txid_before (bytes32 (mm_txid x)) (bytes32 (mm_txid y))"
    unfolding bip37_merkle_match_cmp_def by (rule memcmp_before) simp
next
  fix a b c :: bytes
  show "\<not> txid_before a a" unfolding txid_before_def by (rule lexord_irreflexive) auto
  show "txid_before a b \<Longrightarrow> txid_before b c \<Longrightarrow> txid_before a c"
    unfolding txid_before_def by (rule lexord_trans) (auto intro: transI)
  show "a \<noteq> b \<Longrightarrow> txid_before a b \<or> txid_before b a"
    unfolding txid_before_def using lexord_linear [of "{(x, y). x < y}" a b] by fastforce
qed

lemma inorder_mark_consumed:
  assumes "bst_wrt mm.lt t"
  shows "inorder (mark_consumed key t) =
    map (\<lambda>m. if bytes32 (mm_txid m) = bytes32 (mm_txid key) then m\<lparr>mm_consumed := True\<rparr> else m) (inorder t)"
  using assms
proof (induction t)
  case (Node l a r)
  consider "bip37_merkle_match_cmp key a = 0" | "bip37_merkle_match_cmp key a < 0" | "bip37_merkle_match_cmp key a > 0" by linarith
  then show ?case
  proof cases
    case 1
    then have "bytes32 (mm_txid key) = bytes32 (mm_txid a)" by (simp add: mm.compar_zero)
    then have "\<forall>x \<in> set (inorder l) \<union> set (inorder r). bytes32 (mm_txid x) \<noteq> bytes32 (mm_txid key)"
      using Node.prems mm.before_irrefl by auto
    then show ?thesis using 1 \<open>bytes32 (mm_txid key) = bytes32 (mm_txid a)\<close> by (auto intro!: map_idI [symmetric])
  next
    case 2
    then have lt: "mm.lt key a" by (simp add: mm.compar_neg)
    then have "\<forall>x \<in> set (inorder r). bytes32 (mm_txid x) \<noteq> bytes32 (mm_txid key)"
      using mm.skip_right [OF Node.prems lt] by simp
    then show ?thesis using 2 Node mm.before_neq [OF lt] by (auto simp: Let_def intro!: map_idI [symmetric])
  next
    case 3
    then have lt: "mm.lt a key" by (rule mm.compar_pos)
    then have "\<forall>x \<in> set (inorder l). bytes32 (mm_txid x) \<noteq> bytes32 (mm_txid key)"
      using mm.skip_left [OF Node.prems lt] by simp
    then show ?thesis using 3 Node mm.before_neq [OF lt] by (auto simp: Let_def intro!: map_idI [symmetric])
  qed
qed simp

lemma mark_consumed_bst:
  assumes "bst_wrt mm.lt t"
  shows "bst_wrt mm.lt (mark_consumed key t)"
proof -
  have "map (bytes32 \<circ> mm_txid) (inorder (mark_consumed key t)) = map (bytes32 \<circ> mm_txid) (inorder t)"
    unfolding inorder_mark_consumed [OF assms] by simp
  moreover have "sorted_wrt mm.lt ms \<longleftrightarrow> sorted_wrt txid_before (map (bytes32 \<circ> mm_txid) ms)" for ms
    by (simp add: sorted_wrt_map comp_def)
  ultimately show ?thesis using assms by (simp add: mm.bst_sorted)
qed

lemma mark_consumed_set:
  "bst_wrt mm.lt t \<Longrightarrow> set_tree (mark_consumed key t) =
    (\<lambda>m. if bytes32 (mm_txid m) = bytes32 (mm_txid key) then m\<lparr>mm_consumed := True\<rparr> else m) ` set_tree t"
  by (simp only: set_inorder [symmetric] inorder_mark_consumed set_map)

text \<open>What \<open>consume\<close> answers, in terms of the entries.\<close>

lemma consume_Some:
  assumes "bst_wrt mm.lt t"
  shows "fst (merkle_match_consume t n txid) = Some pos \<longleftrightarrow>
    (\<exists>m \<in> set_tree t. bytes32 (mm_txid m) = bytes32 txid \<and> \<not> mm_consumed m \<and> mm_pos m = pos)"
proof (cases "dogecoin_btree_tfind bip37_merkle_match_cmp \<lparr>mm_txid = txid, mm_pos = 0, mm_consumed = False\<rparr> t")
  case None
  then have "\<forall>m \<in> set_tree t. bytes32 (mm_txid m) \<noteq> bytes32 txid" using mm.tfind_None [OF assms] by simp
  then show ?thesis using None by (auto simp: merkle_match_consume_def Let_def)
next
  case (Some m)
  then have m: "m \<in> set_tree t" "bytes32 (mm_txid m) = bytes32 txid" using mm.tfind_Some [OF assms] by auto
  then have u: "m' = m" if "m' \<in> set_tree t" "bytes32 (mm_txid m') = bytes32 txid" for m'
    using mm.bst_keys_distinct [OF assms that(1) m(1)] that(2) by simp
  have "fst (merkle_match_consume t n txid) = (if mm_consumed m then None else Some (mm_pos m))"
    using Some by (simp add: merkle_match_consume_def)
  moreover have "(\<exists>m' \<in> set_tree t. bytes32 (mm_txid m') = bytes32 txid \<and> \<not> mm_consumed m' \<and> mm_pos m' = pos) \<longleftrightarrow>
      \<not> mm_consumed m \<and> mm_pos m = pos"
    using u m by blast
  ultimately show ?thesis by simp
qed

section \<open>The table holds what the walk reports\<close>

definition run_matches :: "(bytes \<Rightarrow> u32 \<Rightarrow> 's \<Rightarrow> bool \<times> 's) \<Rightarrow> (bytes \<times> u32) list \<Rightarrow> 's \<Rightarrow> 's" where
  "run_matches g ms c = fold (\<lambda>m c. snd (g (fst m) (snd m) c)) ms c"

lemma run_matches_simps [simp]:
  "run_matches g [] c = c" "run_matches g (m # ms) c = run_matches g ms (snd (g (fst m) (snd m) c))"
  "run_matches g (ms @ ms') c = run_matches g ms' (run_matches g ms c)"
  by (simp_all add: run_matches_def)

text \<open>A walk with a callback of one's own, next to the walk that collects the matches.\<close>

definition follows :: "(bytes \<Rightarrow> u32 \<Rightarrow> 's \<Rightarrow> bool \<times> 's) \<Rightarrow> (bytes \<times> u32) list \<Rightarrow> 's \<Rightarrow>
    bytes option \<times> nat \<times> nat \<times> (bytes \<times> u32) list \<Rightarrow> bytes option \<times> nat \<times> nat \<times> 's \<Rightarrow> bool" where
  "follows g ms c res res' =
     (case (res, res') of ((r, b, k, ms'), (r', b', k', c')) \<Rightarrow>
        r' = r \<and> b' = b \<and> k' = k \<and> (\<exists>new. ms' = ms @ new \<and> c' = run_matches g new c))"

lemma extract_leaf:
  assumes "b \<ge> flag_limit env \<or> h = 0 \<or> \<not> flag_bit env b"
  shows "extract_node env h pos (b, k, ctx) =
    (if b \<ge> flag_limit env then (None, b, k, ctx)
     else if k \<ge> unat (tv_hashCount env) then (None, b + 1, k, ctx)
     else case report env h (flag_bit env b) (hash_at env k) pos ctx of (ok, ctx) \<Rightarrow>
       (if ok then Some (hash_at env k) else None, b + 1, k + 1, ctx))"
  using assms by (subst extract_node.simps) auto

lemma follows_leaf:
  assumes "tv_on_match env = Some collect" "tv_on_match env' = Some g" "\<And>x p c. fst (g x p c)"
    and "tv_nTx env' = tv_nTx env" "flag_limit env' = flag_limit env" "flag_bit env' = flag_bit env"
      "hash_at env' = hash_at env" "tv_hashCount env' = tv_hashCount env"
    and "b \<ge> flag_limit env \<or> h = 0 \<or> \<not> flag_bit env b"
  shows "follows g ms c (extract_node env h pos (b, k, ms)) (extract_node env' h pos (b, k, c))"
proof -
  have "b \<ge> flag_limit env' \<or> h = 0 \<or> \<not> flag_bit env' b" using assms(9) by (simp only: assms(5,6))
  then show ?thesis
    unfolding follows_def extract_leaf [OF assms(9)] extract_leaf [OF \<open>_ \<or> h = 0 \<or> \<not> flag_bit env' b\<close>] assms(4-8)
    using assms(3) [of "hash_at env k" pos c] by (auto simp: report_def assms(1,2) collect_def split: prod.splits)
qed

lemma extract_follows:
  assumes "tv_on_match env = Some collect" "tv_on_match env' = Some g" "\<And>x p c. fst (g x p c)"
    and "tv_nTx env' = tv_nTx env" "flag_limit env' = flag_limit env" "flag_bit env' = flag_bit env"
      "hash_at env' = hash_at env" "tv_hashCount env' = tv_hashCount env"
  shows "follows g ms c (extract_node env h pos (b, k, ms)) (extract_node env' h pos (b, k, c))"
proof (induction h arbitrary: pos b k ms c)
  case 0
  show ?case by (rule follows_leaf [OF assms]) simp_all
next
  case (Suc h)
  show ?case
  proof (cases "b < flag_limit env \<and> flag_bit env b")
    case False
    then show ?thesis by (intro follows_leaf [OF assms]) auto
  next
    case True
    have step: "extract_node e (Suc h) pos (b, k, x) =
        (case extract_node e h (pos * 2) (b + 1, k, x) of
           (None, s) \<Rightarrow> (None, s)
         | (Some l, s) \<Rightarrow>
             if ucast (pos * 2 + 1) < tree_width (tv_nTx e) h then
               (case extract_node e h (pos * 2 + 1) s of
                  (None, s) \<Rightarrow> (None, s)
                | (Some r, s) \<Rightarrow> (Some (dogecoin_hash (l @ r)), s))
             else (Some (dogecoin_hash (l @ l)), s))"
      if "b < flag_limit e \<and> flag_bit e b" for e :: "'x traverse_env" and x
      using that by (subst extract_node.simps) simp
    have "b < flag_limit env' \<and> flag_bit env' b" using True assms(5,6) by simp
    obtain rl b1 k1 ms1 where e1: "extract_node env h (pos * 2) (b + 1, k, ms) = (rl, b1, k1, ms1)" by (metis prod_cases4)
    obtain new1 where f1: "ms1 = ms @ new1" "extract_node env' h (pos * 2) (b + 1, k, c) = (rl, b1, k1, run_matches g new1 c)"
      using Suc.IH [of ms c "pos * 2" "b + 1" k] e1
      by (cases "extract_node env' h (pos * 2) (b + 1, k, c)") (auto simp: follows_def)
    show ?thesis
    proof (cases "rl = None \<or> \<not> ucast (pos * 2 + 1) < tree_width (tv_nTx env) h")
      case True
      then show ?thesis
        unfolding follows_def step [OF \<open>b < flag_limit env \<and> flag_bit env b\<close>] step [OF \<open>b < flag_limit env' \<and> flag_bit env' b\<close>] e1 f1
        by (cases rl) (auto simp: assms(4))
    next
      case False
      then obtain l where l: "rl = Some l" by auto
      obtain rr b2 k2 ms2 where e2: "extract_node env h (pos * 2 + 1) (b1, k1, ms1) = (rr, b2, k2, ms2)" by (metis prod_cases4)
      obtain new2 where f2: "ms2 = ms1 @ new2"
        "extract_node env' h (pos * 2 + 1) (b1, k1, run_matches g new1 c) = (rr, b2, k2, run_matches g new2 (run_matches g new1 c))"
        using Suc.IH [of ms1 "run_matches g new1 c" "pos * 2 + 1" b1 k1] e2
        by (cases "extract_node env' h (pos * 2 + 1) (b1, k1, run_matches g new1 c)") (auto simp: follows_def)
      have right: "ucast (pos * 2 + 1) < tree_width (tv_nTx env) h" "ucast (pos * 2 + 1) < tree_width (tv_nTx env') h"
        using False by (simp_all add: assms(4))
      have s1: "extract_node env (Suc h) pos (b, k, ms) = (map_option (\<lambda>r. dogecoin_hash (l @ r)) rr, b2, k2, ms2)"
        unfolding step [OF \<open>b < flag_limit env \<and> flag_bit env b\<close>] e1 l using right e2 by (cases rr) simp_all
      have s2: "extract_node env' (Suc h) pos (b, k, c) =
          (map_option (\<lambda>r. dogecoin_hash (l @ r)) rr, b2, k2, run_matches g new2 (run_matches g new1 c))"
        unfolding step [OF \<open>b < flag_limit env' \<and> flag_bit env' b\<close>] f1(2) l using right f2(2) by (cases rr) simp_all
      show ?thesis unfolding follows_def s1 s2 f1(1) f2(1) by simp
    qed
  qed
qed

lemma traverse_runs:
  assumes "\<And>x p c. fst (g x p c)"
    and "traverse_merkle_matches nTx hashes hashCount flags flags_len root (Some collect) [] = (ok, ms)"
  shows "traverse_merkle_matches nTx hashes hashCount flags flags_len root (Some g) c = (ok, run_matches g ms c)"
proof (cases "hashCount = 0 \<or> flags_len = 0 \<or> height_loop 34 nTx 0 = None")
  case True
  then show ?thesis using assms(2) by (auto simp: traverse_merkle_matches_def)
next
  case False
  then obtain H where nz: "hashCount \<noteq> 0" "flags_len \<noteq> 0" and H: "height_loop 34 nTx 0 = Some H" by auto
  let ?env = "\<lambda>m. \<lparr>tv_nTx = nTx, tv_hashes = hashes, tv_hashCount = hashCount, tv_flags = flags, tv_flags_len = flags_len,
                tv_on_match = m\<rparr>"
  have "follows g [] c (extract_node (?env (Some collect)) H 0 (0, 0, [])) (extract_node (?env (Some g)) H 0 (0, 0, c))"
    by (rule extract_follows) (simp_all add: assms(1) fun_eq_iff flag_limit_def flag_bit_def hash_at_def)
  then show ?thesis
    using assms(2) unfolding traverse_eq_extract [OF nz H refl] by (auto simp: follows_def split: prod.splits)
qed

definition match_entry :: "bytes \<times> u32 \<Rightarrow> merkle_match" where
  "match_entry m = \<lparr>mm_txid = fst m, mm_pos = snd m, mm_consumed = False\<rparr>"

lemma run_collect:
  assumes "bst_wrt mm.lt t" "\<forall>m \<in> set ms. length (fst m) = 32" "distinct (map fst ms)"
    and "\<forall>x \<in> set_tree t. \<forall>m \<in> set ms. bytes32 (mm_txid x) \<noteq> fst m"
  shows "\<exists>t'. run_matches bip37_merkle_collect_match ms (t, n) = (t', n + of_nat (length ms)) \<and>
    bst_wrt mm.lt t' \<and> set_tree t' = set_tree t \<union> match_entry ` set ms"
  using assms
proof (induction ms arbitrary: t n)
  case (Cons m ms)
  let ?t = "dogecoin_btree_tsearch bip37_merkle_match_cmp (match_entry m) t"
  have m32: "bytes32 (mm_txid (match_entry m)) = fst m" using Cons.prems(2) by (simp add: match_entry_def bytes32_id)
  have new: "dogecoin_btree_tfind bip37_merkle_match_cmp (match_entry m) t = None"
    using mm.tfind_None [OF Cons.prems(1)] Cons.prems(4) m32 by simp
  have step: "snd (bip37_merkle_collect_match (fst m) (snd m) (t, n)) = (?t, n + 1)"
    using new by (simp add: bip37_merkle_collect_match_def match_entry_def)
  have s: "set_tree ?t = insert (match_entry m) (set_tree t)" using mm.tsearch_set [OF Cons.prems(1)] new by simp
  have "\<forall>x \<in> set_tree ?t. \<forall>m \<in> set ms. bytes32 (mm_txid x) \<noteq> fst m"
    using s m32 Cons.prems(3,4) by auto
  from Cons.IH [OF mm.tsearch_bst [OF Cons.prems(1)] _ _ this, of "n + 1"] Cons.prems(2,3)
  show ?case using step s by (auto simp: add.assoc)
qed simp

lemma extract_match_tree_table:
  assumes "traverse_merkle_matches nTx hashes hashCount flags flags_len root (Some collect) [] = (ok, ms)"
    and "\<forall>m \<in> set ms. length (fst m) = 32" "distinct (map fst ms)"
  obtains t where "merkle_extract_match_tree nTx hashes hashCount flags flags_len root Leaf = (ok, t, of_nat (length ms))"
    "bst_wrt mm.lt t" "set_tree t = match_entry ` set ms"
proof -
  have "fst (bip37_merkle_collect_match x p c)" for x p c
    by (cases c) (simp add: bip37_merkle_collect_match_def Let_def)
  note r = traverse_runs [where g = bip37_merkle_collect_match, OF this assms(1)]
  show thesis
    using that run_collect [of Leaf ms 0] assms(2,3) unfolding merkle_extract_match_tree_def r by auto
qed

section \<open>Properties\<close>



text \<open>
  C14. The walk accepts the encoding of BIP 37 and finds exactly the matches: for every block of up to
  \<open>2 ^ 26\<close> transactions and every set \<open>M\<close> of positions, the flags and hashes of the partial tree of \<open>M\<close>
  lead to the merkle root, and the callback sees the identifiers at the positions of \<open>M\<close>, in order.
\<close>

theorem partial_tree_complete:
  assumes "xs \<noteq> []" "length xs \<le> 2 ^ 26" "list_all (\<lambda>x. length x = 32) xs"
  shows "traverse_merkle_matches (of_nat (length xs)) (concat (pmt_tree M xs)) (of_nat (length (pmt_tree M xs)))
      (pmt_flags M xs) (of_nat (length (pmt_flags M xs))) (merkle_root xs) (Some collect) [] =
    (True, map (\<lambda>j. (xs ! j, of_nat j)) (filter M [0..<length xs]))"
  by (rule encoded_accepted [OF assms])

theorem partial_tree_complete_witness:
  "snd (traverse_merkle_matches 3 (concat (pmt_tree (\<lambda>j. j = 2) [replicate 32 1, replicate 32 2, replicate 32 3]))
      (of_nat (length (pmt_tree (\<lambda>j. j = 2) [replicate 32 1, replicate 32 2, replicate 32 3])))
      (pmt_flags (\<lambda>j. j = 2) [replicate 32 1, replicate 32 2, replicate 32 3])
      (of_nat (length (pmt_flags (\<lambda>j. j = 2) [replicate 32 1, replicate 32 2, replicate 32 3])))
      (merkle_root [replicate 32 1, replicate 32 2, replicate 32 3]) (Some collect) []) = [(replicate 32 3, 2)]"
  using partial_tree_complete [of "[replicate 32 1, replicate 32 2, replicate 32 3]" "\<lambda>j. j = 2"] by (simp add: upt_rec)

text \<open>
  C16. From a partial tree to the table: for distinct identifiers the table built from the encoding of \<open>M\<close>
  counts the matches, and consuming the identifier at position \<open>j\<close> answers \<open>j\<close> exactly when \<open>M\<close> holds there.
\<close>

theorem match_table_answers:
  assumes "xs \<noteq> []" "length xs \<le> 2 ^ 26" "list_all (\<lambda>x. length x = 32) xs" "distinct xs" "j < length xs"
  shows "\<exists>t. merkle_extract_match_tree (of_nat (length xs)) (concat (pmt_tree M xs)) (of_nat (length (pmt_tree M xs)))
      (pmt_flags M xs) (of_nat (length (pmt_flags M xs))) (merkle_root xs) Leaf =
      (True, t, of_nat (length (filter M [0..<length xs]))) \<and>
    fst (merkle_match_consume t n (xs ! j)) = (if M j then Some (of_nat j) else None)"
proof -
  let ?ms = "map (\<lambda>j. (xs ! j, of_nat j :: u32)) (filter M [0..<length xs])"
  have l32: "length (xs ! i) = 32" if "i < length xs" for i using assms(3) that by (simp add: list_all_length)
  have inj: "xs ! i = xs ! j \<Longrightarrow> i < length xs \<Longrightarrow> i = j" for i
    using assms(4,5) by (simp add: nth_eq_iff_index_eq)
  have d: "distinct (map fst ?ms)"
    using assms(4) by (auto simp: distinct_map inj_on_def nth_eq_iff_index_eq)
  have l: "\<forall>m \<in> set ?ms. length (fst m) = 32" using l32 by auto
  obtain t where t: "merkle_extract_match_tree (of_nat (length xs)) (concat (pmt_tree M xs))
      (of_nat (length (pmt_tree M xs))) (pmt_flags M xs) (of_nat (length (pmt_flags M xs))) (merkle_root xs) Leaf =
      (True, t, of_nat (length ?ms))" "bst_wrt mm.lt t" "set_tree t = match_entry ` set ?ms"
    by (rule extract_match_tree_table [OF encoded_accepted [OF assms(1-3), where M = M] l d]) (rule that)
  have "(\<exists>m \<in> set_tree t. bytes32 (mm_txid m) = bytes32 (xs ! j) \<and> \<not> mm_consumed m \<and> mm_pos m = p) \<longleftrightarrow>
      M j \<and> p = of_nat j" for p
    unfolding t(3) using inj assms(5) l32 by (auto simp: match_entry_def bytes32_id image_iff)
  then have "fst (merkle_match_consume t n (xs ! j)) = Some p \<longleftrightarrow> M j \<and> p = of_nat j" for p
    using consume_Some [OF t(2)] by simp
  then have "fst (merkle_match_consume t n (xs ! j)) = (if M j then Some (of_nat j) else None)"
    by (cases "fst (merkle_match_consume t n (xs ! j))") (auto split: if_splits)
  then show ?thesis using t(1) by simp
qed

theorem match_table_answers_witness:
  "\<exists>t. merkle_extract_match_tree 2 (concat (pmt_tree (\<lambda>j. j = 1) [replicate 32 1, replicate 32 2]))
      (of_nat (length (pmt_tree (\<lambda>j. j = 1) [replicate 32 1, replicate 32 2])))
      (pmt_flags (\<lambda>j. j = 1) [replicate 32 1, replicate 32 2])
      (of_nat (length (pmt_flags (\<lambda>j. j = 1) [replicate 32 1, replicate 32 2])))
      (merkle_root [replicate 32 1, replicate 32 2]) Leaf = (True, t, 1) \<and>
    fst (merkle_match_consume t 1 (replicate 32 2)) = Some 1"
  using match_table_answers [of "[replicate 32 1, replicate 32 2]" 1 "\<lambda>j. j = 1" 1] by (simp add: upt_rec)

text \<open>
  A match is consumed once: after its position was handed out, the same identifier is refused whatever
  the counter says, and every other identifier is answered as before.
\<close>

theorem match_consumed_once:
  assumes "bst_wrt mm.lt t" "merkle_match_consume t n txid = (Some pos, t', n')"
  shows "fst (merkle_match_consume t' k txid) = None \<and>
    (bytes32 other = bytes32 txid \<or> fst (merkle_match_consume t' k other) = fst (merkle_match_consume t k other))"
proof -
  have t': "t' = mark_consumed \<lparr>mm_txid = txid, mm_pos = 0, mm_consumed = False\<rparr> t"
    using assms(2) by (auto simp: merkle_match_consume_def Let_def split: option.splits if_splits)
  have b: "bst_wrt mm.lt t'" unfolding t' by (rule mark_consumed_bst [OF assms(1)])
  have s: "set_tree t' = (\<lambda>m. if bytes32 (mm_txid m) = bytes32 txid then m\<lparr>mm_consumed := True\<rparr> else m) ` set_tree t"
    unfolding t' mark_consumed_set [OF assms(1)] by simp
  have "fst (merkle_match_consume t' k txid) \<noteq> Some p" for p
    unfolding consume_Some [OF b] s by auto
  moreover have "fst (merkle_match_consume t' k other) = Some p \<longleftrightarrow> fst (merkle_match_consume t k other) = Some p"
    if "bytes32 other \<noteq> bytes32 txid" for p
    unfolding consume_Some [OF b] consume_Some [OF assms(1)] s using that by auto
  ultimately show ?thesis by (metis not_None_eq)
qed

theorem match_consumed_once_witness:
  "fst (merkle_match_consume (Node Leaf (match_entry (replicate 32 2, 1)) Leaf) 1 (replicate 32 2)) = Some 1 \<and>
    fst (merkle_match_consume (mark_consumed (match_entry (replicate 32 2, 0)) (Node Leaf (match_entry (replicate 32 2, 1)) Leaf))
      0 (replicate 32 2)) = None"
proof -
  let ?t = "Node Leaf (match_entry (replicate 32 2, 1)) Leaf"
  have "merkle_match_consume ?t 1 (replicate 32 2) = (Some 1, mark_consumed (match_entry (replicate 32 2, 0)) ?t, 0)"
    by (simp add: merkle_match_consume_def match_entry_def bip37_merkle_match_cmp_def memcmp_eq)
  then show ?thesis using match_consumed_once [of ?t 1 "replicate 32 2" 1 _ 0 0 "[]"] by simp
qed

text \<open>
  Adding to a bloom filter: the bits set afterwards are the bits set before and the one bit of each of
  the \<open>n_hash_funcs\<close> hashes of the data, all of them inside the filter.
\<close>

theorem filter_add_bits:
  assumes "data \<noteq> []" "bf_data filt \<noteq> []" "8 * length (bf_data filt) < 2 ^ 32" "j < 8 * length (bf_data filt)"
  shows "\<exists>filt'. bip37_filter_add filt data = (True, filt') \<and> length (bf_data filt') = length (bf_data filt) \<and>
    (filter_bit (bf_data filt') j \<longleftrightarrow>
      filter_bit (bf_data filt) j \<or> (\<exists>i < unat (bf_n_hash_funcs filt). bip37_index filt data i = j))"
proof -
  have "length (foldl (\<lambda>d i. set_filter_bit d (f i)) d is) = length d" for f d and "is" :: "nat list"
    by (induction "is" arbitrary: d) auto
  moreover have "filter_bit (foldl (\<lambda>d i. set_filter_bit d (bip37_index filt data i)) (bf_data filt)
      [0..<unat (bf_n_hash_funcs filt)]) j \<longleftrightarrow>
      filter_bit (bf_data filt) j \<or> (\<exists>i \<in> set [0..<unat (bf_n_hash_funcs filt)]. bip37_index filt data i = j)"
    by (rule foldl_set_filter_bit [OF assms(4)]) (simp add: bip37_index_less [OF assms(2,3)])
  ultimately show ?thesis using assms(1,2) by (simp add: bip37_filter_add_def Bex_def)
qed

theorem filter_add_bits_witness:
  "\<exists>filt'. bip37_filter_add (bip37_filter_new 1 0 0) [1, 2, 3] = (True, filt') \<and>
    filter_bit (bf_data filt') (bip37_index (bip37_filter_new 1 0 0) [1, 2, 3] 7)"
proof -
  let ?f = "bip37_filter_new 1 0 0"
  have f: "bf_data ?f \<noteq> []" "8 * length (bf_data ?f) < 2 ^ 32" "unat (bf_n_hash_funcs ?f) = 50"
    by (simp_all add: bip37_filter_new_def)
  obtain f' where "bip37_filter_add ?f [1, 2, 3] = (True, f')"
    "filter_bit (bf_data f') (bip37_index ?f [1, 2, 3] 7) \<longleftrightarrow> filter_bit (bf_data ?f) (bip37_index ?f [1, 2, 3] 7) \<or>
      (\<exists>i < unat (bf_n_hash_funcs ?f). bip37_index ?f [1, 2, 3] i = bip37_index ?f [1, 2, 3] 7)"
    using filter_add_bits [OF _ f(1,2) bip37_index_less [OF f(1,2)], of "[1, 2, 3]" "[1, 2, 3]" 7] by blast
  moreover have "(7 :: nat) < unat (bf_n_hash_funcs ?f)" using f(3) by simp
  ultimately show ?thesis by blast
qed

text \<open>
  Rewriting a getdata request keeps its items and their order: BLOCK becomes FILTERED_BLOCK, every other
  type and every hash is kept, what follows the items is dropped, and the number of items is reported.
\<close>

theorem filtered_getdata_rewrites:
  assumes "length its < 2 ^ 32" "\<forall>it \<in> set its. length (snd it) = 32"
  shows "build_filtered_getdata_payload (ser_varlen [] (of_nat (length its)) @ concat (map inv_item its) @ rest) =
    Some (ser_varlen [] (of_nat (length its)) @ concat (map (inv_item \<circ> to_filtered) its), of_nat (length its))"
proof -
  have "unat (of_nat (length its) :: u32) = length its" using assms(1) by (simp add: unat_of_nat)
  then show ?thesis using rewrite_items_encoded [OF assms(2)]
    by (simp add: build_filtered_getdata_payload_def varlenc.dec_enc)
qed

theorem filtered_getdata_rewrites_witness:
  "build_filtered_getdata_payload (ser_varlen [] 2 @ inv_item (2, replicate 32 5) @ inv_item (1, replicate 32 6) @ [9]) =
    Some (ser_varlen [] 2 @ inv_item (3, replicate 32 5) @ inv_item (1, replicate 32 6), 2)"
  using filtered_getdata_rewrites [of "[(2, replicate 32 5), (1, replicate 32 6)]" "[9]"] by (simp add: to_filtered_def)

end
