(* ===== verification/Protocol.thy ===== *)
theory Protocol
  imports CStr Vector Sha2
begin

text \<open>
  Model of \<open>src/src/protocol.c\<close>: the frame of a message and its header, network addresses, and the
  version, inventory and getheaders messages.

  A reader returns \<open>None\<close> where the code returns false; the fields filled in before are dropped with the
  message, as in the callers. The getheaders reader works on the caller's vector and returns it in
  every case. The clock and the random nonce of a new version message are arguments. A
  \<open>struct sockaddr\<close> is the memory it occupies (the layout of Linux: the family in the first two bytes, the
  port in the next two, the address at offset 4 or 8).
\<close>

section \<open>The frame of a message\<close>

record p2p_msg_hdr =
  hdr_netmagic :: bytes
  hdr_command :: bytes
  hdr_data_len :: u32
  hdr_hash :: bytes

text \<open>\<open>command\<close> is a C string without its NUL; a name of more than 12 characters leaves the array.\<close>

definition p2p_message_new :: "bytes \<Rightarrow> bytes \<Rightarrow> bytes \<Rightarrow> u32 \<Rightarrow> bytes c_outcome" where
  "p2p_message_new netmagic command data data_len =
     seqc (memcpy_safe (replicate 12 0) 0 (Some command) (length command)) (\<lambda>command_null.
       if length data < unat data_len then Inl OutOfBounds
       else
         let dat = take (unat data_len) data;
             msghash = dogecoin_hash dat;
             s = ser_bytes [] (take 4 netmagic);
             s = ser_bytes s command_null;
             s = ser_u32 s data_len;
             s = ser_bytes s (take 4 msghash) in
         Inr (if data_len > 0 then ser_bytes s dat else s))"

text \<open>The results of the readers are not checked: a field keeps its value when the buffer is too short.\<close>

definition or_keep :: "'a deser \<Rightarrow> 'a \<Rightarrow> bytes \<Rightarrow> 'a \<times> bytes" where
  "or_keep d old buf = (case d buf of None \<Rightarrow> (old, buf) | Some r \<Rightarrow> r)"

definition p2p_deser_msghdr :: "p2p_msg_hdr \<Rightarrow> bytes \<Rightarrow> p2p_msg_hdr \<times> bytes" where
  "p2p_deser_msghdr hdr buf =
     (let (magic, buf) = or_keep (deser_bytes 4) (hdr_netmagic hdr) buf;
          (command, buf) = or_keep (deser_bytes 12) (hdr_command hdr) buf;
          (data_len, buf) = or_keep deser_u32 (hdr_data_len hdr) buf;
          (hash, buf) = or_keep (deser_bytes 4) (hdr_hash hdr) buf in
      (\<lparr>hdr_netmagic = magic, hdr_command = command, hdr_data_len = data_len, hdr_hash = hash\<rparr>, buf))"

section \<open>Addresses\<close>

record p2p_address =
  pa_time :: u32
  pa_services :: u64
  pa_ip :: bytes
  pa_port :: u16

definition p2p_address_init :: p2p_address where
  "p2p_address_init = \<lparr>pa_time = 0, pa_services = 0, pa_ip = replicate 16 0, pa_port = 0\<rparr>"

abbreviation DOGECOIN_ADDR_TIME_VERSION :: u32 where "DOGECOIN_ADDR_TIME_VERSION \<equiv> 31402"

definition p2p_deser_addr :: "u32 \<Rightarrow> p2p_address deser" where
  "p2p_deser_addr protocol_version buf =
     do { (time, buf) \<leftarrow> (if protocol_version \<ge> DOGECOIN_ADDR_TIME_VERSION then deser_u32 buf else Some (0, buf));
          (services, buf) \<leftarrow> deser_u64 buf;
          (ip, buf) \<leftarrow> deser_bytes 16 buf;
          (port, buf) \<leftarrow> deser_u16 buf;
          Some (\<lparr>pa_time = time, pa_services = services, pa_ip = ip, pa_port = port\<rparr>, buf) }"

definition p2p_ser_addr :: "u32 \<Rightarrow> p2p_address \<Rightarrow> bytes \<Rightarrow> bytes" where
  "p2p_ser_addr protover addr s =
     (let s = (if protover \<ge> DOGECOIN_ADDR_TIME_VERSION then ser_u32 s (pa_time addr) else s);
          s = ser_u64 s (pa_services addr);
          s = ser_bytes s (take 16 (pa_ip addr)) in
      ser_u16 s (pa_port addr))"

definition DOGECOIN_IPV4_PREFIX :: bytes where
  "DOGECOIN_IPV4_PREFIX = [0, 0, 0, 0, 0, 0, 0, 0, 0, 0, 0xff, 0xff]"

definition is_ipv4_mapped :: "bytes \<Rightarrow> bool" where
  "is_ipv4_mapped ipaddr = (take 12 ipaddr = DOGECOIN_IPV4_PREFIX)"

text \<open>The field of \<open>n\<close> bytes at an offset of a socket address, and a big-endian port.\<close>

definition field_at :: "bytes \<Rightarrow> nat \<Rightarrow> nat \<Rightarrow> bytes c_outcome" where
  "field_at sa off n = (if off + n \<le> length sa then Inr (take n (drop off sa)) else Inl OutOfBounds)"

definition put_field :: "bytes \<Rightarrow> nat \<Rightarrow> bytes \<Rightarrow> bytes c_outcome" where
  "put_field sa off p = (if off + length p \<le> length sa then Inr (blit sa off p) else Inl OutOfBounds)"

definition sa_family :: "bytes \<Rightarrow> u16 c_outcome" where
  "sa_family sa = seqc (field_at sa 0 2) (\<lambda>p. Inr (of_nat (le_val p)))"

definition ntohs :: "bytes \<Rightarrow> u16" where
  "ntohs p = of_nat (le_val (rev p))"

definition htons :: "u16 \<Rightarrow> bytes" where
  "htons v = rev (le_bytes 2 (unat v))"

abbreviation AF_INET :: u16 where "AF_INET \<equiv> 2"
abbreviation AF_INET6 :: u16 where "AF_INET6 \<equiv> 10"

definition addr_to_p2paddr :: "bytes \<Rightarrow> p2p_address \<Rightarrow> p2p_address c_outcome" where
  "addr_to_p2paddr sa addr_out =
     seqc (sa_family sa) (\<lambda>family.
       if family = AF_INET6 then
         seqc (field_at sa 8 16) (\<lambda>ip.
         seqc (field_at sa 2 2) (\<lambda>port. Inr (addr_out\<lparr>pa_ip := ip, pa_port := ntohs port\<rparr>)))
       else if family = AF_INET then
         seqc (field_at sa 4 4) (\<lambda>ip.
         seqc (field_at sa 2 2) (\<lambda>port.
           Inr (addr_out\<lparr>pa_ip := replicate 10 0 @ replicate 2 0xff @ ip, pa_port := ntohs port\<rparr>)))
       else Inr addr_out)"

text \<open>The family of the result is left as it was.\<close>

definition p2paddr_to_addr :: "p2p_address \<Rightarrow> bytes \<Rightarrow> bytes c_outcome" where
  "p2paddr_to_addr p2p_addr addr_out =
     (if \<not> is_ipv4_mapped (pa_ip p2p_addr) then
        seqc (put_field addr_out 8 (take 16 (pa_ip p2p_addr))) (\<lambda>sa. put_field sa 2 (htons (pa_port p2p_addr)))
      else
        seqc (put_field addr_out 4 (take 4 (drop 12 (pa_ip p2p_addr)))) (\<lambda>sa. put_field sa 2 (htons (pa_port p2p_addr))))"

section \<open>The version message\<close>

text \<open>Signed fields are words read through \<open>sint\<close>; \<open>vm_useragent\<close> is the array of 128 chars.\<close>

record p2p_version_msg =
  vm_version :: u32
  vm_services :: u64
  vm_timestamp :: u64
  vm_addr_recv :: p2p_address
  vm_addr_from :: p2p_address
  vm_nonce :: u64
  vm_useragent :: bytes
  vm_start_height :: u32
  vm_relay :: u8

abbreviation DOGECOIN_PROTOCOL_VERSION :: u32 where "DOGECOIN_PROTOCOL_VERSION \<equiv> 70015"

text \<open>\<open>now\<close> is the clock, \<open>random_nonce\<close> what the random source delivered, if it did.\<close>

definition p2p_msg_version_init ::
  "p2p_version_msg \<Rightarrow> p2p_address option \<Rightarrow> p2p_address option \<Rightarrow> bytes option \<Rightarrow> u8 \<Rightarrow> u64 \<Rightarrow> u64 option \<Rightarrow>
    p2p_version_msg c_outcome" where
  "p2p_msg_version_init msg addrFrom addrTo strSubVer relay now random_nonce =
     seqc (case strSubVer of
             None \<Rightarrow> Inr (vm_useragent msg)
           | Some s \<Rightarrow> if length s < 128 then memcpy_safe (vm_useragent msg) 0 (Some s) (length s) else Inr (vm_useragent msg))
       (\<lambda>useragent.
         Inr (msg\<lparr>vm_version := DOGECOIN_PROTOCOL_VERSION, vm_services := 0, vm_timestamp := now,
                  vm_addr_recv := (case addrTo of Some a \<Rightarrow> a | None \<Rightarrow> p2p_address_init),
                  vm_addr_from := (case addrFrom of Some a \<Rightarrow> a | None \<Rightarrow> p2p_address_init),
                  vm_nonce := (case random_nonce of Some n \<Rightarrow> n | None \<Rightarrow> 0),
                  vm_useragent := useragent, vm_start_height := 0, vm_relay := relay\<rparr>))"

text \<open>\<open>ser_str\<close> may look at 1024 chars: without a NUL among the 128 it leaves the array.\<close>

definition p2p_msg_version_ser :: "p2p_version_msg \<Rightarrow> bytes \<Rightarrow> bytes c_outcome" where
  "p2p_msg_version_ser msg buf =
     (let buf = ser_s32 buf (vm_version msg);
          buf = ser_u64 buf (vm_services msg);
          buf = ser_s64 buf (vm_timestamp msg);
          buf = p2p_ser_addr 0 (vm_addr_recv msg) buf;
          buf = p2p_ser_addr 0 (vm_addr_from msg) buf;
          buf = ser_u64 buf (vm_nonce msg) in
      if 0 \<notin> set (vm_useragent msg) then Inl OutOfBounds
      else
        let buf = ser_str buf (vm_useragent msg) 1024;
            buf = ser_s32 buf (vm_start_height msg) in
        Inr (ser_bytes buf [vm_relay msg]))"

definition p2p_msg_version_deser :: "p2p_version_msg deser" where
  "p2p_msg_version_deser buf =
     do { (version, buf) \<leftarrow> deser_s32 buf;
          (services, buf) \<leftarrow> deser_u64 buf;
          (timestamp, buf) \<leftarrow> deser_s64 buf;
          (addr_recv, buf) \<leftarrow> p2p_deser_addr 0 buf;
          (addr_from, buf) \<leftarrow> p2p_deser_addr 0 buf;
          (nonce, buf) \<leftarrow> deser_u64 buf;
          (ua_len, buf) \<leftarrow> deser_varlen buf;
          let cpy_len = (if ua_len > 128 then 128 else ua_len);
          if ua_len > 1024 then None
          else
            do { (ua_str, buf) \<leftarrow> deser_bytes (unat ua_len) buf;
                 let useragent = blit (replicate 128 0) 0 (take (unat cpy_len) ua_str);
                 (start_height, buf) \<leftarrow> deser_s32 buf;
                 (relay, buf) \<leftarrow> (if sint version > 70003 then deser_bytes 1 buf else Some ([0], buf));
                 Some (\<lparr>vm_version = version, vm_services = services, vm_timestamp = timestamp, vm_addr_recv = addr_recv,
                        vm_addr_from = addr_from, vm_nonce = nonce, vm_useragent = useragent,
                        vm_start_height = start_height, vm_relay = hd relay\<rparr>, buf) } }"

section \<open>Inventory items\<close>

record p2p_inv_msg =
  inv_type :: u32
  inv_hash :: bytes

definition p2p_msg_inv_init :: "u32 \<Rightarrow> bytes \<Rightarrow> p2p_inv_msg" where
  "p2p_msg_inv_init typ hash = \<lparr>inv_type = typ, inv_hash = take 32 hash\<rparr>"

definition p2p_msg_inv_ser :: "p2p_inv_msg \<Rightarrow> bytes \<Rightarrow> bytes" where
  "p2p_msg_inv_ser msg buf = ser_bytes (ser_u32 buf (inv_type msg)) (take 32 (inv_hash msg))"

definition p2p_msg_inv_deser :: "p2p_inv_msg deser" where
  "p2p_msg_inv_deser buf =
     do { (typ, buf) \<leftarrow> deser_u32 buf;
          (hash, buf) \<leftarrow> deser_u256 buf;
          Some (\<lparr>inv_type = typ, inv_hash = hash\<rparr>, buf) }"

section \<open>The getheaders message\<close>

text \<open>Nothing is copied for a NULL locator: \<open>uninit\<close>, 32 bytes of the new memory, stands in its place.\<close>

fun ser_locators :: "bytes \<Rightarrow> bytes \<Rightarrow> bytes option list \<Rightarrow> bytes" where
  "ser_locators uninit s [] = s"
| "ser_locators uninit s (None # hs) = ser_locators uninit (ser_bytes s (take 32 uninit)) hs"
| "ser_locators uninit s (Some h # hs) = ser_locators uninit (ser_bytes s (take 32 h)) hs"

text \<open>\<open>hashstop\<close> may be NULL.\<close>

definition p2p_msg_getheaders :: "bytes \<Rightarrow> bytes vector_t \<Rightarrow> bytes option \<Rightarrow> bytes \<Rightarrow> bytes c_outcome" where
  "p2p_msg_getheaders uninit blocklocators hashstop s =
     (let s = ser_u32 s DOGECOIN_PROTOCOL_VERSION;
          s = ser_varlen s (ucast (vec_len blocklocators)) in
      if unat (vec_len blocklocators) > length (vec_data blocklocators) then Inl OutOfBounds
      else
        let s = ser_locators uninit s (take (unat (vec_len blocklocators)) (vec_data blocklocators)) in
        Inr (case hashstop of Some h \<Rightarrow> ser_bytes s (take 32 h) | None \<Rightarrow> ser_bytes s (replicate 32 0)))"

text \<open>The loop over the locators: whether it read them all, the vector and the rest of the buffer.\<close>

fun read_locators :: "(nat \<Rightarrow> bytes option) \<Rightarrow> nat \<Rightarrow> bytes vector_t \<Rightarrow> bytes \<Rightarrow> (bool \<times> bytes vector_t \<times> bytes) c_outcome option" where
  "read_locators junk 0 vec buf = Some (Inr (True, vec, buf))"
| "read_locators junk (Suc n) vec buf =
     (case deser_u256 buf of
        None \<Rightarrow> Some (Inr (False, vec, buf))
      | Some (h, buf) \<Rightarrow>
          do { r \<leftarrow> vector_add junk vec (Some h);
               case r of
                 Inl e \<Rightarrow> Some (Inl e)
               | Inr (_, vec) \<Rightarrow> read_locators junk n vec buf })"

text \<open>
  The result, the vector, the stop hash (\<open>None\<close> when it was not read), the rest of the buffer and what the
  truncating \<open>vector_resize\<close> released. Its result is not looked at.
\<close>

definition p2p_deser_msg_getheaders ::
  "(nat \<Rightarrow> bytes option) \<Rightarrow> bytes vector_t \<Rightarrow> bytes \<Rightarrow>
    (bool \<times> bytes vector_t \<times> bytes option \<times> bytes \<times> bytes option list) c_outcome option" where
  "p2p_deser_msg_getheaders junk blocklocators buf =
     (case do { (version, b) \<leftarrow> deser_s32 buf; deser_varlen b } of
        None \<Rightarrow> Some (Inr (False, blocklocators, None, buf, []))
      | Some (vsize, b) \<Rightarrow>
          if unat vsize > length b div 32 then Some (Inr (False, blocklocators, None, b, []))
          else
            do { r \<leftarrow> vector_resize junk blocklocators (ucast vsize);
                 case r of
                   Inl e \<Rightarrow> Some (Inl e)
                 | Inr (_, vec, freed) \<Rightarrow>
                     do { l \<leftarrow> read_locators junk (unat vsize) vec b;
                          case l of
                            Inl e \<Rightarrow> Some (Inl e)
                          | Inr (False, vec, b) \<Rightarrow> Some (Inr (False, vec, None, b, freed))
                          | Inr (True, vec, b) \<Rightarrow>
                              Some (Inr (case deser_u256 b of
                                           None \<Rightarrow> (False, vec, None, b, freed)
                                         | Some (h, b) \<Rightarrow> (True, vec, Some h, b, freed))) } })"

section \<open>The wire formats\<close>

lemma length_hash [simp]: "length (dogecoin_hash m) = 32"
  by (simp add: dogecoin_hash_def sha256_raw_spec)

lemma ser_bytes_append: "ser_bytes s p = s @ p"
  by (simp add: ser_bytes_def)

definition address_ok :: "p2p_address \<Rightarrow> bool" where
  "address_ok a \<longleftrightarrow> length (pa_ip a) = 16"

lemma p2p_ser_addr_append: "p2p_ser_addr v a s = s @ p2p_ser_addr v a []"
  by (simp add: p2p_ser_addr_def ser_defs)

lemma p2p_deser_ser_addr:
  assumes "address_ok a"
  shows "p2p_deser_addr v (p2p_ser_addr v a [] @ rest) =
    Some (a\<lparr>pa_time := if v \<ge> DOGECOIN_ADDR_TIME_VERSION then pa_time a else 0\<rparr>, rest)"
proof -
  have "p2p_ser_addr v a [] = (if v \<ge> DOGECOIN_ADDR_TIME_VERSION then ser_u32 [] (pa_time a) else []) @
      ser_u64 [] (pa_services a) @ pa_ip a @ ser_u16 [] (pa_port a)"
    using assms by (simp add: p2p_ser_addr_def address_ok_def ser_defs)
  then show ?thesis using assms
    by (simp add: p2p_deser_addr_def address_ok_def u32c.dec_enc u64c.dec_enc u16c.dec_enc
        del: u32_dec_iff u64_dec_iff u16_dec_iff)
qed

interpretation addrc: codec "\<lambda>a. p2p_ser_addr 31402 a []" "p2p_deser_addr 31402" address_ok
  by unfold_locales (simp add: p2p_deser_ser_addr)

interpretation invc: codec "\<lambda>m. p2p_msg_inv_ser m []" p2p_msg_inv_deser "\<lambda>m. length (inv_hash m) = 32"
proof unfold_locales
  fix m :: p2p_inv_msg and rest
  assume l: "length (inv_hash m) = 32"
  then have "p2p_msg_inv_ser m [] = ser_u32 [] (inv_type m) @ ser_u256 [] (inv_hash m)"
    by (simp add: p2p_msg_inv_ser_def ser_defs)
  then show "p2p_msg_inv_deser (p2p_msg_inv_ser m [] @ rest) = Some (m, rest)"
    using l by (simp add: p2p_msg_inv_deser_def u32c.dec_enc u256c.dec_enc del: u32_dec_iff)
qed

lemma p2p_message_new_eq:
  assumes "length command \<le> 12" "length data = unat data_len" "length magic = 4"
  shows "p2p_message_new magic command data data_len =
    Inr (magic @ (command @ replicate (12 - length command) 0) @ ser_u32 [] data_len @ take 4 (dogecoin_hash data) @ data)"
proof -
  have "blit (replicate 12 0) 0 command = command @ replicate (12 - length command) 0"
    by (simp add: blit_def drop_replicate)
  moreover have "data_len = 0 \<Longrightarrow> data = []" using assms(2) by simp
  ultimately show ?thesis using assms
    by (auto simp: p2p_message_new_def ser_defs word_gt_0 Let_def)
qed

lemma deser_msghdr_eq:
  assumes "length magic = 4" "length command = 12" "length chk = 4"
  shows "p2p_deser_msghdr hdr (magic @ command @ ser_u32 [] n @ chk @ rest) =
    (\<lparr>hdr_netmagic = magic, hdr_command = command, hdr_data_len = n, hdr_hash = chk\<rparr>, rest)"
  using assms by (simp add: p2p_deser_msghdr_def or_keep_def u32c.dec_enc del: u32_dec_iff)

section \<open>The user agent\<close>

text \<open>The array after a round trip: the string, filled up with zeros.\<close>

definition agent_string :: "bytes \<Rightarrow> bytes" where
  "agent_string a = takeWhile (\<lambda>c. c \<noteq> 0) a"

definition normal_agent :: "bytes \<Rightarrow> bytes" where
  "normal_agent a = agent_string a @ replicate (128 - length (agent_string a)) 0"

lemma ser_str_agent:
  assumes "length a = 128"
  shows "ser_str s a 1024 = s @ ser_varlen [] (of_nat (length (agent_string a))) @ agent_string a" "length (agent_string a) \<le> 128"
proof -
  have t: "take 1024 a = a" using assms by simp
  show l: "length (agent_string a) \<le> 128" using length_takeWhile_le [of "\<lambda>c. c \<noteq> 0" a] assms by (simp add: agent_string_def)
  have "take (strnlen a 1024) a = agent_string a" using strnlen_take [of a 1024] t by (simp add: agent_string_def)
  moreover have "strnlen a 1024 = length (agent_string a)" by (simp add: strnlen_def t agent_string_def)
  ultimately show "ser_str s a 1024 = s @ ser_varlen [] (of_nat (length (agent_string a))) @ agent_string a"
    using l ser_varlen_append [of s] by (simp add: ser_str_def ser_bytes_def)
qed

section \<open>Locators\<close>

lemma ucast_of_unat: "(ucast (w :: 'a :: len word) :: 'b :: len word) = of_nat (unat w)"
  by (rule unsigned_word_eqI) (simp add: unat_of_nat unsigned_ucast_eq take_bit_eq_mod)

lemma vector_resize_ok:
  assumes "vec_wf v" "unat n \<le> 2 ^ 60"
  shows "\<exists>v' freed. vector_resize junk v n = Some (Inr (True, v', freed)) \<and> vec_wf v' \<and>
    elems v' = take (unat n) (elems v) \<and> unat (vec_len v') = min (unat n) (unat (vec_len v))"
proof (cases "unat n" "unat (vec_len v)" rule: linorder_cases)
  case less
  then have "n < vec_len v" "n \<noteq> vec_len v" by (auto simp: word_less_nat_alt)
  then show ?thesis using assms(1) less
    by (auto simp: vector_resize_def Let_def vec_wf_def elems_def min_def)
next
  case equal
  then have "n = vec_len v" by (simp add: word_unat_eq_iff)
  then show ?thesis using assms(1) by (simp add: vector_resize_def)
next
  case greater
  then show ?thesis using vector_resize_grow_keeps_length [OF assms(1) greater assms(2), of junk] assms(1)
    by (auto simp: min_def)
qed

lemma ser_locators_eq: "ser_locators uninit s (map Some hs) = s @ concat (map (take 32) hs)"
  by (induction hs arbitrary: s) (simp_all add: ser_bytes_def)

lemma read_locators_ok:
  assumes "vec_wf v" "unat (vec_len v) + length hs \<le> 2 ^ 60" "\<forall>h \<in> set hs. length h = 32"
  shows "\<exists>v'. read_locators junk (length hs) v (concat hs @ rest) = Some (Inr (True, v', rest)) \<and>
    vec_wf v' \<and> elems v' = elems v @ map Some hs"
  using assms
proof (induction hs arbitrary: v)
  case (Cons h hs)
  have d: "deser_u256 (h @ concat hs @ rest) = Some (h, concat hs @ rest)"
    using Cons.prems(3) by (simp add: deser_u256_def)
  obtain v1 where v1: "vector_add junk v (Some h) = Some (Inr (True, v1))" "vec_wf v1" "elems v1 = elems v @ [Some h]"
    using vector_add_ok [OF Cons.prems(1), of junk "Some h"] Cons.prems(2) by auto
  have "length (elems v1) = length (elems v) + 1" unfolding v1(3) by simp
  then have "unat (vec_len v1) = unat (vec_len v) + 1" using v1(2) Cons.prems(1) by simp
  then show ?case using Cons.IH [OF v1(2)] Cons.prems(2,3) v1 d by auto
qed simp

section \<open>Socket addresses\<close>

lemma split_sockaddr:
  assumes "length sa = 28"
  obtains f q x y z where "sa = f @ q @ x @ y @ z" "length f = 2" "length q = 2" "length x = 4" "length y = 16" "length z = (4 :: nat)"
proof -
  have a: "take n (drop m sa) @ drop (n + m) sa = drop m sa" for n m by (metis append_take_drop_id drop_drop)
  have "sa = take 2 sa @ take 2 (drop 2 sa) @ take 4 (drop 4 sa) @ take 16 (drop 8 sa) @ drop 24 sa"
    using a [of 16 8] a [of 4 4] a [of 2 2] a [of 2 0] by simp
  then show thesis by (rule that) (use assms in simp_all)
qed

lemma le_val_le_bytes_2: "f = le_bytes 2 (unat v) \<Longrightarrow> of_nat (le_val f) = (v :: u16)"
  by (simp only: le_val_le_bytes_word) simp

lemma ntohs_htons: "ntohs (htons v) = v"
  by (simp only: ntohs_def htons_def rev_rev_ident) (rule le_val_le_bytes_2 [OF refl])

section \<open>Properties\<close>

text \<open>
  A message frame is read back: from the bytes \<open>dogecoin_p2p_message_new\<close> built for a command of at most
  12 characters the header reader recovers the network, the command filled with zeros, the length and the
  first four bytes of the double SHA-256 of the payload, and it stops at the payload.
\<close>

theorem message_frame_roundtrip:
  assumes "length magic = 4" "length command \<le> 12" "length data = unat data_len"
  shows "\<exists>msg. p2p_message_new magic command data data_len = Inr msg \<and>
    p2p_deser_msghdr hdr (msg @ rest) =
      (\<lparr>hdr_netmagic = magic, hdr_command = command @ replicate (12 - length command) 0, hdr_data_len = data_len,
        hdr_hash = take 4 (dogecoin_hash data)\<rparr>, data @ rest)"
  using p2p_message_new_eq [OF assms(2,3,1)]
    deser_msghdr_eq [of magic "command @ replicate (12 - length command) 0" "take 4 (dogecoin_hash data)"] assms by simp

theorem message_frame_roundtrip_witness:
  "\<exists>msg. p2p_message_new [0xc0, 0xc0, 0xc0, 0xc0] [112, 105, 110, 103] [1, 2, 3, 4, 5, 6, 7, 8] 8 = Inr msg \<and>
    snd (p2p_deser_msghdr \<lparr>hdr_netmagic = [], hdr_command = [], hdr_data_len = 0, hdr_hash = []\<rparr> (msg @ [9])) =
      [1, 2, 3, 4, 5, 6, 7, 8, 9]"
  using message_frame_roundtrip [of "[0xc0, 0xc0, 0xc0, 0xc0]" "[112, 105, 110, 103]" "[1, 2, 3, 4, 5, 6, 7, 8]" 8
      "\<lparr>hdr_netmagic = [], hdr_command = [], hdr_data_len = 0, hdr_hash = []\<rparr>" "[9]"]
  by auto

text \<open>
  A version message survives the wire: what the reader recovers is the message with the times of both
  addresses cleared, since they are not sent, and with the user agent ended by zeros. This needs a NUL among
  the 128 chars of the agent and a version above 70003, for only then the relay byte is read.
\<close>

theorem version_roundtrip:
  assumes "address_ok (vm_addr_recv msg)" "address_ok (vm_addr_from msg)"
    and "length (vm_useragent msg) = 128" "0 \<in> set (vm_useragent msg)" "70003 < sint (vm_version msg)"
  shows "\<exists>s. p2p_msg_version_ser msg [] = Inr s \<and>
    p2p_msg_version_deser (s @ rest) =
      Some (msg\<lparr>vm_addr_recv := (vm_addr_recv msg)\<lparr>pa_time := 0\<rparr>, vm_addr_from := (vm_addr_from msg)\<lparr>pa_time := 0\<rparr>,
                vm_useragent := normal_agent (vm_useragent msg)\<rparr>, rest)"
proof -
  let ?u = "agent_string (vm_useragent msg)"
  note ua = ser_str_agent [OF assms(3)]
  have len: "unat (of_nat (length ?u) :: u32) = length ?u" using ua(2) by (simp add: unat_of_nat)
  have le: "(of_nat (length ?u) :: u32) \<le> 128" "(of_nat (length ?u) :: u32) \<le> 1024"
    using ua(2) len by (simp_all add: word_le_nat_alt)
  have s: "p2p_msg_version_ser msg [] = Inr (ser_s32 [] (vm_version msg) @ ser_u64 [] (vm_services msg) @
      ser_s64 [] (vm_timestamp msg) @ p2p_ser_addr 0 (vm_addr_recv msg) [] @ p2p_ser_addr 0 (vm_addr_from msg) [] @
      ser_u64 [] (vm_nonce msg) @ ser_varlen [] (of_nat (length ?u)) @ ?u @ ser_s32 [] (vm_start_height msg) @ [vm_relay msg])"
    using assms(4) unfolding p2p_msg_version_ser_def Let_def ua(1) ser_bytes_append
    by (simp add: ser_append [of "_ @ _"] ser_append [of "ser_s32 [] _"] p2p_ser_addr_append [of 0 _ "_ @ _"])
  have "blit (replicate 128 0) 0 ?u = normal_agent (vm_useragent msg)"
    by (simp add: blit_def normal_agent_def)
  then show ?thesis using assms(1,2,5) le
    unfolding s p2p_msg_version_deser_def
    by (simp add: s32c.dec_enc u64c.dec_enc s64c.dec_enc p2p_deser_ser_addr varlenc.dec_enc len not_less
        deser_bytes_1 [unfolded One_nat_def] del: u64_dec_iff)
qed

theorem version_roundtrip_witness:
  "\<exists>msg s. p2p_msg_version_ser msg [] = Inr s \<and> vm_version msg = 70015 \<and> vm_relay msg = 1 \<and>
    p2p_msg_version_deser (s @ [7]) = Some (msg, [7])"
proof -
  let ?m = "\<lparr>vm_version = 70015, vm_services = 0, vm_timestamp = 5, vm_addr_recv = p2p_address_init,
      vm_addr_from = p2p_address_init, vm_nonce = 9, vm_useragent = 65 # replicate 127 0, vm_start_height = 0, vm_relay = 1\<rparr>"
  have "normal_agent (65 # replicate 127 0) = 65 # replicate 127 0" by (simp add: normal_agent_def agent_string_def)
  moreover have "(p2p_address_init)\<lparr>pa_time := 0\<rparr> = p2p_address_init" "address_ok p2p_address_init"
    by (simp_all add: p2p_address_init_def address_ok_def)
  ultimately show ?thesis using version_roundtrip [of ?m "[7]"] by (intro exI [of _ ?m]) simp
qed

text \<open>
  A getheaders message carries the locators and the stop hash: read into any vector in shape, it leaves
  there the elements that fit the announced number, followed by the locators in order. The reader relies on
  \<open>vector_resize\<close> growing only the allocation.
\<close>

theorem getheaders_roundtrip:
  assumes "elems v = map Some hs" "vec_wf v" "\<forall>h \<in> set hs. length h = 32" "length stop = 32" "length hs < 2 ^ 32"
    and "vec_wf w"
  shows "\<exists>s w' freed. p2p_msg_getheaders uninit v (Some stop) [] = Inr s \<and>
    p2p_deser_msg_getheaders junk w (s @ rest) = Some (Inr (True, w', Some stop, rest, freed)) \<and>
    elems w' = take (length hs) (elems w) @ map Some hs"
proof -
  have lv: "unat (vec_len v) = length hs" using assms(1,2) by (metis length_elems length_map)
  have u: "(ucast (vec_len v) :: u32) = of_nat (length hs)" unfolding lv [symmetric] by (rule ucast_of_unat)
  have n: "unat (of_nat (length hs) :: u32) = length hs" using assms(5) by (simp add: unat_of_nat)
  have c: "concat (map (take 32) hs) = concat hs" using assms(3) by (simp add: map_idI)
  have lc: "length (concat hs) = 32 * length hs" using assms(3) by (induction hs) auto
  have "p2p_msg_getheaders uninit v (Some stop) [] =
      Inr (ser_u32 [] DOGECOIN_PROTOCOL_VERSION @ ser_varlen [] (of_nat (length hs)) @ concat hs @ stop)"
    using assms(1,2,4) ser_varlen_append [of "ser_u32 [] DOGECOIN_PROTOCOL_VERSION"] ser_locators_eq [of uninit _ hs] c
    by (simp add: p2p_msg_getheaders_def Let_def u vec_wf_def elems_def ser_bytes_def)
  moreover
  obtain v1 freed where v1: "vector_resize junk w (of_nat (length hs)) = Some (Inr (True, v1, freed))" "vec_wf v1"
    "elems v1 = take (length hs) (elems w)" "unat (vec_len v1) \<le> length hs"
    using vector_resize_ok [OF assms(6), of "of_nat (length hs)" junk] assms(5) by (auto simp: unat_of_nat)
  obtain v2 where v2: "read_locators junk (length hs) v1 (concat hs @ stop @ rest) = Some (Inr (True, v2, stop @ rest))"
    "elems v2 = elems v1 @ map Some hs"
    using read_locators_ok [OF v1(2) _ assms(3), of junk "stop @ rest"] v1(4) assms(5) by auto
  have "deser_u256 (stop @ rest) = Some (stop, rest)" using assms(4) by (simp add: deser_u256_def)
  moreover have "(ucast (of_nat (length hs) :: u32) :: u64) = of_nat (length hs)" by (simp add: ucast_of_unat n)
  ultimately show ?thesis
    using v1 v2 lc n assms(4) s32c.dec_enc [OF TrueI, of DOGECOIN_PROTOCOL_VERSION]
    by (simp add: p2p_deser_msg_getheaders_def ser_s32_def varlenc.dec_enc)
qed

theorem getheaders_roundtrip_witness:
  "\<exists>s w' freed. p2p_msg_getheaders [] \<lparr>vec_data = map Some [replicate 32 1, replicate 32 2] @ replicate 6 None, vec_len = 2,
      vec_alloc = 8, vec_free_f = True\<rparr> (Some (replicate 32 3)) [] = Inr s \<and>
    p2p_deser_msg_getheaders (\<lambda>_. None) \<lparr>vec_data = replicate 8 None, vec_len = 0, vec_alloc = 8, vec_free_f = True\<rparr> s =
      Some (Inr (True, w', Some (replicate 32 3), [], freed)) \<and>
    elems w' = map Some [replicate 32 1, replicate 32 2]"
proof -
  let ?hs = "[replicate 32 1, replicate 32 2] :: bytes list"
  let ?v = "\<lparr>vec_data = map Some ?hs @ replicate 6 None, vec_len = 2, vec_alloc = 8, vec_free_f = True\<rparr>"
  let ?w = "\<lparr>vec_data = replicate 8 None, vec_len = 0, vec_alloc = 8, vec_free_f = True\<rparr> :: bytes vector_t"
  have "vec_wf ?v" "vec_wf ?w" by (rule vec_wf_8; simp)+
  moreover have "elems ?v = map Some ?hs" by (simp add: elems_def)
  ultimately show ?thesis
    using getheaders_roundtrip [of ?v ?hs "replicate 32 3" ?w "[]" "\<lambda>_. None" "[]"] by (simp add: elems_def)
qed

text \<open>
  Converting an address to a socket address and back keeps the address and the port, for IPv6 and for
  mapped IPv4, once the caller has put the family in. A \<open>struct sockaddr\<close> of 16 bytes is too small for
  IPv6: the code writes behind it.
\<close>

theorem sockaddr_roundtrip:
  assumes "address_ok a" "length sa = 28"
    and "family = (if is_ipv4_mapped (pa_ip a) then AF_INET else AF_INET6)" "take 2 sa = le_bytes 2 (unat family)"
  shows "\<exists>sa'. p2paddr_to_addr a sa = Inr sa' \<and> length sa' = 28 \<and>
    addr_to_p2paddr sa' b = Inr (b\<lparr>pa_ip := pa_ip a, pa_port := pa_port a\<rparr>)"
proof -
  obtain f q x y z where sa: "sa = f @ q @ x @ y @ z" and l: "length f = 2" "length q = 2" "length x = 4" "length y = 16" "length z = 4"
    using split_sockaddr [OF assms(2)] by blast
  have fam: "of_nat (le_val f) = family" using assms(4) l(1) unfolding sa by (simp add: le_val_le_bytes_2)
  have hl: "length (htons v) = 2" for v by (simp add: htons_def)
  have ip: "length (pa_ip a) = 16" using assms(1) by (simp add: address_ok_def)
  show ?thesis
  proof (cases "is_ipv4_mapped (pa_ip a)")
    case True
    let ?q = "take 4 (drop 12 (pa_ip a))"
    have "p2paddr_to_addr a sa = Inr (f @ htons (pa_port a) @ ?q @ y @ z)"
      using True l ip by (simp add: p2paddr_to_addr_def put_field_def blit_def hl sa)
    moreover have "take 12 (pa_ip a) = replicate 10 0 @ replicate 2 0xff"
      using True by (simp add: is_ipv4_mapped_def DOGECOIN_IPV4_PREFIX_def numeral_eq_Suc)
    then have "replicate 10 0 @ replicate 2 0xff @ drop 12 (pa_ip a) = pa_ip a" by (metis append.assoc append_take_drop_id)
    ultimately show ?thesis using True l ip fam assms(3)
      by (simp add: addr_to_p2paddr_def sa_family_def field_at_def ntohs_htons hl)
  next
    case False
    have "p2paddr_to_addr a sa = Inr (f @ htons (pa_port a) @ x @ pa_ip a @ z)"
      using False l ip by (simp add: p2paddr_to_addr_def put_field_def blit_def hl sa)
    then show ?thesis using False l ip fam assms(3)
      by (simp add: addr_to_p2paddr_def sa_family_def field_at_def ntohs_htons hl)
  qed
qed

theorem sockaddr_too_small:
  assumes "address_ok a" "\<not> is_ipv4_mapped (pa_ip a)" "length sa = 16"
  shows "p2paddr_to_addr a sa = Inl OutOfBounds"
  using assms by (simp add: p2paddr_to_addr_def put_field_def address_ok_def)

text \<open>
  A peer can leave the user agent without an end: an agent of 128 to 1024 bytes whose first 128 are not
  NUL is accepted, fills the array, and the array is no C string any more (\<open>net.c\<close> prints it with \<open>%s\<close>);
  writing the message again reads behind the array.
\<close>

theorem version_agent_unterminated:
  assumes "vm_useragent msg = take 128 ua" "128 \<le> length ua" "length ua \<le> 1024" "0 \<notin> set (take 128 ua)"
    and "address_ok (vm_addr_recv msg)" "address_ok (vm_addr_from msg)" "70003 < sint (vm_version msg)"
  shows "\<exists>msg'. p2p_msg_version_deser (ser_s32 [] (vm_version msg) @ ser_u64 [] (vm_services msg) @
      ser_s64 [] (vm_timestamp msg) @ p2p_ser_addr 0 (vm_addr_recv msg) [] @ p2p_ser_addr 0 (vm_addr_from msg) [] @
      ser_u64 [] (vm_nonce msg) @ ser_varstr [] (Some ua) @ ser_s32 [] (vm_start_height msg) @ [vm_relay msg]) =
      Some (msg', []) \<and> vm_useragent msg' = take 128 ua \<and> p2p_msg_version_ser msg' [] = Inl OutOfBounds"
proof -
  have len: "unat (of_nat (length ua) :: u32) = length ua" using assms(3) by (simp add: unat_of_nat)
  then have le: "(of_nat (length ua) :: u32) \<le> 1024" "(of_nat (length ua) :: u32) > 128 \<or> length ua = 128"
    using assms(2,3) by (auto simp: word_le_nat_alt word_less_nat_alt)
  have v: "ser_varstr [] (Some ua) = ser_varlen [] (of_nat (length ua)) @ ua"
    using assms(2,3) by (auto simp: ser_varstr_def ser_bytes_def)
  have b: "blit (replicate 128 0) 0 (take (unat (if (of_nat (length ua) :: u32) > 128 then 128 else of_nat (length ua) :: u32)) ua) =
      take 128 ua"
    using le(2) len assms(2) by (auto simp: blit_def)
  show ?thesis unfolding v using assms(4-7) le(1) b
    by (simp add: p2p_msg_version_deser_def s32c.dec_enc u64c.dec_enc s64c.dec_enc p2p_deser_ser_addr varlenc.dec_enc len
        deser_bytes_1 [unfolded One_nat_def] p2p_msg_version_ser_def not_less Let_def del: u64_dec_iff)
qed

theorem version_agent_unterminated_witness:
  "\<exists>buf msg'. p2p_msg_version_deser buf = Some (msg', []) \<and> p2p_msg_version_ser msg' [] = Inl OutOfBounds"
  using version_agent_unterminated [of "\<lparr>vm_version = 70015, vm_services = 0, vm_timestamp = 5,
      vm_addr_recv = p2p_address_init, vm_addr_from = p2p_address_init, vm_nonce = 9, vm_useragent = replicate 128 65,
      vm_start_height = 0, vm_relay = 1\<rparr>" "replicate 128 65"]
  by (auto simp: address_ok_def p2p_address_init_def)

end
