(* ===== verification/CompactBlock.thy ===== *)
theory CompactBlock
  imports Block SipHash Protocol
begin

text \<open>
  Model of \<open>src/src/compact_block.c\<close>, the relay of compact blocks (BIP 152): short transaction identifiers, the
  three messages, and the reconstruction of a block from the transactions at hand.

  An array with its count is the count and \<open>None\<close> (NULL) or the cells. A transaction pointer is \<open>None\<close> or
  the transaction it points to; whether two pointers are the same is never looked at. A reader returns
  \<open>None\<close> where the code returns false (the caller frees the object then). An access outside an array is
  \<open>Inl OutOfBounds\<close>. Allocation does not fail; the functions that only free are left out.
\<close>

section \<open>Objects\<close>

record prefilled_tx =
  ptx_index :: u32
  ptx_tx :: dogecoin_tx

record compact_block =
  cb_header :: block_header
  cb_header_raw :: "bytes option"
  cb_nonce :: u64
  cb_sipkey_k0 :: u64
  cb_sipkey_k1 :: u64
  cb_short_ids_count :: u32
  cb_short_ids :: "bytes option"
  cb_prefilled_count :: u32
  cb_prefilled_txs :: "prefilled_tx list option"

record getblocktxn =
  gbt_blockhash :: bytes
  gbt_indices_count :: u32
  gbt_indices :: "u32 list option"

record blocktxn =
  bt_blockhash :: bytes
  bt_txs_count :: u32
  bt_txs :: "dogecoin_tx option list option"

record compact_block_state =
  cst_enabled :: bool
  cst_high_bandwidth_mode :: bool
  cst_version :: u64
  cst_pending :: "compact_block option"
  cst_available_txs :: "dogecoin_tx option list option"
  cst_available_txs_count :: u32
  cst_missing_indices :: "u32 list option"
  cst_missing_count :: u32

definition compact_block_new :: compact_block where
  "compact_block_new =
     \<lparr>cb_header = block_header_new, cb_header_raw = None, cb_nonce = 0, cb_sipkey_k0 = 0, cb_sipkey_k1 = 0,
      cb_short_ids_count = 0, cb_short_ids = None, cb_prefilled_count = 0, cb_prefilled_txs = None\<rparr>"

definition getblocktxn_new :: getblocktxn where
  "getblocktxn_new = \<lparr>gbt_blockhash = replicate 32 0, gbt_indices_count = 0, gbt_indices = None\<rparr>"

definition blocktxn_new :: blocktxn where
  "blocktxn_new = \<lparr>bt_blockhash = replicate 32 0, bt_txs_count = 0, bt_txs = None\<rparr>"

definition compact_block_state_new :: compact_block_state where
  "compact_block_state_new =
     \<lparr>cst_enabled = False, cst_high_bandwidth_mode = False, cst_version = 0, cst_pending = None,
      cst_available_txs = None, cst_available_txs_count = 0, cst_missing_indices = None, cst_missing_count = 0\<rparr>"

section \<open>Short identifiers\<close>

abbreviation CMPCTBLOCK_HEADER_BASE_SIZE :: nat where "CMPCTBLOCK_HEADER_BASE_SIZE \<equiv> 80"
abbreviation SHORTTXID_LENGTH :: nat where "SHORTTXID_LENGTH \<equiv> 6"

definition compact_block_set_header_raw :: "compact_block \<Rightarrow> bytes \<Rightarrow> bool \<times> compact_block" where
  "compact_block_set_header_raw cmpctblk raw =
     (if length raw < CMPCTBLOCK_HEADER_BASE_SIZE then (False, cmpctblk)
      else if length raw > DOGECOIN_MAX_P2P_MSG_SIZE then (False, cmpctblk)
      else (True, cmpctblk\<lparr>cb_header_raw := Some raw\<rparr>))"

definition derive_sipkeys_raw :: "bytes \<Rightarrow> u64 \<Rightarrow> u64 \<times> u64" where
  "derive_sipkeys_raw header_ser nonce =
     (let preimage = ser_u64 (ser_bytes [] header_ser) nonce;
          hash = sha256_raw preimage in
      (get_uint64 hash 0, get_uint64 hash 1))"

definition derive_sipkeys :: "'a block_base_scheme \<Rightarrow> u64 \<Rightarrow> u64 \<times> u64" where
  "derive_sipkeys header nonce = derive_sipkeys_raw (block_header_serialize [] header) nonce"

definition compute_short_id :: "u64 \<Rightarrow> u64 \<Rightarrow> bytes \<Rightarrow> bytes" where
  "compute_short_id k0 k1 txhash =
     (let siphash_result = siphash_u256 k0 k1 txhash in
      [ucast (siphash_result AND 0xFF), ucast (drop_bit 8 siphash_result AND 0xFF),
       ucast (drop_bit 16 siphash_result AND 0xFF), ucast (drop_bit 24 siphash_result AND 0xFF),
       ucast (drop_bit 32 siphash_result AND 0xFF), ucast (drop_bit 40 siphash_result AND 0xFF)])"

section \<open>The messages\<close>

text \<open>The differential encoding of indices: the first as it is, then the gap to the next possible one.\<close>

definition index_diff :: "bool \<Rightarrow> u32 \<Rightarrow> u32 \<Rightarrow> u32" where
  "index_diff first last_index index = (if first then index else index - last_index - 1)"

definition index_undiff :: "bool \<Rightarrow> u32 \<Rightarrow> u32 \<Rightarrow> u32" where
  "index_undiff first last_index diff = (if first then diff else last_index + diff + 1)"

fun ser_prefilled :: "bytes \<Rightarrow> bool \<Rightarrow> u32 \<Rightarrow> prefilled_tx list \<Rightarrow> bytes" where
  "ser_prefilled s first last_index [] = s"
| "ser_prefilled s first last_index (ptx # ptxs) =
     ser_prefilled (tx_serialize (ser_varlen s (index_diff first last_index (ptx_index ptx))) (ptx_tx ptx))
       False (ptx_index ptx) ptxs"

text \<open>The first \<open>count\<close> cells of an array.\<close>

definition cells_of :: "'a list option \<Rightarrow> nat \<Rightarrow> 'a list c_outcome" where
  "cells_of arr count =
     (if count = 0 then Inr []
      else case arr of
        None \<Rightarrow> Inl NullDeref
      | Some xs \<Rightarrow> if count \<le> length xs then Inr (take count xs) else Inl OutOfBounds)"

text \<open>\<open>None\<close>: the result false, nothing was appended.\<close>

definition compact_block_serialize :: "bytes \<Rightarrow> compact_block \<Rightarrow> bytes option c_outcome" where
  "compact_block_serialize s cmpctblk =
     (if cb_short_ids_count cmpctblk > 0 \<and> cb_short_ids cmpctblk = None then Inr None
      else if cb_prefilled_count cmpctblk > 0 \<and> cb_prefilled_txs cmpctblk = None then Inr None
      else
        case (case cb_header_raw cmpctblk of
                Some raw \<Rightarrow> if length raw \<ge> CMPCTBLOCK_HEADER_BASE_SIZE then Some (ser_bytes s raw)
                            else if bh_version (cb_header cmpctblk) AND 0x100 = 0 then
                              Some (block_header_serialize s (cb_header cmpctblk)) else None
              | None \<Rightarrow> if bh_version (cb_header cmpctblk) AND 0x100 = 0 then
                          Some (block_header_serialize s (cb_header cmpctblk)) else None) of
          None \<Rightarrow> Inr None
        | Some s \<Rightarrow>
            let s = ser_u64 s (cb_nonce cmpctblk);
                s = ser_varlen s (cb_short_ids_count cmpctblk) in
            seqc (cells_of (cb_short_ids cmpctblk) (unat (cb_short_ids_count cmpctblk) * SHORTTXID_LENGTH)) (\<lambda>ids.
              let s = ser_bytes s ids;
                  s = ser_varlen s (cb_prefilled_count cmpctblk) in
              seqc (cells_of (cb_prefilled_txs cmpctblk) (unat (cb_prefilled_count cmpctblk))) (\<lambda>ptxs.
                Inr (Some (ser_prefilled s True 0 ptxs)))))"

fun deser_prefilled :: "nat \<Rightarrow> bool \<Rightarrow> u32 \<Rightarrow> prefilled_tx list deser" where
  "deser_prefilled 0 first last_index buf = Some ([], buf)"
| "deser_prefilled (Suc n) first last_index buf =
     do { (diff, buf) \<leftarrow> deser_varlen buf;
          let index = index_undiff first last_index diff;
          (tx, buf) \<leftarrow> tx_deserialize tx_new buf;
          (ptxs, buf) \<leftarrow> deser_prefilled n False index buf;
          Some (\<lparr>ptx_index = index, ptx_tx = tx\<rparr> # ptxs, buf) }"

definition deser_short_ids :: "u32 \<Rightarrow> bytes option deser" where
  "deser_short_ids count buf =
     (if count > 0 then
        let ids_bytes = unat count * SHORTTXID_LENGTH in
        if length buf < ids_bytes then None
        else do { (ids, buf) \<leftarrow> deser_bytes ids_bytes buf; Some (Some ids, buf) }
      else Some (None, buf))"

definition deser_prefilled_txs :: "u32 \<Rightarrow> prefilled_tx list option deser" where
  "deser_prefilled_txs count buf =
     (if count > 0 then
        if unat count > length buf then None
        else do { (ptxs, buf) \<leftarrow> deser_prefilled (unat count) True 0 buf; Some (Some ptxs, buf) }
      else Some (None, buf))"

text \<open>What follows the header and its bytes.\<close>

definition deser_compact_tail :: "compact_block \<Rightarrow> compact_block deser" where
  "deser_compact_tail cmpctblk buf =
     do { (nonce, buf) \<leftarrow> deser_u64 buf;
          let (k0, k1) = derive_sipkeys_raw (case cb_header_raw cmpctblk of Some raw \<Rightarrow> raw | None \<Rightarrow> []) nonce;
          (short_ids_count, buf) \<leftarrow> deser_varlen buf;
          (short_ids, buf) \<leftarrow> deser_short_ids short_ids_count buf;
          (prefilled_count, buf) \<leftarrow> deser_varlen buf;
          (prefilled_txs, buf) \<leftarrow> deser_prefilled_txs prefilled_count buf;
          Some (cmpctblk\<lparr>cb_nonce := nonce, cb_sipkey_k0 := k0, cb_sipkey_k1 := k1,
                        cb_short_ids_count := short_ids_count,
                        cb_short_ids := (if short_ids_count > 0 then short_ids else cb_short_ids cmpctblk),
                        cb_prefilled_count := prefilled_count,
                        cb_prefilled_txs := (if prefilled_count > 0 then prefilled_txs else cb_prefilled_txs cmpctblk)\<rparr>, buf) }"

text \<open>The header reader moves on to where the parser of the header stops.\<close>

definition compact_block_deserialize :: "chainparams \<Rightarrow> compact_block \<Rightarrow> bytes \<Rightarrow> (compact_block \<times> bytes) option c_outcome" where
  "compact_block_deserialize params cmpctblk buf =
     (if length buf < CMPCTBLOCK_HEADER_BASE_SIZE then Inr None
      else
        seqc (block_header_deserialize params (cb_header cmpctblk) buf) (\<lambda>(header, ok, chainwork).
          if \<not> ok then Inr None
          else
            case snd (block_header_parse (cb_header cmpctblk) buf) of
              None \<Rightarrow> Inr None
            | Some rest \<Rightarrow>
                let hdr_len = length buf - length rest;
                    (ok, cmpctblk) = compact_block_set_header_raw (cmpctblk\<lparr>cb_header := header\<rparr>) (take hdr_len buf) in
                Inr (if \<not> ok then None else deser_compact_tail cmpctblk rest)))"

fun ser_indices :: "bytes \<Rightarrow> bool \<Rightarrow> u32 \<Rightarrow> u32 list \<Rightarrow> bytes" where
  "ser_indices s first last_index [] = s"
| "ser_indices s first last_index (i # is) = ser_indices (ser_varlen s (index_diff first last_index i)) False i is"

definition getblocktxn_serialize :: "bytes \<Rightarrow> getblocktxn \<Rightarrow> bytes c_outcome" where
  "getblocktxn_serialize s req =
     (let s = ser_u256 s (gbt_blockhash req);
          s = ser_varlen s (gbt_indices_count req) in
      seqc (cells_of (gbt_indices req) (unat (gbt_indices_count req))) (\<lambda>is. Inr (ser_indices s True 0 is)))"

fun deser_indices :: "nat \<Rightarrow> bool \<Rightarrow> u32 \<Rightarrow> u32 list deser" where
  "deser_indices 0 first last_index buf = Some ([], buf)"
| "deser_indices (Suc n) first last_index buf =
     do { (diff, buf) \<leftarrow> deser_varlen buf;
          let index = index_undiff first last_index diff;
          (is, buf) \<leftarrow> deser_indices n False index buf;
          Some (index # is, buf) }"

definition getblocktxn_deserialize :: "getblocktxn \<Rightarrow> getblocktxn deser" where
  "getblocktxn_deserialize req buf =
     do { (blockhash, buf) \<leftarrow> deser_u256 buf;
          (count, buf) \<leftarrow> deser_varlen buf;
          if count > 0 then
            if unat count > length buf then None
            else do { (is, buf) \<leftarrow> deser_indices (unat count) True 0 buf;
                      Some (req\<lparr>gbt_blockhash := blockhash, gbt_indices_count := count, gbt_indices := Some is\<rparr>, buf) }
          else Some (req\<lparr>gbt_blockhash := blockhash, gbt_indices_count := count\<rparr>, buf) }"

text \<open>A NULL transaction is passed over, although it was counted.\<close>

fun ser_txs :: "bytes \<Rightarrow> dogecoin_tx option list \<Rightarrow> bytes" where
  "ser_txs s [] = s"
| "ser_txs s (None # txs) = ser_txs s txs"
| "ser_txs s (Some tx # txs) = ser_txs (tx_serialize s tx) txs"

definition blocktxn_serialize :: "bytes \<Rightarrow> blocktxn \<Rightarrow> bytes c_outcome" where
  "blocktxn_serialize s resp =
     (let s = ser_u256 s (bt_blockhash resp);
          s = ser_varlen s (bt_txs_count resp) in
      seqc (cells_of (bt_txs resp) (unat (bt_txs_count resp))) (\<lambda>txs. Inr (ser_txs s txs)))"

definition blocktxn_deserialize :: "blocktxn \<Rightarrow> blocktxn deser" where
  "blocktxn_deserialize resp buf =
     do { (blockhash, buf) \<leftarrow> deser_u256 buf;
          (count, buf) \<leftarrow> deser_varlen buf;
          if count > 0 then
            if unat count > length buf then None
            else do { (txs, buf) \<leftarrow> deser_n (tx_deserialize tx_new) (unat count) buf;
                      Some (resp\<lparr>bt_blockhash := blockhash, bt_txs_count := count, bt_txs := Some (map Some txs)\<rparr>, buf) }
          else Some (resp\<lparr>bt_blockhash := blockhash, bt_txs_count := count\<rparr>, buf) }"

text \<open>The flag and the version of \<open>sendcmpct\<close>.\<close>

definition p2p_msg_sendcmpct_deser :: "(bool \<times> u64) deser" where
  "p2p_msg_sendcmpct_deser buf =
     do { (announce, buf) \<leftarrow> deser_bytes 1 buf;
          (version, buf) \<leftarrow> deser_u64 buf;
          Some ((hd announce \<noteq> 0, version), buf) }"

definition ascii :: "string \<Rightarrow> bytes" where
  "ascii = map of_char"

definition p2p_msg_sendcmpct :: "bytes \<Rightarrow> bool \<Rightarrow> u64 \<Rightarrow> bytes c_outcome" where
  "p2p_msg_sendcmpct netmagic high_bandwidth version =
     (let payload = ser_u64 (ser_bytes [] [if high_bandwidth then 1 else 0]) version in
      p2p_message_new netmagic (ascii ''sendcmpct'') payload (of_nat (length payload)))"

definition p2p_msg_cmpctblock :: "bytes \<Rightarrow> compact_block \<Rightarrow> bytes option c_outcome" where
  "p2p_msg_cmpctblock netmagic cmpctblk =
     seqc (compact_block_serialize [] cmpctblk) (\<lambda>r.
       case r of
         None \<Rightarrow> Inr None
       | Some payload \<Rightarrow>
           seqc (p2p_message_new netmagic (ascii ''cmpctblock'') payload (of_nat (length payload))) (\<lambda>msg. Inr (Some msg)))"

definition p2p_msg_getblocktxn :: "bytes \<Rightarrow> getblocktxn \<Rightarrow> bytes c_outcome" where
  "p2p_msg_getblocktxn netmagic req =
     seqc (getblocktxn_serialize [] req) (\<lambda>payload.
       p2p_message_new netmagic (ascii ''getblocktxn'') payload (of_nat (length payload)))"

definition p2p_msg_blocktxn :: "bytes \<Rightarrow> blocktxn \<Rightarrow> bytes c_outcome" where
  "p2p_msg_blocktxn netmagic resp =
     seqc (blocktxn_serialize [] resp) (\<lambda>payload.
       p2p_message_new netmagic (ascii ''blocktxn'') payload (of_nat (length payload)))"

section \<open>Reconstruction\<close>

text \<open>The prefilled transactions at their indices; \<open>None\<close>: out of range, or a slot that is taken.\<close>

fun place_prefilled :: "u32 \<Rightarrow> prefilled_tx list \<Rightarrow> dogecoin_tx option list \<Rightarrow> dogecoin_tx option list option" where
  "place_prefilled total_txs [] avail = Some avail"
| "place_prefilled total_txs (ptx # ptxs) avail =
     (let idx = ptx_index ptx in
      if idx \<ge> total_txs then None
      else if avail ! unat idx \<noteq> None then None
      else place_prefilled total_txs ptxs (avail[unat idx := Some (ptx_tx ptx)]))"

text \<open>The positions of the first \<open>n\<close> empty slots; the cells behind them stay 0.\<close>

fun empty_slots :: "dogecoin_tx option list \<Rightarrow> u32 \<Rightarrow> nat \<Rightarrow> u32 list" where
  "empty_slots avail i 0 = []"
| "empty_slots [] i n = []"
| "empty_slots (a # avail) i (Suc n) = (if a = None then i # empty_slots avail (i + 1) n else empty_slots avail (i + 1) (Suc n))"

definition shortid_to_txpos :: "dogecoin_tx option list \<Rightarrow> nat \<Rightarrow> u32 list" where
  "shortid_to_txpos avail count =
     (let slots = empty_slots avail 0 count in slots @ replicate (count - length slots) 0)"

text \<open>The 6 bytes of a short identifier; the offset is an \<open>unsigned int\<close>.\<close>

definition short_id_at :: "bytes \<Rightarrow> nat \<Rightarrow> bytes" where
  "short_id_at short_ids j = take SHORTTXID_LENGTH (drop (unat (of_nat j * 6 :: u32)) short_ids)"

definition shortid_cmp :: "bytes \<Rightarrow> bytes \<Rightarrow> int" where
  "shortid_cmp a b = memcmp (take SHORTTXID_LENGTH a) (take SHORTTXID_LENGTH b)"

fun has_twin :: "bytes list \<Rightarrow> bool" where
  "has_twin [] = False"
| "has_twin (x # xs) = (list_ex (\<lambda>y. shortid_cmp x y = 0) xs \<or> has_twin xs)"

text \<open>The loop over the known transactions: \<open>match\<close> and \<open>ambiguous\<close>.\<close>

fun find_match :: "u64 \<Rightarrow> u64 \<Rightarrow> bytes \<Rightarrow> dogecoin_tx option list \<Rightarrow> dogecoin_tx option \<Rightarrow> dogecoin_tx option \<times> bool" where
  "find_match k0 k1 target [] match = (match, False)"
| "find_match k0 k1 target (None # known) match = find_match k0 k1 target known match"
| "find_match k0 k1 target (Some tx # known) match =
     (if shortid_cmp target (compute_short_id k0 k1 (tx_hash dogecoin_hash tx)) = 0 then
        (if match \<noteq> None then (match, True) else find_match k0 k1 target known (Some tx))
      else find_match k0 k1 target known match)"

text \<open>The loop over the short identifiers with their positions: the slots and \<open>missing_count\<close>.\<close>

fun fill_slots :: "u64 \<Rightarrow> u64 \<Rightarrow> dogecoin_tx option list \<Rightarrow> (bytes \<times> u32) list \<Rightarrow> dogecoin_tx option list \<Rightarrow> u32 \<Rightarrow>
    (dogecoin_tx option list \<times> u32) c_outcome" where
  "fill_slots k0 k1 known [] avail missing_count = Inr (avail, missing_count)"
| "fill_slots k0 k1 known ((target, pos) # ts) avail missing_count =
     (let (match, ambiguous) = find_match k0 k1 target known None in
      if match \<noteq> None \<and> \<not> ambiguous then
        if unat pos < length avail then fill_slots k0 k1 known ts (avail[unat pos := match]) missing_count
        else Inl OutOfBounds
      else fill_slots k0 k1 known ts avail (missing_count + 1))"

text \<open>\<open>missing_indices\<close> holds \<open>missing_count\<close> cells.\<close>

definition missing_list :: "dogecoin_tx option list \<Rightarrow> u32 list \<Rightarrow> u32 \<Rightarrow> u32 list c_outcome" where
  "missing_list avail txpos missing_count =
     (let m = filter (\<lambda>pos. avail ! unat pos = None) txpos in
      if \<forall>pos \<in> set txpos. unat pos < length avail then
        if length m \<le> unat missing_count then Inr (m @ replicate (unat missing_count - length m) 0)
        else Inl OutOfBounds
      else Inl OutOfBounds)"

definition reset_layout :: "compact_block_state \<Rightarrow> compact_block_state" where
  "reset_layout state = state\<lparr>cst_available_txs := None, cst_available_txs_count := 0, cst_missing_indices := None,
                              cst_missing_count := 0\<rparr>"

text \<open>The array of short identifiers must hold the ones counted.\<close>

definition compact_block_reconstruct ::
  "compact_block \<Rightarrow> compact_block_state \<Rightarrow> dogecoin_tx option list \<Rightarrow> (bool \<times> compact_block_state) c_outcome" where
  "compact_block_reconstruct cmpctblk state known_txs =
     (let state = reset_layout state;
          short_count = cb_short_ids_count cmpctblk in
      if short_count > - 1 - cb_prefilled_count cmpctblk then Inr (False, state)
      else
        let total_txs = short_count + cb_prefilled_count cmpctblk in
        if total_txs = 0 then Inr (False, state)
        else
          seqc (cells_of (cb_prefilled_txs cmpctblk) (unat (cb_prefilled_count cmpctblk))) (\<lambda>ptxs.
            case place_prefilled total_txs ptxs (replicate (unat total_txs) None) of
              None \<Rightarrow> Inr (False, state)
            | Some avail \<Rightarrow>
                let txpos = shortid_to_txpos avail (unat short_count) in
                seqc (cells_of (cb_short_ids cmpctblk) (unat short_count * SHORTTXID_LENGTH)) (\<lambda>short_ids.
                  let targets = map (short_id_at short_ids) [0..<unat short_count] in
                  if has_twin targets then Inr (False, state)
                  else
                    seqc (fill_slots (cb_sipkey_k0 cmpctblk) (cb_sipkey_k1 cmpctblk) known_txs (zip targets txpos) avail 0)
                      (\<lambda>(avail, missing_count).
                        let state = state\<lparr>cst_available_txs := Some avail, cst_available_txs_count := total_txs\<rparr> in
                        if missing_count > 0 then
                          seqc (missing_list avail txpos missing_count) (\<lambda>missing.
                            Inr (False, state\<lparr>cst_missing_indices := Some missing, cst_missing_count := missing_count\<rparr>))
                        else Inr (True, state)))))"

text \<open>The loop over the delivered transactions: whether all indices were in range, and the slots.\<close>

fun fill_delivered :: "u32 \<Rightarrow> (u32 \<times> dogecoin_tx option) list \<Rightarrow> dogecoin_tx option list \<Rightarrow>
    (bool \<times> dogecoin_tx option list) c_outcome" where
  "fill_delivered count [] avail = Inr (True, avail)"
| "fill_delivered count ((idx, tx) # ds) avail =
     (if idx \<ge> count then Inr (False, avail)
      else if unat idx < length avail then fill_delivered count ds (avail[unat idx := tx])
      else Inl OutOfBounds)"

definition compact_block_fill_missing :: "compact_block_state \<Rightarrow> blocktxn \<Rightarrow> (bool \<times> compact_block_state) c_outcome" where
  "compact_block_fill_missing state resp =
     (case (cst_available_txs state, cst_missing_indices state) of
        (Some avail, Some missing) \<Rightarrow>
          if bt_txs_count resp \<noteq> cst_missing_count state then Inr (False, state)
          else
            seqc (cells_of (Some missing) (unat (bt_txs_count resp))) (\<lambda>missing.
            seqc (cells_of (bt_txs resp) (unat (bt_txs_count resp))) (\<lambda>txs.
            seqc (fill_delivered (cst_available_txs_count state) (zip missing txs) avail) (\<lambda>(ok, avail).
              let state = state\<lparr>cst_available_txs := Some avail\<rparr> in
              if \<not> ok then Inr (False, state)
              else
                seqc (cells_of (Some avail) (unat (cst_available_txs_count state))) (\<lambda>all_txs.
                  if None \<in> set all_txs then Inr (False, state)
                  else Inr (True, state\<lparr>cst_missing_count := 0\<rparr>)))))
      | _ \<Rightarrow> Inr (False, state))"

section \<open>Slots\<close>

definition empties :: "'a option list \<Rightarrow> nat list" where
  "empties avail = filter (\<lambda>i. avail ! i = None) [0..<length avail]"

lemma set_empties: "set (empties avail) = {i. i < length avail \<and> avail ! i = None}"
  by (auto simp: empties_def)

lemma distinct_empties [simp]: "distinct (empties avail)"
  by (simp add: empties_def)

lemma empties_Cons: "empties (a # avail) = (if a = None then [0] else []) @ map Suc (empties avail)"
proof -
  have "[0..<length (a # avail)] = 0 # map Suc [0..<length avail]" by (simp add: upt_conv_Cons map_Suc_upt del: upt_Suc)
  then show ?thesis by (simp add: empties_def filter_map comp_def)
qed

lemma empty_slots_eq: "empty_slots avail (of_nat k) n = map (\<lambda>i. of_nat (k + i)) (take n (empties avail))"
proof (induction avail arbitrary: k n)
  case (Cons a avail)
  have s: "(of_nat k + 1 :: u32) = of_nat (Suc k)" by simp
  show ?case
    by (cases n) (auto simp: empties_Cons take_map s Cons.IH simp del: of_nat_Suc of_nat_add)
next
  case Nil
  show ?case by (cases n) (simp_all add: empties_def)
qed

lemma place_prefilled_Some:
  assumes "place_prefilled n ptxs avail = Some avail'" "length avail = unat n"
  shows "length avail' = length avail \<and> distinct (map ptx_index ptxs) \<and>
    (\<forall>p \<in> set ptxs. unat (ptx_index p) < length avail \<and> avail ! unat (ptx_index p) = None \<and>
        avail' ! unat (ptx_index p) = Some (ptx_tx p)) \<and>
    (\<forall>i < length avail. (\<forall>p \<in> set ptxs. unat (ptx_index p) \<noteq> i) \<longrightarrow> avail' ! i = avail ! i)"
  using assms
proof (induction ptxs arbitrary: avail)
  case (Cons p ptxs)
  let ?i = "unat (ptx_index p)" let ?a = "avail[?i := Some (ptx_tx p)]"
  have c: "\<not> ptx_index p \<ge> n" "avail ! ?i = None" "place_prefilled n ptxs ?a = Some avail'"
    using Cons.prems(1) by (auto simp: Let_def split: if_splits)
  have i: "?i < length avail" using c(1) Cons.prems(2) by (simp add: word_le_nat_alt)
  have ih: "length avail' = length avail" "distinct (map ptx_index ptxs)"
    "\<forall>q \<in> set ptxs. unat (ptx_index q) < length avail \<and> ?a ! unat (ptx_index q) = None \<and>
        avail' ! unat (ptx_index q) = Some (ptx_tx q)"
    "\<forall>j < length avail. (\<forall>q \<in> set ptxs. unat (ptx_index q) \<noteq> j) \<longrightarrow> avail' ! j = ?a ! j"
    using Cons.IH [OF c(3)] Cons.prems(2) by simp_all
  have ne: "\<forall>q \<in> set ptxs. unat (ptx_index q) \<noteq> ?i" using ih(3) i by (metis nth_list_update_eq option.distinct(1))
  then have "ptx_index p \<notin> ptx_index ` set ptxs" by auto
  moreover have "avail' ! ?i = Some (ptx_tx p)" using ih(4) ne i by simp
  moreover have "\<forall>q \<in> set ptxs. avail ! unat (ptx_index q) = None" using ih(3) ne by (metis nth_list_update_neq)
  ultimately show ?case using ih i c(2) by auto
qed simp

lemma length_empties_placed:
  assumes "place_prefilled n ptxs (replicate (unat n) None) = Some avail"
  shows "length (empties avail) + length ptxs = unat n" "length avail = unat n"
proof -
  note p = place_prefilled_Some [OF assms, simplified]
  show l: "length avail = unat n" using p by simp
  let ?idx = "unat ` ptx_index ` set ptxs"
  have "{i. i < length avail \<and> avail ! i = None} = {..<unat n} - ?idx"
  proof (intro set_eqI iffI)
    fix i
    assume "i \<in> {i. i < length avail \<and> avail ! i = None}"
    then show "i \<in> {..<unat n} - ?idx" using p l by auto
  next
    fix i
    assume i: "i \<in> {..<unat n} - ?idx"
    then have "\<forall>p \<in> set ptxs. unat (ptx_index p) \<noteq> i" by auto
    then show "i \<in> {i. i < length avail \<and> avail ! i = None}" using p l i by auto
  qed
  moreover have sub: "?idx \<subseteq> {..<unat n}" using p by auto
  ultimately have "card (set (empties avail)) = unat n - card ?idx"
    by (subst set_empties) (simp add: card_Diff_subset)
  moreover have "card ?idx = length ptxs"
    using p by (metis card_image distinct_card inj_on_def length_map list.set_map unsigned_word_eqI)
  moreover have "card ?idx \<le> unat n" using card_mono [OF _ sub] by simp
  ultimately show "length (empties avail) + length ptxs = unat n" by (simp add: distinct_card)
qed

text \<open>Every count fits: the positions are the empty slots, in order.\<close>

lemma txpos_empties:
  assumes "place_prefilled (short_count + of_nat (length ptxs)) ptxs (replicate (unat (short_count + of_nat (length ptxs))) None) = Some avail"
    and "unat (short_count + of_nat (length ptxs) :: u32) = unat short_count + length ptxs"
  shows "length (empties avail) = unat short_count"
    "shortid_to_txpos avail (unat short_count) = map of_nat (empties avail)"
proof -
  show l: "length (empties avail) = unat short_count" using length_empties_placed [OF assms(1)] assms(2) by simp
  show "shortid_to_txpos avail (unat short_count) = map of_nat (empties avail)"
    using empty_slots_eq [of avail 0 "unat short_count"] l by (simp add: shortid_to_txpos_def)
qed

section \<open>Matching\<close>

lemma length_compute_short_id [simp]: "length (compute_short_id k0 k1 h) = 6"
  by (simp add: compute_short_id_def Let_def)

lemma shortid_cmp_eq: "length a = 6 \<Longrightarrow> length b = 6 \<Longrightarrow> shortid_cmp a b = 0 \<longleftrightarrow> a = b"
  by (simp add: shortid_cmp_def memcmp_eq)

definition short_id :: "u64 \<Rightarrow> u64 \<Rightarrow> dogecoin_tx \<Rightarrow> bytes" where
  "short_id k0 k1 tx = compute_short_id k0 k1 (tx_hash dogecoin_hash tx)"

lemma length_short_id [simp]: "length (short_id k0 k1 tx) = 6"
  by (simp add: short_id_def)

text \<open>The known transactions that answer to an identifier, and the one taken.\<close>

definition answers :: "u64 \<Rightarrow> u64 \<Rightarrow> dogecoin_tx option list \<Rightarrow> bytes \<Rightarrow> dogecoin_tx list" where
  "answers k0 k1 known target = filter (\<lambda>tx. short_id k0 k1 tx = target) (map the (filter (\<lambda>a. a \<noteq> None) known))"

definition resolve :: "u64 \<Rightarrow> u64 \<Rightarrow> dogecoin_tx option list \<Rightarrow> bytes \<Rightarrow> dogecoin_tx option" where
  "resolve k0 k1 known target = (case answers k0 k1 known target of [tx] \<Rightarrow> Some tx | _ \<Rightarrow> None)"

lemma find_match_eq:
  "length target = 6 \<Longrightarrow> find_match k0 k1 target known m =
    (case m of
       None \<Rightarrow> (case answers k0 k1 known target of [] \<Rightarrow> (None, False) | [tx] \<Rightarrow> (Some tx, False) | tx # _ # _ \<Rightarrow> (Some tx, True))
     | Some x \<Rightarrow> (Some x, answers k0 k1 known target \<noteq> []))"
proof (induction k0 k1 target known m rule: find_match.induct)
  case (3 k0 k1 target tx known m)
  have "shortid_cmp target (compute_short_id k0 k1 (tx_hash dogecoin_hash tx)) = 0 \<longleftrightarrow> short_id k0 k1 tx = target"
    using 3 by (auto simp: shortid_cmp_eq short_id_def)
  then show ?case using 3 by (auto simp: answers_def split: option.splits list.splits)
qed (auto simp: answers_def split: option.splits list.splits)

lemma find_match_resolve:
  assumes "length target = 6" "find_match k0 k1 target known None = (m, ambiguous)"
  shows "(m \<noteq> None \<and> \<not> ambiguous) = (resolve k0 k1 known target \<noteq> None)"
    "m \<noteq> None \<and> \<not> ambiguous \<Longrightarrow> m = resolve k0 k1 known target"
  using assms by (auto simp: find_match_eq resolve_def split: list.splits)

lemma fill_slots_eq:
  assumes "\<forall>(target, pos) \<in> set ts. length target = 6 \<and> unat pos < length avail" "distinct (map snd ts)"
    and "\<forall>(target, pos) \<in> set ts. avail ! unat pos = None" "unat c + length ts < 2 ^ 32"
  shows "\<exists>avail' c'. fill_slots k0 k1 known ts avail c = Inr (avail', c') \<and> length avail' = length avail \<and>
    (\<forall>(target, pos) \<in> set ts. avail' ! unat pos = resolve k0 k1 known target) \<and>
    (\<forall>i. (\<forall>(target, pos) \<in> set ts. unat pos \<noteq> i) \<longrightarrow> avail' ! i = avail ! i) \<and>
    unat c' = unat c + length (filter (\<lambda>t. resolve k0 k1 known (fst t) = None) ts)"
  using assms
proof (induction ts arbitrary: avail c)
  case (Cons tp ts)
  obtain target pos where tp: "tp = (target, pos)" by (cases tp)
  obtain m ambiguous where f: "find_match k0 k1 target known None = (m, ambiguous)" by (metis surj_pair)
  have l: "length target = 6" "unat pos < length avail" "avail ! unat pos = None" using Cons.prems(1,3) tp by auto
  note r = find_match_resolve [OF l(1) f]
  have ne: "\<forall>(t, p) \<in> set ts. unat p \<noteq> unat pos"
    using Cons.prems(2) tp by (auto simp: image_iff) (metis snd_conv unsigned_word_eqI)
  show ?case
  proof (cases "resolve k0 k1 known target = None")
    case True
    have c1: "unat (c + 1) = unat c + 1" using Cons.prems(4) by (simp add: unat_word_ariths)
    have step: "fill_slots k0 k1 known (tp # ts) avail c = fill_slots k0 k1 known ts avail (c + 1)"
      using True r f tp by (auto simp: Let_def)
    obtain avail' c' where A: "fill_slots k0 k1 known ts avail (c + 1) = Inr (avail', c')" "length avail' = length avail"
      "\<forall>(target, pos) \<in> set ts. avail' ! unat pos = resolve k0 k1 known target"
      "\<forall>i. (\<forall>(target, pos) \<in> set ts. unat pos \<noteq> i) \<longrightarrow> avail' ! i = avail ! i"
      "unat c' = unat (c + 1) + length (filter (\<lambda>t. resolve k0 k1 known (fst t) = None) ts)"
      using Cons.IH [of avail "c + 1"] Cons.prems c1 by auto
    have "avail' ! unat pos = None" using spec [OF A(4), of "unat pos"] ne l(3) by simp
    then show ?thesis using step A True tp c1 by (auto simp: case_prod_beta)
  next
    case False
    let ?a = "avail[unat pos := resolve k0 k1 known target]"
    have step: "fill_slots k0 k1 known (tp # ts) avail c = fill_slots k0 k1 known ts ?a c"
      using False r f tp l(2) by (auto simp: Let_def)
    have pre: "\<forall>(t, p) \<in> set ts. ?a ! unat p = None" using Cons.prems(3) ne
      by (simp add: case_prod_beta) (metis nth_list_update_neq)
    obtain avail' c' where A: "fill_slots k0 k1 known ts ?a c = Inr (avail', c')" "length avail' = length avail"
      "\<forall>(target, pos) \<in> set ts. avail' ! unat pos = resolve k0 k1 known target"
      "\<forall>i. (\<forall>(target, pos) \<in> set ts. unat pos \<noteq> i) \<longrightarrow> avail' ! i = ?a ! i"
      "unat c' = unat c + length (filter (\<lambda>t. resolve k0 k1 known (fst t) = None) ts)"
      using Cons.IH [of ?a c] Cons.prems pre by auto
    have "avail' ! unat pos = resolve k0 k1 known target" using spec [OF A(4), of "unat pos"] ne l(2) by simp
    then show ?thesis using step A False tp by (auto simp: case_prod_beta)
  qed
qed simp

section \<open>The reconstruction on its arrays\<close>

lemma has_twin_distinct: "\<forall>x \<in> set xs. length x = 6 \<Longrightarrow> has_twin xs \<longleftrightarrow> \<not> distinct xs"
  by (induction xs) (auto simp: list_ex_iff shortid_cmp_eq)

lemma short_id_at_eq: "6 * j < 2 ^ 32 \<Longrightarrow> short_id_at ids j = take 6 (drop (6 * j) ids)"
  by (simp add: short_id_at_def unat_word_ariths unat_of_nat mult.commute)

text \<open>What the reconstruction leaves behind: a layout in which the missing indices are the empty slots.\<close>

definition layout_ok :: "bool \<Rightarrow> compact_block_state \<Rightarrow> bool" where
  "layout_ok ok st \<longleftrightarrow>
     (case cst_available_txs st of
        None \<Rightarrow> \<not> ok \<and> cst_available_txs_count st = 0 \<and> cst_missing_indices st = None \<and> cst_missing_count st = 0
      | Some avail \<Rightarrow>
          length avail = unat (cst_available_txs_count st) \<and> ok = (None \<notin> set avail) \<and>
          cst_missing_indices st = (if ok then None else Some (map of_nat (empties avail))) \<and>
          unat (cst_missing_count st) = length (empties avail))"

lemma empties_Nil_iff: "empties avail = [] \<longleftrightarrow> None \<notin> set avail"
  by (auto simp: empties_def filter_empty_conv in_set_conv_nth)

lemma missing_list_eq:
  assumes "set is \<subseteq> {..<length avail}" "sorted is" "distinct is" "set (empties avail) \<subseteq> set is" "length avail < 2 ^ 32"
    and "unat c = length (filter (\<lambda>i. avail ! i = None) is)"
  shows "missing_list avail (map of_nat is) c = Inr (map of_nat (empties avail))" "unat c = length (empties avail)"
proof -
  have u: "unat (of_nat i :: u32) = i" if "i \<in> set is" for i
    using assms(1,5) that by (auto simp: unat_of_nat subset_iff)
  have "filter (\<lambda>i. avail ! i = None) is = empties avail"
  proof (rule sorted_distinct_set_unique)
    show "set (filter (\<lambda>i. avail ! i = None) is) = set (empties avail)"
      using assms(1,4) by (auto simp: set_empties)
  qed (use assms(2,3) in \<open>auto simp: sorted_wrt_filter empties_def\<close>)
  moreover have "filter (\<lambda>pos. avail ! unat pos = None) (map of_nat is :: u32 list) = map of_nat (filter (\<lambda>i. avail ! i = None) is)"
    using u by (auto simp: filter_map comp_def intro!: arg_cong [of _ _ "map of_nat"] filter_cong)
  ultimately show "missing_list avail (map of_nat is) c = Inr (map of_nat (empties avail))" "unat c = length (empties avail)"
    using assms(1,6) u by (auto simp: missing_list_def Let_def)
qed

lemma reconstruct_layout:
  assumes "cells_of (cb_prefilled_txs cb) (unat (cb_prefilled_count cb)) = Inr ptxs"
    and "cells_of (cb_short_ids cb) (unat (cb_short_ids_count cb) * 6) = Inr ids" "6 * unat (cb_short_ids_count cb) < 2 ^ 32"
    and "unat (cb_short_ids_count cb + cb_prefilled_count cb) = unat (cb_short_ids_count cb) + unat (cb_prefilled_count cb)"
    and "cb_short_ids_count cb + cb_prefilled_count cb \<noteq> 0"
    and "place_prefilled (cb_short_ids_count cb + cb_prefilled_count cb) ptxs
      (replicate (unat (cb_short_ids_count cb + cb_prefilled_count cb)) None) = Some avail"
    and "distinct (map (short_id_at ids) [0..<unat (cb_short_ids_count cb)])"
  shows "\<exists>ok st avail'. compact_block_reconstruct cb state known = Inr (ok, st) \<and> layout_ok ok st \<and>
    cst_available_txs st = Some avail' \<and> length avail' = length avail \<and>
    (\<forall>i < length avail. avail ! i \<noteq> None \<longrightarrow> avail' ! i = avail ! i) \<and>
    (\<forall>j < length (empties avail). avail' ! (empties avail ! j) =
      resolve (cb_sipkey_k0 cb) (cb_sipkey_k1 cb) known (short_id_at ids j))"
proof -
  let ?m = "unat (cb_short_ids_count cb)" and ?es = "empties avail" and ?k0 = "cb_sipkey_k0 cb" and ?k1 = "cb_sipkey_k1 cb"
  let ?targets = "map (short_id_at ids) [0..<?m]" and ?ts = "zip (map (short_id_at ids) [0..<?m]) (map of_nat (empties avail)) :: (bytes \<times> u32) list"
  have lp: "length ptxs = unat (cb_prefilled_count cb)" "length ids = ?m * 6"
    using assms(1,2) by (auto simp: cells_of_def split: option.splits if_splits)
  then have pc: "cb_prefilled_count cb = of_nat (length ptxs)" by simp
  have es: "length ?es = ?m" "shortid_to_txpos avail ?m = map of_nat ?es"
    using txpos_empties [of "cb_short_ids_count cb" ptxs avail] assms(4,6) lp(1) unfolding pc by auto
  have la: "length avail = unat (cb_short_ids_count cb + cb_prefilled_count cb)"
    using length_empties_placed [OF assms(6)] by simp
  then have la32: "length avail < 2 ^ 32" using unat_u32_less by simp
  have u: "unat (of_nat i :: u32) = i" if "i \<in> set ?es" for i
    using that la32 by (auto simp: set_empties unat_of_nat)
  have t6: "\<forall>x \<in> set ?targets. length x = 6"
    using assms(3) lp(2) by (auto simp: short_id_at_eq)
  have us: "map (unat \<circ> snd) ?ts = ?es"
    using u [OF nth_mem] es(1) by (simp add: list_eq_iff_nth_eq)
  have pre: "\<forall>(target, pos) \<in> set ?ts. length target = 6 \<and> unat pos < length avail" "distinct (map snd ?ts)"
    "\<forall>(target, pos) \<in> set ?ts. avail ! unat pos = None" "unat (0 :: u32) + length ?ts < 2 ^ 32"
  proof -
    have x: "x \<in> set ?ts \<Longrightarrow> length (fst x) = 6 \<and> unat (snd x) \<in> set ?es" for x
    proof -
      assume "x \<in> set ?ts"
      then have "fst x \<in> set ?targets" "snd x \<in> set (map of_nat ?es)"
        by (metis set_zip_leftD prod.collapse, metis set_zip_rightD prod.collapse)
      then show ?thesis using t6 u by auto
    qed
    then show "\<forall>(target, pos) \<in> set ?ts. length target = 6 \<and> unat pos < length avail"
      "\<forall>(target, pos) \<in> set ?ts. avail ! unat pos = None"
      by (auto simp: set_empties)
    have "inj_on (of_nat :: nat \<Rightarrow> u32) (set ?es)" by (rule inj_onI) (metis u)
    then show "distinct (map snd ?ts)" using es(1) by (simp add: distinct_map)
    show "unat (0 :: u32) + length ?ts < 2 ^ 32" using assms(3) by simp
  qed
  obtain avail' c' where f: "fill_slots ?k0 ?k1 known ?ts avail 0 = Inr (avail', c')" "length avail' = length avail"
    "\<forall>(target, pos) \<in> set ?ts. avail' ! unat pos = resolve ?k0 ?k1 known target"
    "\<forall>i. (\<forall>(target, pos) \<in> set ?ts. unat pos \<noteq> i) \<longrightarrow> avail' ! i = avail ! i"
    "unat c' = length (filter (\<lambda>t. resolve ?k0 ?k1 known (fst t) = None) ?ts)"
    using fill_slots_eq [OF pre, of ?k0 ?k1 known] by auto
  have slot: "avail' ! (?es ! j) = resolve ?k0 ?k1 known (short_id_at ids j)" if "j < length ?es" for j
  proof -
    have "?ts ! j \<in> set ?ts" using that es(1) by (intro nth_mem) simp
    then show ?thesis using f(3) u [OF nth_mem [OF that]] that es(1) by (auto simp: case_prod_beta)
  qed
  have keep: "avail' ! i = avail ! i" if "i < length avail" "avail ! i \<noteq> None" for i
  proof -
    have "\<forall>(target, pos) \<in> set ?ts. unat pos \<noteq> i" using pre(3) that(2) by auto
    then show ?thesis using f(4) by blast
  qed
  have c: "unat c' = length (filter (\<lambda>i. avail' ! i = None) ?es)"
  proof -
    have "filter (\<lambda>t. resolve ?k0 ?k1 known (fst t) = None) ?ts = filter (\<lambda>t. avail' ! (unat \<circ> snd) t = None) ?ts"
      using f(3) by (intro filter_cong) auto
    then have "unat c' = length (filter (\<lambda>i. avail' ! i = None) (map (unat \<circ> snd) ?ts))"
      using f(5) by (simp add: filter_map comp_def)
    then show ?thesis by (simp only: us)
  qed
  have sub: "set (empties avail') \<subseteq> set ?es"
  proof
    fix i
    assume i: "i \<in> set (empties avail')"
    then have "avail ! i = None" using keep [of i] f(2) by (cases "avail ! i") (auto simp: set_empties)
    then show "i \<in> set ?es" using i f(2) by (simp add: set_empties)
  qed
  note m = missing_list_eq [OF _ _ _ sub _ c]
  have miss: "missing_list avail' (map of_nat ?es) c' = Inr (map of_nat (empties avail'))" "unat c' = length (empties avail')"
    using m la32 f(2) by (auto simp: set_empties empties_def sorted_wrt_filter)
  have nov: "\<not> cb_short_ids_count cb > - 1 - cb_prefilled_count cb"
  proof -
    have "unat (- 1 - cb_prefilled_count cb) = 2 ^ 32 - 1 - unat (cb_prefilled_count cb)"
      by (simp add: unat_sub unsigned_minus_1_eq_mask mask_eq_exp_minus_1)
    then show ?thesis using assms(4) unat_u32_less [of "cb_short_ids_count cb + cb_prefilled_count cb"]
      by (simp add: word_less_nat_alt)
  qed
  define st where "st = (reset_layout state)\<lparr>cst_available_txs := Some avail', cst_available_txs_count := cb_short_ids_count cb + cb_prefilled_count cb,
    cst_missing_indices := (if c' > 0 then Some (map of_nat (empties avail')) else None), cst_missing_count := c'\<rparr>"
  have "compact_block_reconstruct cb state known = Inr (\<not> c' > 0, st)"
    using assms(1,2,5,6,7) nov t6 es(2) f(1) miss(1)
    by (cases state) (simp add: compact_block_reconstruct_def Let_def has_twin_distinct st_def reset_layout_def word_gt_0)
  moreover have "layout_ok (\<not> c' > 0) st"
    using miss(2) la f(2) empties_Nil_iff [of avail'] by (auto simp: layout_ok_def st_def reset_layout_def word_gt_0
        unsigned_eq_0_iff)
  ultimately show ?thesis using slot keep f(2) by (intro exI conjI) (assumption | simp add: st_def)+
qed

section \<open>The sender's side\<close>

text \<open>The compact block of a list of transactions, those at \<open>M\<close> prefilled.\<close>

definition short_positions :: "(nat \<Rightarrow> bool) \<Rightarrow> nat \<Rightarrow> nat list" where
  "short_positions M n = filter (\<lambda>i. \<not> M i) [0..<n]"

definition prefilled_of :: "(nat \<Rightarrow> bool) \<Rightarrow> dogecoin_tx list \<Rightarrow> prefilled_tx list" where
  "prefilled_of M txs = map (\<lambda>i. \<lparr>ptx_index = of_nat i, ptx_tx = txs ! i\<rparr>) (filter M [0..<length txs])"

definition announce :: "compact_block \<Rightarrow> (nat \<Rightarrow> bool) \<Rightarrow> dogecoin_tx list \<Rightarrow> compact_block" where
  "announce cb M txs =
     cb\<lparr>cb_short_ids_count := of_nat (length (short_positions M (length txs))),
        cb_short_ids := Some (concat (map (\<lambda>i. short_id (cb_sipkey_k0 cb) (cb_sipkey_k1 cb) (txs ! i)) (short_positions M (length txs)))),
        cb_prefilled_count := of_nat (length (prefilled_of M txs)),
        cb_prefilled_txs := Some (prefilled_of M txs)\<rparr>"

text \<open>The answer to a request for missing transactions.\<close>

definition deliver :: "bytes \<Rightarrow> dogecoin_tx list \<Rightarrow> u32 list \<Rightarrow> blocktxn" where
  "deliver hash txs is = \<lparr>bt_blockhash = hash, bt_txs_count = of_nat (length is), bt_txs = Some (map (\<lambda>i. Some (txs ! unat i)) is)\<rparr>"

lemma place_prefilled_ok:
  assumes "distinct (map ptx_index ptxs)" "\<forall>p \<in> set ptxs. ptx_index p < n \<and> avail ! unat (ptx_index p) = None"
    and "length avail = unat n"
  shows "\<exists>avail'. place_prefilled n ptxs avail = Some avail'"
  using assms
proof (induction ptxs arbitrary: avail)
  case (Cons p ptxs)
  have "unat (ptx_index p) \<noteq> unat (ptx_index q)" if "q \<in> set ptxs" for q
    using Cons.prems(1) that by (metis distinct.simps(2) image_eqI list.set_map list.simps(9) unsigned_word_eqI)
  then have "\<forall>q \<in> set ptxs. avail[unat (ptx_index p) := Some (ptx_tx p)] ! unat (ptx_index q) = None"
    using Cons.prems(2) by simp
  then show ?case using Cons by (auto simp: Let_def not_le)
qed simp

lemma length_split: "length (short_positions M n) + length (filter M [0..<n]) = n"
  using sum_length_filter_compl [of M "[0..<n]"] by (simp add: short_positions_def)

lemma nth_concat_ids: "j < length is \<Longrightarrow> (\<And>i. length (f i) = 6) \<Longrightarrow> take 6 (drop (6 * j) (concat (map f is))) = f (is ! j)"
proof (induction "is" arbitrary: j)
  case (Cons i "is")
  then show ?case by (cases j) auto
qed simp

lemma length_concat_ids: "(\<And>i. length (f i) = 6) \<Longrightarrow> length (concat (map f is)) = length is * 6"
  by (induction "is") simp_all

lemma announced_slots:
  assumes "txs \<noteq> []" "length txs < 2 ^ 29"
  shows "\<exists>avail. place_prefilled (of_nat (length txs)) (prefilled_of M txs) (replicate (length txs) None) = Some avail \<and>
    length avail = length txs \<and> (\<forall>i < length txs. avail ! i = (if M i then Some (txs ! i) else None)) \<and>
    empties avail = short_positions M (length txs)"
proof -
  let ?n = "length txs"
  have u: "unat (of_nat i :: u32) = i" if "i \<le> ?n" for i using that assms(2) by (simp add: unat_of_nat)
  have inj: "inj_on (of_nat :: nat \<Rightarrow> u32) {0..<?n}" by (rule inj_onI) (metis atLeastLessThan_iff less_imp_le u)
  have d: "distinct (map ptx_index (prefilled_of M txs))"
    using inj by (auto simp: prefilled_of_def distinct_map comp_def inj_on_def)
  have p: "\<forall>p \<in> set (prefilled_of M txs). ptx_index p < of_nat ?n \<and> replicate ?n None ! unat (ptx_index p) = (None :: dogecoin_tx option)"
    using u by (auto simp: prefilled_of_def word_less_nat_alt)
  obtain avail where pl: "place_prefilled (of_nat ?n) (prefilled_of M txs) (replicate ?n None) = Some avail"
    using place_prefilled_ok [OF d p] u by auto
  note s = place_prefilled_Some [OF pl]
  have l: "length avail = ?n" using s u by simp
  have a: "avail ! i = (if M i then Some (txs ! i) else None)" if i: "i < ?n" for i
  proof (cases "M i")
    case True
    then have "\<lparr>ptx_index = of_nat i, ptx_tx = txs ! i\<rparr> \<in> set (prefilled_of M txs)" using i by (auto simp: prefilled_of_def)
    then show ?thesis using s u i True by fastforce
  next
    case False
    then have "\<forall>p \<in> set (prefilled_of M txs). unat (ptx_index p) \<noteq> i" using u by (auto simp: prefilled_of_def)
    then show ?thesis using s u i False by simp
  qed
  then have "empties avail = short_positions M ?n"
    unfolding empties_def short_positions_def l by (intro filter_cong) auto
  then show ?thesis using pl l a by blast
qed

lemma fill_delivered_ok:
  assumes "\<forall>i \<in> set is. i < count" "length avail = unat count"
  shows "\<exists>avail'. fill_delivered count (zip is (map (\<lambda>i. Some (txs ! unat i)) is)) avail = Inr (True, avail') \<and>
    length avail' = length avail \<and>
    (\<forall>j < length avail. avail' ! j = (if j \<in> unat ` set is then Some (txs ! j) else avail ! j))"
  using assms
proof (induction "is" arbitrary: avail)
  case (Cons i "is")
  have i: "\<not> i \<ge> count" "unat i < length avail" using Cons.prems by (auto simp: word_less_nat_alt not_le)
  let ?a = "avail[unat i := Some (txs ! unat i)]"
  obtain avail' where A: "fill_delivered count (zip is (map (\<lambda>i. Some (txs ! unat i)) is)) ?a = Inr (True, avail')"
    "length avail' = length avail"
    "\<forall>j < length avail. avail' ! j = (if j \<in> unat ` set is then Some (txs ! j) else ?a ! j)"
    using Cons.IH [of ?a] Cons.prems by auto
  then show ?case using i by (auto simp: nth_list_update)
qed simp

lemma empties_less: "\<forall>i \<in> set (empties avail). i < length avail"
  by (simp add: set_empties)

text \<open>With a layout in order, delivering the missing transactions completes it.\<close>

lemma fill_missing_layout:
  assumes "layout_ok False st" "cst_available_txs st = Some avail" "length avail = length txs"
    and "\<forall>i < length txs. avail ! i = None \<or> avail ! i = Some (txs ! i)"
    and "cst_missing_indices st = Some is"
  shows "\<exists>st'. compact_block_fill_missing st (deliver hash txs is) = Inr (True, st') \<and>
    cst_available_txs st' = Some (map Some txs) \<and> cst_missing_count st' = 0"
proof -
  have lay: "length avail = unat (cst_available_txs_count st)" "is = map of_nat (empties avail)"
    "unat (cst_missing_count st) = length (empties avail)"
    using assms(1,2,5) by (auto simp: layout_ok_def)
  have l32: "length avail < 2 ^ 32" using lay(1) unat_u32_less by simp
  have u: "unat (of_nat i :: u32) = i" if "i \<in> set (empties avail)" for i
    using that l32 by (auto simp: set_empties unat_of_nat)
  have cnt: "of_nat (length is) = cst_missing_count st" by (simp add: lay(2) flip: lay(3))
  have lis: "length is = unat (cst_missing_count st)" using lay(2,3) by simp
  have "\<forall>i \<in> set is. i < cst_available_txs_count st"
    using u lay(1,2) by (auto simp: word_less_nat_alt set_empties)
  from fill_delivered_ok [OF this lay(1), of txs] obtain avail' where
    a: "fill_delivered (cst_available_txs_count st) (zip is (map (\<lambda>i. Some (txs ! unat i)) is)) avail = Inr (True, avail')"
      "length avail' = length avail"
      "\<forall>j < length avail. avail' ! j = (if j \<in> unat ` set is then Some (txs ! j) else avail ! j)" by blast
  have un: "unat ` set is = set (empties avail)" using u lay(2) by (auto simp: image_iff)
  have full: "avail' = map Some txs"
  proof (rule nth_equalityI)
    fix j
    assume j: "j < length avail'"
    then have "j \<in> set (empties avail) \<or> avail ! j = Some (txs ! j)" using assms(3,4) a(2) by (auto simp: set_empties)
    then show "avail' ! j = map Some txs ! j" using a(2,3) j un assms(3) by auto
  qed (use a(2) assms(3) in simp)
  have "cells_of (Some is) (unat (cst_missing_count st)) = Inr is"
    "cells_of (Some (map (\<lambda>i. Some (txs ! unat i)) is)) (unat (cst_missing_count st)) = Inr (map (\<lambda>i. Some (txs ! unat i)) is)"
    "cells_of (Some avail') (unat (cst_available_txs_count st)) = Inr avail'"
    using lis a(2) lay(1) by (auto simp: cells_of_def)
  then show ?thesis using assms(2,5) cnt a(1) full
    by (auto simp: compact_block_fill_missing_def deliver_def)
qed

section \<open>The messages on the wire\<close>

lemma ser_indices_append: "ser_indices s first l is = s @ ser_indices [] first l is"
proof (induction "is" arbitrary: s first l)
  case (Cons i "is")
  have "ser_indices s first l (i # is) = ser_indices (ser_varlen s (index_diff first l i)) False i is" by simp
  also have "\<dots> = s @ ser_varlen [] (index_diff first l i) @ ser_indices [] False i is"
    using Cons.IH [of "ser_varlen s (index_diff first l i)"] ser_varlen_append [of s] by simp
  also have "\<dots> = s @ ser_indices [] first l (i # is)" using Cons.IH [of "ser_varlen [] (index_diff first l i)"] by simp
  finally show ?case .
qed simp


lemma ser_txs_append: "ser_txs s (map Some txs) = s @ concat (map (tx_serialize []) txs)"
proof (induction txs arbitrary: s)
  case (Cons t txs)
  have "tx_serialize s t = s @ tx_serialize [] t" by (simp add: tx_serialize_eq [of s] tx_serialize_eq [of "[]"])
  then show ?case using Cons by simp
qed simp

lemma undiff_diff: "index_undiff first l (index_diff first l i) = i"
  by (simp add: index_diff_def index_undiff_def)

lemma varlen_nonempty: "0 < length (ser_varlen [] v)"
  by (simp add: ser_varlen_cases)

lemma deser_indices_ok: "deser_indices (length is) first l (ser_indices [] first l is @ rest) = Some (is, rest)"
proof (induction "is" arbitrary: first l)
  case (Cons i "is")
  have "ser_indices [] first l (i # is) = ser_varlen [] (index_diff first l i) @ ser_indices [] False i is"
    using ser_indices_append [of "ser_varlen [] (index_diff first l i)"] by simp
  then show ?case using Cons by (simp add: varlenc.dec_enc undiff_diff)
qed simp

lemma length_ser_indices: "length is \<le> length (ser_indices [] first l is)"
proof (induction "is" arbitrary: first l)
  case (Cons i "is")
  have "ser_indices [] first l (i # is) = ser_varlen [] (index_diff first l i) @ ser_indices [] False i is"
    using ser_indices_append [of "ser_varlen [] (index_diff first l i)"] by simp
  then have "length (ser_indices [] first l (i # is)) = length (ser_varlen [] (index_diff first l i)) + length (ser_indices [] False i is)"
    by (simp only: length_append)
  then show ?case using Cons.IH [of False i] varlen_nonempty [of "index_diff first l i"]
    by (simp only: list.size)
qed simp

definition tx_sendable :: "dogecoin_tx \<Rightarrow> bool" where
  "tx_sendable tx \<longleftrightarrow> tx_ok tx \<and> vlist (tx_vin tx) \<noteq> []"


lemma deser_txs_ok:
  "\<forall>tx \<in> set txs. tx_sendable tx \<Longrightarrow>
    deser_n (tx_deserialize tx_new) (length txs) (concat (map (tx_serialize []) txs) @ rest) = Some (txs, rest) \<and>
    length txs \<le> length (concat (map (tx_serialize []) txs))"
proof (induction txs)
  case (Cons t txs)
  have "tx_deserialize tx_new (tx_serialize [] t @ r) = Some (t, r)" for r
    using Cons.prems txc.dec_enc [of t r] by (simp add: tx_deserialize_def tx_sendable_def)
  moreover have "1 \<le> length (tx_serialize [] t)" by (simp add: tx_serialize_eq [of "[]"])
  then have "length (t # txs) \<le> length (concat (map (tx_serialize []) (t # txs)))" using Cons
    by (simp del: length_greater_0_conv)
  ultimately show ?case using Cons by simp
qed simp

section \<open>Properties\<close>

text \<open>
  C18. Reconstruction is safe whatever a peer announces: for every compact block whose arrays hold what their
  counts say, every previous state and every list of known transactions it stays inside its arrays, and it
  leaves a coherent state: no layout and failure, or a slot per transaction with the missing indices
  listing exactly the empty slots, complete if and only if the result is true.
\<close>

theorem reconstruct_safe:
  assumes "cells_of (cb_prefilled_txs cb) (unat (cb_prefilled_count cb)) = Inr ptxs"
    and "cells_of (cb_short_ids cb) (unat (cb_short_ids_count cb) * 6) = Inr ids" "6 * unat (cb_short_ids_count cb) < 2 ^ 32"
  shows "\<exists>ok st. compact_block_reconstruct cb state known = Inr (ok, st) \<and> layout_ok ok st"
proof (cases "cb_short_ids_count cb > - 1 - cb_prefilled_count cb \<or> cb_short_ids_count cb + cb_prefilled_count cb = 0 \<or>
    place_prefilled (cb_short_ids_count cb + cb_prefilled_count cb) ptxs
      (replicate (unat (cb_short_ids_count cb + cb_prefilled_count cb)) None) = None \<or>
    has_twin (map (short_id_at ids) [0..<unat (cb_short_ids_count cb)])")
  case True
  then have "compact_block_reconstruct cb state known = Inr (False, reset_layout state)"
    using assms by (auto simp: compact_block_reconstruct_def Let_def split: option.split)
  moreover have "layout_ok False (reset_layout state)" by (simp add: layout_ok_def reset_layout_def)
  ultimately show ?thesis by blast
next
  case False
  then obtain avail where pl: "place_prefilled (cb_short_ids_count cb + cb_prefilled_count cb) ptxs
      (replicate (unat (cb_short_ids_count cb + cb_prefilled_count cb)) None) = Some avail" by auto
  have len: "length ids = unat (cb_short_ids_count cb) * 6"
    using assms(2) by (auto simp: cells_of_def split: option.splits if_splits)
  have "\<forall>x \<in> set (map (short_id_at ids) [0..<unat (cb_short_ids_count cb)]). length x = 6"
    using assms(3) len by (auto simp: short_id_at_eq)
  then have d: "distinct (map (short_id_at ids) [0..<unat (cb_short_ids_count cb)])" using False has_twin_distinct by blast
  have "unat (- 1 - cb_prefilled_count cb) = 2 ^ 32 - 1 - unat (cb_prefilled_count cb)"
    by (simp add: unat_sub unsigned_minus_1_eq_mask mask_eq_exp_minus_1)
  then have "unat (cb_short_ids_count cb + cb_prefilled_count cb) = unat (cb_short_ids_count cb) + unat (cb_prefilled_count cb)"
    using False unat_u32_less [of "cb_prefilled_count cb"] by (auto simp: word_less_nat_alt unat_word_ariths)
  from reconstruct_layout [OF assms this _ pl d] False show ?thesis by blast
qed

text \<open>
  C17. A compact block brings the block across: let the sender prefill the positions \<open>M\<close> of fewer than \<open>2 ^ 29\<close>
  transactions, let the short identifiers of the others be distinct, and let no known transaction answer to one
  of them but the right one. Then reconstruction either succeeds with exactly the transactions of the
  block in order, or names missing indices, and delivering the transactions at these indices completes it.
\<close>

theorem compact_relay_recovers_block:
  assumes "txs \<noteq> []" "length txs < 2 ^ 29"
    and "distinct (map (\<lambda>i. short_id (cb_sipkey_k0 cb) (cb_sipkey_k1 cb) (txs ! i)) (short_positions M (length txs)))"
    and "\<forall>tx i. Some tx \<in> set known \<and> i < length txs \<and> \<not> M i \<and>
      short_id (cb_sipkey_k0 cb) (cb_sipkey_k1 cb) tx = short_id (cb_sipkey_k0 cb) (cb_sipkey_k1 cb) (txs ! i) \<longrightarrow> tx = txs ! i"
  shows "\<exists>ok st. compact_block_reconstruct (announce cb M txs) state known = Inr (ok, st) \<and>
    (ok \<and> cst_available_txs st = Some (map Some txs) \<or>
     \<not> ok \<and> (\<exists>is st'. cst_missing_indices st = Some is \<and>
        compact_block_fill_missing st (deliver hash txs is) = Inr (True, st') \<and> cst_available_txs st' = Some (map Some txs)))"
proof -
  let ?cb = "announce cb M txs" and ?n = "length txs" and ?sp = "short_positions M (length txs)" and ?pf = "prefilled_of M txs"
  let ?id = "\<lambda>i. short_id (cb_sipkey_k0 cb) (cb_sipkey_k1 cb) (txs ! i)"
  let ?ids = "concat (map ?id ?sp)"
  have sum: "length ?sp + length ?pf = ?n" using length_split [of M ?n] by (simp add: prefilled_of_def)
  have u: "unat (of_nat i :: u32) = i" if "i \<le> ?n" for i using that assms(2) by (simp add: unat_of_nat)
  have us: "unat (of_nat (length ?sp) :: u32) = length ?sp" "unat (of_nat (length ?pf) :: u32) = length ?pf"
    using u sum by simp_all
  have tot: "of_nat (length ?sp) + of_nat (length ?pf) = (of_nat ?n :: u32)" by (simp only: sum flip: of_nat_add)
  have cb: "cb_short_ids_count ?cb = of_nat (length ?sp)" "cb_prefilled_count ?cb = of_nat (length ?pf)"
    "cb_short_ids ?cb = Some ?ids" "cb_prefilled_txs ?cb = Some ?pf"
    "cb_sipkey_k0 ?cb = cb_sipkey_k0 cb" "cb_sipkey_k1 ?cb = cb_sipkey_k1 cb"
    by (simp_all add: announce_def)
  have lid: "length ?ids = length ?sp * 6" by (rule length_concat_ids) simp
  have at: "short_id_at ?ids j = ?id (?sp ! j)" if "j < length ?sp" for j
    using nth_concat_ids [OF that, of ?id] that assms(2) sum by (simp add: short_id_at_eq)
  have "map (short_id_at ?ids) [0..<length ?sp] = map ?id ?sp" by (rule map_upt_eqI) (simp, simp only: add_0 at nth_map length_map)
  then have dist: "distinct (map (short_id_at ?ids) [0..<length ?sp])" using assms(3) by (simp only:)
  obtain avail where a: "place_prefilled (of_nat ?n) ?pf (replicate ?n None) = Some avail" "length avail = ?n"
    "\<forall>i < ?n. avail ! i = (if M i then Some (txs ! i) else None)" "empties avail = ?sp"
    using announced_slots [OF assms(1,2)] by blast
  have cells: "cells_of (Some ?pf) (length ?pf) = Inr ?pf" "cells_of (Some ?ids) (length ?sp * 6) = Inr ?ids"
    using lid by (auto simp: cells_of_def)
  have nz: "(of_nat ?n :: u32) \<noteq> 0" using u [of ?n] assms(1) by (metis length_0_conv order_refl unat_0)
  obtain ok st avail' where R: "compact_block_reconstruct ?cb state known = Inr (ok, st)" "layout_ok ok st"
    "cst_available_txs st = Some avail'" "length avail' = ?n"
    "\<forall>i < length avail. avail ! i \<noteq> None \<longrightarrow> avail' ! i = avail ! i"
    "\<forall>j < length ?sp. avail' ! (?sp ! j) = resolve (cb_sipkey_k0 cb) (cb_sipkey_k1 cb) known (short_id_at ?ids j)"
    using reconstruct_layout [of ?cb ?pf ?ids avail state known] a cells dist nz us u [of ?n] sum assms(2)
    unfolding cb tot by (auto simp: mult.commute)
  have slots: "avail' ! i = None \<or> avail' ! i = Some (txs ! i)" if i: "i < ?n" for i
  proof (cases "M i")
    case True
    then show ?thesis using R(5) a(2,3) i by auto
  next
    case False
    then have "i \<in> set ?sp" using i by (simp add: short_positions_def)
    then obtain j where j: "j < length ?sp" "?sp ! j = i" by (metis in_set_conv_nth)
    have "tx = txs ! i" if "resolve (cb_sipkey_k0 cb) (cb_sipkey_k1 cb) known (?id i) = Some tx" for tx
    proof -
      have "tx \<in> set (answers (cb_sipkey_k0 cb) (cb_sipkey_k1 cb) known (?id i))"
        using that by (auto simp: resolve_def split: list.splits)
      then have "Some tx \<in> set known" "short_id (cb_sipkey_k0 cb) (cb_sipkey_k1 cb) tx = ?id i" by (auto simp: answers_def)
      then show ?thesis using assms(4) i False by blast
    qed
    then show ?thesis using R(6) j at by (cases "avail' ! i") auto
  qed
  show ?thesis
  proof (cases ok)
    case True
    then have "None \<notin> set avail'" using R(2,3) by (auto simp: layout_ok_def)
    then have "avail' = map Some txs" using slots R(4) by (intro nth_equalityI) (auto, metis nth_mem)
    then show ?thesis using R True by blast
  next
    case False
    then have lay: "layout_ok False st" "cst_missing_indices st = Some (map of_nat (empties avail'))"
      using R(2,3) by (auto simp: layout_ok_def)
    then show ?thesis using fill_missing_layout [OF lay(1) R(3,4) _ lay(2), of hash] slots R(1) False by blast
  qed
qed

definition demo_tx :: "u8 \<Rightarrow> dogecoin_tx" where
  "demo_tx k = \<lparr>tx_version = 1, tx_vin = Some [\<lparr>in_prevout = \<lparr>po_hash = replicate 32 k, po_n = 0\<rparr>, in_script_sig = Some [k],
      in_sequence = 0\<rparr>], tx_vout = Some [\<lparr>out_value = 5, out_script_pubkey = Some [k]\<rparr>], tx_locktime = 0\<rparr>"


theorem reconstruct_safe_witness:
  "\<exists>ok st. compact_block_reconstruct (announce compact_block_new (\<lambda>i. i = 0) [demo_tx 1, demo_tx 2]) compact_block_state_new
      [Some (demo_tx 3)] = Inr (ok, st) \<and> layout_ok ok st"
proof -
  let ?cb = "announce compact_block_new (\<lambda>i. i = 0) [demo_tx 1, demo_tx 2]"
  have "cells_of (cb_prefilled_txs ?cb) (unat (cb_prefilled_count ?cb)) = Inr (prefilled_of (\<lambda>i. i = 0) [demo_tx 1, demo_tx 2])"
    by (simp add: announce_def cells_of_def prefilled_of_def upt_rec)
  moreover have "cells_of (cb_short_ids ?cb) (unat (cb_short_ids_count ?cb) * 6) = Inr (short_id 0 0 (demo_tx 2))"
    by (simp add: announce_def cells_of_def short_positions_def upt_rec compact_block_new_def)
  moreover have "6 * unat (cb_short_ids_count ?cb) < 2 ^ 32"
    by (simp add: announce_def short_positions_def upt_rec)
  ultimately show ?thesis by (rule reconstruct_safe)
qed

theorem compact_relay_recovers_block_witness:
  "\<exists>ok st. compact_block_reconstruct (announce compact_block_new (\<lambda>i. i = 0) [demo_tx 1, demo_tx 2]) compact_block_state_new
      [Some (demo_tx 2)] = Inr (ok, st) \<and>
    (ok \<and> cst_available_txs st = Some [Some (demo_tx 1), Some (demo_tx 2)] \<or>
     \<not> ok \<and> (\<exists>is st'. cst_missing_indices st = Some is \<and>
        compact_block_fill_missing st (deliver (replicate 32 0) [demo_tx 1, demo_tx 2] is) = Inr (True, st') \<and>
        cst_available_txs st' = Some [Some (demo_tx 1), Some (demo_tx 2)]))"
proof -
  have i: "i < length [demo_tx 1, demo_tx 2] \<and> i \<noteq> 0 \<longleftrightarrow> i = 1" for i by auto
  show ?thesis
    using compact_relay_recovers_block [of "[demo_tx 1, demo_tx 2]" compact_block_new "\<lambda>i. i = 0" "[Some (demo_tx 2)]"
        compact_block_state_new "replicate 32 0"] i
    by (simp add: short_positions_def upt_rec)
qed

text \<open>
  A request for transactions survives the wire, whatever the indices: the differences wrap around, and so
  does undoing them.
\<close>

theorem getblocktxn_roundtrip:
  assumes "length (gbt_blockhash req) = 32"
    and "gbt_indices req = (if gbt_indices_count req = 0 then None else Some is)" "length is = unat (gbt_indices_count req)"
  shows "\<exists>s. getblocktxn_serialize [] req = Inr s \<and> getblocktxn_deserialize getblocktxn_new (s @ rest) = Some (req, rest)"
proof (cases "gbt_indices_count req = 0")
  case True
  then have s: "getblocktxn_serialize [] req = Inr (ser_u256 [] (gbt_blockhash req) @ ser_varlen [] 0)"
    using ser_varlen_append [of "ser_u256 [] (gbt_blockhash req)"] assms(3) by (simp add: getblocktxn_serialize_def cells_of_def)
  show ?thesis using True assms(1,2) unfolding s
    by (cases req) (simp add: getblocktxn_deserialize_def u256c.dec_enc varlenc.dec_enc getblocktxn_new_def)
next
  case False
  then have s: "getblocktxn_serialize [] req =
      Inr (ser_u256 [] (gbt_blockhash req) @ ser_varlen [] (gbt_indices_count req) @ ser_indices [] True 0 is)"
    using assms(2,3) ser_varlen_append [of "ser_u256 [] (gbt_blockhash req)"] ser_indices_append [of "_ @ _"]
    by (simp add: getblocktxn_serialize_def cells_of_def unsigned_eq_0_iff)
  show ?thesis using False assms length_ser_indices [of "is" True 0] deser_indices_ok [of "is" True 0 rest] unfolding s
    by (cases req) (simp add: getblocktxn_deserialize_def u256c.dec_enc varlenc.dec_enc getblocktxn_new_def word_gt_0)
qed

theorem getblocktxn_roundtrip_witness:
  "\<exists>s. getblocktxn_serialize [] \<lparr>gbt_blockhash = replicate 32 7, gbt_indices_count = 3, gbt_indices = Some [1, 5, 2]\<rparr> = Inr s \<and>
    getblocktxn_deserialize getblocktxn_new (s @ [9]) =
      Some (\<lparr>gbt_blockhash = replicate 32 7, gbt_indices_count = 3, gbt_indices = Some [1, 5, 2]\<rparr>, [9])"
  using getblocktxn_roundtrip [of "\<lparr>gbt_blockhash = replicate 32 7, gbt_indices_count = 3, gbt_indices = Some [1, 5, 2]\<rparr>"
      "[1, 5, 2]" "[9]"] by simp



text \<open>The delivered transactions survive the wire as well.\<close>

theorem blocktxn_roundtrip:
  assumes "length (bt_blockhash resp) = 32" "txs \<noteq> []" "\<forall>tx \<in> set txs. tx_sendable tx"
    and "bt_txs resp = Some (map Some txs)" "length txs = unat (bt_txs_count resp)"
  shows "\<exists>s. blocktxn_serialize [] resp = Inr s \<and> blocktxn_deserialize blocktxn_new (s @ rest) = Some (resp, rest)"
proof -
  note d = deser_txs_ok [OF assms(3), of rest]
  have nz: "bt_txs_count resp \<noteq> 0" using assms(2,5) by auto
  have s: "blocktxn_serialize [] resp =
      Inr (ser_u256 [] (bt_blockhash resp) @ ser_varlen [] (bt_txs_count resp) @ concat (map (tx_serialize []) txs))"
    using assms(2,4,5) nz ser_varlen_append [of "ser_u256 [] (bt_blockhash resp)"]
    by (simp add: blocktxn_serialize_def cells_of_def ser_txs_append unsigned_eq_0_iff)
  show ?thesis using nz assms d unfolding s
    by (cases resp) (simp add: blocktxn_deserialize_def u256c.dec_enc varlenc.dec_enc blocktxn_new_def word_gt_0)
qed

end
