(* ===== verification/ChaCha20.thy ===== *)
theory ChaCha20
  imports Prelude
begin

text \<open>
  Model of \<open>src/src/chacha20.c\<close>, the stream cipher behind the random source: the state of 16 words,
  the key, the nonce and the position, and the output loop with its last, partial block. The lemmas show that
  the output is the keystream, one block per value of the 64-bit counter, and where the counter stands
  afterwards.

  The variables \<open>x0\<close> to \<open>x15\<close> are a list of 16 words. Reading a key beyond its end is
  \<open>Inl OutOfBounds\<close>. The function pointers of the object are left out.
\<close>

unbundle bit_operations_syntax

section \<open>The cipher\<close>

definition sigma :: bytes where
  "sigma = map of_char ''expand 32-byte k''"

definition tau :: bytes where
  "tau = map of_char ''expand 16-byte k''"

definition le32_at :: "bytes \<Rightarrow> nat \<Rightarrow> u32" where
  "le32_at p off = of_nat (le_val (take 4 (drop off p)))"

definition write_le32 :: "u32 \<Rightarrow> bytes" where
  "write_le32 v = le_bytes 4 (unat v)"

definition chacha_rotate :: "u32 \<Rightarrow> nat \<Rightarrow> u32" where
  "chacha_rotate v c = push_bit c v OR drop_bit (32 - c) v"

definition quarterround :: "nat \<Rightarrow> nat \<Rightarrow> nat \<Rightarrow> nat \<Rightarrow> u32 list \<Rightarrow> u32 list" where
  "quarterround a b c d x =
     (let x = x[a := x ! a + x ! b]; x = x[d := chacha_rotate (x ! d XOR x ! a) 16];
          x = x[c := x ! c + x ! d]; x = x[b := chacha_rotate (x ! b XOR x ! c) 12];
          x = x[a := x ! a + x ! b]; x = x[d := chacha_rotate (x ! d XOR x ! a) 8];
          x = x[c := x ! c + x ! d]; x = x[b := chacha_rotate (x ! b XOR x ! c) 7] in
      x)"

definition double_round :: "u32 list \<Rightarrow> u32 list" where
  "double_round x =
     (let x = quarterround 0 4 8 12 x; x = quarterround 1 5 9 13 x;
          x = quarterround 2 6 10 14 x; x = quarterround 3 7 11 15 x;
          x = quarterround 0 5 10 15 x; x = quarterround 1 6 11 12 x;
          x = quarterround 2 7 8 13 x; x = quarterround 3 4 9 14 x in
      x)"

text \<open>The words of a block: ten double rounds, then the state is added.\<close>

definition chacha_words :: "u32 list \<Rightarrow> u32 list" where
  "chacha_words j = map2 (+) ((double_round ^^ 10) j) j"

definition advance :: "u32 list \<Rightarrow> u32 list" where
  "advance j = (let j = j[12 := j ! 12 + 1] in if j ! 12 = 0 then j[13 := j ! 13 + 1] else j)"

section \<open>The object\<close>

definition chacha20_set_key :: "u32 list \<Rightarrow> bytes \<Rightarrow> u64 \<Rightarrow> u32 list c_outcome" where
  "chacha20_set_key input k keylen =
     (let koff = (if keylen = 32 then 16 else 0); constants = (if keylen = 32 then sigma else tau) in
      if length k < koff + 16 then Inl OutOfBounds
      else
        Inr ([le32_at constants 0, le32_at constants 4, le32_at constants 8, le32_at constants 12,
              le32_at k 0, le32_at k 4, le32_at k 8, le32_at k 12,
              le32_at k koff, le32_at k (koff + 4), le32_at k (koff + 8), le32_at k (koff + 12), 0, 0, 0, 0]))"

definition chacha20_new :: "u32 list" where
  "chacha20_new = replicate 16 0"

definition chacha20_init :: "bytes \<Rightarrow> u64 \<Rightarrow> u32 list c_outcome" where
  "chacha20_init key keylen = chacha20_set_key (replicate 16 0) key keylen"

definition chacha20_set_iv :: "u32 list \<Rightarrow> u64 \<Rightarrow> u32 list" where
  "chacha20_set_iv input iv = input[14 := ucast iv, 15 := ucast (drop_bit 32 iv)]"

definition chacha20_seek :: "u32 list \<Rightarrow> u64 \<Rightarrow> u32 list" where
  "chacha20_seek input pos = input[12 := ucast pos, 13 := ucast (drop_bit 32 pos)]"

text \<open>The bytes written and the state; the loop takes \<open>bytes\<close>, at least 1, down by 64.\<close>

fun output_loop :: "u32 list \<Rightarrow> nat \<Rightarrow> bytes \<times> u32 list" where
  "output_loop j n =
     (let block = concat (map write_le32 (chacha_words j));
          j = advance j in
      if n \<le> 64 then (take n block, j)
      else let (c, j) = output_loop j (n - 64) in (block @ c, j))"

definition chacha20_output :: "u32 list \<Rightarrow> nat \<Rightarrow> bytes \<times> u32 list" where
  "chacha20_output input n =
     (if n = 0 then ([], input)
      else let (c, j) = output_loop input n in (c, input[12 := j ! 12, 13 := j ! 13]))"

section \<open>The keystream\<close>

declare output_loop.simps [simp del]

text \<open>The state with its counter at \<open>p\<close>, and the block it gives.\<close>

definition at_block :: "u32 list \<Rightarrow> u64 \<Rightarrow> u32 list" where
  "at_block input p = chacha20_seek input p"

definition stream_block :: "u32 list \<Rightarrow> u64 \<Rightarrow> bytes" where
  "stream_block input p = concat (map write_le32 (chacha_words (at_block input p)))"

definition keystream :: "u32 list \<Rightarrow> u64 \<Rightarrow> nat \<Rightarrow> bytes" where
  "keystream input p n = concat (map (\<lambda>i. stream_block input (p + of_nat i)) [0..<n])"

lemma length_quarterround [simp]: "length (quarterround a b c d x) = length x"
  by (simp add: quarterround_def Let_def)

lemma length_double_round [simp]: "length (double_round x) = length x"
  by (simp add: double_round_def)

lemma length_chacha_words [simp]: "length (chacha_words j) = length j"
proof -
  have "length ((double_round ^^ n) j) = length j" for n by (induction n) simp_all
  then show ?thesis by (simp add: chacha_words_def)
qed

lemma length_block: "length (concat (map write_le32 ws)) = 4 * length ws"
  by (induction ws) (simp_all add: write_le32_def)

lemma length_stream_block: "length input = 16 \<Longrightarrow> length (stream_block input p) = 64"
  by (simp add: stream_block_def at_block_def chacha20_seek_def length_block)

lemma length_keystream: "length input = 16 \<Longrightarrow> length (keystream input p n) = 64 * n"
  by (induction n) (simp_all add: keystream_def length_stream_block)

text \<open>The counter in two words counts as one.\<close>

lemma unat_halves:
  fixes p :: u64
  shows "unat (ucast p :: u32) = unat p mod 2 ^ 32" "unat (ucast (drop_bit 32 p) :: u32) = unat p div 2 ^ 32"
proof -
  show "unat (ucast p :: u32) = unat p mod 2 ^ 32" by (simp add: unsigned_ucast_eq take_bit_eq_mod)
  have "unat p < 2 ^ 32 * 2 ^ 32" using unat_u64_less [of p] by simp
  then have l: "unat p div 2 ^ 32 < 2 ^ 32" by (simp only: less_mult_imp_div_less)
  have "unat (ucast (drop_bit 32 p) :: u32) = take_bit 32 (unat (drop_bit 32 p))" by (simp only: unsigned_ucast_eq len_bit0 len_num1) simp
  also have "\<dots> = take_bit 32 (unat p div 2 ^ 32)" by (simp only: unat_drop_bit_eq drop_bit_eq_div [where 'a = nat])
  also have "\<dots> = unat p div 2 ^ 32" unfolding take_bit_eq_mod using l by (rule mod_less)
  finally show "unat (ucast (drop_bit 32 p) :: u32) = unat p div 2 ^ 32" .
qed

lemma inc_halves_base:
  fixes n M :: nat
  assumes "n < M * M"
  shows "(n + 1) mod (M * M) mod M = (n mod M + 1) mod M"
    "(n + 1) mod (M * M) div M = (if (n mod M + 1) mod M = 0 then (n div M + 1) mod M else n div M)"
proof -
  have M: "0 < M" using assms by (cases M) auto
  show "(n + 1) mod (M * M) mod M = (n mod M + 1) mod M" by (simp add: mod_mod_cancel mod_Suc_eq)
  define a b where "a = n div M" "b = n mod M"
  then have n: "n = M * a + b" "b < M" "a < M" using M assms by (auto simp: div_less_iff_less_mult)
  show "(n + 1) mod (M * M) div M = (if (n mod M + 1) mod M = 0 then (n div M + 1) mod M else n div M)"
  proof (cases "b + 1 = M")
    case True
    then have "n + 1 = M * (a + 1)" using n(1) by simp
    then have "(n + 1) mod (M * M) div M = (a + 1) mod M" using M by (simp only: mult_mod_right [symmetric] nonzero_mult_div_cancel_left)
    then show ?thesis using True by (simp add: a_b_def [symmetric])
  next
    case False
    then have b: "b + 1 < M" using n(2) by simp
    have "M * (a + 1) \<le> M * M" using n(3) by (intro mult_le_mono2) simp
    then have "n + 1 < M * M" using n(1) b by simp
    then have "(n + 1) mod (M * M) div M = (M * a + (b + 1)) div M" using n(1) by simp
    also have "\<dots> = a" using b by (simp only: div_mult_self4 [of M a] div_mult_self_is_m M div_less)
    finally show ?thesis using b by (simp add: a_b_def [symmetric])
  qed
qed

lemmas inc_halves = inc_halves_base [where M = "2 ^ 32", simplified power_add [symmetric] numeral_plus_numeral add_num_simps]

lemma unat_u32_inc: "unat (w + 1) = (unat w + 1) mod 2 ^ 32" for w :: u32
  by (simp add: unat_word_ariths)

lemma low_high_inc:
  fixes p :: u64
  shows "ucast (p + 1) = (ucast p + 1 :: u32)"
    "ucast (drop_bit 32 (p + 1)) = (if (ucast p + 1 :: u32) = 0 then ucast (drop_bit 32 p) + 1 else ucast (drop_bit 32 p) :: u32)"
proof -
  have s: "unat (p + 1) = (unat p + 1) mod 2 ^ 64" by (simp add: unat_word_ariths)
  have h: "unat (ucast p + 1 :: u32) = (unat p mod 2 ^ 32 + 1) mod 2 ^ 32"
    "unat (ucast (drop_bit 32 p) + 1 :: u32) = (unat p div 2 ^ 32 + 1) mod 2 ^ 32"
    by (simp only: unat_u32_inc unat_halves(1), simp only: unat_u32_inc unat_halves(2))
  note i = inc_halves [of "unat p"]
  have lt: "unat p < 2 ^ 64" using unat_u64_less [of p] by simp
  show "ucast (p + 1) = (ucast p + 1 :: u32)"
  proof (rule unsigned_word_eqI)
    show "unat (ucast (p + 1) :: u32) = unat (ucast p + 1 :: u32)" by (simp only: unat_halves(1) s h(1) i(1) [OF lt])
  qed
  show "ucast (drop_bit 32 (p + 1)) = (if (ucast p + 1 :: u32) = 0 then ucast (drop_bit 32 p) + 1 else ucast (drop_bit 32 p) :: u32)"
  proof (rule unsigned_word_eqI)
    have z: "(ucast p + 1 :: u32) = 0 \<longleftrightarrow> (unat p mod 2 ^ 32 + 1) mod 2 ^ 32 = 0"
      by (simp only: h(1) [symmetric] unsigned_eq_0_iff)
    show "unat (ucast (drop_bit 32 (p + 1)) :: u32) =
        unat (if (ucast p + 1 :: u32) = 0 then ucast (drop_bit 32 p) + 1 else ucast (drop_bit 32 p) :: u32)"
      unfolding unat_halves(2) s i(2) [OF lt] z by (simp only: if_distrib [of unat] h(2) unat_halves(2))
  qed
qed

lemma advance_at_block:
  assumes "length input = 16"
  shows "advance (at_block input p) = at_block input (p + 1)"
proof -
  have "(at_block input p) ! 12 = ucast p" "(at_block input p) ! 13 = ucast (drop_bit 32 p)"
    using assms by (simp_all add: at_block_def chacha20_seek_def)
  then show ?thesis using assms
    by (simp add: advance_def at_block_def chacha20_seek_def low_high_inc list_update_swap [of 12 13])
qed

lemma keystream_Suc: "keystream input p (Suc n) = stream_block input p @ keystream input (p + 1) n"
proof -
  have "[0..<Suc n] = 0 # map Suc [0..<n]" by (simp add: upt_conv_Cons map_Suc_upt del: upt_Suc)
  then show ?thesis by (simp only: keystream_def list.map map_map comp_def concat.simps semiring_1_class.of_nat_0 semiring_1_class.of_nat_Suc add_0_right add.assoc)
qed

lemma output_loop_keystream:
  assumes "length input = 16" "0 < n"
  shows "output_loop (at_block input p) n = (take n (keystream input p ((n + 63) div 64)), at_block input (p + of_nat ((n + 63) div 64)))"
  using assms(2)
proof (induction n arbitrary: p rule: less_induct)
  case (less n)
  have b: "concat (map write_le32 (chacha_words (at_block input p))) = stream_block input p" by (simp add: stream_block_def)
  show ?case
  proof (cases "n \<le> 64")
    case True
    then have "(n + 63) div 64 = 1" using less.prems by simp
    then show ?thesis using True length_stream_block [OF assms(1)]
      by (subst output_loop.simps) (simp add: Let_def b advance_at_block [OF assms(1)] keystream_Suc keystream_def)
  next
    case False
    then have k: "(n + 63) div 64 = Suc ((n - 64 + 63) div 64)" by (simp add: div_if)
    have "output_loop (at_block input (p + 1)) (n - 64) = (take (n - 64) (keystream input (p + 1) ((n - 64 + 63) div 64)),
        at_block input (p + 1 + of_nat ((n - 64 + 63) div 64)))"
      using False by (intro less.IH) auto
    then show ?thesis using False length_stream_block [OF assms(1), of p] unfolding k keystream_Suc
      by (subst output_loop.simps) (simp add: Let_def b advance_at_block [OF assms(1)] add.assoc)
  qed
qed

text \<open>The position a state stands at: the two counter words as one number.\<close>

definition counter :: "u32 list \<Rightarrow> u64" where
  "counter input = of_nat (unat (input ! 12) + 2 ^ 32 * unat (input ! 13))"

lemma halves_counter:
  fixes a b :: u32
  defines "p \<equiv> (of_nat (unat a + 2 ^ 32 * unat b) :: u64)"
  shows "ucast p = a" "ucast (drop_bit 32 p) = b"
proof -
  have a: "unat a < 2 ^ 32" and b: "unat b < 2 ^ 32" using unat_u32_less [of a] unat_u32_less [of b] by simp_all
  then have "unat a + 2 ^ 32 * unat b < 2 ^ 64" by simp
  then have p: "unat p = unat a + 2 ^ 32 * unat b" by (simp only: p_def unat_of_nat len_bit0 len_num1) simp
  show "ucast p = a"
  proof (rule unsigned_word_eqI)
    show "unat (ucast p :: u32) = unat a" unfolding unat_halves(1) p using a by simp
  qed
  show "ucast (drop_bit 32 p) = b"
  proof (rule unsigned_word_eqI)
    show "unat (ucast (drop_bit 32 p) :: u32) = unat b" unfolding unat_halves(2) p using a by simp
  qed
qed

lemma at_counter: "length input = 16 \<Longrightarrow> at_block input (counter input) = input"
  by (simp only: at_block_def chacha20_seek_def counter_def halves_counter list_update_id)

lemma length_new: "length chacha20_new = 16"
  by (simp add: chacha20_new_def)

lemma seek_seek: "chacha20_seek (chacha20_seek input p) q = chacha20_seek input q"
  by (simp add: chacha20_seek_def list_update_swap [of 12 13])

lemma counter_seek:
  assumes "length input = 16"
  shows "counter (chacha20_seek input p) = p"
proof -
  have "chacha20_seek input p ! 12 = ucast p" "chacha20_seek input p ! 13 = ucast (drop_bit 32 p)"
    using assms by (simp_all add: chacha20_seek_def)
  then have "counter (chacha20_seek input p) = of_nat (unat p mod 2 ^ 32 + 2 ^ 32 * (unat p div 2 ^ 32))"
    by (simp only: counter_def unat_halves(1) [of p] unat_halves(2) [of p])
  also have "\<dots> = of_nat (unat p)" by (simp only: mod_mult_div_eq)
  finally show ?thesis by simp
qed

lemma keystream_seek: "keystream (chacha20_seek input q) p n = keystream input p n"
  by (simp add: keystream_def stream_block_def at_block_def seek_seek)

lemma keystream_append: "keystream input p (m + n) = keystream input p m @ keystream input (p + of_nat m) n"
  by (induction m arbitrary: p) (simp_all add: keystream_Suc add.assoc, simp add: keystream_def)

lemma output_eq:
  assumes "length input = 16"
  shows "chacha20_output input n =
    (take n (keystream input (counter input) ((n + 63) div 64)), chacha20_seek input (counter input + of_nat ((n + 63) div 64)))"
proof (cases "n = 0")
  case True
  then show ?thesis using at_counter [OF assms] by (simp add: chacha20_output_def at_block_def)
next
  case False
  then have "output_loop input n = (take n (keystream input (counter input) ((n + 63) div 64)),
      at_block input (counter input + of_nat ((n + 63) div 64)))"
    using output_loop_keystream [OF assms, of n "counter input"] at_counter [OF assms] by simp
  then show ?thesis using False assms by (simp add: chacha20_output_def at_block_def chacha20_seek_def)
qed

text \<open>C40. The output of the cipher is its keystream: a request for \<open>n\<close> bytes returns the first \<open>n\<close> bytes of
  the blocks of the key at the counters \<open>p\<close>, \<open>p + 1\<close>, \<open>\<dots>\<close>, where \<open>p\<close> is the 64-bit counter the two
  counter words hold; the counter wraps as one number of 64 bits. It is left at the first block that was not
  started, so the unused rest of a last block is dropped.\<close>

theorem chacha20_output_keystream:
  assumes "length input = 16"
  shows "chacha20_output input n =
    (take n (concat (map (\<lambda>i. concat (map write_le32 (chacha_words (chacha20_seek input (counter input + of_nat i)))))
        [0..<(n + 63) div 64])),
     chacha20_seek input (counter input + of_nat ((n + 63) div 64)))"
  using output_eq [OF assms, of n] by (simp add: keystream_def stream_block_def at_block_def)

theorem chacha20_output_keystream_witness:
  "chacha20_output chacha20_new 3 = (take 3 (concat (map write_le32 (chacha_words chacha20_new))), chacha20_new[12 := 1])"
proof -
  have c: "counter chacha20_new = 0" by (simp add: counter_def chacha20_new_def)
  have s: "chacha20_seek chacha20_new 0 = chacha20_new" by (simp only: c [symmetric] at_block_def [symmetric] at_counter length_new)
  have o: "chacha20_seek chacha20_new 1 = chacha20_new[12 := 1]"
    by (simp add: chacha20_seek_def chacha20_new_def list_update_same_conv)
  show ?thesis using chacha20_output_keystream [OF length_new, of 3] by (simp add: c s o)
qed

text \<open>Requests concatenate, as long as every request but the last takes whole blocks: asking for \<open>64 k\<close> bytes and
  then for \<open>n\<close> gives the bytes, and leaves the state, of one request for \<open>64 k + n\<close>.\<close>

theorem chacha20_outputs_concatenate:
  assumes "length input = 16"
  shows "chacha20_output input (64 * k + n) =
    (let (a, input') = chacha20_output input (64 * k); (b, input'') = chacha20_output input' n in (a @ b, input''))"
proof -
  have k: "(64 * k + 63) div 64 = k" "(64 * k + n + 63) div 64 = k + (n + 63) div 64" by simp_all
  have l: "length (chacha20_seek input q) = 16" for q using assms by (simp add: chacha20_seek_def)
  have "take (64 * k) (keystream input p k) = keystream input p k" for p by (simp add: length_keystream [OF assms])
  then show ?thesis
    unfolding output_eq [OF assms] Let_def prod.case output_eq [OF l] k keystream_append keystream_seek seek_seek
      counter_seek [OF assms]
    by (simp add: length_keystream [OF assms] add.assoc)
qed

theorem chacha20_outputs_concatenate_witness:
  "chacha20_output chacha20_new 67 =
    (let (a, input') = chacha20_output chacha20_new 64; (b, input'') = chacha20_output input' 3 in (a @ b, input''))"
  using chacha20_outputs_concatenate [OF length_new, of 1 3] by simp

end
