(* ===== verification/FastRandom.thy ===== *)
theory FastRandom
  imports ChaCha20
begin

text \<open>
  Model of the source of random numbers in \<open>src/src/random.c\<close>: the mapper through which the entropy comes, the
  read of the operating system's device, and the \<open>fast_random_context\<close> that draws from ChaCha20 through a
  buffer of 64 bytes and one of 64 bits. The lemmas show that the buffers keep their invariant, that every draw is in
  its range, which draw \<open>randrange\<close> returns, and what becomes of a context whose seeding failed.

  The mapper's two functions are parameters; they act on an environment \<open>'e\<close>, and \<open>random_bytes\<close> returns its
  verdict and the buffer. A shift by a negative count or by 64 and more, undefined in C, is \<open>Inl OutOfBounds\<close>;
  a call through a missing \<open>rng\<close> is \<open>Inl NullDeref\<close>.
\<close>

unbundle bit_operations_syntax

section \<open>The entropy\<close>

record 'e rnd_mapper =
  random_init :: "'e \<Rightarrow> 'e"
  random_bytes :: "'e \<Rightarrow> bytes \<Rightarrow> (bool \<times> bytes) \<times> 'e"

text \<open>The read of the device: \<open>None\<close> when it does not open, else the bytes it would give.\<close>

definition random_bytes_internal :: "bytes option \<Rightarrow> bytes \<Rightarrow> bool \<times> bytes" where
  "random_bytes_internal device buf =
     (case device of
        None \<Rightarrow> (False, buf)
      | Some d \<Rightarrow>
          let got = take (length buf) d in
          if length got \<noteq> length buf then (False, replicate (length buf) 0) else (True, got))"

definition default_rnd_mapper :: "bytes option rnd_mapper" where
  "default_rnd_mapper = \<lparr>random_init = (\<lambda>e. e), random_bytes = (\<lambda>e buf. (random_bytes_internal e buf, e))\<rparr>"

definition rnd_set_bytes_cb :: "'e rnd_mapper \<Rightarrow> ('e \<Rightarrow> bytes \<Rightarrow> (bool \<times> bytes) \<times> 'e) option \<Rightarrow> 'e rnd_mapper" where
  "rnd_set_bytes_cb std cb =
     (case cb of
        None \<Rightarrow> std
      | Some f \<Rightarrow> \<lparr>random_init = (\<lambda>e. e), random_bytes = f\<rparr>)"

section \<open>The context\<close>

record fast_random_context =
  requires_seed :: bool
  rng :: "u32 list option"
  bytebuf :: bytes
  bytebuf_size :: int
  bitbuf :: u64
  bitbuf_size :: int

type_synonym ('e, 'a) draw = "('a \<times> fast_random_context \<times> 'e) c_outcome"

definition read_le64 :: "bytes \<Rightarrow> u64" where
  "read_le64 p = of_nat (le_val (take 8 p))"

function count_bits :: "u64 \<Rightarrow> nat" where
  "count_bits x = (if x = 0 then 0 else Suc (count_bits (drop_bit 1 x)))"
  by auto

text \<open>The call of \<open>this->rng->output\<close>.\<close>

definition rng_output :: "fast_random_context \<Rightarrow> nat \<Rightarrow> (bytes \<times> fast_random_context) c_outcome" where
  "rng_output this n =
     (case rng this of
        None \<Rightarrow> Inl NullDeref
      | Some input \<Rightarrow> let (c, input) = chacha20_output input n in Inr (c, this\<lparr>rng := Some input\<rparr>))"

definition random_seed :: "'e rnd_mapper \<Rightarrow> 'e \<Rightarrow> fast_random_context \<Rightarrow> (fast_random_context \<times> 'e) c_outcome" where
  "random_seed m e this =
     (let e = random_init m e; ((ok, seed), e) = random_bytes m e (replicate 32 0) in
      if \<not> ok then Inr (this, e)
      else (case rng this of
              None \<Rightarrow> Inl NullDeref
            | Some input \<Rightarrow>
                seqc (chacha20_set_key input seed 32) (\<lambda>input.
                Inr (this\<lparr>rng := Some input, requires_seed := False\<rparr>, e))))"

definition seed_if_required :: "'e rnd_mapper \<Rightarrow> 'e \<Rightarrow> fast_random_context \<Rightarrow> (fast_random_context \<times> 'e) c_outcome" where
  "seed_if_required m e this = (if requires_seed this then random_seed m e this else Inr (this, e))"

definition fill_byte_buffer :: "'e rnd_mapper \<Rightarrow> 'e \<Rightarrow> fast_random_context \<Rightarrow> (fast_random_context \<times> 'e) c_outcome" where
  "fill_byte_buffer m e this =
     seqc (seed_if_required m e this) (\<lambda>(this, e).
     seqc (rng_output this 64) (\<lambda>(c, this).
     Inr (this\<lparr>bytebuf := c, bytebuf_size := 64\<rparr>, e)))"

definition rand256 :: "'e rnd_mapper \<Rightarrow> 'e \<Rightarrow> fast_random_context \<Rightarrow> ('e, bytes) draw" where
  "rand256 m e this =
     seqc (if bytebuf_size this < 32 then fill_byte_buffer m e this else Inr (this, e)) (\<lambda>(this, e).
     let off = 64 - bytebuf_size this in
     if off < 0 \<or> int (length (bytebuf this)) < off + 32 then Inl OutOfBounds
     else Inr (take 32 (drop (nat off) (bytebuf this)), this\<lparr>bytebuf_size := bytebuf_size this - 32\<rparr>, e))"

definition rand64 :: "'e rnd_mapper \<Rightarrow> 'e \<Rightarrow> fast_random_context \<Rightarrow> ('e, u64) draw" where
  "rand64 m e this =
     seqc (seed_if_required m e this) (\<lambda>(this, e).
     seqc (rng_output this 8) (\<lambda>(buf, this).
     Inr (read_le64 buf, this, e)))"

definition fill_bit_buffer :: "'e rnd_mapper \<Rightarrow> 'e \<Rightarrow> fast_random_context \<Rightarrow> (fast_random_context \<times> 'e) c_outcome" where
  "fill_bit_buffer m e this =
     seqc (rand64 m e this) (\<lambda>(r, this, e).
     Inr (this\<lparr>bitbuf := r, bitbuf_size := 64\<rparr>, e))"

definition randbits :: "'e rnd_mapper \<Rightarrow> 'e \<Rightarrow> fast_random_context \<Rightarrow> int \<Rightarrow> ('e, u64) draw" where
  "randbits m e this bits =
     (if bits = 0 then Inr (0, this, e)
      else if bits < 0 \<or> 64 < bits then Inl OutOfBounds
      else if 32 < bits then
        seqc (rand64 m e this) (\<lambda>(r, this, e). Inr (drop_bit (nat (64 - bits)) r, this, e))
      else
        seqc (if bitbuf_size this < bits then fill_bit_buffer m e this else Inr (this, e)) (\<lambda>(this, e).
        let ret = bitbuf this AND drop_bit (nat (64 - bits)) (NOT 0) in
        Inr (ret, this\<lparr>bitbuf := drop_bit (nat bits) (bitbuf this), bitbuf_size := bitbuf_size this - bits\<rparr>, e)))"

text \<open>\<open>None\<close> when no draw is ever in range.\<close>

partial_function (option) randrange_loop ::
    "'e rnd_mapper \<Rightarrow> u64 \<Rightarrow> int \<Rightarrow> 'e \<Rightarrow> fast_random_context \<Rightarrow> ('e, u64) draw option" where
  "randrange_loop m limit bits e this =
     (case randbits m e this bits of
        Inl f \<Rightarrow> Some (Inl f)
      | Inr (ret, this, e) \<Rightarrow>
          if ret \<le> limit then Some (Inr (ret, this, e)) else randrange_loop m limit bits e this)"

definition randrange :: "'e rnd_mapper \<Rightarrow> 'e \<Rightarrow> fast_random_context \<Rightarrow> u64 \<Rightarrow> ('e, u64) draw option" where
  "randrange m e this limit =
     (if limit = 0 then Some (Inl AssertFailed)
      else let limit = limit - 1 in randrange_loop m limit (int (count_bits limit)) e this)"

definition rand32 :: "'e rnd_mapper \<Rightarrow> 'e \<Rightarrow> fast_random_context \<Rightarrow> ('e, u32) draw" where
  "rand32 m e this = seqc (randbits m e this 32) (\<lambda>(r, this, e). Inr (ucast r, this, e))"

text \<open>A \<open>dogecoin_bool\<close> is a byte.\<close>

definition randbool :: "'e rnd_mapper \<Rightarrow> 'e \<Rightarrow> fast_random_context \<Rightarrow> ('e, u8) draw" where
  "randbool m e this = seqc (randbits m e this 1) (\<lambda>(r, this, e). Inr (ucast r, this, e))"

definition init_fast_random_context ::
    "'e rnd_mapper \<Rightarrow> 'e \<Rightarrow> bool \<Rightarrow> bytes option \<Rightarrow> (fast_random_context \<times> 'e) c_outcome" where
  "init_fast_random_context m e f_deterministic seed =
     (let this = \<lparr>requires_seed = False, rng = None, bytebuf = replicate 64 0, bytebuf_size = 0,
                  bitbuf = 0, bitbuf_size = 0\<rparr> in
      if \<not> f_deterministic then
        (case seed of
           None \<Rightarrow> random_seed m e (this\<lparr>rng := Some chacha20_new\<rparr>)
         | Some s \<Rightarrow> Inr (this, e))
      else
        (case seed of
           None \<Rightarrow> Inl NullDeref
         | Some s \<Rightarrow> seqc (chacha20_init s 32) (\<lambda>input. Inr (this\<lparr>rng := Some input\<rparr>, e))))"

lemma unat_half: "unat (drop_bit 1 x) = unat x div 2" for x :: u64
  unfolding unat_drop by simp

termination count_bits
proof (relation "measure unat")
  fix x :: u64
  assume "x \<noteq> 0"
  then have "0 < unat x" by (rule contrapos_np) (simp add: unsigned_eq_0_iff)
  then show "(drop_bit 1 x, x) \<in> measure unat" by (simp only: in_measure unat_half)
qed simp

declare count_bits.simps [simp del]

section \<open>The invariant\<close>

definition mapper_ok :: "'e rnd_mapper \<Rightarrow> bool" where
  "mapper_ok m \<longleftrightarrow> (\<forall>e buf. length (snd (fst (random_bytes m e buf))) = length buf)"

text \<open>A context with a generator, whose buffers hold what their sizes say.\<close>

definition context_ok :: "fast_random_context \<Rightarrow> bool" where
  "context_ok this \<longleftrightarrow>
     (\<exists>input. rng this = Some input \<and> length input = 16) \<and>
     length (bytebuf this) = 64 \<and> 0 \<le> bytebuf_size this \<and> bytebuf_size this \<le> 64 \<and>
     0 \<le> bitbuf_size this \<and> bitbuf_size this \<le> 64 \<and> unat (bitbuf this) < 2 ^ nat (bitbuf_size this)"

lemma default_mapper_ok: "mapper_ok default_rnd_mapper"
  by (simp add: mapper_ok_def default_rnd_mapper_def random_bytes_internal_def Let_def split: option.split)

lemma set_key_ok:
  assumes "length seed = 32"
  shows "\<exists>input'. chacha20_set_key input seed 32 = Inr input' \<and> length input' = 16"
  using assms by (simp add: chacha20_set_key_def Let_def)

lemma random_seed_ok:
  assumes "mapper_ok m" "context_ok this"
  shows "\<exists>this' e'. random_seed m e this = Inr (this', e') \<and> context_ok this'"
proof -
  obtain ok seed e' where r: "random_bytes m (random_init m e) (replicate 32 0) = ((ok, seed), e')" by (metis surj_pair)
  have l: "length seed = 32" using assms(1) r unfolding mapper_ok_def by (metis fst_conv snd_conv length_replicate)
  obtain input where i: "rng this = Some input" using assms(2) by (auto simp: context_ok_def)
  obtain input' where "chacha20_set_key input seed 32 = Inr input'" "length input' = 16" using set_key_ok [OF l] by blast
  then show ?thesis using assms(2) by (simp add: random_seed_def Let_def r i context_ok_def)
qed

lemma seed_if_required_ok:
  assumes "mapper_ok m" "context_ok this"
  shows "\<exists>this' e'. seed_if_required m e this = Inr (this', e') \<and> context_ok this'"
  using random_seed_ok [OF assms] assms(2) by (simp add: seed_if_required_def)

lemma length_output: "length input = 16 \<Longrightarrow> length (fst (chacha20_output input n)) = n"
  by (simp add: output_eq length_keystream)

lemma length_output_state: "length input = 16 \<Longrightarrow> length (snd (chacha20_output input n)) = 16"
  by (simp add: output_eq chacha20_seek_def)

lemma rng_output_ok:
  assumes "context_ok this"
  shows "\<exists>c this'. rng_output this n = Inr (c, this') \<and> length c = n \<and> context_ok this' \<and>
    bitbuf this' = bitbuf this \<and> bitbuf_size this' = bitbuf_size this"
proof -
  obtain input where i: "rng this = Some input" "length input = 16" using assms by (auto simp: context_ok_def)
  obtain c input' where o: "chacha20_output input n = (c, input')" by fastforce
  have "length c = n" "length input' = 16" using length_output [OF i(2), of n] length_output_state [OF i(2), of n] o by simp_all
  then show ?thesis using assms i(1) by (simp add: rng_output_def o context_ok_def)
qed

lemma rand64_ok:
  assumes "mapper_ok m" "context_ok this"
  shows "\<exists>r this' e'. rand64 m e this = Inr (r, this', e') \<and> context_ok this'"
  using seed_if_required_ok [OF assms, of e] rng_output_ok [of _ 8] by (fastforce simp: rand64_def)

lemma fill_bit_buffer_ok:
  assumes "mapper_ok m" "context_ok this"
  shows "\<exists>this' e'. fill_bit_buffer m e this = Inr (this', e') \<and> context_ok this' \<and> bitbuf_size this' = 64"
proof -
  obtain r this' e' where "rand64 m e this = Inr (r, this', e')" "context_ok this'" using rand64_ok [OF assms] by blast
  moreover have "unat r < 2 ^ 64" using unat_u64_less [of r] by simp
  ultimately show ?thesis by (simp add: fill_bit_buffer_def context_ok_def)
qed

lemma rand256_ok:
  assumes "mapper_ok m" "context_ok this"
  shows "\<exists>r this' e'. rand256 m e this = Inr (r, this', e') \<and> length r = 32 \<and> context_ok this'"
proof -
  have f: "\<exists>this' e'. fill_byte_buffer m e this = Inr (this', e') \<and> context_ok this' \<and> bytebuf_size this' = 64"
    using seed_if_required_ok [OF assms, of e] rng_output_ok [of _ 64]
    by (fastforce simp: fill_byte_buffer_def context_ok_def)
  have "\<exists>this' e'. (if bytebuf_size this < 32 then fill_byte_buffer m e this else Inr (this, e)) = Inr (this', e') \<and>
      context_ok this' \<and> 32 \<le> bytebuf_size this'"
    using f assms(2) by force
  then show ?thesis by (fastforce simp: rand256_def Let_def context_ok_def)
qed

lemma div_power_less:
  fixes n :: nat
  assumes "n < 2 ^ k" "b \<le> k"
  shows "n div 2 ^ b < 2 ^ (k - b)"
  using assms by (simp add: less_mult_imp_div_less power_add [symmetric])

lemma drop_bit_less:
  assumes "0 < bits" "bits \<le> 64"
  shows "unat (drop_bit (nat (64 - bits)) (r :: u64)) < 2 ^ nat bits"
proof -
  have "unat r < 2 ^ 64" using unat_u64_less [of r] by simp
  then have "unat r div 2 ^ nat (64 - bits) < 2 ^ (64 - nat (64 - bits))" using assms by (intro div_power_less) auto
  moreover have "64 - nat (64 - bits) = nat bits" using assms by simp
  ultimately show ?thesis by (simp only: unat_drop)
qed

lemma low_bits:
  assumes "0 < bits" "bits \<le> 64"
  shows "unat ((w :: u64) AND drop_bit (nat (64 - bits)) (NOT 0)) = unat w mod 2 ^ nat bits"
proof -
  have "drop_bit (nat (64 - bits)) (NOT 0) = (mask (nat bits) :: u64)"
    by (rule bit_word_eqI) (use assms in \<open>auto simp: bit_simps\<close>)
  then show ?thesis by (simp only: take_bit_eq_mask [symmetric] unat_take)
qed

lemma randbits_ok:
  assumes "mapper_ok m" "context_ok this" "0 \<le> bits" "bits \<le> 64"
  shows "\<exists>r this' e'. randbits m e this bits = Inr (r, this', e') \<and> unat r < 2 ^ nat bits \<and> context_ok this'"
proof (cases "bits = 0 \<or> 32 < bits")
  case True
  then show ?thesis using rand64_ok [OF assms(1,2), of e] drop_bit_less [of bits] assms
    by (fastforce simp: randbits_def)
next
  case False
  then have b: "0 < bits" "bits \<le> 32" using assms by auto
  have "\<exists>this' e'. (if bitbuf_size this < bits then fill_bit_buffer m e this else Inr (this, e)) = Inr (this', e') \<and>
      context_ok this' \<and> bits \<le> bitbuf_size this'"
    using fill_bit_buffer_ok [OF assms(1,2), of e] assms(2) b by force
  then obtain this' e' where s: "(if bitbuf_size this < bits then fill_bit_buffer m e this else Inr (this, e)) = Inr (this', e')"
    "context_ok this'" "bits \<le> bitbuf_size this'" by blast
  have "unat (bitbuf this') div 2 ^ nat bits < 2 ^ (nat (bitbuf_size this') - nat bits)"
    using s(2,3) b by (intro div_power_less) (auto simp: context_ok_def)
  moreover have "nat (bitbuf_size this') - nat bits = nat (bitbuf_size this' - bits)" using b s(3) by simp
  ultimately have "context_ok (this'\<lparr>bitbuf := drop_bit (nat bits) (bitbuf this'), bitbuf_size := bitbuf_size this' - bits\<rparr>)"
    using s(2,3) b unat_drop [of "nat bits" "bitbuf this'"] by (simp add: context_ok_def del: drop_bit_eq_div)
  moreover have "unat (bitbuf this' AND drop_bit (nat (64 - bits)) (NOT 0)) < 2 ^ nat bits" using b by (subst low_bits) auto
  ultimately show ?thesis using b by (simp add: randbits_def s(1) Let_def)
qed

section \<open>The range\<close>

lemma count_bits_le: "unat x < 2 ^ n \<Longrightarrow> count_bits x \<le> n"
proof (induction n arbitrary: x)
  case 0
  then show ?case by (subst count_bits.simps) (simp add: unsigned_eq_0_iff)
next
  case (Suc n)
  have "unat (drop_bit 1 x) < 2 ^ n" unfolding unat_half using Suc.prems by simp
  then show ?case using Suc.IH [of "drop_bit 1 x"] by (subst count_bits.simps) simp
qed

lemma count_bits_bounds: "unat x < 2 ^ count_bits x" "x \<noteq> 0 \<Longrightarrow> 2 ^ (count_bits x - 1) \<le> unat x"
proof (induction x rule: count_bits.induct)
  case (1 x)
  { case 1
    show ?case
    proof (cases "x = 0")
      case True
      then show ?thesis by simp
    next
      case False
      then show ?thesis using "1.IH"(1) unat_half [of x] by (subst count_bits.simps) auto
    qed
  next
    case 2
    show ?case
    proof (cases "drop_bit 1 x = 0")
      case True
      then have "count_bits x = 1" using 2 by (simp add: count_bits.simps [of x] count_bits.simps [of 0])
      moreover have "0 < unat x" using 2 by (rule contrapos_np) (simp add: unsigned_eq_0_iff)
      ultimately show ?thesis by simp
    next
      case False
      then have c: "count_bits x = Suc (count_bits (drop_bit 1 x))" "count_bits (drop_bit 1 x) \<noteq> 0"
        using 2 by (auto simp: count_bits.simps [of x] count_bits.simps [of "drop_bit 1 x"] simp del: One_nat_def)
      then have "(2::nat) ^ (count_bits x - 1) = 2 * 2 ^ (count_bits (drop_bit 1 x) - 1)"
        by (cases "count_bits (drop_bit 1 x)") simp_all
      also have "\<dots> \<le> unat x" using "1.IH"(2) [OF 2 False] unat_half [of x] by simp
      finally show ?thesis .
    qed }
qed

text \<open>The first \<open>n\<close> draws are all above the limit.\<close>

fun rejected :: "'e rnd_mapper \<Rightarrow> u64 \<Rightarrow> int \<Rightarrow> nat \<Rightarrow> 'e \<Rightarrow> fast_random_context \<Rightarrow> bool" where
  "rejected m limit bits 0 e this = True"
| "rejected m limit bits (Suc n) e this =
     (case randbits m e this bits of
        Inl f \<Rightarrow> False
      | Inr (ret, this, e) \<Rightarrow> limit < ret \<and> rejected m limit bits n e this)"

lemma randrange_loop_returns:
  assumes "mapper_ok m" "context_ok this" "0 \<le> bits" "bits \<le> 64" "\<not> rejected m limit bits n e this"
  shows "\<exists>r this' e'. randrange_loop m limit bits e this = Some (Inr (r, this', e')) \<and> r \<le> limit \<and> context_ok this'"
  using assms(2,5)
proof (induction n arbitrary: e this)
  case (Suc n)
  obtain r this' e' where r: "randbits m e this bits = Inr (r, this', e')" "context_ok this'"
    using randbits_ok [OF assms(1) Suc.prems(1) assms(3,4)] by blast
  then show ?case using Suc.IH [of this' e'] Suc.prems(2)
    by (subst randrange_loop.simps) (auto simp: not_le)
qed simp

lemma randrange_loop_rejects:
  assumes "randrange_loop m limit bits e this = Some y"
  shows "\<exists>n. \<not> rejected m limit bits n e this"
proof (rule randrange_loop.raw_induct [where P = "\<lambda>m limit bits e this y. \<exists>n. \<not> rejected m limit bits n e this", OF _ assms])
  fix loop m limit bits e this y
  assume IH: "\<And>m limit bits e this y. loop m limit bits e this = Some y \<Longrightarrow> \<exists>n. \<not> rejected m limit bits n e this"
    and step: "(case randbits m e this bits of Inl f \<Rightarrow> Some (Inl f)
      | Inr (ret, this, e) \<Rightarrow> if ret \<le> limit then Some (Inr (ret, this, e)) else loop m limit bits e this) = Some y"
  show "\<exists>n. \<not> rejected m limit bits n e this"
  proof (cases "\<not> rejected m limit bits 1 e this")
    case False
    then obtain ret this' e' where r: "randbits m e this bits = Inr (ret, this', e')" "limit < ret"
      by (auto split: sum.splits)
    have "\<not> ret \<le> limit" using r(2) by (simp add: not_le)
    then have "loop m limit bits e' this' = Some y" using step r(1) by simp
    then obtain n where "\<not> rejected m limit bits n e' this'" using IH by blast
    then have "\<not> rejected m limit bits (Suc n) e this" using r by simp
    then show ?thesis ..
  qed blast
qed

section \<open>What a caller relies on\<close>

text \<open>C37. A context with a generator never leaves its buffers: from a state whose sizes say what the buffers hold,
  with any mapper that fills the buffer it is given, every draw succeeds, keeps that invariant, and is in its range:
  32 bytes, a number below \<open>2 ^ bits\<close>, and 0 or 1 from \<open>randbool\<close>.\<close>

theorem random_draws_in_bounds:
  assumes "mapper_ok m" "context_ok this" "0 \<le> bits" "bits \<le> 64"
  shows "(\<exists>r this' e'. rand256 m e this = Inr (r, this', e') \<and> length r = 32 \<and> context_ok this') \<and>
    (\<exists>r this' e'. rand64 m e this = Inr (r, this', e') \<and> context_ok this') \<and>
    (\<exists>r this' e'. randbits m e this bits = Inr (r, this', e') \<and> unat r < 2 ^ nat bits \<and> context_ok this') \<and>
    (\<exists>r this' e'. randbool m e this = Inr (r, this', e') \<and> (r = 0 \<or> r = 1) \<and> context_ok this')"
proof -
  obtain r this' e' where b: "randbits m e this 1 = Inr (r, this', e')" "unat r < 2" "context_ok this'"
    using randbits_ok [OF assms(1,2), of 1 e] by auto
  have "unat r = 0 \<or> unat r = 1" using b(2) by arith
  then have "r = 0 \<or> r = 1" by (metis unsigned_eq_0_iff unsigned_1 unsigned_word_eqI)
  then have "ucast r = (0 :: u8) \<or> ucast r = (1 :: u8)" by auto
  then have "\<exists>r this' e'. randbool m e this = Inr (r, this', e') \<and> (r = 0 \<or> r = 1) \<and> context_ok this'"
    using b by (simp add: randbool_def)
  then show ?thesis using rand256_ok [OF assms(1,2)] rand64_ok [OF assms(1,2)] randbits_ok [OF assms] by blast
qed

lemma randrange_ok:
  assumes "mapper_ok m" "context_ok this" "0 < limit"
  shows "(\<exists>r this' e'. randrange m e this limit = Some (Inr (r, this', e')) \<and> r < limit \<and> context_ok this') \<longleftrightarrow>
      (\<exists>n. \<not> rejected m (limit - 1) (int (count_bits (limit - 1))) n e this)"
    "(\<exists>n. \<not> rejected m (limit - 1) (int (count_bits (limit - 1))) n e this) \<or> randrange m e this limit = None"
proof -
  have n: "limit \<noteq> 0" using assms(3) by (auto simp: word_gt_0)
  have "unat (limit - 1) < 2 ^ 64" using unat_u64_less [of "limit - 1"] by simp
  then have b: "int (count_bits (limit - 1)) \<le> 64" using count_bits_le [of "limit - 1" 64] by simp
  have lt: "r < limit" if "r \<le> limit - 1" for r
  proof -
    have "unat limit \<noteq> 0" using n by (simp add: unsigned_eq_0_iff)
    moreover have "unat r \<le> unat limit - 1" using that unfolding word_le_nat_alt unat_minus_one [OF n] .
    ultimately show ?thesis unfolding word_less_nat_alt by arith
  qed
  have e: "randrange m e this limit = randrange_loop m (limit - 1) (int (count_bits (limit - 1))) e this"
    using n by (simp add: randrange_def Let_def)
  show "(\<exists>r this' e'. randrange m e this limit = Some (Inr (r, this', e')) \<and> r < limit \<and> context_ok this') \<longleftrightarrow>
      (\<exists>n. \<not> rejected m (limit - 1) (int (count_bits (limit - 1))) n e this)"
    unfolding e using randrange_loop_returns [OF assms(1,2) _ b] randrange_loop_rejects lt by (meson of_nat_0_le_iff)
  show "(\<exists>n. \<not> rejected m (limit - 1) (int (count_bits (limit - 1))) n e this) \<or> randrange m e this limit = None"
    unfolding e using randrange_loop_rejects [of m "limit - 1"] by (meson not_None_eq)
qed

text \<open>C38. \<open>randrange\<close> rejects the draws above the range and returns the others: for a range above 0 it returns a number
  below the range exactly when some draw is below it, and otherwise it does not return. The draws have as many bits
  as the largest answer, so that half of their values, or more, are answers.\<close>

theorem randrange_returns_iff:
  assumes "mapper_ok m" "context_ok this" "0 < limit"
  shows "((\<exists>r this' e'. randrange m e this limit = Some (Inr (r, this', e')) \<and> r < limit \<and> context_ok this') \<longleftrightarrow>
      (\<exists>n. \<not> rejected m (limit - 1) (int (count_bits (limit - 1))) n e this)) \<and>
    ((\<exists>n. \<not> rejected m (limit - 1) (int (count_bits (limit - 1))) n e this) \<or> randrange m e this limit = None) \<and>
    unat (limit - 1) < 2 ^ count_bits (limit - 1) \<and> (limit = 1 \<or> 2 ^ (count_bits (limit - 1) - 1) \<le> unat (limit - 1))"
  using randrange_ok [OF assms] count_bits_bounds [of "limit - 1"] by auto

definition zero_context :: fast_random_context where
  "zero_context = \<lparr>requires_seed = False, rng = Some chacha20_new, bytebuf = replicate 64 0, bytebuf_size = 0,
     bitbuf = 0, bitbuf_size = 0\<rparr>"

lemma zero_context_ok: "context_ok zero_context"
  by (simp add: context_ok_def zero_context_def chacha20_new_def)

theorem random_draws_in_bounds_witness:
  "\<exists>r this' e'. randbits default_rnd_mapper None zero_context 33 = Inr (r, this', e') \<and> unat r < 2 ^ 33"
  using random_draws_in_bounds [OF default_mapper_ok zero_context_ok, of 33 None] by auto

theorem randrange_returns_iff_witness:
  "(\<exists>r this' e'. randrange default_rnd_mapper None zero_context 6 = Some (Inr (r, this', e')) \<and> r < 6 \<and> context_ok this') \<longleftrightarrow>
    (\<exists>n. \<not> rejected default_rnd_mapper 5 (int (count_bits 5)) n None zero_context)"
  using randrange_returns_iff [OF default_mapper_ok zero_context_ok, of 6 None] by simp

lemma quarterround_fixed:
  assumes "z ! a = 0" "z ! b = 0" "z ! c = 0" "z ! d = 0"
    and u: "z[a := 0] = z" "z[b := 0] = z" "z[c := 0] = z" "z[d := 0] = z"
  shows "quarterround a b c d z = z"
proof -
  have s: "z[a := z ! a + z ! b] = z" "z[c := z ! c + z ! d] = z"
    "z[d := chacha_rotate (z ! d XOR z ! a) k] = z" "z[b := chacha_rotate (z ! b XOR z ! c) k] = z" for k
    by (simp_all add: chacha_rotate_def assms)
  show ?thesis by (simp only: quarterround_def s Let_def)
qed

lemma quarterround_zeros:
  assumes "a < 16" "b < 16" "c < 16" "d < 16"
  shows "quarterround a b c d (replicate 16 0) = replicate 16 0"
  by (rule quarterround_fixed) (use assms in \<open>simp_all only: nth_replicate list_update_same_conv length_replicate\<close>)

lemma concat_replicates: "concat (replicate m (replicate k x)) = replicate (m * k) x"
  by (induction m) (simp_all add: replicate_add)

lemma le_bytes_0: "le_bytes k 0 = replicate k 0"
  by (induction k) simp_all

lemma output_zeros: "n \<le> 64 \<Longrightarrow> 0 < n \<Longrightarrow> fst (chacha20_output chacha20_new n) = replicate n 0"
proof -
  assume n: "n \<le> 64" "0 < n"
  have "(double_round ^^ k) (replicate 16 0) = replicate 16 0" for k
    by (induction k) (simp_all add: double_round_def quarterround_zeros)
  then have "chacha_words (replicate 16 0) = replicate 16 0" by (simp add: chacha_words_def map2_map_map)
  then have "concat (map write_le32 (chacha_words chacha20_new)) = replicate 64 0"
    using concat_replicates [of 16 4] by (simp add: chacha20_new_def write_le32_def le_bytes_0)
  then show ?thesis using n by (simp add: chacha20_output_def output_loop.simps [of chacha20_new n] Let_def)
qed

text \<open>C39. A context whose seeding failed looks seeded: when the device does not open, \<open>init_fast_random_context\<close>
  returns a context that does not require a seed, so that no later draw, with whatever mapper, asks for entropy;
  the generator was never keyed, and the first 64 bits and the first 32 bytes drawn are zeros. (The comment of
  \<open>random_seed\<close> says that it leaves \<open>requires_seed\<close> set and that a later call tries again.)\<close>

theorem failed_seed_draws_zeros:
  "\<exists>this. init_fast_random_context default_rnd_mapper None False None = Inr (this, None) \<and> \<not> requires_seed this \<and>
    (\<forall>m :: 'e rnd_mapper. \<forall>e. \<exists>this'. rand64 m e this = Inr (0, this', e)) \<and>
    (\<forall>m :: 'e rnd_mapper. \<forall>e. \<exists>this'. rand256 m e this = Inr (replicate 32 0, this', e))"
proof -
  have o: "\<exists>input. chacha20_output chacha20_new n = (replicate n 0, input)" if "n \<le> 64" "0 < n" for n
    using output_zeros [OF that] by (metis prod.collapse)
  obtain i8 where o8: "chacha20_output chacha20_new 8 = (replicate 8 0, i8)" using o [of 8] by auto
  obtain i64 where o64: "chacha20_output chacha20_new 64 = (replicate 64 0, i64)" using o [of 64] by auto
  have "init_fast_random_context default_rnd_mapper None False None = Inr (zero_context, None)"
    by (simp add: init_fast_random_context_def random_seed_def default_rnd_mapper_def random_bytes_internal_def zero_context_def)
  moreover have "\<exists>this'. rand64 m e zero_context = Inr (0, this', e)" for m :: "'e rnd_mapper" and e
    by (simp add: rand64_def seed_if_required_def zero_context_def rng_output_def o8 read_le64_def le_val_replicate_0)
  moreover have "\<exists>this'. rand256 m e zero_context = Inr (replicate 32 0, this', e)" for m :: "'e rnd_mapper" and e
    by (simp add: rand256_def fill_byte_buffer_def seed_if_required_def zero_context_def rng_output_def o64)
  ultimately show ?thesis by (auto simp: zero_context_def)
qed

text \<open>With a seed and without the deterministic flag, the way \<open>src/src/context.c\<close> calls it, the constructor returns
  a context with no generator: the seed is dropped and every draw reads through a null pointer.\<close>

theorem seeded_context_has_no_generator:
  "\<exists>this. init_fast_random_context m e False (Some seed) = Inr (this, e) \<and> rng this = None \<and>
    rand64 m e this = Inl NullDeref \<and> rand256 m e this = Inl NullDeref"
  by (simp add: init_fast_random_context_def rand64_def rand256_def fill_byte_buffer_def seed_if_required_def rng_output_def)

end
