(* ===== verification/Rmd160.thy ===== *)
theory Rmd160
  imports Sha2
begin

text \<open>
  Model of \<open>src/src/rmd160.c\<close>: RIPEMD-160 as 160 macro calls on ten variables that change their roles from call to
  call, and the function that cuts a message into chunks and pads it. The lemmas show that it is the function of
  the standard, whose registers move and whose word order and shifts come from two permutations and one table.

  The five variables of a line are a list; a call \<open>FF(ee, aa, bb, cc, dd, X[1], 14)\<close> is the triple of its first
  variable, its word and its shift, \<open>(4, 1, 14)\<close>: the other variables follow in cyclic order in every call of the
  source.
\<close>

unbundle bit_operations_syntax

section \<open>The compression function\<close>

datatype rmd_macro = FF | GG | HH | II | JJ | FFF | GGG | HHH | III | JJJ

definition ROL :: "u32 \<Rightarrow> nat \<Rightarrow> u32" where
  "ROL x n = push_bit n x OR drop_bit (32 - n) x"

fun rmd_fun :: "rmd_macro \<Rightarrow> u32 \<Rightarrow> u32 \<Rightarrow> u32 \<Rightarrow> u32" where
  "rmd_fun FF x y z = x XOR y XOR z"
| "rmd_fun GG x y z = x AND y OR NOT x AND z"
| "rmd_fun HH x y z = (x OR NOT y) XOR z"
| "rmd_fun II x y z = x AND z OR y AND NOT z"
| "rmd_fun JJ x y z = x XOR (y OR NOT z)"
| "rmd_fun FFF x y z = x XOR y XOR z"
| "rmd_fun GGG x y z = x AND y OR NOT x AND z"
| "rmd_fun HHH x y z = (x OR NOT y) XOR z"
| "rmd_fun III x y z = x AND z OR y AND NOT z"
| "rmd_fun JJJ x y z = x XOR (y OR NOT z)"

fun rmd_constant :: "rmd_macro \<Rightarrow> u32" where
  "rmd_constant FF = 0"
| "rmd_constant GG = 0x5a827999"
| "rmd_constant HH = 0x6ed9eba1"
| "rmd_constant II = 0x8f1bbcdc"
| "rmd_constant JJ = 0xa953fd4e"
| "rmd_constant FFF = 0"
| "rmd_constant GGG = 0x7a6d76e9"
| "rmd_constant HHH = 0x6d703ef3"
| "rmd_constant III = 0x5c4dd124"
| "rmd_constant JJJ = 0x50a28be6"

definition rmd_call :: "rmd_macro \<Rightarrow> u32 list \<Rightarrow> u32 list \<Rightarrow> nat \<times> nat \<times> nat \<Rightarrow> u32 list" where
  "rmd_call mac X v = (\<lambda>(a, i, s).
     let b = (a + 1) mod 5; c = (a + 2) mod 5; d = (a + 3) mod 5; e = (a + 4) mod 5;
         v = v[a := v ! a + (rmd_fun mac (v ! b) (v ! c) (v ! d) + X ! i + rmd_constant mac)];
         v = v[a := ROL (v ! a) s + v ! e];
         v = v[c := ROL (v ! c) 10] in
     v)"

definition rmd_left :: "(rmd_macro \<times> (nat \<times> nat \<times> nat) list) list" where
  "rmd_left = [
     (FF, [(0, 0, 11), (4, 1, 14), (3, 2, 15), (2, 3, 12), (1, 4, 5), (0, 5, 8), (4, 6, 7), (3, 7, 9),
      (2, 8, 11), (1, 9, 13), (0, 10, 14), (4, 11, 15), (3, 12, 6), (2, 13, 7), (1, 14, 9), (0, 15, 8)]),
     (GG, [(4, 7, 7), (3, 4, 6), (2, 13, 8), (1, 1, 13), (0, 10, 11), (4, 6, 9), (3, 15, 7), (2, 3, 15),
      (1, 12, 7), (0, 0, 12), (4, 9, 15), (3, 5, 9), (2, 2, 11), (1, 14, 7), (0, 11, 13), (4, 8, 12)]),
     (HH, [(3, 3, 11), (2, 10, 13), (1, 14, 6), (0, 4, 7), (4, 9, 14), (3, 15, 9), (2, 8, 13), (1, 1, 15),
      (0, 2, 14), (4, 7, 8), (3, 0, 13), (2, 6, 6), (1, 13, 5), (0, 11, 12), (4, 5, 7), (3, 12, 5)]),
     (II, [(2, 1, 11), (1, 9, 12), (0, 11, 14), (4, 10, 15), (3, 0, 14), (2, 8, 15), (1, 12, 9), (0, 4, 8),
      (4, 13, 9), (3, 3, 14), (2, 7, 5), (1, 15, 6), (0, 14, 8), (4, 5, 6), (3, 6, 5), (2, 2, 12)]),
     (JJ, [(1, 4, 9), (0, 0, 15), (4, 5, 5), (3, 9, 11), (2, 7, 6), (1, 12, 8), (0, 2, 13), (4, 10, 12),
      (3, 14, 5), (2, 1, 12), (1, 3, 13), (0, 8, 14), (4, 11, 11), (3, 6, 8), (2, 15, 5), (1, 13, 6)])]"

definition rmd_right :: "(rmd_macro \<times> (nat \<times> nat \<times> nat) list) list" where
  "rmd_right = [
     (JJJ, [(0, 5, 8), (4, 14, 9), (3, 7, 9), (2, 0, 11), (1, 9, 13), (0, 2, 15), (4, 11, 15), (3, 4, 5),
      (2, 13, 7), (1, 6, 7), (0, 15, 8), (4, 8, 11), (3, 1, 14), (2, 10, 14), (1, 3, 12), (0, 12, 6)]),
     (III, [(4, 6, 9), (3, 11, 13), (2, 3, 15), (1, 7, 7), (0, 0, 12), (4, 13, 8), (3, 5, 9), (2, 10, 11),
      (1, 14, 7), (0, 15, 7), (4, 8, 12), (3, 12, 7), (2, 4, 6), (1, 9, 15), (0, 1, 13), (4, 2, 11)]),
     (HHH, [(3, 15, 9), (2, 5, 7), (1, 1, 15), (0, 3, 11), (4, 7, 8), (3, 14, 6), (2, 6, 6), (1, 9, 14),
      (0, 11, 12), (4, 8, 13), (3, 12, 5), (2, 2, 14), (1, 10, 13), (0, 0, 13), (4, 4, 7), (3, 13, 5)]),
     (GGG, [(2, 8, 15), (1, 6, 5), (0, 4, 8), (4, 1, 11), (3, 3, 14), (2, 11, 14), (1, 15, 6), (0, 0, 14),
      (4, 5, 6), (3, 12, 9), (2, 2, 12), (1, 13, 9), (0, 9, 12), (4, 7, 5), (3, 10, 15), (2, 14, 8)]),
     (FFF, [(1, 12, 8), (0, 15, 5), (4, 10, 12), (3, 4, 9), (2, 1, 12), (1, 5, 5), (0, 8, 14), (4, 7, 6),
      (3, 6, 8), (2, 2, 13), (1, 13, 6), (0, 14, 5), (4, 0, 15), (3, 3, 13), (2, 9, 11), (1, 11, 11)])]"

definition rmd_line :: "(rmd_macro \<times> (nat \<times> nat \<times> nat) list) list \<Rightarrow> u32 list \<Rightarrow> u32 list \<Rightarrow> u32 list" where
  "rmd_line rounds X v = foldl (\<lambda>v (mac, calls). foldl (rmd_call mac X) v calls) v rounds"

definition rmd_compress :: "u32 list \<Rightarrow> u32 list \<Rightarrow> u32 list" where
  "rmd_compress MDbuf X =
     (let v = rmd_line rmd_left X MDbuf; w = rmd_line rmd_right X MDbuf;
          ddd = w ! 3 + (v ! 2 + MDbuf ! 1) in
      [ddd, MDbuf ! 2 + v ! 3 + w ! 4, MDbuf ! 3 + v ! 4 + w ! 0, MDbuf ! 4 + v ! 0 + w ! 1, MDbuf ! 0 + v ! 1 + w ! 2])"

section \<open>The hash\<close>

definition rmd_chunk :: "bytes \<Rightarrow> u32 list" where
  "rmd_chunk msg =
     map (\<lambda>j. ucast (msg ! (4 * j)) OR push_bit 8 (ucast (msg ! (4 * j + 1))) OR
       push_bit 16 (ucast (msg ! (4 * j + 2))) OR push_bit 24 (ucast (msg ! (4 * j + 3)))) [0..<16]"

fun rmd_chunks :: "u32 list \<Rightarrow> bytes \<Rightarrow> nat \<Rightarrow> u32 list \<times> bytes" where
  "rmd_chunks digest msg 0 = (digest, msg)"
| "rmd_chunks digest msg (Suc n) = rmd_chunks (rmd_compress digest (rmd_chunk (take 64 msg))) (drop 64 msg) n"

definition rmd_tail :: "bytes \<Rightarrow> u32 list" where
  "rmd_tail msg =
     foldl (\<lambda>chunk i. chunk[i div 4 := chunk ! (i div 4) XOR push_bit (8 * (i mod 4)) (ucast (msg ! i))])
       (replicate 16 0) [0..<length msg]"

definition rmd_last :: "u32 list \<Rightarrow> bytes \<Rightarrow> u32 \<Rightarrow> u32 list" where
  "rmd_last digest msg msg_len =
     (let chunk = rmd_tail (take (unat (msg_len AND 63)) msg);
          i = unat (drop_bit 2 msg_len AND 15);
          chunk = chunk[i := chunk ! i XOR push_bit (8 * unat (msg_len AND 3) + 7) 1];
          (digest, chunk) =
            (if 55 < msg_len AND 63 then (rmd_compress digest chunk, replicate 16 0) else (digest, chunk));
          chunk = chunk[14 := push_bit 3 msg_len];
          chunk = chunk[15 := drop_bit 29 msg_len] in
      rmd_compress digest chunk)"

text \<open>The length argument is the length of the message at every call of the library.\<close>

definition rmd160 :: "bytes \<Rightarrow> bytes" where
  "rmd160 msg =
     (let msg_len = of_nat (length msg) :: u32;
          digest = [0x67452301, 0xefcdab89, 0x98badcfe, 0x10325476, 0xc3d2e1f0];
          (digest, msg) = rmd_chunks digest msg (unat (drop_bit 6 msg_len));
          digest = rmd_last digest msg msg_len in
      concat (map (\<lambda>d. [ucast d, ucast (drop_bit 8 d), ucast (drop_bit 16 d), ucast (drop_bit 24 d)]) digest))"

section \<open>The standard\<close>

text \<open>Registers move one place in every step; \<open>f\<close> and the constant belong to a round; the word is picked by the powers
  of one permutation, on the right line after another; the shift belongs to the round and the word.\<close>

fun ripemd_f :: "nat \<Rightarrow> u32 \<Rightarrow> u32 \<Rightarrow> u32 \<Rightarrow> u32" where
  "ripemd_f 0 x y z = x XOR y XOR z"
| "ripemd_f (Suc 0) x y z = (x AND y) OR (NOT x AND z)"
| "ripemd_f (Suc (Suc 0)) x y z = (x OR NOT y) XOR z"
| "ripemd_f (Suc (Suc (Suc 0))) x y z = (x AND z) OR (y AND NOT z)"
| "ripemd_f _ x y z = x XOR (y OR NOT z)"

definition rho :: "nat \<Rightarrow> nat" where
  "rho i = [7, 4, 13, 1, 10, 6, 15, 3, 12, 0, 9, 5, 2, 14, 11, 8] ! i"

definition ripemd_shift :: "nat \<Rightarrow> nat \<Rightarrow> nat" where
  "ripemd_shift round w =
     [[11, 14, 15, 12, 5, 8, 7, 9, 11, 13, 14, 15, 6, 7, 9, 8],
      [12, 13, 11, 15, 6, 9, 9, 7, 12, 15, 11, 13, 7, 8, 7, 7],
      [13, 15, 14, 11, 7, 7, 6, 8, 13, 14, 13, 12, 5, 5, 6, 9],
      [14, 11, 12, 14, 8, 6, 5, 5, 15, 12, 15, 14, 9, 9, 8, 6],
      [15, 12, 13, 13, 9, 5, 8, 6, 14, 11, 12, 11, 8, 6, 5, 5]] ! round ! w"

definition left_constant :: "nat \<Rightarrow> u32" where
  "left_constant round = [0, 0x5A827999, 0x6ED9EBA1, 0x8F1BBCDC, 0xA953FD4E] ! round"

definition right_constant :: "nat \<Rightarrow> u32" where
  "right_constant round = [0x50A28BE6, 0x5C4DD124, 0x6D703EF3, 0x7A6D76E9, 0] ! round"

definition left_word :: "nat \<Rightarrow> nat" where
  "left_word t = (rho ^^ (t div 16)) (t mod 16)"

definition right_word :: "nat \<Rightarrow> nat" where
  "right_word t = (rho ^^ (t div 16)) ((9 * (t mod 16) + 5) mod 16)"

type_synonym ripemd_state = "u32 \<times> u32 \<times> u32 \<times> u32 \<times> u32"

definition ripemd_step :: "u32 list \<Rightarrow> nat \<Rightarrow> u32 \<Rightarrow> nat \<Rightarrow> nat \<Rightarrow> ripemd_state \<Rightarrow> ripemd_state" where
  "ripemd_step X f K w s = (\<lambda>(A, B, C, D, E). (E, ROL (A + ripemd_f f B C D + X ! w + K) s + E, B, ROL C 10, D))"

definition ripemd_left :: "u32 list \<Rightarrow> nat \<Rightarrow> ripemd_state \<Rightarrow> ripemd_state" where
  "ripemd_left X t = ripemd_step X (t div 16) (left_constant (t div 16)) (left_word t) (ripemd_shift (t div 16) (left_word t))"

definition ripemd_right :: "u32 list \<Rightarrow> nat \<Rightarrow> ripemd_state \<Rightarrow> ripemd_state" where
  "ripemd_right X t =
     ripemd_step X (4 - t div 16) (right_constant (t div 16)) (right_word t) (ripemd_shift (t div 16) (right_word t))"

definition words_le :: "bytes \<Rightarrow> u32 list" where
  "words_le block = map (\<lambda>j. of_nat (le_val (take 4 (drop (4 * j) block)))) [0..<16]"

definition ripemd_block :: "ripemd_state \<Rightarrow> bytes \<Rightarrow> ripemd_state" where
  "ripemd_block h block =
     (let X = words_le block;
          (A, B, C, D, E) = foldl (\<lambda>st t. ripemd_left X t st) h [0..<80];
          (A', B', C', D', E') = foldl (\<lambda>st t. ripemd_right X t st) h [0..<80];
          (h0, h1, h2, h3, h4) = h in
      (h1 + C + D', h2 + D + E', h3 + E + A', h4 + A + B', h0 + B + C'))"

definition ripemd160_spec :: "bytes \<Rightarrow> bytes" where
  "ripemd160_spec m =
     (let (h0, h1, h2, h3, h4) =
        fst (absorb 64 ripemd_block (0x67452301, 0xEFCDAB89, 0x98BADCFE, 0x10325476, 0xC3D2E1F0)
          (md_pad 64 (le_bytes 8 (8 * length m)) m)) in
      concat (map (\<lambda>h. le_bytes 4 (unat h)) [h0, h1, h2, h3, h4]))"

section \<open>The calls of a line\<close>

text \<open>The state of the standard that a list of variables stands for when the next call starts with variable \<open>a\<close>.\<close>

definition roles :: "nat \<Rightarrow> u32 list \<Rightarrow> ripemd_state" where
  "roles a v = (v ! a, v ! ((a + 1) mod 5), v ! ((a + 2) mod 5), v ! ((a + 3) mod 5), v ! ((a + 4) mod 5))"

lemma length_rmd_call [simp]: "length (rmd_call mac X v c) = length v"
  by (simp add: rmd_call_def Let_def split: prod.split)

lemma rmd_call_roles:
  assumes "length v = 5" "a < 5" "\<And>x y z. rmd_fun mac x y z = ripemd_f f x y z"
  shows "roles ((a + 4) mod 5) (rmd_call mac X v (a, i, s)) = ripemd_step X f (rmd_constant mac) i s (roles a v)"
proof -
  have "a = 0 \<or> a = 1 \<or> a = 2 \<or> a = 3 \<or> a = 4" using assms(2) by arith
  then show ?thesis using assms(1,3)
    by (elim disjE) (simp_all add: rmd_call_def roles_def ripemd_step_def Let_def add.assoc flip: numeral_2_eq_2)
qed

definition calls_of :: "(nat \<Rightarrow> nat) \<Rightarrow> nat \<Rightarrow> (nat \<times> nat \<times> nat) list" where
  "calls_of word round =
     map (\<lambda>t. (4 * t mod 5, word t, ripemd_shift round (word t))) [16 * round..<16 * round + 16]"

lemma left_calls: "rmd_left = map (\<lambda>r. ([FF, GG, HH, II, JJ] ! r, calls_of left_word r)) [0..<5]"
  by code_simp

lemma right_calls: "rmd_right = map (\<lambda>r. ([JJJ, III, HHH, GGG, FFF] ! r, calls_of right_word r)) [0..<5]"
  by code_simp

lemma length_round [simp]: "length (foldl (rmd_call mac X) v cs) = length v"
  by (induction cs arbitrary: v) simp_all

lemma round_roles:
  assumes "length v = 5" "\<And>x y z. rmd_fun mac x y z = ripemd_f f x y z" "m \<le> n"
  shows "roles (4 * n mod 5) (foldl (rmd_call mac X) v (map (\<lambda>t. (4 * t mod 5, w t, sh t)) [m..<n])) =
    foldl (\<lambda>st t. ripemd_step X f (rmd_constant mac) (w t) (sh t) st) (roles (4 * m mod 5) v) [m..<n]"
  using assms(3)
proof (induction n rule: dec_induct)
  case (step n)
  have "4 * Suc n mod 5 = (4 * n mod 5 + 4) mod 5" by presburger
  then show ?case using step assms(1) rmd_call_roles [OF _ _ assms(2), of _ "4 * n mod 5" X "w n" "sh n"] by simp
qed simp

lemma length_line [simp]: "length (rmd_line rounds X v) = length v"
  by (induction rounds arbitrary: v) (simp_all add: rmd_line_def split: prod.split)

lemma rmd_line_roles:
  assumes "length v = 5" "\<And>r x y z. r < n \<Longrightarrow> rmd_fun (mac r) x y z = ripemd_f (fi r) x y z"
  shows "roles (4 * (16 * n) mod 5) (rmd_line (map (\<lambda>r. (mac r, calls_of w r)) [0..<n]) X v) =
      foldl (\<lambda>st t. ripemd_step X (fi (t div 16)) (rmd_constant (mac (t div 16))) (w t) (ripemd_shift (t div 16) (w t)) st)
        (roles 0 v) [0..<16 * n]"
  using assms(2)
proof (induction n)
  case (Suc n)
  let ?v = "rmd_line (map (\<lambda>r. (mac r, calls_of w r)) [0..<n]) X v"
  let ?step = "\<lambda>st t. ripemd_step X (fi (t div 16)) (rmd_constant (mac (t div 16))) (w t) (ripemd_shift (t div 16) (w t)) st"
  have l: "rmd_line (map (\<lambda>r. (mac r, calls_of w r)) [0..<Suc n]) X v = foldl (rmd_call (mac n) X) ?v (calls_of w n)"
    by (simp add: rmd_line_def)
  have "roles (4 * (16 * n + 16) mod 5) (foldl (rmd_call (mac n) X) ?v (calls_of w n)) =
      foldl (\<lambda>st t. ripemd_step X (fi n) (rmd_constant (mac n)) (w t) (ripemd_shift n (w t)) st)
        (roles (4 * (16 * n) mod 5) ?v) [16 * n..<16 * n + 16]"
    unfolding calls_of_def using Suc.prems assms(1) by (intro round_roles) auto
  also have "\<dots> = foldl ?step (roles (4 * (16 * n) mod 5) ?v) [16 * n..<16 * n + 16]"
    by (rule foldl_cong) (auto simp: div_nat_eqI)
  also have "roles (4 * (16 * n) mod 5) ?v = foldl ?step (roles 0 v) [0..<16 * n]" using Suc by auto
  finally have r: "roles (4 * (16 * n + 16) mod 5) (foldl (rmd_call (mac n) X) ?v (calls_of w n)) =
      foldl ?step (foldl ?step (roles 0 v) [0..<16 * n]) [16 * n..<16 * n + 16]" .
  have "[0..<16 * n + 16] = [0..<16 * n] @ [16 * n..<16 * n + 16]" by (rule upt_add_eq_append) simp
  moreover have "16 * Suc n = 16 * n + 16" by simp
  ultimately show ?case unfolding l by (simp only: r foldl_append)
qed (simp add: rmd_line_def)

lemma less_5: "r < 5 \<Longrightarrow> r = 0 \<or> r = 1 \<or> r = 2 \<or> r = 3 \<or> r = (4 :: nat)"
  by arith

lemma left_line:
  assumes "length v = 5"
  shows "roles 0 (rmd_line rmd_left X v) = foldl (\<lambda>st t. ripemd_left X t st) (roles 0 v) [0..<80]"
proof -
  have f: "rmd_fun ([FF, GG, HH, II, JJ] ! r) x y z = ripemd_f r x y z" if "r < 5" for r x y z
    using less_5 [OF that] by (auto simp: numeral_eq_Suc)
  have c: "rmd_constant ([FF, GG, HH, II, JJ] ! r) = left_constant r" if "r < 5" for r
    using less_5 [OF that] by (auto simp: left_constant_def)
  have "foldl (\<lambda>st t. ripemd_left X t st) (roles 0 v) [0..<16 * 5] =
      foldl (\<lambda>st t. ripemd_step X (t div 16) (rmd_constant ([FF, GG, HH, II, JJ] ! (t div 16))) (left_word t)
        (ripemd_shift (t div 16) (left_word t)) st) (roles 0 v) [0..<16 * 5]"
    by (rule foldl_cong) (auto simp: ripemd_left_def c less_mult_imp_div_less)
  then show "roles 0 (rmd_line rmd_left X v) = foldl (\<lambda>st t. ripemd_left X t st) (roles 0 v) [0..<80]"
    using rmd_line_roles [OF assms f, where n = 5 and X = X and w = left_word] unfolding left_calls by simp
qed

lemma right_line:
  assumes "length v = 5"
  shows "roles 0 (rmd_line rmd_right X v) = foldl (\<lambda>st t. ripemd_right X t st) (roles 0 v) [0..<80]"
proof -
  have f: "rmd_fun ([JJJ, III, HHH, GGG, FFF] ! r) x y z = ripemd_f (4 - r) x y z" if "r < 5" for r x y z
    using less_5 [OF that] by (auto simp: numeral_eq_Suc)
  have c: "rmd_constant ([JJJ, III, HHH, GGG, FFF] ! r) = right_constant r" if "r < 5" for r
    using less_5 [OF that] by (auto simp: right_constant_def)
  have "foldl (\<lambda>st t. ripemd_right X t st) (roles 0 v) [0..<16 * 5] =
      foldl (\<lambda>st t. ripemd_step X (4 - t div 16) (rmd_constant ([JJJ, III, HHH, GGG, FFF] ! (t div 16))) (right_word t)
        (ripemd_shift (t div 16) (right_word t)) st) (roles 0 v) [0..<16 * 5]"
    by (rule foldl_cong) (auto simp: ripemd_right_def c less_mult_imp_div_less)
  then show "roles 0 (rmd_line rmd_right X v) = foldl (\<lambda>st t. ripemd_right X t st) (roles 0 v) [0..<80]"
    using rmd_line_roles [OF assms, where fi = "\<lambda>r. 4 - r" and n = 5 and X = X and w = right_word, OF f] unfolding right_calls by simp
qed

lemma list5: "length v = 5 \<Longrightarrow> \<exists>a b c d e. v = [a, b, c, d, e]"
  by (auto simp: numeral_eq_Suc length_Suc_conv)

lemma rmd_compress_block:
  assumes "length md = 5"
  shows "length (rmd_compress md X) = 5"
    "words_le block = X \<Longrightarrow> roles 0 (rmd_compress md X) = ripemd_block (roles 0 md) block"
proof -
  show "length (rmd_compress md X) = 5" by (simp add: rmd_compress_def Let_def)
  obtain h0 h1 h2 h3 h4 where md: "md = [h0, h1, h2, h3, h4]" using list5 [OF assms] by blast
  obtain A B C D E where l: "rmd_line rmd_left X md = [A, B, C, D, E]" using list5 [of "rmd_line rmd_left X md"] unfolding length_line assms by blast
  obtain A' B' C' D' E' where r: "rmd_line rmd_right X md = [A', B', C', D', E']"
    using list5 [of "rmd_line rmd_right X md"] unfolding length_line assms by blast
  have five: "roles 0 [a, b, c, d, e] = (a, b, c, d, e)" for a b c d e by (simp add: roles_def)
  have fl: "foldl (\<lambda>st t. ripemd_left X t st) (h0, h1, h2, h3, h4) [0..<80] = (A, B, C, D, E)"
    using left_line [OF assms, of X] unfolding l five unfolding md five by (rule sym)
  have fr: "foldl (\<lambda>st t. ripemd_right X t st) (h0, h1, h2, h3, h4) [0..<80] = (A', B', C', D', E')"
    using right_line [OF assms, of X] unfolding r five unfolding md five by (rule sym)
  have n: "[a, b, c, d, e] ! 0 = a" "[a, b, c, d, e] ! 1 = b" "[a, b, c, d, e] ! 2 = c" "[a, b, c, d, e] ! 3 = d"
    "[a, b, c, d, e] ! 4 = e" for a b c d e :: u32 by simp_all
  have c: "rmd_compress md X = [h1 + C + D', h2 + D + E', h3 + E + A', h4 + A + B', h0 + B + C']"
    unfolding rmd_compress_def l r Let_def n unfolding md n by (simp add: ac_simps)
  have s: "roles 0 md = (h0, h1, h2, h3, h4)" unfolding md five ..
  assume "words_le block = X"
  then show "roles 0 (rmd_compress md X) = ripemd_block (roles 0 md) block"
    unfolding c five s ripemd_block_def Let_def prod.case by (simp only: fl fr prod.case)
qed

section \<open>Words and padding\<close>

lemma length_words_le [simp]: "length (words_le block) = 16"
  by (simp add: words_le_def)

lemma bit_words_le:
  assumes "length block = 64" "j < 16" "n < 32"
  shows "bit (words_le block ! j) n \<longleftrightarrow> bit (block ! (4 * j + n div 8)) (n mod 8)"
proof -
  let ?c = "take 4 (drop (4 * j) block)"
  have "length ?c = 4" using assms by simp
  then have "bit (?c ! (n div 8)) (n mod 8) \<longleftrightarrow> bit (le_val ?c) (8 * (n div 8) + n mod 8)"
    using bit_le_bytes [of "n div 8" 4 "n mod 8" "le_val ?c"] assms(3) by (simp add: le_bytes_le_val less_mult_imp_div_less)
  moreover have "?c ! (n div 8) = block ! (4 * j + n div 8)" using assms by (simp add: less_mult_imp_div_less)
  moreover have "words_le block ! j = of_nat (le_val ?c)" unfolding words_le_def using assms(2) by (subst nth_map_upt) simp_all
  ultimately show ?thesis using assms(3) by (simp add: bit_of_nat_iff)
qed

lemma words_leI:
  assumes "length block = 64" "length ws = 16"
    and "\<And>j n. j < 16 \<Longrightarrow> n < 32 \<Longrightarrow> bit (ws ! j) n \<longleftrightarrow> bit (block ! (4 * j + n div 8)) (n mod 8)"
  shows "ws = words_le block"
  using assms by (intro nth_equalityI bit_word_eqI) (simp_all add: bit_words_le)

lemma chunk_word:
  fixes a b c d :: u8
  shows "list_all (\<lambda>n. bit (ucast a OR push_bit 8 (ucast b) OR push_bit 16 (ucast c) OR push_bit 24 (ucast d) :: u32) n \<longleftrightarrow>
    bit ([a, b, c, d] ! (n div 8)) (n mod 8)) [0..<32]"
  by (simp add: bit_simps upt_first bit_beyond)

lemma chunk_word_bit:
  fixes a b c d :: u8
  assumes "n < 32"
  shows "bit (ucast a OR push_bit 8 (ucast b) OR push_bit 16 (ucast c) OR push_bit 24 (ucast d) :: u32) n \<longleftrightarrow>
    bit ([a, b, c, d] ! (n div 8)) (n mod 8)"
proof -
  have "n \<in> set [0..<32]" unfolding set_upt using assms by simp
  then show ?thesis using chunk_word [of a b c d] unfolding list_all_iff by blast
qed

lemma rmd_chunk_words:
  assumes "length block = 64"
  shows "rmd_chunk block = words_le block"
proof (rule words_leI [OF assms])
  fix j n :: nat
  assume j: "j < 16" and n: "n < 32"
  have "n div 8 < 4" using n by (simp add: less_mult_imp_div_less)
  then have "n div 8 = 0 \<or> n div 8 = 1 \<or> n div 8 = 2 \<or> n div 8 = 3" by arith
  then have "[block ! (4 * j), block ! (4 * j + 1), block ! (4 * j + 2), block ! (4 * j + 3)] ! (n div 8) = block ! (4 * j + n div 8)"
    by (elim disjE) simp_all
  moreover have "rmd_chunk block ! j = ucast (block ! (4 * j)) OR push_bit 8 (ucast (block ! (4 * j + 1))) OR
      push_bit 16 (ucast (block ! (4 * j + 2))) OR push_bit 24 (ucast (block ! (4 * j + 3)))"
    unfolding rmd_chunk_def using j by (subst nth_map_upt) (simp_all only: diff_zero add_0)
  ultimately show "bit (rmd_chunk block ! j) n = bit (block ! (4 * j + n div 8)) (n mod 8)"
    by (simp only: chunk_word_bit [OF n])
qed (simp add: rmd_chunk_def)

lemma words_le_xor:
  assumes "length block = 64" "i < 64" "block ! i = 0"
  shows "(words_le block)[i div 4 := words_le block ! (i div 4) XOR push_bit (8 * (i mod 4)) (ucast b)] =
    words_le (block[i := b])"
proof (rule words_leI)
  fix j n :: nat
  assume j: "j < 16" and n: "n < 32"
  show "bit ((words_le block)[i div 4 := words_le block ! (i div 4) XOR push_bit (8 * (i mod 4)) (ucast b)] ! j) n =
      bit (block[i := b] ! (4 * j + n div 8)) (n mod 8)"
  proof (cases "j = i div 4")
    case True
    have d: "n div 8 < 4" using n by (simp add: less_mult_imp_div_less)
    have i: "4 * j + i mod 4 = i" using True by simp
    have x: "bit (push_bit (8 * (i mod 4)) (ucast b) :: u32) n \<longleftrightarrow> n div 8 = i mod 4 \<and> bit b (n mod 8)"
    proof (cases "n div 8 = i mod 4")
      case True
      then have "8 * (i mod 4) \<le> n" "n - 8 * (i mod 4) = n mod 8" by (simp_all add: minus_div_mult_eq_mod [symmetric] mult.commute flip: True)
      moreover have "n mod 8 < 32" using mod_less_divisor [of 8 n] by linarith
      ultimately show ?thesis using True n by (simp add: bit_simps)
    next
      case False
      then have "n < 8 * (i mod 4) \<or> 8 \<le> n - 8 * (i mod 4)" using d by (auto simp: not_less)
      then show ?thesis using False by (auto simp: bit_simps bit_beyond)
    qed
    have "bit ((words_le block)[i div 4 := words_le block ! (i div 4) XOR push_bit (8 * (i mod 4)) (ucast b)] ! j) n \<longleftrightarrow>
        (bit (block ! (4 * j + n div 8)) (n mod 8) \<noteq> (n div 8 = i mod 4 \<and> bit b (n mod 8)))"
      using j n True bit_words_le [OF assms(1) j n] by (simp add: bit_xor_iff x)
    also have "\<dots> \<longleftrightarrow> bit (block[i := b] ! (4 * j + n div 8)) (n mod 8)"
    proof (cases "n div 8 = i mod 4")
      case True
      then show ?thesis using i assms by simp
    next
      case False
      then have "4 * j + n div 8 \<noteq> i" using i by linarith
      then show ?thesis using False by simp
    qed
    finally show ?thesis .
  next
    case False
    moreover have "n div 8 < 4" using n by (simp add: less_mult_imp_div_less)
    ultimately have "4 * j + n div 8 \<noteq> i" by auto
    then show ?thesis using False bit_words_le [OF assms(1) j n] by simp
  qed
qed (use assms in simp_all)

lemma words_le_zeros: "words_le (replicate 64 0) = replicate 16 0"
proof -
  have "take 4 (drop (4 * j) (replicate 64 (0 :: u8))) = replicate (min 4 (64 - 4 * j)) 0" for j
    unfolding drop_replicate take_replicate ..
  then show ?thesis unfolding words_le_def by (intro nth_equalityI) (simp_all add: nth_map_upt le_val_replicate_0 del: upt_rec_numeral)
qed

lemma rmd_tail_words:
  assumes "length m \<le> 64"
  shows "rmd_tail m = words_le (m @ replicate (64 - length m) 0)"
proof -
  let ?f = "\<lambda>chunk i. chunk[i div 4 := chunk ! (i div 4) XOR push_bit (8 * (i mod 4)) (ucast (m ! i))]"
  have "foldl ?f (replicate 16 0) [0..<k] = words_le (take k m @ replicate (64 - k) 0)" if "k \<le> length m" for k
    using that
  proof (induction k)
    case 0
    then show ?case using words_le_zeros by simp
  next
    case (Suc k)
    let ?b = "take k m @ replicate (64 - k) 0"
    have r: "replicate (64 - k) (0 :: u8) = 0 # replicate (64 - Suc k) 0"
      using Suc.prems assms by (metis Suc_diff_Suc less_le_trans lessI replicate_Suc Suc_le_lessD)
    have "?b[k := m ! k] = take (Suc k) m @ replicate (64 - Suc k) 0"
      using Suc.prems unfolding r by (simp add: list_update_append take_Suc_conv_app_nth)
    moreover have "length ?b = 64" "?b ! k = 0" using Suc.prems assms unfolding r by (simp_all add: nth_append)
    ultimately show ?case using words_le_xor [of ?b k "m ! k"] Suc assms by simp
  qed
  from this [of "length m"] show ?thesis by (simp add: rmd_tail_def)
qed

lemma words_le_bit:
  assumes "length m < 64"
  shows "(rmd_tail m)[length m div 4 := rmd_tail m ! (length m div 4) XOR push_bit (8 * (length m mod 4) + 7) 1] =
    words_le (m @ 0x80 # replicate (63 - length m) 0)"
proof -
  let ?b = "m @ replicate (64 - length m) 0"
  have "replicate (64 - length m) (0 :: u8) = 0 # replicate (63 - length m) 0"
    using assms Suc_diff_le [of "length m" 63] replicate_Suc [of "63 - length m" "0 :: u8"] by simp
  then have "?b[length m := 0x80] = m @ 0x80 # replicate (63 - length m) 0" "?b ! length m = 0" by (simp_all add: nth_append)
  moreover have "push_bit (8 * (length m mod 4)) (ucast (0x80 :: u8)) = (push_bit (8 * (length m mod 4) + 7) 1 :: u32)"
    by (simp add: push_bit_eq_mult power_add mult.commute)
  ultimately show ?thesis using words_le_xor [of ?b "length m" "0x80"] rmd_tail_words [of m] assms by simp
qed

lemma of_nat_mod_32: "of_nat (x mod 4294967296) = (of_nat x :: u32)"
  by (simp add: word_of_nat_eq_iff take_bit_eq_mod)

text \<open>The last two words hold the length in bits.\<close>

lemma words_le_length:
  assumes "length p = 56" "length (q :: bytes) = 8" "L < 2 ^ 32"
  shows "(words_le (p @ q))[14 := push_bit 3 (of_nat L), 15 := drop_bit 29 (of_nat L)] = words_le (p @ le_bytes 8 (8 * L))"
proof (rule nth_equalityI)
  fix j
  assume "j < length ((words_le (p @ q))[14 := push_bit 3 (of_nat L), 15 := drop_bit 29 (of_nat L)])"
  then have j: "j < 16" by simp
  have w: "words_le b ! j = of_nat (le_val (take 4 (drop (4 * j) b)))" for b
    unfolding words_le_def using j by (subst nth_map_upt) (simp_all only: diff_zero add_0)
  have e: "le_bytes 8 (8 * L) = le_bytes 4 (8 * L) @ le_bytes 4 (8 * L div 256 ^ 4)"
    using le_bytes_append [of 4 4 "8 * L"] by simp
  have h: "8 * L div 256 ^ 4 = L div 2 ^ 29" by (simp add: div_mult2_eq [of "8 * L" 8 "2 ^ 29", simplified])
  consider "j < 14" | "j = 14" | "j = 15" using j by arith
  then show "(words_le (p @ q))[14 := push_bit 3 (of_nat L), 15 := drop_bit 29 (of_nat L)] ! j = words_le (p @ le_bytes 8 (8 * L)) ! j"
  proof cases
    case 1
    then have "4 * j + 4 \<le> length p" using assms(1) by simp
    then have "take 4 (drop (4 * j) (p @ r)) = take 4 (drop (4 * j) p)" for r by simp
    moreover have "(words_le (p @ q))[14 := push_bit 3 (of_nat L), 15 := drop_bit 29 (of_nat L)] ! j = words_le (p @ q) ! j"
      using 1 by simp
    ultimately show ?thesis by (simp only: w)
  next
    case 2
    have "take 4 (drop (4 * j) (p @ le_bytes 8 (8 * L))) = le_bytes 4 (8 * L)" unfolding e 2 using assms(1) by simp
    then have "words_le (p @ le_bytes 8 (8 * L)) ! j = of_nat ((8 * L) mod 256 ^ 4)" by (simp only: w le_val_le_bytes)
    also have "\<dots> = push_bit 3 (of_nat L)" by (simp add: push_bit_eq_mult of_nat_mod_32 mult.commute)
    finally show ?thesis using 2 by simp
  next
    case 3
    have "take 4 (drop (4 * j) (p @ le_bytes 8 (8 * L))) = le_bytes 4 (L div 2 ^ 29)" unfolding e 3 h using assms(1) by simp
    then have "words_le (p @ le_bytes 8 (8 * L)) ! j = of_nat ((L div 2 ^ 29) mod 256 ^ 4)" by (simp only: w le_val_le_bytes)
    also have "L div 2 ^ 29 < 256 ^ 4" using assms(3) by (simp add: div_less_iff_less_mult)
    then have "of_nat ((L div 2 ^ 29) mod 256 ^ 4) = (of_nat (L div 2 ^ 29) :: u32)" by simp
    also have "\<dots> = drop_bit 29 (of_nat L)"
    proof -
      have "unat (of_nat L :: u32) = L" using assms(3) by (simp add: unat_of_nat)
      then have "unat (drop_bit 29 (of_nat L) :: u32) = L div 2 ^ 29" unfolding unat_drop by simp
      then show ?thesis by (metis of_nat_unat ucast_id)
    qed
    finally show ?thesis using 3 by simp
  qed
qed simp

lemma rmd_chunks_absorb:
  assumes "length digest = 5"
  shows "\<exists>d rest. rmd_chunks digest msg (length msg div 64) = (d, rest) \<and> length d = 5 \<and>
    absorb 64 ripemd_block (roles 0 digest) msg = (roles 0 d, rest)"
  using assms
proof (induction msg arbitrary: digest rule: length_induct)
  case (1 msg)
  show ?case
  proof (cases "64 \<le> length msg")
    case True
    let ?d = "rmd_compress digest (rmd_chunk (take 64 msg))"
    have d: "length ?d = 5" "roles 0 ?d = ripemd_block (roles 0 digest) (take 64 msg)"
      using rmd_compress_block [OF "1.prems"] rmd_chunk_words [of "take 64 msg"] True by simp_all
    have n: "length msg div 64 = Suc (length (drop 64 msg) div 64)" using True by (simp add: div_if)
    have lt: "length (drop 64 msg) < length msg" using True by simp
    obtain d' rest where "rmd_chunks ?d (drop 64 msg) (length (drop 64 msg) div 64) = (d', rest)" "length d' = 5"
      "absorb 64 ripemd_block (roles 0 ?d) (drop 64 msg) = (roles 0 d', rest)"
      using "1.IH" [rule_format, OF lt d(1)] by blast
    then show ?thesis using True unfolding n by (simp add: absorb.simps [of 64 _ _ msg] d(2))
  next
    case False
    then show ?thesis using "1.prems" by (simp add: absorb_short)
  qed
qed

lemma low_bits_32:
  assumes "L < 2 ^ 32"
  shows "unat (of_nat L AND (63 :: u32)) = L mod 64" "unat (of_nat L AND (3 :: u32)) = L mod 4"
    "unat (drop_bit 2 (of_nat L) AND (15 :: u32)) = L mod 64 div 4"
proof -
  have L: "unat (of_nat L :: u32) = L" using assms by (simp add: unat_of_nat)
  have m: "unat (w AND mask k) = unat w mod 2 ^ k" for w :: u32 and k
    unfolding take_bit_eq_mask [symmetric] by (rule unat_take)
  have k: "(63 :: u32) = mask 6" "(3 :: u32) = mask 2" "(15 :: u32) = mask 4" by (simp_all add: mask_eq_exp_minus_1)
  show "unat (of_nat L AND (63 :: u32)) = L mod 64" unfolding k m L by simp
  show "unat (of_nat L AND (3 :: u32)) = L mod 4" unfolding k m L by simp
  have "unat (drop_bit 2 (of_nat L) :: u32) = L div 4" unfolding unat_drop L by simp
  then have "unat (drop_bit 2 (of_nat L) AND (15 :: u32)) = L div 4 mod 16" unfolding k m by simp
  also have "\<dots> = L mod 64 div 4" using mod_mult2_eq [of L 4 16] by simp
  finally show "unat (drop_bit 2 (of_nat L) AND (15 :: u32)) = L mod 64 div 4" .
qed

lemma rmd_last_absorb:
  assumes "length d = 5" "absorb 64 ripemd_block h m = (roles 0 d, rest)" "length m < 2 ^ 32"
  shows "length (rmd_last d rest (of_nat (length m))) = 5"
    "roles 0 (rmd_last d rest (of_nat (length m))) = fst (absorb 64 ripemd_block h (md_pad 64 (le_bytes 8 (8 * length m)) m))"
proof -
  define r where "r = length rest"
  let ?L = "of_nat (length m) :: u32"
  let ?len = "le_bytes 8 (8 * length m)"
  have r: "r = length m mod 64" "r < 64" using absorb_rest [of 64 ripemd_block h m] assms(2) by (simp_all add: r_def)
  have a: "unat (?L AND 63) = r" "unat (?L AND 3) = r mod 4" "unat (drop_bit 2 ?L AND 15) = r div 4"
    using low_bits_32 [OF assms(3)] r(1) by (simp_all add: mod_mod_cancel)
  have t: "take r rest = rest" by (simp add: r_def)
  define W where "W = words_le (rest @ 0x80 # replicate (63 - r) 0)"
  have w: "(rmd_tail rest)[r div 4 := rmd_tail rest ! (r div 4) XOR push_bit (8 * (r mod 4) + 7) 1] = W"
    using words_le_bit [of rest] r(2) unfolding r_def [symmetric] W_def by simp
  have c: "55 < ?L AND 63 \<longleftrightarrow> 55 < r" unfolding word_less_nat_alt a(1) by simp
  have set_len: "(words_le (p @ q))[14 := push_bit 3 ?L, 15 := drop_bit 29 ?L] = words_le (p @ ?len)"
    if "length p = 56" "length q = 8" for p q using words_le_length [OF that assms(3)] .
  have l: "rmd_last d rest ?L =
      (let (d, W) = (if 55 < r then (rmd_compress d W, replicate 16 0) else (d, W)) in
       rmd_compress d (W[14 := push_bit 3 ?L, 15 := drop_bit 29 ?L]))"
    unfolding rmd_last_def Let_def a t w c by (simp split: prod.split)
  note pad = absorb_pad [OF assms(2), of ?len, folded r_def]
  show "length (rmd_last d rest ?L) = 5" unfolding l using assms(1) by (simp add: rmd_compress_block(1) Let_def split: prod.split)
  show "roles 0 (rmd_last d rest ?L) = fst (absorb 64 ripemd_block h (md_pad 64 ?len m))"
  proof (cases "55 < r")
    case True
    have z: "(replicate 16 0)[14 := push_bit 3 ?L, 15 := drop_bit 29 ?L] = words_le (replicate 56 0 @ ?len)"
      using set_len [of "replicate 56 0" "replicate 8 0"] words_le_zeros by (simp only: replicate_add [symmetric] length_replicate) simp
    show ?thesis using True pad unfolding l Let_def
      by (simp add: z rmd_compress_block(1) [OF assms(1)] rmd_compress_block(2) [OF _ refl] assms(1) W_def)
  next
    case False
    have "replicate (63 - r) (0 :: u8) = replicate (55 - r) 0 @ replicate 8 0"
      using False by (simp add: replicate_add [symmetric])
    then have "W[14 := push_bit 3 ?L, 15 := drop_bit 29 ?L] = words_le (rest @ 0x80 # replicate (55 - r) 0 @ ?len)"
      using set_len [of "rest @ 0x80 # replicate (55 - r) 0" "replicate 8 0"] False unfolding W_def by (simp add: r_def)
    then show ?thesis using False pad unfolding l Let_def
      by (simp add: rmd_compress_block(2) [OF assms(1) refl])
  qed
qed

lemma digest_bytes: "[ucast d, ucast (drop_bit 8 d), ucast (drop_bit 16 d), ucast (drop_bit 24 d)] = le_bytes 4 (unat d)" for d :: u32
proof -
  have u: "ucast w = (of_nat (unat w) :: u8)" for w :: u32 by simp
  have "le_bytes 4 k = [of_nat k, of_nat (k div 256), of_nat (k div 65536), of_nat (k div 16777216)]" for k
    using div_mult2_eq [of k 256 256] div_mult2_eq [of k 65536 256] by (simp add: le_bytes_numeral)
  then show ?thesis unfolding u unat_drop by simp
qed

text \<open>C32. The hash is RIPEMD-160: for a message shorter than 2 to the 32 bytes, the 160 macro calls with their fixed
  variables, words and shifts, the assembled chunks and the padding give the digest of the standard, whose registers
  rotate and whose words are picked by two permutations.\<close>

theorem rmd160_is_ripemd160:
  assumes "length m < 2 ^ 32"
  shows "rmd160 m = ripemd160_spec m"
proof -
  let ?d = "[0x67452301, 0xefcdab89, 0x98badcfe, 0x10325476, 0xc3d2e1f0] :: u32 list"
  have len: "unat (drop_bit 6 (of_nat (length m)) :: u32) = length m div 64"
    using assms unfolding unat_drop by (simp add: unat_of_nat)
  obtain d rest where c: "rmd_chunks ?d m (length m div 64) = (d, rest)" "length d = 5"
    "absorb 64 ripemd_block (roles 0 ?d) m = (roles 0 d, rest)"
    using rmd_chunks_absorb [of ?d m] by auto
  have h: "roles 0 ?d = (0x67452301, 0xEFCDAB89, 0x98BADCFE, 0x10325476, 0xC3D2E1F0)" by (simp add: roles_def)
  note l = rmd_last_absorb [OF c(2,3) assms]
  obtain h0 h1 h2 h3 h4 where v: "rmd_last d rest (of_nat (length m)) = [h0, h1, h2, h3, h4]" using list5 [OF l(1)] by blast
  have r: "roles 0 [h0, h1, h2, h3, h4] = (h0, h1, h2, h3, h4)" by (simp add: roles_def)
  show ?thesis
    unfolding rmd160_def ripemd160_spec_def Let_def len c(1) prod.case v digest_bytes h [symmetric] l(2) [symmetric] r ..
qed

theorem rmd160_is_ripemd160_witness: "rmd160 [0x61, 0x62, 0x63] = ripemd160_spec [0x61, 0x62, 0x63]"
  by (rule rmd160_is_ripemd160) simp

end
