(* ===== verification/Gf256.thy ===== *)
theory Gf256
  imports Prelude
begin

text \<open>
  The arithmetic of \<open>src/src/slip0039.c\<close>: multiplication, powers and inverses in the field with 256 elements and the
  interpolation on vectors of bytes. The lemmas show that the operations make a field, an instance of the class of
  the library, and that interpolation is evaluation of the one polynomial through the points, so that any set of
  points of the right size gives the same values.
\<close>

unbundle bit_operations_syntax

section \<open>The functions of the source\<close>

fun mul_rounds :: "nat \<Rightarrow> u8 \<Rightarrow> u8 \<Rightarrow> u8 \<Rightarrow> u8" where
  "mul_rounds 0 a b r = r"
| "mul_rounds (Suc n) a b r =
     (let r = (if b AND 1 \<noteq> 0 then r XOR a else r);
          hi = a AND 0x80;
          a = push_bit 1 a;
          a = (if hi \<noteq> 0 then a XOR 0x1B else a) in
      mul_rounds n a (drop_bit 1 b) r)"

definition gf256_mul :: "u8 \<Rightarrow> u8 \<Rightarrow> u8" where
  "gf256_mul a b = mul_rounds 8 a b 0"

function pow_loop :: "u8 \<Rightarrow> u8 \<Rightarrow> u8 \<Rightarrow> u8" where
  "pow_loop r a e =
     (if e = 0 then r
      else pow_loop (if e AND 1 \<noteq> 0 then gf256_mul r a else r) (gf256_mul a a) (drop_bit 1 e))"
  by pat_completeness auto
termination
  by (relation "measure (\<lambda>(r, a, e). unat e)")
    (auto simp: unat_drop intro!: div_less_dividend simp: unat_gt_0)

declare pow_loop.simps [simp del]

definition gf256_pow :: "u8 \<Rightarrow> u8 \<Rightarrow> u8" where
  "gf256_pow a exp = pow_loop 1 a exp"

definition gf256_inv :: "u8 \<Rightarrow> u8" where
  "gf256_inv a = gf256_pow a 254"

text \<open>The two products of the inner loop for point \<open>i\<close>.\<close>

definition lagrange_products :: "u8 \<Rightarrow> bytes \<Rightarrow> nat \<Rightarrow> u8 \<times> u8" where
  "lagrange_products target_x xs i =
     foldl (\<lambda>(num, den) j.
       if j = i then (num, den)
       else (gf256_mul num (target_x XOR xs ! j), gf256_mul den (xs ! i XOR xs ! j))) (1, 1) [0..<length xs]"

text \<open>The outer loop from point \<open>i\<close> on; \<open>None\<close> is the result -1. The vectors are a list.\<close>

fun lagrange_loop :: "u8 \<Rightarrow> bytes \<Rightarrow> bytes list \<Rightarrow> nat \<Rightarrow> nat \<Rightarrow> bytes \<Rightarrow> bytes option" where
  "lagrange_loop target_x xs ys i 0 out = Some out"
| "lagrange_loop target_x xs ys i (Suc n) out =
     (let (num, den) = lagrange_products target_x xs i in
      if den = 0 then None
      else
        let lag = gf256_mul num (gf256_inv den) in
        lagrange_loop target_x xs ys (Suc i) n (map2 (\<lambda>o' y. o' XOR gf256_mul y lag) out (ys ! i)))"

definition gf256_lagrange :: "u8 \<Rightarrow> bytes \<Rightarrow> bytes list \<Rightarrow> nat \<Rightarrow> bytes option" where
  "gf256_lagrange target_x xs ys ylen =
     (case find (\<lambda>i. xs ! i = target_x) [0..<length xs] of
        Some i \<Rightarrow> Some (ys ! i)
      | None \<Rightarrow> lagrange_loop target_x xs ys 0 (length xs) (replicate ylen 0))"

section \<open>The field\<close>

typedef gf256 = "UNIV :: u8 set" morphisms byte GF ..

lemma byte_inverses [simp]: "byte (GF b) = b" "GF (byte x) = x"
  by (simp_all add: GF_inverse byte_inverse)

lemma gf_eqI: "byte x = byte y \<Longrightarrow> x = y"
  by (simp add: byte_inject)

instantiation gf256 :: ab_group_add
begin

definition zero_gf256 :: gf256 where
  "0 = GF 0"

definition plus_gf256 :: "gf256 \<Rightarrow> gf256 \<Rightarrow> gf256" where
  "x + y = GF (byte x XOR byte y)"

definition uminus_gf256 :: "gf256 \<Rightarrow> gf256" where
  "- x = (x :: gf256)"

definition minus_gf256 :: "gf256 \<Rightarrow> gf256 \<Rightarrow> gf256" where
  "x - y = GF (byte x XOR byte y)"

instance
  by standard (simp_all add: zero_gf256_def plus_gf256_def uminus_gf256_def minus_gf256_def ac_simps)

end

lemma gf_add_self [simp]: "(x :: gf256) + x = 0"
  by (simp add: plus_gf256_def zero_gf256_def)

lemma gf_minus [simp]: "(x :: gf256) - y = x + y"
  by (simp add: plus_gf256_def minus_gf256_def)

lemma byte_plus: "byte (x + y) = byte x XOR byte y"
  by (simp add: plus_gf256_def)

text \<open>Multiplication by the variable of the polynomials.\<close>

definition xt :: "u8 \<Rightarrow> u8" where
  "xt a = (if a AND 0x80 \<noteq> 0 then push_bit 1 a XOR 0x1B else push_bit 1 a)"

definition X :: "gf256 \<Rightarrow> gf256" where
  "X x = GF (xt (byte x))"

lemma high_bit: "(a :: u8) AND 0x80 \<noteq> 0 \<longleftrightarrow> bit a 7"
  using and_exp_eq_0_iff_not_bit [of a 7] by simp

lemma low_bit: "(a :: u8) AND 1 \<noteq> 0 \<longleftrightarrow> bit a 0"
  by (simp add: bit_0 and_one_eq odd_iff_mod_2_eq_one)

lemma push_bit_xor8: "push_bit n (a XOR b :: u8) = push_bit n a XOR push_bit n b"
  by (rule push_bit_xor)

lemma xt_xor: "xt (a XOR b) = xt a XOR xt b"
  unfolding xt_def high_bit by (auto simp: bit_xor_iff push_bit_xor8 ac_simps simp del: push_bit_numeral)

lemma X_add: "X (x + y) = X x + X y"
  by (simp add: X_def plus_gf256_def xt_xor)

lemma X_0 [simp]: "X 0 = 0"
  by (simp add: X_def zero_gf256_def xt_def)

lemma X_pow_add: "(X ^^ n) (x + y) = (X ^^ n) x + (X ^^ n) y"
  by (induction n) (simp_all add: X_add)

lemma X_pow_0 [simp]: "(X ^^ n) 0 = 0"
  by (induction n) simp_all

lemma X_pow_sum: "finite A \<Longrightarrow> (X ^^ n) (sum f A) = (\<Sum>i\<in>A. (X ^^ n) (f i))"
  by (induction A rule: finite_induct) (simp_all add: X_pow_add)

definition scaled :: "bool \<Rightarrow> gf256 \<Rightarrow> gf256" where
  "scaled b x = (if b then x else 0)"

lemma scaled_simps [simp]: "scaled b 0 = 0" "scaled True x = x" "scaled False x = 0"
  by (simp_all add: scaled_def)

lemma scaled_add: "scaled b (x + y) = scaled b x + scaled b y"
  by (simp add: scaled_def)

lemma scaled_xor: "scaled (p \<noteq> q) x = scaled p x + scaled q x"
  by (simp add: scaled_def)

lemma byte_scaled: "byte (scaled b x) = (if b then byte x else 0)"
  by (simp add: scaled_def zero_gf256_def)

lemma X_scaled: "(X ^^ n) (scaled b x) = scaled b ((X ^^ n) x)"
  by (simp add: scaled_def)

definition gmul :: "gf256 \<Rightarrow> gf256 \<Rightarrow> gf256" where
  "gmul x y = (\<Sum>i<8. scaled (bit (byte y) i) ((X ^^ i) x))"

lemma mul_rounds_sum:
  "GF (mul_rounds n a b r) = GF r + (\<Sum>i<n. scaled (bit b i) ((X ^^ i) (GF a)))"
proof (induction n arbitrary: a b r)
  case (Suc n)
  have s: "mul_rounds (Suc n) a b r = mul_rounds n (xt a) (drop_bit 1 b) (if bit b 0 then r XOR a else r)"
    by (simp add: Let_def xt_def low_bit)
  have "GF (mul_rounds (Suc n) a b r) =
      GF (if bit b 0 then r XOR a else r) + (\<Sum>i<n. scaled (bit (drop_bit 1 b) i) ((X ^^ i) (GF (xt a))))"
    unfolding s by (rule Suc.IH)
  moreover have "GF (if bit b 0 then r XOR a else r) = GF r + scaled (bit b 0) (GF a)"
    by (simp add: plus_gf256_def zero_gf256_def)
  moreover have "scaled (bit (drop_bit 1 b) i) ((X ^^ i) (GF (xt a))) = scaled (bit b (Suc i)) ((X ^^ Suc i) (GF a))" for i
    by (simp add: bit_drop_bit_eq X_def funpow_swap1)
  ultimately show ?case
    by (simp only: sum.lessThan_Suc_shift add.assoc funpow_0)
qed (simp add: zero_gf256_def [symmetric])

lemma gf256_mul_gmul: "GF (gf256_mul a b) = gmul (GF a) (GF b)"
  using mul_rounds_sum [of 8 a b 0] by (simp add: gf256_mul_def gmul_def zero_gf256_def [symmetric])

section \<open>The ring\<close>

lemma gmul_X_right: "gmul ((X ^^ n) x) y = (X ^^ n) (gmul x y)"
proof -
  have "(X ^^ i) ((X ^^ n) x) = (X ^^ n) ((X ^^ i) x)" for i by (metis add.commute comp_apply funpow_add)
  then show ?thesis by (simp add: gmul_def X_pow_sum X_scaled)
qed

lemma gmul_add_left: "gmul (x + y) z = gmul x z + gmul y z"
  by (simp add: gmul_def X_pow_add scaled_add sum.distrib)

lemma gmul_add_right: "gmul x (y + z) = gmul x y + gmul x z"
proof -
  have "bit (byte (y + z)) i \<longleftrightarrow> bit (byte y) i \<noteq> bit (byte z) i" for i by (simp add: plus_gf256_def bit_xor_iff)
  then show ?thesis by (simp only: gmul_def scaled_xor sum.distrib)
qed

lemma byte_0 [simp]: "byte 0 = 0"
  by (simp add: zero_gf256_def)

lemma gmul_0 [simp]: "gmul 0 x = 0" "gmul x 0 = 0"
  by (simp_all add: gmul_def)

lemma gmul_sum_right: "finite A \<Longrightarrow> gmul x (sum f A) = (\<Sum>i\<in>A. gmul x (f i))"
  by (induction A rule: finite_induct) (simp_all add: gmul_add_right)

lemma gmul_scaled_right: "gmul x (scaled b y) = scaled b (gmul x y)"
  by (simp add: scaled_def)

lemma X_pow_one: "i < 8 \<Longrightarrow> (X ^^ i) (GF 1) = GF (push_bit i 1)"
proof (induction i)
  case (Suc i)
  then have "(X ^^ Suc i) (GF 1) = X (GF (push_bit i 1))" by simp
  also have "\<dots> = GF (xt (push_bit i 1))" by (simp add: X_def)
  also have "xt (push_bit i 1) = push_bit (Suc i) 1"
    using Suc.prems by (simp add: xt_def high_bit bit_push_bit_iff bit_1_iff push_bit_Suc [symmetric] del: push_bit_of_1)
  finally show ?case .
qed simp

lemma byte_sum: "bit (byte (sum f A)) k \<longleftrightarrow> odd (card {i \<in> A. bit (byte (f i)) k})" if "finite A"
  using that
proof (induction A rule: finite_induct)
  case (insert a A)
  have "{i \<in> insert a A. bit (byte (f i)) k} = (if bit (byte (f a)) k then insert a {i \<in> A. bit (byte (f i)) k} else {i \<in> A. bit (byte (f i)) k})"
    by auto
  then show ?case using insert by (auto simp: plus_gf256_def bit_xor_iff)
qed (simp add: zero_gf256_def)

lemma gmul_one_left: "gmul (GF 1) x = x"
proof (rule gf_eqI, rule bit_word_eqI)
  fix k
  assume "k < LENGTH(8)"
  then have k: "k < 8" by simp
  have "bit (byte (scaled (bit (byte x) i) ((X ^^ i) (GF 1)))) k \<longleftrightarrow> i = k \<and> bit (byte x) k" if "i < 8" for i
    using that k by (auto simp: X_pow_one scaled_def zero_gf256_def bit_push_bit_iff bit_1_iff simp del: push_bit_of_1)
  then have "{i \<in> {..<8}. bit (byte (scaled (bit (byte x) i) ((X ^^ i) (GF 1)))) k} = (if bit (byte x) k then {k} else {})"
    using k by auto
  then show "bit (byte (gmul (GF 1) x)) k = bit (byte x) k" by (simp add: gmul_def byte_sum)
qed

lemma gmul_commute: "gmul x y = gmul y x"
proof -
  have e: "gmul x y = (\<Sum>i<8. \<Sum>j<8. scaled (bit (byte y) i) (scaled (bit (byte x) j) ((X ^^ (i + j)) (GF 1))))" for x y
  proof -
    have "gmul x y = gmul (gmul (GF 1) x) y" by (simp add: gmul_one_left)
    also have "\<dots> = (\<Sum>i<8. scaled (bit (byte y) i) ((X ^^ i) (\<Sum>j<8. scaled (bit (byte x) j) ((X ^^ j) (GF 1)))))"
      by (simp only: gmul_def)
    also have "\<dots> = (\<Sum>i<8. scaled (bit (byte y) i) (\<Sum>j<8. scaled (bit (byte x) j) ((X ^^ (i + j)) (GF 1))))"
      by (simp add: X_pow_sum X_scaled funpow_add)
    also have "\<dots> = (\<Sum>i<8. \<Sum>j<8. scaled (bit (byte y) i) (scaled (bit (byte x) j) ((X ^^ (i + j)) (GF 1))))"
      by (rule sum.cong) (simp_all add: scaled_def)
    finally show ?thesis .
  qed
  have "scaled p (scaled q z) = scaled q (scaled p z)" for p q z by (simp add: scaled_def)
  then show ?thesis unfolding e by (subst sum.swap) (simp add: add.commute)
qed

lemma gmul_assoc: "gmul (gmul x y) z = gmul x (gmul y z)"
proof -
  have "gmul x (gmul y z) = (\<Sum>i<8. scaled (bit (byte z) i) (gmul x ((X ^^ i) y)))"
    by (simp add: gmul_def [of y z] gmul_sum_right gmul_scaled_right)
  also have "\<dots> = (\<Sum>i<8. scaled (bit (byte z) i) ((X ^^ i) (gmul x y)))"
    by (simp add: gmul_commute [of x] gmul_X_right)
  finally show ?thesis by (simp add: gmul_def [of _ z])
qed

instantiation gf256 :: comm_ring_1
begin

definition one_gf256 :: gf256 where
  "1 = GF 1"

definition times_gf256 :: "gf256 \<Rightarrow> gf256 \<Rightarrow> gf256" where
  "x * y = GF (gf256_mul (byte x) (byte y))"

lemma times_gmul: "x * y = gmul x y"
  using gf256_mul_gmul [of "byte x" "byte y"] by (simp add: times_gf256_def)

instance
proof
  fix a b c :: gf256
  show "a * b * c = a * (b * c)" by (simp only: times_gmul gmul_assoc)
  show "a * b = b * a" by (simp only: times_gmul gmul_commute [of a b])
  show "1 * a = a" "(a + b) * c = a * c + b * c" by (simp_all only: times_gmul gmul_one_left one_gf256_def gmul_add_left)
  show "(0 :: gf256) \<noteq> 1" by (metis byte_inverses(1) one_gf256_def zero_gf256_def zero_neq_one)
qed

end

lemma GF_mul [simp]: "GF (gf256_mul a b) = GF a * GF b"
  by (simp add: times_gf256_def)

lemma GF_xor [simp]: "GF (a XOR b) = GF a + GF b"
  by (simp add: plus_gf256_def)

lemma GF_simps: "GF 0 = 0" "GF 1 = 1"
  by (simp_all add: zero_gf256_def one_gf256_def)

lemma GF_eq_iff [simp]: "GF a = GF b \<longleftrightarrow> a = b"
  by (metis byte_inverses(1))

lemma GF_eq_0 [simp]: "GF a = 0 \<longleftrightarrow> a = 0"
  by (simp add: GF_simps(1) [symmetric])

lemma gf_square_add: "((x :: gf256) + y) * (x + y) = x * x + y * y"
proof -
  have "(x + y) * (x + y) = x * x + (x * y + y * x) + y * y" by (simp add: distrib_left distrib_right add.assoc)
  moreover have "x * y + y * x = 0" by (simp only: mult.commute [of y x] gf_add_self)
  ultimately show ?thesis by simp
qed

text \<open>Squaring eight times is the identity, and only 0 and 1 are their own squares.\<close>

definition sq :: "gf256 \<Rightarrow> gf256" where
  "sq x = x * x"

lemma sq_pow: "(sq ^^ n) x = x ^ (2 ^ n)"
  by (induction n) (simp_all add: sq_def power_mult power_mult_distrib flip: power_add mult_2)

lemma sq_pow_add: "(sq ^^ n) (x + y) = (sq ^^ n) x + (sq ^^ n) y"
  by (induction n) (simp_all add: sq_def gf_square_add)

lemma sq_pow_sum: "finite A \<Longrightarrow> (sq ^^ n) (sum f A) = (\<Sum>i\<in>A. (sq ^^ n) (f i))"
proof (induction A rule: finite_induct)
  case empty
  show ?case by (induction n) (simp_all add: sq_def)
qed (simp add: sq_pow_add)

lemma X_times: "X y = GF 2 * y"
proof -
  have "GF 2 = X 1" by (simp add: X_def one_gf256_def xt_def)
  then show ?thesis using gmul_X_right [of 1 1 y] by (simp add: times_gmul gmul_one_left one_gf256_def)
qed

lemma X_pow: "(X ^^ i) 1 = GF 2 ^ i"
  by (induction i) (simp_all add: X_times)

lemma gf_expand: "x = (\<Sum>i<8. scaled (bit (byte x) i) (GF 2 ^ i))"
proof -
  have "x = gmul 1 x" by (simp add: gmul_one_left one_gf256_def)
  then show ?thesis by (simp only: gmul_def X_pow)
qed

lemma squares:
  "gf256_mul 2 2 = 4" "gf256_mul 4 4 = 16" "gf256_mul 16 16 = 0x1b" "gf256_mul 0x1b 0x1b = 0x5e" "gf256_mul 0x5e 0x5e = 0xe4"
  "gf256_mul 0xe4 0xe4 = 0x4d" "gf256_mul 0x4d 0x4d = 0xfa" "gf256_mul 0xfa 0xfa = 2"
  by code_simp+

lemma gf_two_256: "GF 2 ^ 256 = GF 2"
proof -
  have "(sq ^^ 8) x = sq (sq (sq (sq (sq (sq (sq (sq x)))))))" for x by (simp add: numeral_eq_Suc)
  then have "(sq ^^ 8) (GF 2) = GF 2" by (simp only: sq_def GF_mul [symmetric] squares)
  then show ?thesis by (simp add: sq_pow)
qed

lemma gf_pow_256: "(x :: gf256) ^ 256 = x"
proof -
  have e: "(sq ^^ 8) (scaled b (GF 2 ^ i)) = scaled b (GF 2 ^ i)" for b i
  proof -
    have "(GF 2 ^ i) ^ 256 = (GF 2 ^ 256) ^ i" by (simp only: power_mult [symmetric] mult.commute [of i])
    then show ?thesis by (simp add: sq_pow scaled_def gf_two_256)
  qed
  have "x ^ 256 = (sq ^^ 8) x" by (simp add: sq_pow)
  also have "\<dots> = (sq ^^ 8) (\<Sum>i<8. scaled (bit (byte x) i) (GF 2 ^ i))" using gf_expand [of x] by simp
  also have "\<dots> = (\<Sum>i<8. scaled (bit (byte x) i) (GF 2 ^ i))" by (simp only: sq_pow_sum finite_lessThan e)
  finally show ?thesis using gf_expand [of x] by simp
qed

text \<open>The differences of the powers of 2 and their squares are independent but for the first.\<close>

lemma square_differences:
  "map (\<lambda>i. gf256_mul (push_bit i 1) (push_bit i 1) XOR push_bit i 1) [0..<8] = [0, 6, 0x14, 0x48, 0x0b, 0x4c, 0xeb, 0x1a]"
  by code_simp

lemma sum_eight: "(\<Sum>i<(8 :: nat). f i :: gf256) = f 0 + f 1 + f 2 + f 3 + f 4 + f 5 + f 6 + f 7"
proof -
  have "{..<8} = {0, 1, 2, 3, 4, 5, 6, 7 :: nat}" by auto
  then show ?thesis by (simp add: add.assoc)
qed

lemma gf_idempotent: "(x :: gf256) * x = x \<Longrightarrow> x = 0 \<or> x = 1"
proof -
  assume a: "x * x = x"
  define b where "b = bit (byte x)"
  have two: "GF 2 ^ i = GF (push_bit i 1)" if "i < 8" for i
    using X_pow_one [OF that] by (simp only: X_pow [symmetric] GF_simps(2))
  have x: "x = (\<Sum>i<8. scaled (b i) (GF (push_bit i 1)))" unfolding b_def using gf_expand [of x] two by simp
  have s: "sq x = (\<Sum>i<8. scaled (b i) (sq (GF (push_bit i 1))))"
    using sq_pow_sum [of "{..<8}" 1 "\<lambda>i. scaled (b i) (GF (push_bit i 1))"] x by (simp add: scaled_def sq_def if_distrib cong: if_cong)
  have "0 = sq x + x" using a by (simp add: sq_def)
  also have "\<dots> = (\<Sum>i<8. scaled (b i) (sq (GF (push_bit i 1)) + GF (push_bit i 1)))"
    by (subst (2) x) (simp add: s sum.distrib [symmetric] scaled_add)
  also have "\<dots> = (\<Sum>i<8. scaled (b i) (GF ([0, 6, 0x14, 0x48, 0x0b, 0x4c, 0xeb, 0x1a] ! i)))"
    by (intro sum.cong refl) (simp only: sq_def square_differences [symmetric] nth_map_upt GF_mul GF_xor lessThan_iff diff_zero add_0)
  finally have "byte (\<Sum>i<8. scaled (b i) (GF ([0, 6, 0x14, 0x48, 0x0b, 0x4c, 0xeb, 0x1a] ! i))) = 0" by (metis byte_0)
  then have z: "(if b 1 then 6 else 0) XOR (if b 2 then 0x14 else 0) XOR (if b 3 then 0x48 else 0) XOR (if b 4 then 0x0b else 0) XOR
      (if b 5 then 0x4c else 0) XOR (if b 6 then 0xeb else 0) XOR (if b 7 then 0x1a else 0) = (0 :: u8)"
    by (simp add: sum_eight byte_plus byte_scaled ac_simps cong: if_cong)
  have "\<not> b 1 \<and> \<not> b 2 \<and> \<not> b 3 \<and> \<not> b 4 \<and> \<not> b 5 \<and> \<not> b 6 \<and> \<not> b 7"
    using z by (cases "b 1"; cases "b 2"; cases "b 3"; cases "b 4"; cases "b 5"; cases "b 6"; cases "b 7") simp_all
  then have "\<not> b i" if "i < 8" "i \<noteq> 0" for i
  proof -
    have "i \<in> {1, 2, 3, 4, 5, 6, 7}" using that by auto
    then show ?thesis using \<open>\<not> b 1 \<and> _\<close> by auto
  qed
  then have "x = scaled (b 0) 1"
    by (subst x) (simp add: sum_eight GF_simps)
  then show ?thesis by (auto simp: scaled_def)
qed

section \<open>Powers and inverses\<close>

lemma pow_loop_power: "GF (pow_loop r a e) = GF r * GF a ^ unat e"
proof (induction r a e rule: pow_loop.induct)
  case (1 r a e)
  show ?case
  proof (cases "e = 0")
    case True
    then show ?thesis by (simp add: pow_loop.simps)
  next
    case False
    have m: "unat (e AND 1) = unat e mod 2" by (simp add: and_one_eq unat_mod)
    have "unat e mod 2 = (if e AND 1 \<noteq> 0 then 1 else 0)"
      unfolding m [symmetric] by (metis m mod2_eq_if unsigned_0 unat_eq_zero)
    then have e: "unat e = 2 * unat (drop_bit 1 e) + (if e AND 1 \<noteq> 0 then 1 else 0)"
      using div_mult_mod_eq [of "unat e" 2] by (simp only: unat_drop power_one_right mult.commute)
    have "pow_loop r a e = pow_loop (if e AND 1 \<noteq> 0 then gf256_mul r a else r) (gf256_mul a a) (drop_bit 1 e)"
      using False by (subst pow_loop.simps) simp
    then have "GF (pow_loop r a e) = GF (if e AND 1 \<noteq> 0 then gf256_mul r a else r) * (GF a * GF a) ^ unat (drop_bit 1 e)"
      using 1 False by simp
    also have "\<dots> = GF r * GF a ^ unat e"
      unfolding e by (simp add: power_add power_mult power2_eq_square)
    finally show ?thesis .
  qed
qed

lemma GF_pow: "GF (gf256_pow a e) = GF a ^ unat e"
  by (simp add: gf256_pow_def pow_loop_power GF_simps)

lemma gf_pow_255: "x \<noteq> 0 \<Longrightarrow> (x :: gf256) ^ 255 = 1"
proof -
  assume n: "x \<noteq> 0"
  have x: "x ^ 255 * x = x" using gf_pow_256 [of x] power_Suc2 [of x 255] by simp
  have "x ^ 255 * x ^ 255 = x ^ 254 * (x ^ 255 * x)"
  proof -
    have "x ^ 255 = x ^ 254 * x" using power_Suc2 [of x 254] by simp
    then show ?thesis by (simp add: mult_ac)
  qed
  also have "\<dots> = x ^ 255" unfolding x using power_Suc2 [of x 254] by simp
  finally have "x ^ 255 = 0 \<or> x ^ 255 = 1" by (rule gf_idempotent)
  then show ?thesis using x n by auto
qed

instantiation gf256 :: field
begin

definition inverse_gf256 :: "gf256 \<Rightarrow> gf256" where
  "inverse x = GF (gf256_inv (byte x))"

definition divide_gf256 :: "gf256 \<Rightarrow> gf256 \<Rightarrow> gf256" where
  "x div y = x * inverse (y :: gf256)"

lemma inverse_power: "inverse x = (x :: gf256) ^ 254"
  by (simp add: inverse_gf256_def gf256_inv_def GF_pow)

instance
proof
  fix a b :: gf256
  show "a \<noteq> 0 \<Longrightarrow> inverse a * a = 1" using gf_pow_255 [of a] power_Suc2 [of a 254] by (simp add: inverse_power)
  show "a div b = a * inverse b" by (simp add: divide_gf256_def)
  show "inverse (0 :: gf256) = 0" by (simp add: inverse_power)
qed

end

lemma GF_inv [simp]: "GF (gf256_inv a) = inverse (GF a)"
  by (simp add: inverse_gf256_def)

text \<open>The inverse of the code is an inverse: the product with it is 1 for every byte but 0.\<close>

theorem gf256_inv_correct: "gf256_mul a (gf256_inv a) = (if a = 0 then 0 else 1)"
proof -
  have "GF (gf256_mul a (gf256_inv a)) = (if a = 0 then GF 0 else GF 1)"
    by (simp add: GF_simps)
  then show ?thesis by (metis GF_eq_iff)
qed

section \<open>Interpolation\<close>

text \<open>The functions given by a polynomial of degree less than \<open>n\<close>.\<close>

fun poly_below :: "nat \<Rightarrow> ('a :: field \<Rightarrow> 'a) \<Rightarrow> bool" where
  "poly_below 0 f \<longleftrightarrow> (\<forall>x. f x = 0)"
| "poly_below (Suc n) f \<longleftrightarrow> (\<exists>c g. poly_below n g \<and> (\<forall>x. f x = c + x * g x))"

lemma poly_below_zero: "poly_below n (\<lambda>x. 0)"
proof (induction n)
  case (Suc n)
  then show ?case by (simp only: poly_below.simps) (intro exI [of _ 0] exI [of _ "\<lambda>x. 0"], simp)
qed simp

lemma poly_below_add: "poly_below n f \<Longrightarrow> poly_below n g \<Longrightarrow> poly_below n (\<lambda>x. f x + g x)"
proof (induction n arbitrary: f g)
  case (Suc n)
  obtain c f' d g' where f: "poly_below n f'" "\<forall>x. f x = c + x * f' x" "poly_below n g'" "\<forall>x. g x = d + x * g' x"
    using Suc.prems by auto
  then show ?case using Suc.IH [OF f(1,3)]
    by (simp only: poly_below.simps) (intro exI [of _ "c + d"] exI [of _ "\<lambda>x. f' x + g' x"], simp add: algebra_simps)
qed simp

lemma poly_below_scale: "poly_below n f \<Longrightarrow> poly_below n (\<lambda>x. a * f x)"
proof (induction n arbitrary: f)
  case (Suc n)
  obtain c g where f: "poly_below n g" "\<forall>x. f x = c + x * g x" using Suc.prems by auto
  then show ?case using Suc.IH [OF f(1)]
    by (simp only: poly_below.simps) (intro exI [of _ "a * c"] exI [of _ "\<lambda>x. a * g x"], simp add: algebra_simps)
qed simp

lemma poly_below_cong: "(\<And>x. f x = g x) \<Longrightarrow> poly_below n f = poly_below n g"
  by (metis ext)

lemma poly_below_mono: "poly_below n f \<Longrightarrow> poly_below (Suc n) f"
proof (induction n arbitrary: f)
  case 0
  then show ?case by (simp only: poly_below.simps) (intro exI [of _ 0] exI [of _ "\<lambda>x. 0"], simp)
next
  case (Suc n)
  obtain c g where f: "poly_below n g" "\<forall>x. f x = c + x * g x" using Suc.prems by auto
  then show ?case using Suc.IH [OF f(1)] by (subst poly_below.simps) blast
qed

lemma poly_below_shift: "poly_below n f \<Longrightarrow> poly_below (Suc n) (\<lambda>x. x * f x)"
  by (simp only: poly_below.simps) (intro exI [of _ 0] exI [of _ f], simp)

lemma poly_below_linear: "poly_below n f \<Longrightarrow> poly_below (Suc n) (\<lambda>x. (a * x + b) * f x)"
proof -
  assume f: "poly_below n f"
  have "poly_below (Suc n) (\<lambda>x. a * (x * f x) + b * f x)"
    by (intro poly_below_add poly_below_scale poly_below_shift poly_below_mono f)
  then show ?thesis by (simp add: algebra_simps)
qed

lemma poly_below_sum: "(\<And>i. i \<in> A \<Longrightarrow> poly_below n (f i)) \<Longrightarrow> poly_below n (\<lambda>x. \<Sum>i\<in>A. f i x)"
  by (induction A rule: infinite_finite_induct) (auto simp: poly_below_zero poly_below_add)

lemma poly_below_factor: "poly_below (Suc n) f \<Longrightarrow> \<exists>g. poly_below n g \<and> (\<forall>x. f x = f r + (x - r) * g x)"
proof (induction n arbitrary: f)
  case 0
  then show ?case by (intro exI [of _ "\<lambda>x. 0"]) auto
next
  case (Suc n)
  obtain c h where f: "poly_below (Suc n) h" "\<And>x. f x = c + x * h x" using Suc.prems by auto
  obtain g where g: "poly_below n g" "\<And>x. h x = h r + (x - r) * g x" using Suc.IH [OF f(1)] by auto
  have "poly_below (Suc n) (\<lambda>x. h r + x * g x)" using g(1) by auto
  moreover have "f x = f r + (x - r) * (h r + x * g x)" for x
    unfolding f(2) [of x] f(2) [of r] by (subst g(2) [of x]) (simp add: algebra_simps)
  ultimately show ?case by blast
qed

lemma poly_below_roots:
  "poly_below n f \<Longrightarrow> finite R \<Longrightarrow> card R = n \<Longrightarrow> \<forall>r \<in> R. f r = 0 \<Longrightarrow> f x = 0"
proof (induction n arbitrary: f R x)
  case (Suc n)
  obtain r where r: "r \<in> R" using Suc.prems(3) by fastforce
  obtain g where g: "poly_below n g" "\<And>x. f x = f r + (x - r) * g x" using poly_below_factor [OF Suc.prems(1)] by blast
  have "\<forall>s \<in> R - {r}. g s = 0" using g(2) Suc.prems(4) r by (metis Diff_iff add_0 insertI1 mult_eq_0_iff right_minus_eq)
  then have "g x = 0" for x using Suc.IH [OF g(1), of "R - {r}" x] Suc.prems(2,3) r by simp
  then show ?case using g(2) [of x] Suc.prems(4) r by simp
qed simp

lemma poly_below_unique:
  assumes "poly_below n f" "poly_below n g" "finite R" "card R = n" "\<forall>r \<in> R. f r = g r"
  shows "f x = g x"
proof -
  have "poly_below n (\<lambda>x. f x + (- 1) * g x)" by (intro poly_below_add poly_below_scale assms)
  moreover have "\<forall>r \<in> R. f r + (- 1) * g r = 0" using assms(5) by simp
  ultimately have "f x + (- 1) * g x = 0" using poly_below_roots [OF _ assms(3,4)] by blast
  then show ?thesis by simp
qed

lemma poly_below_prod: "finite A \<Longrightarrow> poly_below (Suc (card A)) (\<lambda>x. \<Prod>j\<in>A. a j * x + b j)"
proof (induction A rule: finite_induct)
  case empty
  show ?case by simp (intro exI [of _ 1] exI [of _ "\<lambda>x. 0"], simp)
next
  case (insert i A)
  then show ?case using poly_below_linear [OF insert.IH, of "a i" "b i"] by simp
qed

text \<open>The value at \<open>x\<close> of the polynomial through the points.\<close>

definition interp :: "('a :: field) list \<Rightarrow> 'a list \<Rightarrow> 'a \<Rightarrow> 'a" where
  "interp xs ys x =
     (\<Sum>i<length xs. ys ! i * (\<Prod>j\<in>{..<length xs} - {i}. (x - xs ! j) / (xs ! i - xs ! j)))"

lemma interp_poly: "poly_below (length xs) (interp xs ys)"
proof -
  have "poly_below (length xs) (\<lambda>x. \<Prod>j\<in>{..<length xs} - {i}. (x - xs ! j) / (xs ! i - xs ! j))" if "i < length xs" for i
  proof -
    have c: "Suc (card ({..<length xs} - {i})) = length xs" using that by simp
    have "(x - xs ! j) / (xs ! i - xs ! j) = inverse (xs ! i - xs ! j) * x + (- (xs ! j) * inverse (xs ! i - xs ! j))" for x j
      by (simp add: divide_inverse algebra_simps)
    then show ?thesis
      using poly_below_prod [of "{..<length xs} - {i}" "\<lambda>j. inverse (xs ! i - xs ! j)" "\<lambda>j. - (xs ! j) * inverse (xs ! i - xs ! j)"]
      unfolding c by simp
  qed
  then have "poly_below (length xs) (\<lambda>x. \<Sum>i<length xs. ys ! i * (\<Prod>j\<in>{..<length xs} - {i}. (x - xs ! j) / (xs ! i - xs ! j)))"
    by (intro poly_below_sum poly_below_scale) simp
  then show ?thesis by (simp add: interp_def [abs_def])
qed

lemma interp_point:
  assumes "distinct xs" "k < length xs"
  shows "interp xs ys (xs ! k) = ys ! k"
proof -
  have z: "(\<Prod>j\<in>{..<length xs} - {i}. (xs ! k - xs ! j) / (xs ! i - xs ! j)) = (if i = k then 1 else 0)" if "i < length xs" for i
  proof (cases "i = k")
    case True
    have "xs ! k - xs ! j \<noteq> 0" if "j \<in> {..<length xs} - {k}" for j
      using that assms by (auto simp: nth_eq_iff_index_eq)
    then show ?thesis using True by (auto intro!: prod.neutral)
  next
    case False
    then have "k \<in> {..<length xs} - {i}" using assms(2) by simp
    then have "(\<Prod>j\<in>{..<length xs} - {i}. (xs ! k - xs ! j) / (xs ! i - xs ! j)) = 0"
      by (intro prod_zero bexI [of _ k]) simp_all
    then show ?thesis using False by simp
  qed
  have "interp xs ys (xs ! k) = (\<Sum>i<length xs. if i = k then ys ! i else 0)"
    unfolding interp_def by (intro sum.cong refl) (simp add: z)
  then show ?thesis using assms(2) by simp
qed

lemma interp_unique:
  assumes "distinct xs'" "length xs' = length xs" "\<And>i. i < length xs' \<Longrightarrow> ys' ! i = interp xs ys (xs' ! i)"
  shows "interp xs' ys' x = interp xs ys x"
proof (rule poly_below_unique [OF interp_poly, where R = "set xs'"])
  show "poly_below (length xs') (interp xs ys)" using interp_poly [of xs ys] assms(2) by simp
  show "card (set xs') = length xs'" by (rule distinct_card [OF assms(1)])
  show "\<forall>r \<in> set xs'. interp xs' ys' r = interp xs ys r"
    using assms(3) interp_point [OF assms(1)] by (auto simp: in_set_conv_nth)
qed simp

section \<open>The loops of the code\<close>

lemma lagrange_products_value:
  "lagrange_products t xs i = (num, den) \<Longrightarrow>
    GF num = (\<Prod>j\<in>{..<length xs} - {i}. GF t - GF (xs ! j)) \<and> GF den = (\<Prod>j\<in>{..<length xs} - {i}. GF (xs ! i) - GF (xs ! j))"
proof -
  let ?f = "\<lambda>(num, den) j. if j = i then (num, den) else (gf256_mul num (t XOR xs ! j), gf256_mul den (xs ! i XOR xs ! j))"
  have "(case foldl ?f (1, 1) [0..<m] of (num, den) \<Rightarrow>
      GF num = (\<Prod>j\<in>{..<m} - {i}. GF t - GF (xs ! j)) \<and> GF den = (\<Prod>j\<in>{..<m} - {i}. GF (xs ! i) - GF (xs ! j)))" for m
  proof (induction m)
    case (Suc m)
    obtain num den where nd: "foldl ?f (1, 1) [0..<m] = (num, den)" by (cases "foldl ?f (1, 1) [0..<m]")
    show ?case
    proof (cases "m = i")
      case True
      then have r: "{..<Suc m} - {i} = {..<m} - {i}" by auto
      have "foldl ?f (1, 1) [0..<Suc m] = (num, den)" using True nd by simp
      then show ?thesis using Suc unfolding r nd by simp
    next
      case False
      then have r: "{..<Suc m} - {i} = insert m ({..<m} - {i})" by auto
      have "(\<Prod>j\<in>insert m ({..<m} - {i}). g j :: gf256) = (\<Prod>j\<in>{..<m} - {i}. g j) * g m" for g by (subst prod.insert) auto
      moreover have "foldl ?f (1, 1) [0..<Suc m] = (gf256_mul num (t XOR xs ! m), gf256_mul den (xs ! i XOR xs ! m))"
        using False by (simp add: nd)
      ultimately show ?thesis using Suc unfolding r nd by simp
    qed
  qed (simp add: GF_simps)
  from this [of "length xs"] show "lagrange_products t xs i = (num, den) \<Longrightarrow> ?thesis"
    by (simp add: lagrange_products_def)
qed

lemma lagrange_products_ratio:
  assumes "i < length xs"
  shows "\<exists>num den. lagrange_products t xs i = (num, den) \<and> (den = 0 \<longleftrightarrow> (\<exists>j < length xs. j \<noteq> i \<and> xs ! i = xs ! j)) \<and>
    GF (gf256_mul num (gf256_inv den)) =
      (\<Prod>j\<in>{..<length xs} - {i}. (GF t - map GF xs ! j) / (map GF xs ! i - map GF xs ! j))"
proof -
  obtain num den where p: "lagrange_products t xs i = (num, den)" by (metis surj_pair)
  note v = lagrange_products_value [OF p]
  have "GF den = 0 \<longleftrightarrow> (\<exists>j \<in> {..<length xs} - {i}. GF (xs ! i) - GF (xs ! j) = 0)"
    unfolding conjunct2 [OF v] by (rule prod_zero_iff) simp
  then have d: "den = 0 \<longleftrightarrow> (\<exists>j < length xs. j \<noteq> i \<and> xs ! i = xs ! j)" by (auto simp del: gf_minus)
  have "GF (gf256_mul num (gf256_inv den)) = GF num / GF den" by (simp add: divide_inverse)
  also have "\<dots> = (\<Prod>j\<in>{..<length xs} - {i}. (GF t - map GF xs ! j) / (map GF xs ! i - map GF xs ! j))"
    unfolding conjunct1 [OF v] conjunct2 [OF v] prod_dividef [symmetric] using assms by (intro prod.cong refl) (simp del: gf_minus)
  finally show ?thesis using p d by blast
qed

text \<open>The column of byte \<open>k\<close>.\<close>

definition column :: "bytes list \<Rightarrow> nat \<Rightarrow> gf256 list" where
  "column ys k = map (\<lambda>y. GF (y ! k)) ys"

lemma lagrange_loop_value:
  assumes "distinct xs" "length ys = length xs" "\<forall>y \<in> set ys. length y = l" "i + n = length xs" "length out = l"
  shows "\<exists>r. lagrange_loop t xs ys i n out = Some r \<and> length r = l \<and>
    (\<forall>k < l. GF (r ! k) = GF (out ! k) + (\<Sum>i\<in>{i..<length xs}. column ys k ! i *
      (\<Prod>j\<in>{..<length xs} - {i}. (GF t - map GF xs ! j) / (map GF xs ! i - map GF xs ! j))))"
  using assms(4,5)
proof (induction n arbitrary: i out)
  case (Suc n)
  then have i: "i < length xs" by simp
  obtain num den where nd: "lagrange_products t xs i = (num, den)" "den = 0 \<longleftrightarrow> (\<exists>j < length xs. j \<noteq> i \<and> xs ! i = xs ! j)"
    "GF (gf256_mul num (gf256_inv den)) =
      (\<Prod>j\<in>{..<length xs} - {i}. (GF t - map GF xs ! j) / (map GF xs ! i - map GF xs ! j))"
    using lagrange_products_ratio [OF i] by blast
  have d: "den \<noteq> 0" using nd(2) assms(1) i by (auto simp: nth_eq_iff_index_eq)
  define lag where "lag = gf256_mul num (gf256_inv den)"
  define o1 where "o1 = map2 (\<lambda>o' y. o' XOR gf256_mul y lag) out (ys ! i)"
  have y: "length (ys ! i) = l" using assms(2,3) i by simp
  then have l: "length o1 = l" using Suc.prems(2) by (simp add: o1_def)
  obtain r where r: "lagrange_loop t xs ys (Suc i) n o1 = Some r" "length r = l"
    "\<forall>k < l. GF (r ! k) = GF (o1 ! k) + (\<Sum>i\<in>{Suc i..<length xs}. column ys k ! i *
      (\<Prod>j\<in>{..<length xs} - {i}. (GF t - map GF xs ! j) / (map GF xs ! i - map GF xs ! j)))"
    using Suc.IH [of "Suc i" o1] Suc.prems(1) l by auto
  have "GF (o1 ! k) = GF (out ! k) + column ys k ! i * GF lag" if "k < l" for k
    using that y Suc.prems(2) i assms(2) by (simp add: o1_def column_def)
  moreover have "lagrange_loop t xs ys i (Suc n) out = Some r" using r(1) d by (simp add: nd(1) o1_def lag_def)
  ultimately show ?case using r(2,3) nd(3) i
    by (intro exI [of _ r]) (simp add: lag_def sum.atLeast_Suc_lessThan add.assoc)
qed simp

text \<open>Interpolation of the code is interpolation in the field, byte by byte.\<close>

lemma gf256_lagrange_value:
  assumes "distinct xs" "length ys = length xs" "\<forall>y \<in> set ys. length y = l"
  shows "gf256_lagrange t xs ys l = Some (map (\<lambda>k. byte (interp (map GF xs) (column ys k) (GF t))) [0..<l])"
proof (cases "find (\<lambda>i. xs ! i = t) [0..<length xs]")
  case None
  obtain r where r: "lagrange_loop t xs ys 0 (length xs) (replicate l 0) = Some r" "length r = l"
    "\<forall>k < l. GF (r ! k) = interp (map GF xs) (column ys k) (GF t)"
    using lagrange_loop_value [OF assms, of 0 "length xs" "replicate l 0" t]
    by (auto simp: interp_def GF_simps atLeast0LessThan)
  then have "r = map (\<lambda>k. byte (interp (map GF xs) (column ys k) (GF t))) [0..<l]"
    by (intro nth_equalityI) (simp_all flip: r(3))
  then show ?thesis using None r(1) by (simp add: gf256_lagrange_def)
next
  case (Some i)
  then have i: "i < length xs" "xs ! i = t" by (auto simp: find_Some_iff)
  have "interp (map GF xs) (column ys k) (GF t) = GF (ys ! i ! k)" for k
    using interp_point [of "map GF xs" i "column ys k"] assms(1,2) i by (simp add: distinct_map inj_on_def column_def)
  moreover have "map (\<lambda>k. ys ! i ! k) [0..<l] = ys ! i" using assms(2,3) i(1) map_nth [of "ys ! i"] by simp
  ultimately show ?thesis using Some by (simp add: gf256_lagrange_def)
qed

text \<open>Points with the same coordinate are noticed, unless the value at that coordinate is asked for.\<close>

lemma gf256_lagrange_duplicate:
  assumes "\<not> distinct xs" "t \<notin> set xs"
  shows "gf256_lagrange t xs ys l = None"
proof -
  have f: "find (\<lambda>i. xs ! i = t) [0..<length xs] = None" using assms(2) by (auto simp: find_None_iff)
  obtain a b where ab: "a < length xs" "b < length xs" "a \<noteq> b" "xs ! a = xs ! b" using assms(1) by (auto simp: distinct_conv_nth)
  have "lagrange_loop t xs ys i n out = None" if "i + n = length xs" "i \<le> a" for i n out
    using that
  proof (induction n arbitrary: i out)
    case 0
    then show ?case using ab(1) by simp
  next
    case (Suc n)
    then have i: "i < length xs" by simp
    obtain num den where nd: "lagrange_products t xs i = (num, den)" "den = 0 \<longleftrightarrow> (\<exists>j < length xs. j \<noteq> i \<and> xs ! i = xs ! j)"
      using lagrange_products_ratio [OF i] by blast
    show ?case
    proof (cases "i = a")
      case True
      then show ?thesis using nd ab by auto
    next
      case False
      then show ?thesis using Suc.IH [of "Suc i"] Suc.prems nd(1) by (simp add: Let_def)
    qed
  qed
  from this [of 0 "length xs"] show ?thesis by (simp add: gf256_lagrange_def f)
qed

text \<open>C31. Interpolation does not depend on the points it starts from: when points with distinct coordinates were made by
  interpolating from as many other points with distinct coordinates, both sets give the same vector at every
  coordinate. This is what makes any threshold-sized set of shares equivalent.\<close>

theorem lagrange_any_points:
  assumes "distinct xs" "length ys = length xs" "\<forall>y \<in> set ys. length y = l"
    and "distinct xs'" "length xs' = length xs" "length ys' = length xs"
    and "\<forall>i < length xs. gf256_lagrange (xs' ! i) xs ys l = Some (ys' ! i)"
  shows "gf256_lagrange t xs' ys' l = gf256_lagrange t xs ys l"
proof -
  have y: "ys' ! i = map (\<lambda>k. byte (interp (map GF xs) (column ys k) (GF (xs' ! i)))) [0..<l]" if "i < length xs" for i
    using assms(7) that by (simp add: gf256_lagrange_value [OF assms(1-3)])
  have l: "\<forall>y \<in> set ys'. length y = l" using y assms(6) by (auto simp: in_set_conv_nth)
  have "interp (map GF xs') (column ys' k) (GF t) = interp (map GF xs) (column ys k) (GF t)" if "k < l" for k
    using that assms(4-6) by (intro interp_unique) (simp_all add: distinct_map inj_on_def column_def y)
  then show ?thesis
    using assms(4-6) l by (simp add: gf256_lagrange_value [OF assms(1-3)] gf256_lagrange_value)
qed

theorem lagrange_any_points_witness:
  "gf256_lagrange 255 [3, 200] [[250, 24], [128, 151]] 2 = gf256_lagrange 255 [1, 2] [[7, 12], [9, 18]] 2"
proof -
  have "gf256_lagrange 3 [1, 2] [[7, 12], [9, 18]] 2 = Some [250, 24]" "gf256_lagrange 200 [1, 2] [[7, 12], [9, 18]] 2 = Some [128, 151]"
    by code_simp+
  then have "\<forall>i < length [1, 2 :: u8]. gf256_lagrange ([3, 200] ! i) [1, 2] [[7, 12], [9, 18]] 2 = Some ([[250, 24], [128, 151]] ! i)"
    by (auto simp: less_Suc_eq)
  from lagrange_any_points [OF _ _ _ _ _ _ this] show ?thesis by simp
qed

end
