(* ===== verification/Keys.thy ===== *)
theory Keys
  imports Base58 Rmd160 FastRandom Utils Script
begin

text \<open>
  Model of \<open>src/src/ecc.c\<close> and \<open>src/src/key.c\<close> with the prefix tables of \<open>src/src/chainparams.c\<close>: the wrappers around
  the curve library, private and public keys, their wallet import format, hashes and addresses. The lemmas show the
  round trip of the wallet import format and its exact length, what its decoder accepts beyond it, that generated
  keys are valid, and that the first character of a mainnet or testnet address gives the chain back.

  The functions of libsecp256k1 are the fields of \<open>secp256k1\<close>, on opaque public keys and signatures; \<open>None\<close> or
  \<open>False\<close> is their return value 0. The asserts that the curve context exists are left out: the library is started.
  A function that writes a buffer on success only returns the bytes as an option.
\<close>

unbundle bit_operations_syntax

section \<open>The curve library\<close>

record ('pk, 'sig, 'rsig) secp256k1 =
  seckey_verify :: "bytes \<Rightarrow> bool"
  ec_pubkey_create :: "bytes \<Rightarrow> 'pk option"
  ec_pubkey_serialize :: "'pk \<Rightarrow> bool \<Rightarrow> bytes"
  ec_pubkey_parse :: "bytes \<Rightarrow> 'pk option"
  seckey_tweak_add :: "bytes \<Rightarrow> bytes \<Rightarrow> bool \<times> bytes"
  seckey_tweak_mul :: "bytes \<Rightarrow> bytes \<Rightarrow> bool \<times> bytes"
  ec_pubkey_tweak_add :: "'pk \<Rightarrow> bytes \<Rightarrow> 'pk option"
  ec_pubkey_tweak_mul :: "'pk \<Rightarrow> bytes \<Rightarrow> 'pk option"
  ecdsa_sign :: "bytes \<Rightarrow> bytes \<Rightarrow> 'sig option"
  sig_serialize_der :: "'sig \<Rightarrow> bytes"
  sig_serialize_compact :: "'sig \<Rightarrow> bytes"
  sig_parse_der :: "bytes \<Rightarrow> 'sig option"
  sig_parse_compact :: "bytes \<Rightarrow> 'sig option"
  sig_normalize :: "'sig \<Rightarrow> 'sig"
  ecdsa_verify :: "'sig \<Rightarrow> bytes \<Rightarrow> 'pk \<Rightarrow> bool"
  sign_recoverable :: "bytes \<Rightarrow> bytes \<Rightarrow> 'rsig option"
  recoverable_serialize :: "'rsig \<Rightarrow> bytes \<times> int"
  recoverable_parse :: "bytes \<Rightarrow> int \<Rightarrow> 'rsig option"
  ecdsa_recover :: "'rsig \<Rightarrow> bytes \<Rightarrow> 'pk option"

section \<open>The wrappers\<close>

definition ecc_get_pubkey :: "('pk, 'sig, 'rsig) secp256k1 \<Rightarrow> bytes \<Rightarrow> bytes \<Rightarrow> nat \<Rightarrow> bool \<Rightarrow> bytes c_outcome" where
  "ecc_get_pubkey sp private_key public_key in_outlen compressed =
     (if in_outlen \<noteq> (if compressed then 33 else 65) then Inl AssertFailed
      else if length public_key < in_outlen then Inl OutOfBounds
      else
        let public_key = blit public_key 0 (replicate in_outlen 0) in
        Inr (case ec_pubkey_create sp private_key of
               None \<Rightarrow> public_key
             | Some p \<Rightarrow> blit public_key 0 (ec_pubkey_serialize sp p compressed)))"

definition ecc_private_key_tweak_add :: "('pk, 'sig, 'rsig) secp256k1 \<Rightarrow> bytes \<Rightarrow> bytes \<Rightarrow> bool \<times> bytes" where
  "ecc_private_key_tweak_add sp private_key tweak = seckey_tweak_add sp private_key tweak"

definition ecc_private_key_tweak_mul :: "('pk, 'sig, 'rsig) secp256k1 \<Rightarrow> bytes \<Rightarrow> bytes \<Rightarrow> bool \<times> bytes" where
  "ecc_private_key_tweak_mul sp private_key tweak = seckey_tweak_mul sp private_key tweak"

definition ecc_public_key_tweak_add :: "('pk, 'sig, 'rsig) secp256k1 \<Rightarrow> bytes \<Rightarrow> bytes \<Rightarrow> bool \<times> bytes" where
  "ecc_public_key_tweak_add sp public_key tweak =
     (case ec_pubkey_parse sp (take 33 public_key) of
        None \<Rightarrow> (False, public_key)
      | Some p \<Rightarrow>
          (case ec_pubkey_tweak_add sp p tweak of
             None \<Rightarrow> (False, public_key)
           | Some p \<Rightarrow> (True, blit public_key 0 (ec_pubkey_serialize sp p True))))"

definition ecc_public_key_tweak_mul :: "('pk, 'sig, 'rsig) secp256k1 \<Rightarrow> bytes \<Rightarrow> bytes \<Rightarrow> bool \<times> bytes" where
  "ecc_public_key_tweak_mul sp public_key tweak =
     (case ec_pubkey_parse sp (take 33 public_key) of
        None \<Rightarrow> (False, public_key)
      | Some p \<Rightarrow>
          (case ec_pubkey_tweak_mul sp p tweak of
             None \<Rightarrow> (False, public_key)
           | Some p \<Rightarrow> (True, blit public_key 0 (ec_pubkey_serialize sp p True))))"

definition ecc_point_serialize :: "('pk, 'sig, 'rsig) secp256k1 \<Rightarrow> bytes option \<Rightarrow> bool \<Rightarrow> bytes option" where
  "ecc_point_serialize sp point compressed =
     do { point \<leftarrow> point; p \<leftarrow> ec_pubkey_parse sp point; Some (ec_pubkey_serialize sp p compressed) }"

definition ecc_verify_privatekey :: "('pk, 'sig, 'rsig) secp256k1 \<Rightarrow> bytes \<Rightarrow> bool" where
  "ecc_verify_privatekey sp private_key = seckey_verify sp private_key"

definition ecc_verify_pubkey :: "('pk, 'sig, 'rsig) secp256k1 \<Rightarrow> bytes \<Rightarrow> bool \<Rightarrow> bool" where
  "ecc_verify_pubkey sp public_key compressed =
     (ec_pubkey_parse sp (take (if compressed then 33 else 65) public_key) \<noteq> None)"

text \<open>The DER form goes into a buffer of \<open>outlen\<close> bytes; without room for it serializing fails.\<close>

definition ecc_sign :: "('pk, 'sig, 'rsig) secp256k1 \<Rightarrow> bytes \<Rightarrow> bytes \<Rightarrow> nat \<Rightarrow> bytes option" where
  "ecc_sign sp private_key hash outlen =
     do { s \<leftarrow> ecdsa_sign sp hash private_key;
          if outlen < length (sig_serialize_der sp s) then None else Some (sig_serialize_der sp s) }"

definition ecc_sign_compact :: "('pk, 'sig, 'rsig) secp256k1 \<Rightarrow> bytes \<Rightarrow> bytes \<Rightarrow> bytes option" where
  "ecc_sign_compact sp private_key hash =
     do { s \<leftarrow> ecdsa_sign sp hash private_key; Some (sig_serialize_compact sp s) }"

definition ecc_sign_compact_recoverable :: "('pk, 'sig, 'rsig) secp256k1 \<Rightarrow> bytes \<Rightarrow> bytes \<Rightarrow> (bytes \<times> int) option" where
  "ecc_sign_compact_recoverable sp private_key hash =
     do { s \<leftarrow> sign_recoverable sp hash private_key; Some (recoverable_serialize sp s) }"

definition ecc_sign_compact_recoverable_fcomp ::
    "('pk, 'sig, 'rsig) secp256k1 \<Rightarrow> bytes \<Rightarrow> bytes \<Rightarrow> bool \<Rightarrow> (bytes \<times> int) option" where
  "ecc_sign_compact_recoverable_fcomp sp private_key hash fCompressed =
     do { s \<leftarrow> sign_recoverable sp hash private_key;
          let (sigrec, recid) = recoverable_serialize sp s in
          Some (of_int (27 + recid + (if fCompressed then 4 else 0)) # sigrec, recid) }"

definition recover_pubkey :: "('pk, 'sig, 'rsig) secp256k1 \<Rightarrow> bytes \<Rightarrow> bytes \<Rightarrow> int \<Rightarrow> bytes option" where
  "recover_pubkey sp sigrec hash recid =
     do { s \<leftarrow> recoverable_parse sp (drop 1 sigrec) recid;
          p \<leftarrow> ecdsa_recover sp s hash;
          Some (ec_pubkey_serialize sp p True) }"

definition ecc_recover_pubkey :: "('pk, 'sig, 'rsig) secp256k1 \<Rightarrow> bytes \<Rightarrow> bytes \<Rightarrow> int \<Rightarrow> bytes option" where
  "ecc_recover_pubkey sp sigrec hash recid =
     do { s \<leftarrow> recoverable_parse sp sigrec recid;
          p \<leftarrow> ecdsa_recover sp s hash;
          Some (ec_pubkey_serialize sp p True) }"

definition ecc_verify_sig :: "('pk, 'sig, 'rsig) secp256k1 \<Rightarrow> bytes \<Rightarrow> bool \<Rightarrow> bytes \<Rightarrow> bytes \<Rightarrow> bool" where
  "ecc_verify_sig sp public_key compressed hash sigder =
     (case ec_pubkey_parse sp (take (if compressed then 33 else 65) public_key) of
        None \<Rightarrow> False
      | Some p \<Rightarrow> (case sig_parse_der sp sigder of None \<Rightarrow> False | Some s \<Rightarrow> ecdsa_verify sp s hash p))"

definition ecc_verify_sigcmp :: "('pk, 'sig, 'rsig) secp256k1 \<Rightarrow> bytes \<Rightarrow> bool \<Rightarrow> bytes \<Rightarrow> bytes \<Rightarrow> bool" where
  "ecc_verify_sigcmp sp public_key compressed hash sigcmp =
     (case ec_pubkey_parse sp (take (if compressed then 33 else 65) public_key) of
        None \<Rightarrow> False
      | Some p \<Rightarrow> (case sig_parse_compact sp (drop 1 sigcmp) of None \<Rightarrow> False | Some s \<Rightarrow> ecdsa_verify sp s hash p))"

definition ecc_compact_to_der_normalized :: "('pk, 'sig, 'rsig) secp256k1 \<Rightarrow> bytes \<Rightarrow> nat \<Rightarrow> bytes option" where
  "ecc_compact_to_der_normalized sp sigcomp_in sigder_len =
     do { s \<leftarrow> sig_parse_compact sp sigcomp_in;
          let der = sig_serialize_der sp (sig_normalize sp s) in
          if sigder_len < length der then None else Some der }"

definition ecc_der_to_compact :: "('pk, 'sig, 'rsig) secp256k1 \<Rightarrow> bytes \<Rightarrow> bytes option" where
  "ecc_der_to_compact sp sigder_in = do { s \<leftarrow> sig_parse_der sp sigder_in; Some (sig_serialize_compact sp s) }"

section \<open>Chains\<close>

record b58_prefixes =
  b58prefix_pubkey_address :: u8
  b58prefix_script_address :: u8
  b58prefix_secret_address :: u8
  b58prefix_bip32_privkey :: u32
  b58prefix_bip32_pubkey :: u32

definition chainparams_main :: b58_prefixes where
  "chainparams_main = \<lparr>b58prefix_pubkey_address = 0x1e, b58prefix_script_address = 0x16, b58prefix_secret_address = 0x9e,
     b58prefix_bip32_privkey = 0x02fac398, b58prefix_bip32_pubkey = 0x02facafd\<rparr>"

definition chainparams_test :: b58_prefixes where
  "chainparams_test = \<lparr>b58prefix_pubkey_address = 0x71, b58prefix_script_address = 0xc4, b58prefix_secret_address = 0xf1,
     b58prefix_bip32_privkey = 0x04358394, b58prefix_bip32_pubkey = 0x043587cf\<rparr>"

definition chainparams_regtest :: b58_prefixes where
  "chainparams_regtest = \<lparr>b58prefix_pubkey_address = 0x6f, b58prefix_script_address = 0xc4, b58prefix_secret_address = 0xef,
     b58prefix_bip32_privkey = 0x04358394, b58prefix_bip32_pubkey = 0x043587cf\<rparr>"

definition chain_from_b58_prefix :: "bytes \<Rightarrow> b58_prefixes c_outcome" where
  "chain_from_b58_prefix address =
     (case address of
        [] \<Rightarrow> Inl OutOfBounds
      | c # _ \<Rightarrow>
          let count = (if c \<in> set (map of_char ''9AdDQ6'') then 1 else 0 :: nat) in
          if c = of_char CHR ''n'' then Inr chainparams_test
          else if c = of_char CHR ''m'' then Inr chainparams_regtest
          else Inr (if count \<noteq> 0 then chainparams_main else chainparams_test))"

definition chain_from_b58_prefix_bool :: "bytes \<Rightarrow> bool c_outcome" where
  "chain_from_b58_prefix_bool address =
     (case address of [] \<Rightarrow> Inl OutOfBounds | c # _ \<Rightarrow> Inr (c = of_char CHR ''d'' \<or> c = of_char CHR ''D''))"

definition isTestnetFromB58Prefix :: "bytes \<Rightarrow> bool c_outcome" where
  "isTestnetFromB58Prefix address = seqc (chain_from_b58_prefix address) (\<lambda>c. Inr (c = chainparams_test))"

definition isMainnetFromB58Prefix :: "bytes \<Rightarrow> bool c_outcome" where
  "isMainnetFromB58Prefix address = seqc (chain_from_b58_prefix address) (\<lambda>c. Inr (c = chainparams_main))"

section \<open>Private keys\<close>

text \<open>A key is its 32 bytes.\<close>

definition privkey_init :: bytes where
  "privkey_init = replicate 32 0"

definition privkey_is_valid :: "('pk, 'sig, 'rsig) secp256k1 \<Rightarrow> bytes option \<Rightarrow> bool" where
  "privkey_is_valid sp privkey = (case privkey of None \<Rightarrow> False | Some k \<Rightarrow> ecc_verify_privatekey sp k)"

text \<open>\<open>None\<close> when no draw is ever a valid key; else the verdict, the key and the environment.\<close>

partial_function (option) privkey_gen ::
    "('pk, 'sig, 'rsig) secp256k1 \<Rightarrow> 'e rnd_mapper \<Rightarrow> 'e \<Rightarrow> bytes \<Rightarrow> (bool \<times> bytes \<times> 'e) option" where
  "privkey_gen sp m e privkey =
     (case random_bytes m e privkey of
        ((res, privkey), e) \<Rightarrow>
          if \<not> res then Some (False, privkey, e)
          else if ecc_verify_privatekey sp privkey then Some (True, privkey, e)
          else privkey_gen sp m e privkey)"

text \<open>The string buffer and the size, which becomes 0 on failure.\<close>

definition privkey_encode_wif :: "bytes \<Rightarrow> b58_prefixes \<Rightarrow> bytes \<Rightarrow> nat \<Rightarrow> bytes \<times> nat" where
  "privkey_encode_wif privkey chain privkey_wif strsize =
     (let pkeybase58c = b58prefix_secret_address chain # privkey @ [1];
          (n, privkey_wif) = base58_encode_check pkeybase58c privkey_wif strsize in
      (privkey_wif, if n = 0 then 0 else strsize))"

definition privkey_decode_wif :: "bytes option \<Rightarrow> b58_prefixes \<Rightarrow> bytes \<Rightarrow> (bool \<times> bytes) c_outcome" where
  "privkey_decode_wif privkey_wif chain privkey =
     (case privkey_wif of
        None \<Rightarrow> Inr (False, privkey)
      | Some wif \<Rightarrow>
          let privkey_len = length (takeWhile (\<lambda>c. c \<noteq> 0) wif) in
          if privkey_len < 50 then Inr (False, privkey)
          else
            seqc (base58_decode_check wif (replicate privkey_len 0)) (\<lambda>(outlen, privkey_data).
            if outlen = 0 then Inr (False, privkey)
            else if privkey_data ! 0 \<noteq> b58prefix_secret_address chain then Inr (False, privkey)
            else Inr (True, take 32 (drop 1 privkey_data))))"

section \<open>Public keys\<close>

definition pubkey_init :: dogecoin_pubkey where
  "pubkey_init = \<lparr>pk_pubkey = replicate 65 0, pk_compressed = False\<rparr>"

definition pubkey_is_valid :: "('pk, 'sig, 'rsig) secp256k1 \<Rightarrow> dogecoin_pubkey \<Rightarrow> bool" where
  "pubkey_is_valid sp pk = ecc_verify_pubkey sp (pk_pubkey pk) (pk_compressed pk)"

definition pubkey_get_hash160 :: "dogecoin_pubkey \<Rightarrow> bytes" where
  "pubkey_get_hash160 pk = rmd160 (sha256_raw (take (if pk_compressed pk then 33 else 65) (pk_pubkey pk)))"

definition pubkey_get_hex :: "dogecoin_pubkey \<Rightarrow> nat \<Rightarrow> (bytes \<times> nat) option c_outcome" where
  "pubkey_get_hex pk strsize =
     (if strsize < 33 * 2 + 1 then Inr None
      else seqc (utils_bin_to_hex (pk_pubkey pk) 33) (\<lambda>str. Inr (Some (str, 33 * 2))))"

definition pubkey_from_key :: "('pk, 'sig, 'rsig) secp256k1 \<Rightarrow> bytes option \<Rightarrow> dogecoin_pubkey option \<Rightarrow> dogecoin_pubkey option c_outcome" where
  "pubkey_from_key sp privkey pubkey_inout =
     (case (privkey, pubkey_inout) of
        (Some k, Some pk) \<Rightarrow>
          seqc (ecc_get_pubkey sp k (pk_pubkey pk) 33 True) (\<lambda>b.
          Inr (Some (pk\<lparr>pk_pubkey := b, pk_compressed := True\<rparr>)))
      | _ \<Rightarrow> Inr pubkey_inout)"

definition key_sign_hash :: "('pk, 'sig, 'rsig) secp256k1 \<Rightarrow> bytes \<Rightarrow> bytes \<Rightarrow> nat \<Rightarrow> bytes option" where
  "key_sign_hash sp privkey hash outlen = ecc_sign sp privkey hash outlen"

definition key_sign_hash_compact :: "('pk, 'sig, 'rsig) secp256k1 \<Rightarrow> bytes \<Rightarrow> bytes \<Rightarrow> bytes option" where
  "key_sign_hash_compact sp privkey hash = ecc_sign_compact sp privkey hash"

definition key_sign_hash_compact_recoverable ::
    "('pk, 'sig, 'rsig) secp256k1 \<Rightarrow> bytes \<Rightarrow> bytes \<Rightarrow> (bytes \<times> int) option" where
  "key_sign_hash_compact_recoverable sp privkey hash = ecc_sign_compact_recoverable sp privkey hash"

definition key_sign_hash_compact_recoverable_fcomp ::
    "('pk, 'sig, 'rsig) secp256k1 \<Rightarrow> bytes \<Rightarrow> bytes \<Rightarrow> (bytes \<times> int) option" where
  "key_sign_hash_compact_recoverable_fcomp sp privkey hash = ecc_sign_compact_recoverable_fcomp sp privkey hash True"

definition recovered_pubkey :: "bytes option \<Rightarrow> dogecoin_pubkey \<Rightarrow> dogecoin_pubkey option" where
  "recovered_pubkey pubkeybuf pk =
     (case pubkeybuf of
        None \<Rightarrow> None
      | Some b \<Rightarrow>
          if 65 < length b then None
          else Some \<lparr>pk_pubkey = blit (replicate 65 0) 0 b, pk_compressed = (length b = 33 \<or> pk_compressed pk)\<rparr>)"

definition key_recover_pubkey :: "('pk, 'sig, 'rsig) secp256k1 \<Rightarrow> bytes \<Rightarrow> bytes \<Rightarrow> int \<Rightarrow> dogecoin_pubkey \<Rightarrow> dogecoin_pubkey option" where
  "key_recover_pubkey sp sig hash recid pk = recovered_pubkey (recover_pubkey sp sig hash recid) pk"

definition key_sign_recover_pubkey :: "('pk, 'sig, 'rsig) secp256k1 \<Rightarrow> bytes \<Rightarrow> bytes \<Rightarrow> int \<Rightarrow> dogecoin_pubkey \<Rightarrow> dogecoin_pubkey option" where
  "key_sign_recover_pubkey sp sig hash recid pk = recovered_pubkey (ecc_recover_pubkey sp sig hash recid) pk"

definition pubkey_verify_sig :: "('pk, 'sig, 'rsig) secp256k1 \<Rightarrow> dogecoin_pubkey \<Rightarrow> bytes \<Rightarrow> bytes \<Rightarrow> bool" where
  "pubkey_verify_sig sp pk hash sigder = ecc_verify_sig sp (pk_pubkey pk) (pk_compressed pk) hash sigder"

definition pubkey_verify_sigcmp :: "('pk, 'sig, 'rsig) secp256k1 \<Rightarrow> dogecoin_pubkey \<Rightarrow> bytes \<Rightarrow> bytes \<Rightarrow> bool" where
  "pubkey_verify_sigcmp sp pk hash sigcmp = ecc_verify_sigcmp sp (pk_pubkey pk) (pk_compressed pk) hash sigcmp"

text \<open>A random challenge is signed with the private key and verified with the public one.\<close>

definition privkey_verify_pubkey ::
    "('pk, 'sig, 'rsig) secp256k1 \<Rightarrow> 'e rnd_mapper \<Rightarrow> 'e \<Rightarrow> bytes \<Rightarrow> bytes \<Rightarrow> dogecoin_pubkey \<Rightarrow> bool \<times> 'e" where
  "privkey_verify_pubkey sp m e rnddata privkey pk =
     (let ((res, rnddata), e) = random_bytes m e rnddata in
      if \<not> res then (False, e)
      else
        let hash = dogecoin_hash rnddata in
        (case key_sign_hash sp privkey hash 74 of
           None \<Rightarrow> (False, e)
         | Some sig \<Rightarrow> (pubkey_verify_sig sp pk hash sig, e)))"

definition init_keypair ::
    "('pk, 'sig, 'rsig) secp256k1 \<Rightarrow> 'e rnd_mapper \<Rightarrow> 'e \<Rightarrow> bytes \<Rightarrow> bytes \<Rightarrow> (bool \<times> bytes \<times> dogecoin_pubkey \<times> 'e) c_outcome" where
  "init_keypair sp m e rnddata privkeywif =
     (let key = privkey_init in
      if privkey_is_valid sp (Some key) then Inl AssertFailed
      else
        seqc (chain_from_b58_prefix privkeywif) (\<lambda>chain.
        seqc (privkey_decode_wif (Some privkeywif) chain key) (\<lambda>(ok, key).
        if \<not> ok then Inr (False, key, pubkey_init, e)
        else if \<not> privkey_is_valid sp (Some key) then Inl AssertFailed
        else if pubkey_is_valid sp pubkey_init then Inl AssertFailed
        else
          seqc (pubkey_from_key sp (Some key) (Some pubkey_init)) (\<lambda>pk.
          let pk = the pk in
          if \<not> pubkey_is_valid sp pk then Inr (False, key, pk, e)
          else
            let (ok, e) = privkey_verify_pubkey sp m e rnddata key pk in Inr (ok, key, pk, e)))))"

definition pubkey_getaddr_p2pkh :: "dogecoin_pubkey \<Rightarrow> b58_prefixes \<Rightarrow> bytes \<Rightarrow> bool \<times> bytes" where
  "pubkey_getaddr_p2pkh pk chain addrout =
     (let hash160 = b58prefix_pubkey_address chain # pubkey_get_hash160 pk;
          (n, addrout) = base58_encode_check hash160 addrout 100 in
      (True, addrout))"

definition getWifEncodedPrivKey :: "bytes \<Rightarrow> bool \<Rightarrow> bytes \<Rightarrow> nat \<Rightarrow> bytes \<times> nat" where
  "getWifEncodedPrivKey privkey is_testnet privkey_wif strsize_wif =
     privkey_encode_wif privkey (if is_testnet then chainparams_test else chainparams_main) privkey_wif strsize_wif"

definition getDecodedPrivKeyWif :: "bytes \<Rightarrow> bool \<Rightarrow> bytes \<Rightarrow> (bool \<times> bytes) c_outcome" where
  "getDecodedPrivKeyWif privkey_wif is_testnet privkey =
     seqc (privkey_decode_wif (Some privkey_wif) (if is_testnet then chainparams_test else chainparams_main) (replicate 32 0))
       (\<lambda>(ok, key). Inr (ok, if ok then key else privkey))"

section \<open>The wallet import format\<close>

lemma horner_256_bounds:
  assumes "length bs = n"
  shows "unat b * 256 ^ n \<le> bytes_val (b # bs)" "bytes_val (b # bs) < (unat b + 1) * 256 ^ n"
proof -
  have "bytes_val (b # bs) = unat b * 256 ^ n + bytes_val bs"
    using horner_shift [of 256 "unat b" "map unat bs"] assms by simp
  moreover have "bytes_val bs < 256 ^ n"
    using b256.value_less [of "map unat bs"] unat_u8_less assms by auto
  ultimately show "unat b * 256 ^ n \<le> bytes_val (b # bs)" "bytes_val (b # bs) < (unat b + 1) * 256 ^ n" by simp_all
qed

lemma text_length_range:
  assumes "is_text (b # bs) t" "b \<noteq> 0" "length bs = n"
    and "58 ^ k \<le> unat b * 256 ^ n" "(unat b + 1) * 256 ^ n \<le> (58 :: nat) ^ l"
  shows "k < length t" "length t \<le> l"
proof -
  note v = horner_256_bounds [OF assms(3), of b]
  note w = is_text_length(2,3) [OF assms(1) list.distinct(2), unfolded list.sel, OF assms(2)]
  have "(58 :: nat) ^ k < 58 ^ length t" using v(1) w(1) assms(4) by linarith
  then show "k < length t" by (simp add: power_strict_increasing_iff)
  have "(58 :: nat) ^ (length t - 1) < 58 ^ l" using v(2) w(2) assms(5) by linarith
  then show "length t \<le> l" by (simp add: power_strict_increasing_iff)
qed

lemma encode_check_text:
  assumes "is_text (data @ take 4 (dogecoin_dblhash data)) t" "length data \<le> 128" "length t < strsize"
  shows "base58_encode_check data str strsize = (length t + 1, blit str 0 (t @ [0]))"
proof -
  obtain s where s: "is_text (data @ take 4 (dogecoin_dblhash data)) s"
    "base58_encode str strsize (data @ take 4 (dogecoin_dblhash data)) =
      (if strsize \<le> length s then (False, str, length s + 1) else (True, blit str 0 (s @ [0]), length s + 1))"
    using base58_encode_text [of "data @ take 4 (dogecoin_dblhash data)" str strsize] by blast
  then have "s = t" using is_text_unique assms(1) by blast
  then show ?thesis using s(2) assms(2,3) by (simp add: base58_encode_check_def)
qed

lemma text_of_buffer: "is_text bin t \<Longrightarrow> takeWhile (\<lambda>c. c \<noteq> 0) (t @ 0 # zs) = t"
  using text_nonzero by (auto simp: takeWhile_append)

lemma text_exists: "\<exists>t. is_text (data @ take 4 (dogecoin_dblhash data)) t"
  using base58_encode_text by blast

text \<open>A text in a string buffer, and what decoding it gives.\<close>

lemma decode_wif_text:
  assumes "is_text (data @ take 4 (dogecoin_dblhash data)) t" "data = b58prefix_secret_address chain # k @ r" "length k = 32"
    and "b58prefix_secret_address chain \<noteq> 0" "50 \<le> length t" "length t \<le> 128" "length data + 8 \<le> length t"
  shows "privkey_decode_wif (Some (t @ 0 # zs)) chain key = Inr (True, k)"
proof -
  have n: "\<exists>b \<in> set (data @ take 4 (dogecoin_dblhash data)). b \<noteq> 0" using assms(2,4) by auto
  have w: "takeWhile (\<lambda>c. c \<noteq> 0) (t @ 0 # zs) = t" by (rule text_of_buffer [OF assms(1)])
  have d: "base58_decode_check (t @ 0 # zs) (replicate (length t) 0) =
      Inr (length data + 4, (data @ take 4 (dogecoin_dblhash data)) @ replicate (length t - (length data + 4)) 0)"
    using decode_check_text [OF assms(1,6) _ _ n, of "replicate (length t) 0" zs] assms(7) by simp
  show ?thesis using assms(3,5) by (simp add: privkey_decode_wif_def Let_def w d assms(2))
qed

definition wif_prefix :: "u8 \<Rightarrow> bool" where
  "wif_prefix b \<longleftrightarrow> b = 0x9e \<or> b = 0xf1 \<or> b = 0xef"

lemma wif_text:
  assumes "wif_prefix b" "length k = 32" "is_text ((b # k @ r) @ take 4 (dogecoin_dblhash (b # k @ r))) t"
  shows "r = [1] \<Longrightarrow> length t = 52" "r = [] \<Longrightarrow> length t = 51"
proof -
  have b: "b \<noteq> 0" using assms(1) by (auto simp: wif_prefix_def)
  let ?s = "k @ r @ take 4 (dogecoin_dblhash (b # k @ r))"
  have t: "is_text (b # ?s) t" using assms(3) by simp
  { assume r: "r = [1]"
    then have "length ?s = 37" using assms(2) by simp
    then have "51 < length t" "length t \<le> 52"
      by (rule text_length_range [OF t b, where k = 51 and l = 52], use assms(1) in \<open>auto simp: wif_prefix_def\<close>)+
    then show "length t = 52" by simp }
  { assume r: "r = []"
    then have "length ?s = 36" using assms(2) by simp
    then have "50 < length t" "length t \<le> 51"
      by (rule text_length_range [OF t b, where k = 50 and l = 51], use assms(1) in \<open>auto simp: wif_prefix_def\<close>)+
    then show "length t = 51" by simp }
qed

lemma wif_encodes:
  assumes "chain \<in> {chainparams_main, chainparams_test, chainparams_regtest}" "length k = 32" "53 \<le> strsize"
  shows "\<exists>wif. privkey_encode_wif k chain str strsize = (wif, strsize) \<and> length (takeWhile (\<lambda>c. c \<noteq> 0) wif) = 52 \<and>
    privkey_decode_wif (Some wif) chain key = Inr (True, k)"
proof -
  let ?b = "b58prefix_secret_address chain"
  let ?data = "?b # k @ [1]"
  have b: "wif_prefix ?b" using assms(1) by (auto simp: wif_prefix_def chainparams_main_def chainparams_test_def chainparams_regtest_def)
  obtain t where t: "is_text (?data @ take 4 (dogecoin_dblhash ?data)) t" using text_exists by blast
  have l: "length t = 52" using wif_text(1) [OF b assms(2) t refl] .
  have e: "base58_encode_check ?data str strsize = (53, t @ 0 # drop 53 str)"
    using encode_check_text [OF t] assms(2,3) l by (simp add: blit_def)
  have d: "privkey_decode_wif (Some (t @ 0 # drop 53 str)) chain key = Inr (True, k)"
    using b by (intro decode_wif_text [OF t refl assms(2)]) (use assms(2) l in \<open>auto simp: wif_prefix_def\<close>)
  have "takeWhile (\<lambda>c. c \<noteq> 0) (t @ 0 # drop 53 str) = t" by (rule text_of_buffer [OF t])
  then show ?thesis using d l e by (simp add: privkey_encode_wif_def Let_def)
qed

text \<open>C22. Round trip of the wallet import format: on each of the three chains, every 32-byte key is written as exactly 52
  characters, which fit the 53 bytes of \<open>PRIVKEYWIFLEN\<close>, and decoding the string gives the key back.\<close>

theorem wif_roundtrip:
  assumes "chain \<in> {chainparams_main, chainparams_test, chainparams_regtest}" "length k = 32" "53 \<le> strsize"
  shows "\<exists>wif. privkey_encode_wif k chain str strsize = (wif, strsize) \<and> length (takeWhile (\<lambda>c. c \<noteq> 0) wif) = 52 \<and>
    privkey_decode_wif (Some wif) chain key = Inr (True, k)"
  by (rule wif_encodes [OF assms])

theorem wif_roundtrip_witness:
  "\<exists>wif. privkey_encode_wif (replicate 32 7) chainparams_main (replicate 53 0) 53 = (wif, 53) \<and>
    length (takeWhile (\<lambda>c. c \<noteq> 0) wif) = 52 \<and>
    privkey_decode_wif (Some wif) chainparams_main (replicate 32 0) = Inr (True, replicate 32 7)"
  by (rule wif_roundtrip) simp_all

text \<open>The decoder drops the compression mark: the string of a key without it, which stands for the uncompressed
  public key and another address, decodes to the same key, and every caller derives the compressed public key.\<close>

theorem wif_decode_ignores_compression:
  assumes "chain \<in> {chainparams_main, chainparams_test, chainparams_regtest}" "length k = 32" "53 \<le> strsize"
  shows "\<exists>wif. base58_encode_check (b58prefix_secret_address chain # k) str strsize = (52, wif) \<and>
    privkey_decode_wif (Some wif) chain key = Inr (True, k)"
proof -
  let ?b = "b58prefix_secret_address chain"
  have b: "wif_prefix ?b" using assms(1) by (auto simp: wif_prefix_def chainparams_main_def chainparams_test_def chainparams_regtest_def)
  obtain t where t: "is_text ((?b # k @ []) @ take 4 (dogecoin_dblhash (?b # k @ []))) t" using text_exists by blast
  have l: "length t = 51" using wif_text(2) [OF b assms(2) t refl] .
  have e: "base58_encode_check (?b # k @ []) str strsize = (52, t @ 0 # drop 52 str)"
    using encode_check_text [OF t] assms(2,3) l by (simp add: blit_def)
  have "privkey_decode_wif (Some (t @ 0 # drop 52 str)) chain key = Inr (True, k)"
    using b by (intro decode_wif_text [OF t refl assms(2)]) (use assms(2) l in \<open>auto simp: wif_prefix_def\<close>)
  then show ?thesis using e by simp
qed

theorem wif_decode_ignores_compression_witness:
  "\<exists>wif. base58_encode_check (0x9e # replicate 32 7) (replicate 53 0) 53 = (52, wif) \<and>
    privkey_decode_wif (Some wif) chainparams_main (replicate 32 0) = Inr (True, replicate 32 7)"
  using wif_decode_ignores_compression [of chainparams_main "replicate 32 7" 53 "replicate 53 0" "replicate 32 0"]
  by (simp add: chainparams_main_def)

section \<open>Addresses\<close>

lemma length_rmd160 [simp]: "length (rmd160 m) = 20"
proof -
  have c: "length (rmd_compress d X) = 5" for d X by (simp add: rmd_compress_def Let_def)
  have "length (rmd_last d r n) = 5" for d r n by (simp add: rmd_last_def Let_def c split: prod.split)
  moreover have "length (concat (map (\<lambda>d. [f d, g d, h d, i d]) ds)) = 4 * length ds" for ds :: "u32 list" and f g h i :: "u32 \<Rightarrow> u8"
    by (induction ds) simp_all
  ultimately show ?thesis by (simp add: rmd160_def Let_def split: prod.split)
qed

lemma div_in_range: "q * d \<le> v \<Longrightarrow> v < (q + 1) * d \<Longrightarrow> v div d = (q :: nat)"
  by (simp add: div_nat_eqI mult.commute)

lemma text_first_char:
  assumes "is_text (b # bs) t" "b \<noteq> 0" "length bs = n"
    and "58 ^ k \<le> unat b * 256 ^ n" "(unat b + 1) * 256 ^ n \<le> (58 :: nat) ^ Suc k"
    and "q * 58 ^ k \<le> unat b * 256 ^ n" "(unat b + 1) * 256 ^ n \<le> (q + 1) * 58 ^ k"
  shows "length t = Suc k" "hd t = b58digits_ordered ! q"
proof -
  note r = text_length_range [OF assms(1-5)]
  then show l: "length t = Suc k" by simp
  note v = horner_256_bounds [OF assms(3), of b]
  have "bytes_val (b # bs) div 58 ^ k = q" using v assms(6,7) by (intro div_in_range) linarith+
  then show "hd t = b58digits_ordered ! q"
    using is_text_length(4) [OF assms(1) list.distinct(2), unfolded list.sel, OF assms(2)] l by simp
qed

text \<open>An address names its chain: the address of a public key on mainnet or testnet has exactly 34 characters, so
  it fits the 35 bytes callers provide, and its first character, D or n, makes \<open>chain_from_b58_prefix\<close> return the
  chain it was made for.\<close>

theorem address_names_chain:
  assumes "chain \<in> {chainparams_main, chainparams_test}" "35 \<le> length addrout"
  shows "\<exists>addr. pubkey_getaddr_p2pkh pk chain addrout = (True, addr) \<and> length (takeWhile (\<lambda>c. c \<noteq> 0) addr) = 34 \<and>
    length addr = length addrout \<and> chain_from_b58_prefix addr = Inr chain"
proof -
  let ?b = "b58prefix_pubkey_address chain"
  let ?data = "?b # pubkey_get_hash160 pk"
  let ?s = "pubkey_get_hash160 pk @ take 4 (dogecoin_dblhash ?data)"
  obtain t where t: "is_text (?data @ take 4 (dogecoin_dblhash ?data)) t" using text_exists by blast
  then have t': "is_text (?b # ?s) t" by simp
  have s: "length ?s = 24" by (simp add: pubkey_get_hash160_def)
  have f: "length t = 34 \<and> chain_from_b58_prefix (t @ r) = Inr chain" for r
  proof -
    consider (main) "chain = chainparams_main" "?b = 0x1e" | (test) "chain = chainparams_test" "?b = 0x71"
      using assms(1) by (auto simp: chainparams_main_def chainparams_test_def)
    then show ?thesis
    proof cases
      case main
      have "length t = Suc 33 \<and> hd t = b58digits_ordered ! 12"
        using text_first_char [OF t' _ s, of 33 12] main(2) by simp
      then show ?thesis by (cases t) (simp_all add: chain_from_b58_prefix_def b58digits_ordered_def main(1))
    next
      case test
      have "length t = Suc 33 \<and> hd t = b58digits_ordered ! 45"
        using text_first_char [OF t' _ s, of 33 45] test(2) by simp
      then show ?thesis by (cases t) (simp_all add: chain_from_b58_prefix_def b58digits_ordered_def test(1))
    qed
  qed
  have e: "base58_encode_check ?data addrout 100 = (35, t @ 0 # drop 35 addrout)"
    using encode_check_text [OF t] f by (simp add: blit_def pubkey_get_hash160_def)
  have "takeWhile (\<lambda>c. c \<noteq> 0) (t @ 0 # drop 35 addrout) = t" by (rule text_of_buffer [OF t])
  then show ?thesis using e f assms(2) by (simp add: pubkey_getaddr_p2pkh_def Let_def)
qed

theorem address_names_chain_witness:
  "\<exists>addr. pubkey_getaddr_p2pkh pubkey_init chainparams_main (replicate 35 0) = (True, addr) \<and>
    length (takeWhile (\<lambda>c. c \<noteq> 0) addr) = 34 \<and> length addr = 35 \<and> chain_from_b58_prefix addr = Inr chainparams_main"
  using address_names_chain [of chainparams_main "replicate 35 0" pubkey_init] by simp

section \<open>Key pairs\<close>

text \<open>What the documentation of the curve library promises: serialized points parse back; a secret key that verifies
  has a public key; the zero key does not verify and zeros are no point; adding a tweak to a secret key and to its
  public key agree.\<close>

definition curve_laws :: "('pk, 'sig, 'rsig) secp256k1 \<Rightarrow> bool" where
  "curve_laws sp \<longleftrightarrow>
     (\<forall>p. ec_pubkey_parse sp (ec_pubkey_serialize sp p True) = Some p \<and> length (ec_pubkey_serialize sp p True) = 33) \<and>
     (\<forall>k. seckey_verify sp k \<longrightarrow> length k = 32 \<and> ec_pubkey_create sp k \<noteq> None) \<and>
     (\<forall>k t k' p. seckey_tweak_add sp k t = (True, k') \<longrightarrow> ec_pubkey_create sp k = Some p \<longrightarrow>
        seckey_verify sp k' \<and> (\<exists>q. ec_pubkey_tweak_add sp p t = Some q \<and> ec_pubkey_create sp k' = Some q))"

definition secp_laws :: "('pk, 'sig, 'rsig) secp256k1 \<Rightarrow> bool" where
  "secp_laws sp \<longleftrightarrow> curve_laws sp \<and> \<not> seckey_verify sp (replicate 32 0) \<and> ec_pubkey_parse sp (replicate 65 0) = None"

text \<open>A signature made with a key verifies with its public key, its DER form has at most 72 bytes and parses back.\<close>

definition signature_laws :: "('pk, 'sig, 'rsig) secp256k1 \<Rightarrow> bool" where
  "signature_laws sp \<longleftrightarrow>
     (\<forall>h k p. seckey_verify sp k \<longrightarrow> length h = 32 \<longrightarrow> ec_pubkey_create sp k = Some p \<longrightarrow>
        (\<exists>s. ecdsa_sign sp h k = Some s \<and> ecdsa_verify sp s h p \<and> length (sig_serialize_der sp s) \<le> 72 \<and>
          sig_parse_der sp (sig_serialize_der sp s) = Some s))"

lemma curve_laws_key:
  assumes "curve_laws sp" "seckey_verify sp k"
  shows "length k = 32" "\<exists>p. ec_pubkey_create sp k = Some p"
  using assms by (auto simp: curve_laws_def)

lemma wif_first_char:
  assumes "length k = 32" "is_text ((b # k @ [1]) @ take 4 (dogecoin_dblhash (b # k @ [1]))) t"
  shows "b = 0x9e \<Longrightarrow> hd t = b58digits_ordered ! 23" "b = 0xf1 \<or> b = 0xef \<Longrightarrow> hd t = b58digits_ordered ! 35"
proof -
  let ?s = "k @ 1 # take 4 (dogecoin_dblhash (b # k @ [1]))"
  have t: "is_text (b # ?s) t" using assms(2) by simp
  have s: "length ?s = 37" using assms(1) by simp
  show "hd t = b58digits_ordered ! 23" if "b = 0x9e" using text_first_char(2) [OF t _ s, of 51 23] that by simp
  show "hd t = b58digits_ordered ! 35" if "b = 0xf1 \<or> b = 0xef" using text_first_char(2) [OF t _ s, of 51 35] that by auto
qed

lemma length_dogecoin_hash_32: "length (dogecoin_hash m) = 32"
  by (simp add: dogecoin_hash_def sha256_raw_spec)

lemma encoded_wif:
  assumes "chain \<in> {chainparams_main, chainparams_test, chainparams_regtest}" "length k = 32" "53 \<le> strsize"
    and "privkey_encode_wif k chain str strsize = (wif, strsize)"
  shows "\<exists>t zs. wif = t @ 0 # zs \<and> t \<noteq> [] \<and>
    is_text ((b58prefix_secret_address chain # k @ [1]) @ take 4 (dogecoin_dblhash (b58prefix_secret_address chain # k @ [1]))) t"
proof -
  let ?b = "b58prefix_secret_address chain"
  let ?data = "?b # k @ [1]"
  have b: "wif_prefix ?b" using assms(1) by (auto simp: wif_prefix_def chainparams_main_def chainparams_test_def chainparams_regtest_def)
  obtain t where t: "is_text (?data @ take 4 (dogecoin_dblhash ?data)) t" using text_exists by blast
  have l: "length t = 52" using wif_text(1) [OF b assms(2) t refl] .
  have "base58_encode_check ?data str strsize = (53, t @ 0 # drop 53 str)"
    using encode_check_text [OF t] assms(2,3) l by (simp add: blit_def)
  then have "wif = t @ 0 # drop 53 str" using assms(4) by (simp add: privkey_encode_wif_def Let_def)
  then show ?thesis using t l by (intro exI [of _ t] exI [of _ "drop 53 str"]) auto
qed

text \<open>C23. A key pair from the wallet import format: for a valid key on mainnet or testnet, and a source of randomness that
  fills the challenge, \<open>init_keypair\<close> finds the chain by the first character of the string, decodes the key, derives
  the compressed public key the curve library gives it, and its own signature check of the pair succeeds. None of its
  assertions fails.\<close>

theorem init_keypair_accepts_wif:
  assumes "chain \<in> {chainparams_main, chainparams_test}" "secp_laws sp" "signature_laws sp"
    and "seckey_verify sp k" "ec_pubkey_create sp k = Some p" "53 \<le> strsize"
    and "privkey_encode_wif k chain str strsize = (wif, strsize)" "random_bytes m e rnddata = ((True, challenge), e')"
  shows "init_keypair sp m e rnddata wif =
    Inr (True, k, \<lparr>pk_pubkey = ec_pubkey_serialize sp p True @ replicate 32 0, pk_compressed = True\<rparr>, e')"
proof -
  let ?b = "b58prefix_secret_address chain"
  have c: "chain \<in> {chainparams_main, chainparams_test, chainparams_regtest}" using assms(1) by blast
  have k: "length k = 32" using assms(2,4) by (simp add: secp_laws_def curve_laws_def)
  obtain t zs where t: "wif = t @ 0 # zs" "t \<noteq> []" "is_text ((?b # k @ [1]) @ take 4 (dogecoin_dblhash (?b # k @ [1]))) t"
    using encoded_wif [OF c k assms(6,7)] by blast
  have "chain_from_b58_prefix wif = Inr chain"
  proof (cases "chain = chainparams_main")
    case True
    then have "hd t = b58digits_ordered ! 23" using wif_first_char(1) [OF k t(3)] by (simp add: chainparams_main_def)
    then show ?thesis using True t(1,2) by (cases t) (simp_all add: chain_from_b58_prefix_def b58digits_ordered_def)
  next
    case False
    then have "chain = chainparams_test" using assms(1) by blast
    moreover have "hd t = b58digits_ordered ! 35"
      using wif_first_char(2) [OF k t(3)] calculation by (simp add: chainparams_test_def)
    ultimately show ?thesis using t(1,2) by (cases t) (simp_all add: chain_from_b58_prefix_def b58digits_ordered_def)
  qed
  moreover have "privkey_decode_wif (Some wif) chain privkey_init = Inr (True, k)"
    using wif_encodes [OF c k assms(6), of str privkey_init] assms(7) by auto
  moreover have "\<not> privkey_is_valid sp (Some privkey_init)" "\<not> pubkey_is_valid sp pubkey_init"
  proof -
    show "\<not> privkey_is_valid sp (Some privkey_init)"
      using assms(2) by (simp add: secp_laws_def privkey_is_valid_def privkey_init_def ecc_verify_privatekey_def)
    show "\<not> pubkey_is_valid sp pubkey_init"
      using assms(2) unfolding secp_laws_def pubkey_is_valid_def pubkey_init_def ecc_verify_pubkey_def by simp
  qed
  moreover have v: "privkey_is_valid sp (Some k)" using assms(4) by (simp add: privkey_is_valid_def ecc_verify_privatekey_def)
  moreover define pk where "pk = \<lparr>pk_pubkey = ec_pubkey_serialize sp p True @ replicate 32 (0 :: u8), pk_compressed = True\<rparr>"
  have s: "length (ec_pubkey_serialize sp p True) = 33" "ec_pubkey_parse sp (ec_pubkey_serialize sp p True) = Some p"
    using assms(2) by (simp_all add: secp_laws_def curve_laws_def)
  have "blit (blit (replicate 65 0) 0 (replicate 33 0)) 0 (ec_pubkey_serialize sp p True) = ec_pubkey_serialize sp p True @ replicate 32 0"
    unfolding blit_def s by simp
  then have "pubkey_from_key sp (Some k) (Some pubkey_init) = Inr (Some pk)"
    using assms(5) by (simp add: pubkey_from_key_def ecc_get_pubkey_def pubkey_init_def pk_def Let_def)
  moreover have "pubkey_is_valid sp pk" using s by (simp add: pubkey_is_valid_def ecc_verify_pubkey_def pk_def)
  moreover have "privkey_verify_pubkey sp m e rnddata k pk = (True, e')"
  proof -
    obtain sg where sg: "ecdsa_sign sp (dogecoin_hash challenge) k = Some sg" "ecdsa_verify sp sg (dogecoin_hash challenge) p"
      "length (sig_serialize_der sp sg) \<le> 72" "sig_parse_der sp (sig_serialize_der sp sg) = Some sg"
      using assms(3-5) length_dogecoin_hash_32 unfolding signature_laws_def by blast
    then show ?thesis using s
      by (simp add: privkey_verify_pubkey_def assms(8) key_sign_hash_def ecc_sign_def pubkey_verify_sig_def ecc_verify_sig_def pk_def)
  qed
  ultimately show ?thesis by (simp add: init_keypair_def Let_def pk_def)
qed

text \<open>A regtest key does not come back: its string starts with c, which names the testnet, whose prefix byte
  differs, so \<open>init_keypair\<close> rejects the string that \<open>privkey_encode_wif\<close> made.\<close>

theorem regtest_wif_rejected:
  assumes "length k = 32" "53 \<le> strsize" "privkey_encode_wif k chainparams_regtest str strsize = (wif, strsize)"
    and "\<not> seckey_verify sp (replicate 32 0)"
  shows "init_keypair sp m e rnddata wif = Inr (False, replicate 32 0, pubkey_init, e)"
proof -
  let ?b = "b58prefix_secret_address chainparams_regtest"
  let ?data = "?b # k @ [1]"
  obtain t zs where t: "wif = t @ 0 # zs" "t \<noteq> []" "is_text (?data @ take 4 (dogecoin_dblhash ?data)) t"
    using encoded_wif [OF _ assms(1-3)] by blast
  have b: "?b = 0xef" by (simp add: chainparams_regtest_def)
  have "hd t = b58digits_ordered ! 35" using wif_first_char(2) [OF assms(1) t(3)] b by simp
  then have c: "chain_from_b58_prefix wif = Inr chainparams_test"
    using t(1,2) by (cases t) (simp_all add: chain_from_b58_prefix_def b58digits_ordered_def)
  have l: "length t = 52" using wif_text(1) [OF _ assms(1) t(3) refl] b by (simp add: wif_prefix_def)
  have n: "\<exists>x \<in> set (?data @ take 4 (dogecoin_dblhash ?data)). x \<noteq> 0" using b by auto
  have "base58_decode_check wif (replicate (length t) 0) =
      Inr (length ?data + 4, (?data @ take 4 (dogecoin_dblhash ?data)) @ replicate (length t - (length ?data + 4)) 0)"
    unfolding t(1) using decode_check_text [OF t(3) _ _ _ n, of "replicate (length t) 0" zs] l assms(1) by simp
  then have "privkey_decode_wif (Some wif) chainparams_test privkey_init = Inr (False, privkey_init)"
    using l b text_of_buffer [OF t(3), of zs] by (simp add: privkey_decode_wif_def Let_def t(1) chainparams_test_def)
  then show ?thesis using c assms(4)
    by (simp add: init_keypair_def Let_def privkey_is_valid_def ecc_verify_privatekey_def privkey_init_def)
qed

section \<open>Generating a key\<close>

text \<open>The first \<open>n\<close> draws succeed and are no valid keys.\<close>

fun rejected_keys :: "('pk, 'sig, 'rsig) secp256k1 \<Rightarrow> 'e rnd_mapper \<Rightarrow> nat \<Rightarrow> 'e \<Rightarrow> bytes \<Rightarrow> bool" where
  "rejected_keys sp m 0 e k = True"
| "rejected_keys sp m (Suc n) e k =
     (case random_bytes m e k of ((res, k), e) \<Rightarrow> res \<and> \<not> seckey_verify sp k \<and> rejected_keys sp m n e k)"

lemma privkey_gen_valid:
  assumes "privkey_gen sp m e k = Some r"
  shows "fst r \<longrightarrow> seckey_verify sp (fst (snd r))"
proof (rule privkey_gen.raw_induct [where P = "\<lambda>sp m e k r. fst r \<longrightarrow> seckey_verify sp (fst (snd r))", OF _ assms])
  fix gen sp m e k r
  assume IH: "\<And>sp m e k r. gen sp m e k = Some r \<Longrightarrow> fst r \<longrightarrow> seckey_verify sp (fst (snd r))"
    and step: "(case random_bytes m e k of ((res, k), e) \<Rightarrow>
      if \<not> res then Some (False, k, e) else if ecc_verify_privatekey sp k then Some (True, k, e) else gen sp m e k) = Some r"
  obtain res k1 e1 where d: "random_bytes m e k = ((res, k1), e1)" by (metis surj_pair)
  show "fst r \<longrightarrow> seckey_verify sp (fst (snd r))"
    using step IH [of sp m e1 k1 r] by (auto simp: d ecc_verify_privatekey_def split: if_splits)
qed

lemma privkey_gen_returns: "\<not> rejected_keys sp m n e k \<Longrightarrow> \<exists>r. privkey_gen sp m e k = Some r"
proof (induction n arbitrary: e k)
  case (Suc n)
  obtain res k1 e1 where d: "random_bytes m e k = ((res, k1), e1)" by (metis surj_pair)
  then show ?case using Suc.IH [of e1 k1] Suc.prems
    by (subst privkey_gen.simps) (auto simp: ecc_verify_privatekey_def)
qed simp

lemma privkey_gen_rejects:
  assumes "privkey_gen sp m e k = Some r"
  shows "\<exists>n. \<not> rejected_keys sp m n e k"
proof (rule privkey_gen.raw_induct [where P = "\<lambda>sp m e k r. \<exists>n. \<not> rejected_keys sp m n e k", OF _ assms])
  fix gen sp m e k r
  assume IH: "\<And>sp m e k r. gen sp m e k = Some r \<Longrightarrow> \<exists>n. \<not> rejected_keys sp m n e k"
    and step: "(case random_bytes m e k of ((res, k), e) \<Rightarrow>
      if \<not> res then Some (False, k, e) else if ecc_verify_privatekey sp k then Some (True, k, e) else gen sp m e k) = Some r"
  obtain res k1 e1 where d: "random_bytes m e k = ((res, k1), e1)" by (metis surj_pair)
  show "\<exists>n. \<not> rejected_keys sp m n e k"
  proof (cases "res \<and> \<not> seckey_verify sp k1")
    case True
    then obtain n where "\<not> rejected_keys sp m n e1 k1" using step IH [of sp m e1 k1 r] by (auto simp: d ecc_verify_privatekey_def)
    then have "\<not> rejected_keys sp m (Suc n) e k" by (simp add: d)
    then show ?thesis ..
  next
    case False
    then have "\<not> rejected_keys sp m 1 e k" by (auto simp: d)
    then show ?thesis ..
  qed
qed

text \<open>Generating a key returns exactly when some draw is a valid key or fails, and a key it returns with
  success is valid.\<close>

theorem privkey_gen_correct:
  "((\<exists>r. privkey_gen sp m e k = Some r) \<longleftrightarrow> (\<exists>n. \<not> rejected_keys sp m n e k)) \<and>
    (\<forall>k' e'. privkey_gen sp m e k = Some (True, k', e') \<longrightarrow> seckey_verify sp k')"
  using privkey_gen_returns privkey_gen_rejects privkey_gen_valid by fastforce

section \<open>A small curve\<close>

text \<open>An instance of the laws: secret keys are numbers other than 0 of 32 bytes, the public key is the number, tweaks
  are added modulo 2 to the 256.\<close>

definition demo_verify :: "bytes \<Rightarrow> bool" where
  "demo_verify k \<longleftrightarrow> length k = 32 \<and> le_val k \<noteq> 0"

definition demo_secp :: "(256 word, 256 word, 256 word) secp256k1" where
  "demo_secp =
     \<lparr>seckey_verify = demo_verify,
      ec_pubkey_create = (\<lambda>k. if demo_verify k then Some (of_nat (le_val k)) else None),
      ec_pubkey_serialize = (\<lambda>p c. (if c then 2 else 4) # le_bytes 32 (unat p) @ (if c then [] else replicate 32 0)),
      ec_pubkey_parse = (\<lambda>b. if length b = 33 \<and> hd b = 2 then Some (of_nat (le_val (tl b))) else None),
      seckey_tweak_add = (\<lambda>k t. let s = (le_val k + le_val t) mod 2 ^ 256 in
        if demo_verify k \<and> s \<noteq> 0 then (True, le_bytes 32 s) else (False, replicate 32 0)),
      seckey_tweak_mul = (\<lambda>k t. (False, k)),
      ec_pubkey_tweak_add = (\<lambda>p t. let q = p + of_nat (le_val t) in if q = 0 then None else Some q),
      ec_pubkey_tweak_mul = (\<lambda>p t. None),
      ecdsa_sign = (\<lambda>h k. if demo_verify k then Some (of_nat (le_val k)) else None),
      sig_serialize_der = (\<lambda>s. le_bytes 32 (unat s)),
      sig_serialize_compact = (\<lambda>s. le_bytes 32 (unat s)),
      sig_parse_der = (\<lambda>b. Some (of_nat (le_val b))),
      sig_parse_compact = (\<lambda>b. Some (of_nat (le_val b))),
      sig_normalize = (\<lambda>s. s),
      ecdsa_verify = (\<lambda>s h p. s = p),
      sign_recoverable = (\<lambda>h k. None),
      recoverable_serialize = (\<lambda>s. ([], 0)),
      recoverable_parse = (\<lambda>b r. None),
      ecdsa_recover = (\<lambda>s h. None)\<rparr>"

lemma word_le_bytes: "of_nat (le_val (le_bytes 32 (unat w))) = (w :: 256 word)"
proof -
  have "unat w < 256 ^ 32" using unsigned_less [of w, where 'a = nat] by simp
  then show ?thesis by (simp only: le_val_le_bytes mod_less) simp
qed

lemma demo_secp_laws: "secp_laws demo_secp"
proof -
  have z: "\<not> demo_verify (replicate 32 0)" by (simp add: demo_verify_def le_val_replicate_0)
  have t: "demo_verify (le_bytes 32 s) \<and> (\<exists>q. (let q = of_nat (le_val k) + of_nat (le_val t) in if q = 0 then None else Some q) = Some q \<and>
      q = (of_nat (le_val (le_bytes 32 s)) :: 256 word))"
    if "s = (le_val k + le_val t) mod 2 ^ 256" "s \<noteq> 0" for k t s
  proof -
    have "s < 2 ^ 256" unfolding that(1) by (rule mod_less_divisor) simp
    then have s: "le_val (le_bytes 32 s) = s" by (simp only: le_val_le_bytes) simp
    have "(of_nat (le_val k) + of_nat (le_val t) :: 256 word) = of_nat (le_val k + le_val t)" by simp
    also have "\<dots> = of_nat s"
    proof -
      have "of_nat (x mod 2 ^ 256) = (of_nat x :: 256 word)" for x unfolding word_of_nat_eq_iff take_bit_eq_mod by simp
      then show ?thesis unfolding that(1) ..
    qed
    finally have e: "of_nat (le_val k) + of_nat (le_val t) = (of_nat s :: 256 word)" .
    have "unat (of_nat s :: 256 word) = s" using \<open>s < 2 ^ 256\<close> by (simp add: unat_of_nat)
    then have "(of_nat s :: 256 word) \<noteq> 0" using that(2) by (metis unsigned_0)
    then show ?thesis using that(2) s by (simp add: demo_verify_def e Let_def del: le_bytes_numeral)
  qed
  show ?thesis
    unfolding secp_laws_def curve_laws_def demo_secp_def using z t word_le_bytes
    by (auto simp: demo_verify_def Let_def split: if_splits simp del: le_bytes_numeral)
qed

lemma le_val_replicate_nonzero: "0 < n \<Longrightarrow> x \<noteq> 0 \<Longrightarrow> le_val (replicate n x) \<noteq> 0"
  by (cases n) (auto simp: unsigned_eq_0_iff)

lemma demo_signature_laws: "signature_laws demo_secp"
  unfolding signature_laws_def demo_secp_def using word_le_bytes by (simp del: le_bytes_numeral)

theorem init_keypair_accepts_wif_witness:
  "\<exists>wif pk. privkey_encode_wif (replicate 32 7) chainparams_main (replicate 53 0) 53 = (wif, 53) \<and>
    init_keypair demo_secp default_rnd_mapper (Some (replicate 32 1)) (replicate 32 0) wif =
      Inr (True, replicate 32 7, pk, Some (replicate 32 1))"
proof -
  obtain wif where w: "privkey_encode_wif (replicate 32 7) chainparams_main (replicate 53 0) 53 = (wif, 53)"
    using wif_encodes [of chainparams_main "replicate 32 7" 53] by auto
  have "le_val (replicate 32 7) \<noteq> 0" by (rule le_val_replicate_nonzero) simp_all
  then have v: "seckey_verify demo_secp (replicate 32 7)"
    by (simp only: demo_secp_def demo_verify_def secp256k1.simps length_replicate simp_thms)
  obtain p where p: "ec_pubkey_create demo_secp (replicate 32 7) = Some p"
    using curve_laws_key(2) [OF _ v] demo_secp_laws unfolding secp_laws_def by blast
  have r: "random_bytes default_rnd_mapper (Some (replicate 32 1)) (replicate 32 0) = ((True, replicate 32 1), Some (replicate 32 1))"
    by (simp add: default_rnd_mapper_def random_bytes_internal_def)
  show ?thesis
    using w init_keypair_accepts_wif [OF _ demo_secp_laws demo_signature_laws v p _ w r] by (simp del: replicate.simps)
qed

theorem regtest_wif_rejected_witness:
  "\<exists>wif. privkey_encode_wif (replicate 32 7) chainparams_regtest (replicate 53 0) 53 = (wif, 53) \<and>
    init_keypair demo_secp default_rnd_mapper None (replicate 32 0) wif = Inr (False, replicate 32 0, pubkey_init, None)"
proof -
  obtain wif where w: "privkey_encode_wif (replicate 32 7) chainparams_regtest (replicate 53 0) 53 = (wif, 53)"
    using wif_encodes [of chainparams_regtest "replicate 32 7" 53] by auto
  have "\<not> seckey_verify demo_secp (replicate 32 0)" using demo_secp_laws unfolding secp_laws_def by blast
  then show ?thesis using w regtest_wif_rejected [OF _ _ w] by simp
qed

end
