(* ===== verification/Spec2Isabelle.thy ===== *)
theory Spec2Isabelle
  imports Serialize CStr Vector Koinu Script Tx Arith256 Sha2 Hmac Merkle Scrypt Utils Block Btree HeadersDb Base58 SipHash Golomb Bip37 Protocol CompactBlock ChaCha20 FastRandom Rmd160 Gf256 Keys Bip32
begin

text \<open>
  Verification of libdogecoin, a C library for Dogecoin keys, transactions, blocks and the peer-to-peer
  protocol. The theories follow the C sources function by function: a C function is a HOL function of the same
  name (without the prefix \<open>dogecoin_\<close>) that takes the values its pointers lead to and returns what it returns
  together with what it writes.

  \<^bold>\<open>The program.\<close> Everything on the wire goes through the writers on a growable string (\<open>cstr.c\<close>, \<open>serialize.c\<close>)
  and the readers on a shrinking buffer. Transactions (\<open>tx.c\<close>, \<open>script.c\<close>) sit on these and on the vector of
  pointers (\<open>vector.c\<close>); block headers with their merged-mining proofs (\<open>block.c\<close>, \<open>auxpow.c\<close>, \<open>validation.c\<close>) add
  the merkle code, the 256-bit arithmetic of the target (\<open>arith_uint256.c\<close>, \<open>pow.c\<close>) and scrypt. The light
  client keeps headers in a tree with reorganisations (\<open>headersdb_file.c\<close>), exchanges messages (\<open>protocol.c\<close>,
  \<open>compact_block.c\<close>, \<open>bip37.c\<close>) and matches filters (\<open>golomb.c\<close>, SipHash). Keys are random numbers
  (\<open>random.c\<close>, \<open>chacha20.c\<close>), printed in Base58Check (\<open>base58.c\<close>, \<open>key.c\<close>) and derived from each other
  (\<open>bip32.c\<close>) with hashes (\<open>sha2.c\<close>, \<open>rmd160.c\<close>) and the curve library.

  \<^bold>\<open>Conventions\<close> (\<open>Prelude\<close>). \<open>u8\<close> to \<open>u64\<close> are words, so that sums wrap as in C; a signed integer is a word read with
  \<open>sint\<close> or an \<open>int\<close>. Memory blocks are byte lists of their length. \<open>c_outcome\<close> is a value or a fault
  (out of bounds, null pointer, failed assert, use after free), so that undefined behaviour is a result the
  lemmas exclude or exhibit; \<open>deser\<close> is a reader, \<open>None\<close> for the result 0. A loop that may not end is a
  \<open>partial_function\<close>, its result \<open>None\<close> when it does not.

  \<^bold>\<open>Bytes and containers.\<close>
  \<^item> \<open>Serialize\<close>: \<open>src/src/serialize.c\<close>. Every writer and reader; round trips, rejected inputs.
  \<^item> \<open>CStr\<close>: \<open>src/src/cstr.c\<close>, \<open>buffer.c\<close>, \<open>memcpy_safe\<close>. The block behind a string, its growth (the shift loop stops
    at 64) and its invariant; appending refines concatenation up to the point where the size wraps.
  \<^item> \<open>Vector\<close>: \<open>src/src/vector.c\<close>. Ownership of the elements by the destructor; the doubling loops may not end.
  \<^item> \<open>Btree\<close>: the search tree of \<open>utils.h\<close>, as a set for any lawful comparison.
  \<^item> \<open>Koinu\<close>, \<open>Utils\<close>: \<open>src/src/koinu.c\<close> and the conversions of \<open>utils.c\<close>; amounts, hexadecimal, base64.

  \<^bold>\<open>Transactions.\<close>
  \<^item> \<open>Script\<close>: \<open>src/src/script.c\<close>. Parsing inverts building, the classifiers agree, code separators disappear.
  \<^item> \<open>Tx\<close>: \<open>src/src/tx.c\<close>. Round trip of the wire format, what the signature hash commits to, signing.

  \<^bold>\<open>Hashes, arithmetic and random numbers.\<close>
  \<^item> \<open>Sha2\<close>, \<open>Hmac\<close>, \<open>Scrypt\<close>: \<open>src/src/sha2.c\<close>, \<open>scrypt.c\<close>. Streaming equals the standard's function of the whole message, the
    length counters included; HMAC, PBKDF2 and both scrypt functions are those of their RFCs.
  \<^item> \<open>Rmd160\<close>: \<open>src/src/rmd160.c\<close>. The 160 unrolled steps are the RIPEMD-160 of the standard.
  \<^item> \<open>Gf256\<close>: the field arithmetic of \<open>src/src/slip0039.c\<close>, an instance of the class \<open>field\<close>; interpolation gives the same
    values from any points of the polynomial.
  \<^item> \<open>SipHash\<close>: \<open>src/include/dogecoin/hash.h\<close>. Streaming by words and bytes, and the unrolled variant.
  \<^item> \<open>Arith256\<close>: \<open>src/src/arith_uint256.c\<close>, \<open>pow.c\<close>. The limb operations on numbers, the compact target, the proof of
    work and the work it adds.
  \<^item> \<open>ChaCha20\<close>, \<open>FastRandom\<close>: \<open>src/src/chacha20.c\<close>, \<open>random.c\<close>. The key stream and its position; draws stay in their
    bounds and the rejection loop ends exactly when some draw is small enough.
  \<^item> \<open>Base58\<close>: \<open>src/src/base58.c\<close>. The digit arrays are positional numerals; what the check accepts is what it prints.

  \<^bold>\<open>Blocks and headers.\<close>
  \<^item> \<open>Merkle\<close>: root, duplicate flag and branches of \<open>src/src/block.c\<close>, \<open>auxpow.c\<close>. The levels of a tree are at most 32,
    the size of the array \<open>inner\<close>; a use beyond it would be a fault and is shown not to occur.
  \<^item> \<open>Block\<close>: the headers of \<open>src/src/block.c\<close>, \<open>validation.c\<close>. Round trip; exactly which proofs are accepted.
  \<^item> \<open>HeadersDb\<close>: \<open>src/src/headersdb_file.c\<close> on an explicit heap of records. The invariant that the tree owns its records
    is kept by every operation; the walks to a common ancestor end (the fuel \<open>2 * next + 2\<close> exceeds the
    number of records, and the theorem of termination shows it is never used up).
  \<^item> \<open>Bip37\<close>, \<open>Golomb\<close>, \<open>Protocol\<close>, \<open>CompactBlock\<close>: the sources of these names. Partial merkle trees as the stack machine
    of the code (the height loop has 34 turns, one more than a 32-bit count needs), filters without false
    negatives, messages, and the reconstruction of a block from short identifiers.

  \<^bold>\<open>Keys.\<close>
  \<^item> \<open>Keys\<close>: \<open>src/src/ecc.c\<close>, \<open>key.c\<close>, the prefixes of \<open>chainparams.c\<close>. The wallet import format, addresses, key pairs. The
    functions of libsecp256k1 are the fields of a record; \<open>curve_laws\<close>, \<open>secp_laws\<close> and \<open>signature_laws\<close> state what its
    documentation promises, and small instances satisfy them.
  \<^item> \<open>Bip32\<close>: \<open>src/src/bip32.c\<close>. Derivation with and without the private key agrees along printed paths and through
    the string wrappers; extended keys read back; failures that the code does not report.

  \<^bold>\<open>Interfaces.\<close> A wire format satisfies \<open>codec\<close> (the reader returns what was written and leaves the rest) or
  \<open>tight_codec\<close> (it accepts nothing else); \<open>byte_sink\<close> is what the writers need of a string, \<open>owning_seq\<close> what
  clients need of a vector; \<open>stream_hash\<close> and its extension \<open>keyed_hash\<close> relate init, write and finalize to one
  function of the message; \<open>comparator\<close> is the order a search tree works with, \<open>c_compare\<close> the contract of a
  \<open>qsort\<close> comparison; \<open>numeral_base\<close> collects the facts on digits in one base. Each is interpreted on the
  functions of the code, in the theory that defines them, and the component theorems use those facts.

  \<^bold>\<open>Not modelled.\<close> Failing allocations, freeing and wiping memory where nothing depends on it; console and file
  I/O (reading the headers file, wallets and their log, the TESTING and Windows branches); the event-driven
  network code (\<open>net.c\<close>, \<open>spv.c\<close>, \<open>rest.c\<close>); SIMD and assembly variants of the hashes; mnemonics and their encryption
  (\<open>bip39.c\<close>, \<open>bip38.c\<close>, the rest of \<open>slip0039.c\<close>), which rest on word lists and vendored Unicode and AES code; the key-value
  maps of \<open>psbt.c\<close>; hardware key stores and experimental signature carriers; the vendored libevent,
  libsecp256k1, image and Unicode libraries; the command line tools.
\<close>

end
